(* ===== verification/Prelude.thy ===== *)
theory Prelude
  imports Main "HOL-Library.Word" "HOL-Library.Char_ord"
begin

text \<open>
  Shared ground of the development: the type synonyms of the byte-level data the server works on,
  the collections that carry the components' automation, and the facts on lists, characters and
  machine words that more than one component needs.

  A byte string of the source (\<^verbatim>\<open>AnsiString\<close>) is a \<open>string\<close>: a list of 8-bit characters, counted and
  not terminated, so that it may hold a NUL byte. Characters are compared with the order of
  \<open>HOL-Library.Char_ord\<close>, which is the order of the byte values; the source compares characters
  with ASCII bounds only, where that order and the order of a signed \<^verbatim>\<open>char\<close> agree.
\<close>

section \<open>Types and collections\<close>

type_synonym AnsiString = string
type_synonym byte = "8 word"

named_theorems bounds_simps \<open>facts that bound positions, lengths and counters\<close>
named_theorems char_ranges \<open>character classes as ranges of byte values\<close>

section \<open>Characters as numbers\<close>

abbreviation ord :: "char \<Rightarrow> nat" where
  "ord \<equiv> of_char"

lemma ord_le_255 [simp]: "ord c \<le> 255"
  using nat_of_char_less_256 [of c] by linarith

lemma le_char_iff [char_ranges]: "(c :: char) \<le> d \<longleftrightarrow> ord c \<le> ord d"
  by (simp add: less_eq_char_def)

lemma less_char_iff [char_ranges]: "(c :: char) < d \<longleftrightarrow> ord c < ord d"
  by (simp add: less_char_def)

lemma ord_char_of_small: "n < 256 \<Longrightarrow> ord (char_of n) = n"
  by simp

lemma char_eq_ord: "c = d \<longleftrightarrow> ord c = ord d"
  by simp

section \<open>Lists\<close>

lemma drop_eq_Cons_nth: "i < length xs \<Longrightarrow> drop i xs = xs ! i # drop (Suc i) xs"
  by (rule Cons_nth_drop_Suc [symmetric])

lemma take_Suc_snoc: "i < length xs \<Longrightarrow> take (Suc i) xs = take i xs @ [xs ! i]"
  by (rule take_Suc_conv_app_nth)

lemma list_length_4: "length xs = 4 \<Longrightarrow> \<exists>a b c d. xs = [a, b, c, d]"
  by (auto simp: numeral_eq_Suc length_Suc_conv)

text \<open>Joining with a separator: the specification side of every splitting loop of the source.\<close>

fun join :: "'a list \<Rightarrow> 'a list list \<Rightarrow> 'a list" where
  "join sep [] = []"
| "join sep [x] = x"
| "join sep (x # y # zs) = x @ sep @ join sep (y # zs)"

lemma join_Cons: "xs \<noteq> [] \<Longrightarrow> join sep (x # xs) = x @ sep @ join sep xs"
  by (cases xs) auto

lemma join_append:
  "xs \<noteq> [] \<Longrightarrow> ys \<noteq> [] \<Longrightarrow> join sep (xs @ ys) = join sep xs @ sep @ join sep ys"
  by (induction sep xs rule: join.induct) (auto simp: join_Cons)

lemma join_snoc: "xs \<noteq> [] \<Longrightarrow> join sep (xs @ [x]) = join sep xs @ sep @ x"
  by (simp add: join_append)

lemma set_part_join: "n \<in> set xs \<Longrightarrow> set n \<subseteq> set (join sep xs)"
  by (induction sep xs rule: join.induct) auto

lemma set_join_subset: "set (join sep xs) \<subseteq> set sep \<union> \<Union> (set ` set xs)"
  by (induction sep xs rule: join.induct) auto

end
