(* ===== verification/AnsiStrings.thy ===== *)
theory AnsiStrings
  imports Prelude
begin

text \<open>
  The operations of the server's byte string class (\<^verbatim>\<open>CStdStringA\<close> in Common/Util/StdString.h) that
  the modelled components use. A position that the source returns as an \<^verbatim>\<open>int\<close>, with -1 for
  ``not found'', is a \<open>nat option\<close> here. The range checks of \<^verbatim>\<open>Left\<close>, \<^verbatim>\<open>Mid\<close> and \<^verbatim>\<open>Right\<close> are those
  of \<open>take\<close> and \<open>drop\<close>, which stop at the end of the list. \<^verbatim>\<open>CompareNoCase\<close> works on the C strings
  of its arguments and so stops at the first NUL byte of either.
\<close>

section \<open>Substrings\<close>

definition Left :: "AnsiString \<Rightarrow> nat \<Rightarrow> AnsiString" where
  "Left s nCount = take (min nCount (length s)) s"

definition Mid_count :: "AnsiString \<Rightarrow> nat \<Rightarrow> nat \<Rightarrow> AnsiString" where
  "Mid_count s nFirst nCount =
     (let nSize = length s;
          nCount = (if nFirst + nCount > nSize then nSize - nFirst else nCount)
      in if nFirst > nSize then []
         else take nCount (drop nFirst s))"

definition Mid :: "AnsiString \<Rightarrow> nat \<Rightarrow> AnsiString" where
  "Mid s nFirst = Mid_count s nFirst (length s - nFirst)"

definition Right :: "AnsiString \<Rightarrow> nat \<Rightarrow> AnsiString" where
  "Right s nCount = drop (length s - min nCount (length s)) s"

section \<open>Searching\<close>

fun Find :: "AnsiString \<Rightarrow> char \<Rightarrow> nat option" where
  "Find [] ch = None"
| "Find (x # xs) ch = (if x = ch then Some 0 else map_option Suc (Find xs ch))"

fun Find_str :: "AnsiString \<Rightarrow> AnsiString \<Rightarrow> nat option" where
  "Find_str [] sub = (if sub = [] then Some 0 else None)"
| "Find_str (x # xs) sub =
     (if take (length sub) (x # xs) = sub then Some 0 else map_option Suc (Find_str xs sub))"

fun ReverseFind :: "AnsiString \<Rightarrow> char \<Rightarrow> nat option" where
  "ReverseFind [] ch = None"
| "ReverseFind (x # xs) ch =
     (case ReverseFind xs ch of
        Some i \<Rightarrow> Some (Suc i)
      | None \<Rightarrow> if x = ch then Some 0 else None)"

section \<open>Case insensitive comparison\<close>

text \<open>
  \<^verbatim>\<open>std::ctype<char>::tolower\<close> in the classic locale: the ASCII upper case letters and no other
  byte.
\<close>

definition tolower_classic :: "char \<Rightarrow> char" where
  "tolower_classic c = (if CHR ''A'' \<le> c \<and> c \<le> CHR ''Z'' then char_of (ord c + 32) else c)"

text \<open>
  \<^verbatim>\<open>ssicmp\<close> walks two NUL terminated strings while the folded characters agree and are not NUL, and
  returns the difference of the last two. Reading past the end of the list is reading the
  terminator.
\<close>

definition cstr_head :: "AnsiString \<Rightarrow> char" where
  "cstr_head s = (case s of [] \<Rightarrow> CHR 0x00 | c # _ \<Rightarrow> c)"

function ssicmp :: "AnsiString \<Rightarrow> AnsiString \<Rightarrow> int" where
  "ssicmp pA1 pA2 =
     (let f = tolower_classic (cstr_head pA1);
          l = tolower_classic (cstr_head pA2)
      in if f \<noteq> CHR 0x00 \<and> f = l then ssicmp (tl pA1) (tl pA2)
         else int (ord f) - int (ord l))"
  by pat_completeness auto
termination
  by (relation "measure (\<lambda>(a, b). length a)")
    (auto simp: cstr_head_def tolower_classic_def char_ranges split: list.splits if_splits)

declare ssicmp.simps [simp del]

definition CompareNoCase :: "AnsiString \<Rightarrow> AnsiString \<Rightarrow> int" where
  "CompareNoCase s szThat = ssicmp s szThat"

section \<open>Trimming, case and prefixes\<close>

text \<open>
  \<^verbatim>\<open>Find\<close> from a start position; the position returned is one of the whole string.
\<close>

definition Find_from :: "AnsiString \<Rightarrow> AnsiString \<Rightarrow> nat \<Rightarrow> nat option" where
  "Find_from s szSub nStart =
     (if nStart > length s then None else map_option (\<lambda>i. nStart + i) (Find_str (drop nStart s) szSub))"

text \<open>\<^verbatim>\<open>std::isspace\<close> in the classic locale.\<close>

definition isspace_classic :: "char \<Rightarrow> bool" where
  "isspace_classic c \<longleftrightarrow> c = CHR '' '' \<or> (CHR 0x09 \<le> c \<and> c \<le> CHR 0x0D)"

definition TrimLeft :: "AnsiString \<Rightarrow> AnsiString" where
  "TrimLeft s = dropWhile isspace_classic s"

definition TrimRight :: "AnsiString \<Rightarrow> AnsiString" where
  "TrimRight s = rev (dropWhile isspace_classic (rev s))"

definition Trim :: "AnsiString \<Rightarrow> AnsiString" where
  "Trim s = TrimRight (TrimLeft s)"

definition TrimLeft_chars :: "AnsiString \<Rightarrow> AnsiString \<Rightarrow> AnsiString" where
  "TrimLeft_chars s chars = dropWhile (\<lambda>c. c \<in> set chars) s"

definition TrimRight_chars :: "AnsiString \<Rightarrow> AnsiString \<Rightarrow> AnsiString" where
  "TrimRight_chars s szTrimChars = rev (dropWhile (\<lambda>c. c \<in> set szTrimChars) (rev s))"

text \<open>
  Lower casing works in the buffer of the string, whose length is then taken up to the first NUL.
\<close>

definition MakeLower :: "AnsiString \<Rightarrow> AnsiString" where
  "MakeLower s = takeWhile (\<lambda>c. c \<noteq> CHR 0x00) (map tolower_classic s)"

definition StartsWith :: "AnsiString \<Rightarrow> AnsiString \<Rightarrow> bool" where
  "StartsWith s szText \<longleftrightarrow> CompareNoCase (Left s (length szText)) szText = 0"

text \<open>\<^verbatim>\<open>Replace\<close> replaces from left to right and does not look at what it has put in.\<close>

function Replace :: "AnsiString \<Rightarrow> AnsiString \<Rightarrow> AnsiString \<Rightarrow> AnsiString" where
  "Replace s szOld szNew =
     (if szOld = [] \<or> s = [] then s
      else
        case Find_str s szOld of
          None \<Rightarrow> s
        | Some i \<Rightarrow> take i s @ szNew @ Replace (drop (i + length szOld) s) szOld szNew)"
  by pat_completeness auto
termination
  by (relation "measure (\<lambda>(s, old, new). length s)") auto

declare Replace.simps [simp del]

section \<open>Numbers\<close>

text \<open>
  The C library's \<^verbatim>\<open>%d\<close> and \<^verbatim>\<open>%u\<close> conversions, and \<^verbatim>\<open>_ttoi\<close>: white space, an optional sign, digits up to
  the first other character, and the nearest \<^verbatim>\<open>int\<close> when the value does not fit.
\<close>

fun print_unsigned :: "nat \<Rightarrow> AnsiString" where
  "print_unsigned n =
     (if n < 10 then [char_of (48 + n)] else print_unsigned (n div 10) @ [char_of (48 + n mod 10)])"

declare print_unsigned.simps [simp del]

definition print_signed :: "int \<Rightarrow> AnsiString" where
  "print_signed v = (if v < 0 then CHR ''-'' # print_unsigned (nat (- v)) else print_unsigned (nat v))"

definition isdigit_classic :: "char \<Rightarrow> bool" where
  "isdigit_classic c \<longleftrightarrow> CHR ''0'' \<le> c \<and> c \<le> CHR ''9''"

definition digits_value :: "AnsiString \<Rightarrow> int" where
  "digits_value ds = foldl (\<lambda>v c. v * 10 + (int (ord c) - 48)) 0 ds"

definition ttoi :: "AnsiString \<Rightarrow> int" where
  "ttoi s =
     (let s = TrimLeft s;
          (negative, s) =
            (case s of
               [] \<Rightarrow> (False, s)
             | c # cs \<Rightarrow> if c = CHR ''-'' then (True, cs) else if c = CHR ''+'' then (False, cs) else (False, s));
          v = digits_value (takeWhile isdigit_classic s);
          v = (if negative then - v else v)
      in max (- (2 ^ 31)) (min (2 ^ 31 - 1) v))"

section \<open>Facts on substrings and searching\<close>

lemma Left_eq [simp]: "Left s n = take n s"
  by (simp add: Left_def min_def)

lemma Mid_count_eq [simp]: "Mid_count s i n = take n (drop i s)"
  by (auto simp: Mid_count_def Let_def)

lemma Mid_eq [simp]: "Mid s i = drop i s"
  by (simp add: Mid_def)

lemma Right_eq [simp]: "Right s n = drop (length s - n) s"
  by (simp add: Right_def min_def)

lemma Find_None_iff [simp]: "Find s c = None \<longleftrightarrow> c \<notin> set s"
  by (induction s) auto

lemma Find_SomeD: "Find s c = Some i \<Longrightarrow> i < length s \<and> s ! i = c \<and> c \<notin> set (take i s)"
  by (induction s arbitrary: i) (auto split: if_splits simp: less_Suc_eq_0_disj)

lemma Find_append_hit: "c \<notin> set xs \<Longrightarrow> Find (xs @ c # ys) c = Some (length xs)"
  by (induction xs) auto

lemma ReverseFind_None_iff: "ReverseFind s c = None \<longleftrightarrow> c \<notin> set s"
  by (induction s) (auto split: option.splits)

lemma ReverseFind_miss [simp]: "c \<notin> set s \<Longrightarrow> ReverseFind s c = None"
  by (simp add: ReverseFind_None_iff)

lemma ReverseFind_SomeD:
  "ReverseFind s c = Some i \<Longrightarrow> i < length s \<and> s ! i = c \<and> c \<notin> set (drop (Suc i) s)"
proof (induction s arbitrary: i)
  case Nil
  then show ?case by simp
next
  case (Cons x xs)
  then show ?case
    by (cases "ReverseFind xs c") (auto split: if_splits simp: ReverseFind_None_iff)
qed

lemma ReverseFind_append_miss: "c \<notin> set ys \<Longrightarrow> ReverseFind (xs @ ys) c = ReverseFind xs c"
  by (induction xs) simp_all

lemma ReverseFind_append_hit: "c \<notin> set ys \<Longrightarrow> ReverseFind (xs @ c # ys) c = Some (length xs)"
  by (induction xs) simp_all

section \<open>Case folding\<close>

lemma tolower_classic_NUL [simp]: "tolower_classic c = CHR 0x00 \<longleftrightarrow> c = CHR 0x00"
proof (cases "CHR ''A'' \<le> c \<and> c \<le> CHR ''Z''")
  case True
  then have "ord c + 32 < 256" and "c \<noteq> CHR 0x00" by (auto simp: char_ranges)
  moreover have "ord (char_of (ord c + 32)) = ord c + 32"
    using \<open>ord c + 32 < 256\<close> by simp
  ultimately show ?thesis using True by (auto simp: tolower_classic_def char_eq_ord)
next
  case False
  then show ?thesis by (auto simp: tolower_classic_def)
qed

lemma ord_zero_iff: "ord c = 0 \<longleftrightarrow> c = CHR 0x00"
  using char_eq_ord [of c "CHR 0x00"] by simp

lemma ssicmp_Nil_Nil [simp]: "ssicmp [] [] = 0"
  by (subst ssicmp.simps) (simp add: cstr_head_def tolower_classic_def)

lemma ssicmp_Nil_Cons: "y \<noteq> CHR 0x00 \<Longrightarrow> ssicmp [] (y # ys) \<noteq> 0"
  by (subst ssicmp.simps)
    (simp add: cstr_head_def tolower_classic_NUL [THEN iffD2] ord_zero_iff)

lemma ssicmp_Cons_Nil: "x \<noteq> CHR 0x00 \<Longrightarrow> ssicmp (x # xs) [] \<noteq> 0"
  by (subst ssicmp.simps)
    (simp add: cstr_head_def tolower_classic_NUL [THEN iffD2] ord_zero_iff)

lemma ssicmp_Cons_Cons:
  "x \<noteq> CHR 0x00 \<Longrightarrow> ssicmp (x # xs) (y # ys) =
   (if tolower_classic x = tolower_classic y then ssicmp xs ys
    else int (ord (tolower_classic x)) - int (ord (tolower_classic y)))"
  by (subst ssicmp.simps) (simp add: cstr_head_def Let_def)

text \<open>
  On strings without NUL bytes the comparison is equality of the folded strings, which is what
  the parser of a record relies on after it has rejected every unprintable byte.
\<close>

lemma ssicmp_zero_iff:
  "CHR 0x00 \<notin> set a \<Longrightarrow> CHR 0x00 \<notin> set b \<Longrightarrow>
   ssicmp a b = 0 \<longleftrightarrow> map tolower_classic a = map tolower_classic b"
proof (induction a arbitrary: b)
  case Nil
  then show ?case by (cases b) (auto simp: ssicmp_Nil_Cons)
next
  case (Cons x xs)
  show ?case
  proof (cases b)
    case Nil
    with Cons.prems show ?thesis by (auto simp: ssicmp_Cons_Nil)
  next
    case (Cons y ys)
    with Cons.prems Cons.IH [of ys] show ?thesis
      by (auto simp: ssicmp_Cons_Cons split: if_splits)
  qed
qed

lemma CompareNoCase_zero_iff:
  "CHR 0x00 \<notin> set a \<Longrightarrow> CHR 0x00 \<notin> set b \<Longrightarrow>
   CompareNoCase a b = 0 \<longleftrightarrow> map tolower_classic a = map tolower_classic b"
  by (simp add: CompareNoCase_def ssicmp_zero_iff)

lemma tolower_tolower [simp]: "tolower_classic (tolower_classic c) = tolower_classic c"
  by (auto simp: tolower_classic_def char_ranges of_char_of)

lemma MakeLower_chars: "c \<in> set (MakeLower s) \<Longrightarrow> tolower_classic c = c \<and> c \<noteq> CHR 0x00"
  unfolding MakeLower_def by (drule set_takeWhileD) auto

lemma MakeLower_id:
  assumes "\<And>c. c \<in> set s \<Longrightarrow> tolower_classic c = c \<and> c \<noteq> CHR 0x00"
  shows "MakeLower s = s"
proof -
  have "map tolower_classic s = s" using assms by (intro map_idI) blast
  moreover have "takeWhile (\<lambda>c. c \<noteq> CHR 0x00) s = s" using assms by (simp add: takeWhile_eq_all_conv)
  ultimately show ?thesis by (simp only: MakeLower_def)
qed

lemma MakeLower_idem [simp]: "MakeLower (MakeLower s) = MakeLower s"
  by (rule MakeLower_id) (rule MakeLower_chars)

section \<open>Replacing\<close>

lemma Replace_Nil [simp]: "Replace [] old new = []"
  by (simp add: Replace.simps)

lemma Find_str_Nil_None: "old \<noteq> [] \<Longrightarrow> Find_str [] old = None"
  by simp

text \<open>\<^verbatim>\<open>Replace\<close>, one character at a time.\<close>

lemma Replace_Cons:
  assumes "old \<noteq> []"
  shows "Replace (x # xs) old new =
     (if take (length old) (x # xs) = old then new @ Replace (drop (length old) (x # xs)) old new
      else x # Replace xs old new)"
proof (cases "take (length old) (x # xs) = old")
  case True
  with assms show ?thesis by (subst Replace.simps) simp
next
  case False
  show ?thesis
  proof (cases "Find_str xs old")
    case None
    with False assms show ?thesis by (simp add: Replace.simps [of "x # xs"] Replace.simps [of xs])
  next
    case (Some i)
    with assms have "xs \<noteq> []" by auto
    with False assms Some show ?thesis by (simp add: Replace.simps [of "x # xs"] Replace.simps [of xs])
  qed
qed

lemma Replace_skip:
  "c \<notin> set xs \<Longrightarrow> Replace (xs @ ys) (c # old) new = xs @ Replace ys (c # old) new"
  by (induction xs) (auto simp: Replace_Cons)

lemma Replace_hit:
  "old \<noteq> [] \<Longrightarrow> Replace (old @ ys) old new = new @ Replace ys old new"
  by (cases old) (auto simp: Replace_Cons)

lemma Replace_absent: "c \<notin> set s \<Longrightarrow> Replace s (c # old) new = s"
  using Replace_skip [of c s "[]"] by simp

lemma Replace_single: "Replace s [c] new = concat (map (\<lambda>x. if x = c then new else [x]) s)"
  by (induction s) (auto simp: Replace_Cons)

section \<open>Trimming\<close>

lemma Trim_cases: "\<exists>l r. s = l @ Trim s @ r \<and> list_all isspace_classic l \<and> list_all isspace_classic r"
proof -
  have left: "s = takeWhile isspace_classic s @ TrimLeft s" by (simp add: TrimLeft_def)
  have right: "t = TrimRight t @ rev (takeWhile isspace_classic (rev t))" for t
    using takeWhile_dropWhile_id [of isspace_classic "rev t"]
    by (metis TrimRight_def rev_append rev_rev_ident)
  have ws: "list_all isspace_classic (takeWhile isspace_classic t)" for t
    by (simp add: list_all_iff) (meson set_takeWhileD)
  show ?thesis
    using left right [of "TrimLeft s"] ws [of s] ws [of "rev (TrimLeft s)"] unfolding Trim_def
    by (metis list_all_rev)
qed

lemma Trim_unspaced:
  assumes "s = [] \<or> \<not> isspace_classic (hd s) \<and> \<not> isspace_classic (last s)"
  shows "Trim s = s"
proof -
  have "TrimLeft s = s" using assms by (cases s) (auto simp: TrimLeft_def)
  moreover have "TrimRight s = s" using assms by (cases s rule: rev_cases) (auto simp: TrimRight_def)
  ultimately show ?thesis by (simp add: Trim_def)
qed

lemma set_Trim: "set (Trim s) \<subseteq> set s"
  using Trim_cases [of s] by (metis Un_iff set_append subsetI)

lemma Trim_Trim [simp]: "Trim (Trim s) = Trim s"
proof (rule Trim_unspaced)
  show "Trim s = [] \<or> \<not> isspace_classic (hd (Trim s)) \<and> \<not> isspace_classic (last (Trim s))"
  proof (cases "Trim s")
    case Nil
    then show ?thesis ..
  next
    case (Cons a as)
    have "last (Trim s) = hd (dropWhile isspace_classic (rev (TrimLeft s)))"
      by (simp add: Trim_def TrimRight_def last_rev)
    moreover have "dropWhile isspace_classic (rev (TrimLeft s)) \<noteq> []"
      using Cons by (auto simp: Trim_def TrimRight_def)
    ultimately have "\<not> isspace_classic (last (Trim s))" using hd_dropWhile by metis
    moreover have "hd (Trim s) = hd (TrimLeft s)" "TrimLeft s \<noteq> []"
      using Cons dropWhile_eq_Nil_conv takeWhile_dropWhile_id [of isspace_classic "rev (TrimLeft s)"]
      by (metis Trim_def TrimRight_def append_is_Nil_conv hd_append2 list.distinct(1) rev_append rev_rev_ident)
        (use Cons in \<open>auto simp: Trim_def TrimRight_def\<close>)
    then have "\<not> isspace_classic (hd (Trim s))" using hd_dropWhile by (metis TrimLeft_def)
    ultimately show ?thesis by blast
  qed
qed

lemma digits_value_snoc: "digits_value (ds @ [c]) = digits_value ds * 10 + (int (ord c) - 48)"
  by (simp add: digits_value_def)

end
