(* ===== verification/SPF_Syntax.thy ===== *)
theory SPF_Syntax
  imports AnsiStrings
begin

text \<open>
  The grammar of an SPF record, SMTP/SPF/SPFSyntax.h and SPFSyntax.cpp: the character classes, the
  one reader of a macro expansion that the parser and the expander share, the validity of macro
  strings and domain specifications, address literals and prefix lengths, and the comparison of
  DNS names. Positions are \<open>nat\<close>; the source's \<^verbatim>\<open>int\<close> positions are never negative. A loop over an
  index is a recursion over that index.
\<close>

section \<open>Character classes\<close>

definition IsDigit :: "char \<Rightarrow> bool" where
  "IsDigit c \<longleftrightarrow> c \<ge> CHR ''0'' \<and> c \<le> CHR ''9''"

definition IsAlpha :: "char \<Rightarrow> bool" where
  "IsAlpha c \<longleftrightarrow> (c \<ge> CHR ''a'' \<and> c \<le> CHR ''z'') \<or> (c \<ge> CHR ''A'' \<and> c \<le> CHR ''Z'')"

definition IsAlphaNumeric :: "char \<Rightarrow> bool" where
  "IsAlphaNumeric c \<longleftrightarrow> IsAlpha c \<or> IsDigit c"

definition IsHexDigit :: "char \<Rightarrow> bool" where
  "IsHexDigit c \<longleftrightarrow>
     IsDigit c \<or> (c \<ge> CHR ''a'' \<and> c \<le> CHR ''f'') \<or> (c \<ge> CHR ''A'' \<and> c \<le> CHR ''F'')"

definition ToLowerAscii :: "char \<Rightarrow> char" where
  "ToLowerAscii c =
     (if c \<ge> CHR ''A'' \<and> c \<le> CHR ''Z'' then char_of (ord c - ord CHR ''A'' + ord CHR ''a'') else c)"

text \<open>The value of a decimal digit, \<^verbatim>\<open>text[i] - '0'\<close>, which the source takes of digits only.\<close>

definition DigitValue :: "char \<Rightarrow> nat" where
  "DigitValue c = ord c - ord CHR ''0''"

text \<open>The loop \<^verbatim>\<open>value = value * 10 + (text[i] - '0')\<close> over a whole string.\<close>

definition DecimalValue :: "AnsiString \<Rightarrow> nat" where
  "DecimalValue text = foldl (\<lambda>value c. value * 10 + DigitValue c) 0 text"

datatype MacroSet = RecordTerm | ExplanationText

definition IsMacroLiteral :: "char \<Rightarrow> MacroSet \<Rightarrow> bool" where
  "IsMacroLiteral c macros =
     (if c = CHR '' '' then macros = ExplanationText
      else (ord c \<ge> 0x21 \<and> ord c \<le> 0x24) \<or> (ord c \<ge> 0x26 \<and> ord c \<le> 0x7E))"

definition IsMacroDelimiter :: "char \<Rightarrow> bool" where
  "IsMacroDelimiter c \<longleftrightarrow>
     c = CHR ''.'' \<or> c = CHR ''-'' \<or> c = CHR ''+'' \<or>
     c = CHR '','' \<or> c = CHR ''/'' \<or> c = CHR ''_'' \<or>
     c = CHR ''=''"

definition IsMacroLetter :: "char \<Rightarrow> MacroSet \<Rightarrow> bool" where
  "IsMacroLetter c macros =
     (let l = ToLowerAscii c
      in if l \<in> set ''slodiphv'' then True
         else if l \<in> set ''crt'' then macros = ExplanationText
         else False)"

section \<open>Labels, octets and groups\<close>

text \<open>
  \<^verbatim>\<open>IsTopLabel\<close> scans the label once, recording whether it saw a letter and whether it saw a
  hyphen; any other character that is not a digit ends the scan with a refusal.
\<close>

fun TopLabelScan :: "AnsiString \<Rightarrow> bool \<Rightarrow> bool \<Rightarrow> (bool \<times> bool) option" where
  "TopLabelScan [] hasAlpha hasHyphen = Some (hasAlpha, hasHyphen)"
| "TopLabelScan (c # cs) hasAlpha hasHyphen =
     (if IsAlpha c then TopLabelScan cs True hasHyphen
      else if c = CHR ''-'' then TopLabelScan cs hasAlpha True
      else if \<not> IsDigit c then None
      else TopLabelScan cs hasAlpha hasHyphen)"

definition IsTopLabel :: "AnsiString \<Rightarrow> bool" where
  "IsTopLabel label =
     (if length label = 0 then False
      else case TopLabelScan label False False of
        None \<Rightarrow> False
      | Some (hasAlpha, hasHyphen) \<Rightarrow>
          if hasAlpha \<and> \<not> hasHyphen then True
          else if hasHyphen \<and> label ! 0 \<noteq> CHR ''-'' \<and> label ! (length label - 1) \<noteq> CHR ''-''
          then True
          else False)"

definition IsOctet :: "AnsiString \<Rightarrow> bool" where
  "IsOctet text =
     (if length text < 1 \<or> length text > 3 then False
      else if \<not> list_all IsDigit text then False
      else if length text > 1 \<and> text ! 0 = CHR ''0'' then False
      else DecimalValue text \<le> 255)"

definition IsHexGroup :: "AnsiString \<Rightarrow> bool" where
  "IsHexGroup text =
     (if length text < 1 \<or> length text > 4 then False else list_all IsHexDigit text)"

text \<open>The loop of \<^verbatim>\<open>Split\<close>: the part being read, and the parts already complete.\<close>

fun SplitLoop :: "AnsiString \<Rightarrow> char \<Rightarrow> AnsiString \<Rightarrow> AnsiString list \<Rightarrow> AnsiString list" where
  "SplitLoop [] separator current parts = parts @ [current]"
| "SplitLoop (c # cs) separator current parts =
     (if c = separator then SplitLoop cs separator [] (parts @ [current])
      else SplitLoop cs separator (current @ [c]) parts)"

definition Split :: "AnsiString \<Rightarrow> char \<Rightarrow> AnsiString list" where
  "Split text separator = SplitLoop text separator [] []"

definition IsAsciiPrintable :: "AnsiString \<Rightarrow> bool" where
  "IsAsciiPrintable text = list_all (\<lambda>c. \<not> (ord c < 0x20 \<or> ord c > 0x7E)) text"

section \<open>Macro expansions\<close>

record Macro =
  is_literal :: bool
  literal :: char
  letter :: char
  digits :: nat
  reverse :: bool
  delimiters :: AnsiString
  macro_end :: nat

definition maximumDigits :: nat where
  "maximumDigits = 256"

function ReadDigits :: "AnsiString \<Rightarrow> nat \<Rightarrow> nat \<Rightarrow> nat \<times> nat" where
  "ReadDigits text pos d =
     (if pos < length text \<and> IsDigit (text ! pos) then
        let d1 = (if d < maximumDigits then d * 10 + DigitValue (text ! pos) else d);
            d2 = (if d1 > maximumDigits then maximumDigits else d1)
        in ReadDigits text (pos + 1) d2
      else (d, pos))"
  by pat_completeness auto
termination
  by (relation "measure (\<lambda>(text, pos, d). length text - pos)") auto

function SkipDelimiters :: "AnsiString \<Rightarrow> nat \<Rightarrow> nat" where
  "SkipDelimiters text pos =
     (if pos < length text \<and> IsMacroDelimiter (text ! pos) then SkipDelimiters text (pos + 1)
      else pos)"
  by pat_completeness auto
termination
  by (relation "measure (\<lambda>(text, pos). length text - pos)") auto

declare ReadDigits.simps [simp del] SkipDelimiters.simps [simp del]

definition ReadReverse :: "AnsiString \<Rightarrow> nat \<Rightarrow> bool \<times> nat" where
  "ReadReverse text pos =
     (if pos < length text \<and> ToLowerAscii (text ! pos) = CHR ''r'' then (True, pos + 1)
      else (False, pos))"

text \<open>
  \<^verbatim>\<open>TryReadMacro\<close>: \<open>None\<close> is the source's false. The source leaves the \<open>end\<close> of the macro at the
  starting position when it fails; the one caller that ignores the result is modelled below.
  \<open>ReadMacroBody\<close> is the part after the opening brace.
\<close>

definition ReadMacroBody :: "AnsiString \<Rightarrow> nat \<Rightarrow> MacroSet \<Rightarrow> Macro option" where
  "ReadMacroBody text pos macros =
     (if pos \<ge> length text \<or> \<not> IsMacroLetter (text ! pos) macros then None
      else
        let l = text ! pos;
            (d, pos) = ReadDigits text (pos + 1) 0;
            (r, pos) = ReadReverse text pos;
            delimitersAt = pos;
            pos = SkipDelimiters text pos;
            ds = Mid_count text delimitersAt (pos - delimitersAt)
        in if pos \<ge> length text \<or> text ! pos \<noteq> CHR ''}'' then None
           else Some \<lparr> is_literal = False, literal = CHR 0x00, letter = l, digits = d,
                       reverse = r, delimiters = ds, macro_end = pos + 1 \<rparr>)"

definition TryReadMacro :: "AnsiString \<Rightarrow> nat \<Rightarrow> MacroSet \<Rightarrow> Macro option" where
  "TryReadMacro text position macros =
     (if position \<ge> length text \<or> text ! position \<noteq> CHR ''%'' then None
      else if position + 1 \<ge> length text then None
      else
        let next = text ! (position + 1)
        in if next = CHR ''%'' \<or> next = CHR ''_'' \<or> next = CHR ''-'' then
             Some \<lparr> is_literal = True, literal = next, letter = CHR 0x00, digits = 0,
                    reverse = False, delimiters = [], macro_end = position + 2 \<rparr>
           else if next \<noteq> CHR ''{'' then None
           else ReadMacroBody text (position + 2) macros)"

lemma ReadDigits_bounds [bounds_simps]:
  "ReadDigits t pos d = (d', pos') \<Longrightarrow> pos \<le> pos' \<and> (pos \<le> length t \<longrightarrow> pos' \<le> length t)"
proof (induction t pos d rule: ReadDigits.induct)
  case (1 t pos d)
  show ?case
  proof (cases "pos < length t \<and> IsDigit (t ! pos)")
    case True
    with "1.prems" show ?thesis
      using "1.IH" [OF True refl refl] by (simp add: ReadDigits.simps [of t pos] Let_def)
  next
    case False
    with "1.prems" show ?thesis by (auto simp: ReadDigits.simps [of t pos])
  qed
qed

lemma SkipDelimiters_bounds [bounds_simps]:
  "pos \<le> SkipDelimiters t pos \<and> (pos \<le> length t \<longrightarrow> SkipDelimiters t pos \<le> length t)"
proof (induction t pos rule: SkipDelimiters.induct)
  case (1 t pos)
  show ?case
  proof (cases "pos < length t \<and> IsMacroDelimiter (t ! pos)")
    case True
    with "1.IH" [OF True] show ?thesis by (simp add: SkipDelimiters.simps [of t pos])
  next
    case False
    then show ?thesis by (auto simp: SkipDelimiters.simps [of t pos])
  qed
qed

lemma ReadMacroBody_SomeE:
  assumes "ReadMacroBody t pos macros = Some m"
  obtains d q r q' q'' where "pos < length t" "IsMacroLetter (t ! pos) macros"
    "ReadDigits t (pos + 1) 0 = (d, q)" "ReadReverse t q = (r, q')" "SkipDelimiters t q' = q''"
    "q'' < length t" "t ! q'' = CHR ''}''"
    "m = \<lparr> is_literal = False, literal = CHR 0x00, letter = t ! pos, digits = d,
           reverse = r, delimiters = take (q'' - q') (drop q' t), macro_end = q'' + 1 \<rparr>"
proof -
  obtain d q where 1: "ReadDigits t (pos + 1) 0 = (d, q)" by fastforce
  obtain r q' where 2: "ReadReverse t q = (r, q')" by fastforce
  from assms 1 2 that [OF _ _ 1 2 refl] show thesis
    by (simp add: ReadMacroBody_def Let_def split: if_splits)
qed

lemma ReadMacroBody_bounds:
  assumes "ReadMacroBody t pos macros = Some m"
  shows "pos < macro_end m \<and> macro_end m \<le> length t"
  using assms
proof (rule ReadMacroBody_SomeE)
  fix d q r q' q''
  assume *: "pos < length t" "ReadDigits t (pos + 1) 0 = (d, q)" "ReadReverse t q = (r, q')"
    "SkipDelimiters t q' = q''" "q'' < length t"
    "m = \<lparr> is_literal = False, literal = CHR 0x00, letter = t ! pos, digits = d,
           reverse = r, delimiters = take (q'' - q') (drop q' t), macro_end = q'' + 1 \<rparr>"
  have "pos < q" using ReadDigits_bounds [OF *(2)] by simp
  moreover have "q \<le> q'" using *(3) by (auto simp: ReadReverse_def split: if_splits)
  moreover have "q' \<le> q''" using SkipDelimiters_bounds [of q' t] *(4) by simp
  ultimately show ?thesis using * by simp
qed

lemma TryReadMacro_cases:
  assumes "TryReadMacro t position macros = Some m"
  shows "position + 1 < length t \<and> t ! position = CHR ''%'' \<and>
    (is_literal m \<and> literal m = t ! (position + 1) \<and> macro_end m = position + 2 \<and>
       digits m = 0 \<and> t ! (position + 1) \<in> {CHR ''%'', CHR ''_'', CHR ''-''} \<or>
     t ! (position + 1) = CHR ''{'' \<and> ReadMacroBody t (position + 2) macros = Some m)"
  using assms by (auto simp: TryReadMacro_def Let_def split: if_splits)

lemma TryReadMacro_bounds [bounds_simps]:
  "TryReadMacro t position macros = Some m \<Longrightarrow>
   position + 2 \<le> macro_end m \<and> macro_end m \<le> length t \<and> t ! position = CHR ''%''"
  using ReadMacroBody_bounds [of t "position + 2" macros m]
  by (auto dest!: TryReadMacro_cases)

section \<open>Macro strings and domain specifications\<close>

function IsValidMacroString_from :: "AnsiString \<Rightarrow> MacroSet \<Rightarrow> nat \<Rightarrow> bool" where
  "IsValidMacroString_from text macros pos =
     (if pos < length text then
        if text ! pos = CHR ''%'' then
          (case TryReadMacro text pos macros of
             None \<Rightarrow> False
           | Some macro \<Rightarrow> IsValidMacroString_from text macros (macro_end macro))
        else if \<not> IsMacroLiteral (text ! pos) macros then False
        else IsValidMacroString_from text macros (pos + 1)
      else True)"
  by pat_completeness auto
termination
  by (relation "measure (\<lambda>(text, macros, pos). length text - pos)")
    (auto dest: TryReadMacro_bounds)

declare IsValidMacroString_from.simps [simp del]

definition IsValidMacroString :: "AnsiString \<Rightarrow> MacroSet \<Rightarrow> bool" where
  "IsValidMacroString text macros = IsValidMacroString_from text macros 0"

text \<open>
  The second walk of \<^verbatim>\<open>IsValidDomainSpec\<close> ignores the result of the macro reader. Were a read to fail,
  the source would set its position to the unchanged \<open>end\<close> of the macro and never advance, so the
  walk is partial here: \<open>None\<close> is a walk that does not return. \<open>LastExpansionEnd_returns\<close> below shows
  that it does return on every string the first walk has accepted. The inner option is the source's
  -1, no expansion seen.
\<close>

partial_function (option) LastExpansionEnd :: "AnsiString \<Rightarrow> nat \<Rightarrow> nat option \<Rightarrow> nat option option"
  where
  "LastExpansionEnd text pos lastExpansionEnd =
     (if pos < length text then
        if text ! pos = CHR ''%'' then
          (case TryReadMacro text pos RecordTerm of
             None \<Rightarrow> LastExpansionEnd text pos (Some pos)
           | Some macro \<Rightarrow> LastExpansionEnd text (macro_end macro) (Some (macro_end macro)))
        else LastExpansionEnd text (pos + 1) lastExpansionEnd
      else Some lastExpansionEnd)"

declare LastExpansionEnd.simps [code]

definition IsValidDomainSpec :: "AnsiString \<Rightarrow> bool" where
  "IsValidDomainSpec text =
     (if text = [] then False
      else if \<not> IsValidMacroString text RecordTerm then False
      else case LastExpansionEnd text 0 None of
        None \<Rightarrow> False
      | Some lastExpansionEnd \<Rightarrow>
          if lastExpansionEnd = Some (length text) then True
          else
            let name = (if text ! (length text - 1) = CHR ''.''
                        then Left text (length text - 1) else text)
            in case ReverseFind name CHR ''.'' of
                 None \<Rightarrow> False
               | Some lastDot \<Rightarrow> IsTopLabel (Mid name (lastDot + 1)))"

section \<open>Address literals and prefix lengths\<close>

definition IsValidIP4Network :: "AnsiString \<Rightarrow> bool" where
  "IsValidIP4Network text =
     (let octets = Split text CHR ''.''
      in if length octets \<noteq> 4 then False else list_all IsOctet octets)"

text \<open>
  The loop over the written groups of an IPv6 literal: the count of 16-bit groups they stand for,
  or \<open>None\<close> when one of them is refused. A dotted quad counts two and may only come last.
\<close>

fun CountIP6Groups :: "AnsiString list \<Rightarrow> nat \<Rightarrow> nat option" where
  "CountIP6Groups [] written = Some written"
| "CountIP6Groups (g # gs) written =
     (if gs = [] \<and> Find g CHR ''.'' \<noteq> None then
        if \<not> IsValidIP4Network g then None else CountIP6Groups gs (written + 2)
      else if \<not> IsHexGroup g then None
      else CountIP6Groups gs (written + 1))"

definition IsValidIP6Network :: "AnsiString \<Rightarrow> bool" where
  "IsValidIP6Network text =
     (let (beforeText, after, compressed) =
            (case Find_str text ''::'' of
               None \<Rightarrow> (text, [], False)
             | Some doubleColon \<Rightarrow> (Left text doubleColon, Mid text (doubleColon + 2), True))
      in if compressed \<and> Find_str after ''::'' \<noteq> None then False
         else
           let groups = (if beforeText \<noteq> [] then Split beforeText CHR '':'' else []) @
                        (if after \<noteq> [] then Split after CHR '':'' else [])
           in case CountIP6Groups groups 0 of
                None \<Rightarrow> False
              | Some written \<Rightarrow> if compressed then written \<le> 7 else written = 8)"

definition TryParsePrefixLength :: "AnsiString \<Rightarrow> nat \<Rightarrow> nat option" where
  "TryParsePrefixLength text maximumLength =
     (if text = [] then None
      else if \<not> list_all IsDigit text then None
      else if length text > 1 \<and> text ! 0 = CHR ''0'' then None
      else if length text > 3 then None
      else
        let value = DecimalValue text
        in if value > maximumLength then None else Some value)"

section \<open>DNS names\<close>

definition IsValidDomainName :: "AnsiString \<Rightarrow> bool" where
  "IsValidDomainName text =
     (if text = [] then False
      else if length text > 253 then False
      else
        let name = (if text ! (length text - 1) = CHR ''.''
                    then Left text (length text - 1) else text)
        in if name = [] then False
           else
             let labels = Split name CHR ''.''
             in if length labels < 2 then False
                else list_all (\<lambda>label. \<not> (label = [] \<or> length label > 63)) labels)"

definition EqualsDnsName :: "AnsiString \<Rightarrow> AnsiString \<Rightarrow> bool" where
  "EqualsDnsName left right =
     (if length left \<noteq> length right then False
      else list_all2 (\<lambda>l r. ToLowerAscii l = ToLowerAscii r) left right)"

definition EndsWithDnsName :: "AnsiString \<Rightarrow> AnsiString \<Rightarrow> bool" where
  "EndsWithDnsName name suffix =
     (if length name < length suffix then False
      else EqualsDnsName (Right name (length suffix)) suffix)"

definition IsValidModifierName :: "AnsiString \<Rightarrow> bool" where
  "IsValidModifierName text =
     (case text of
        [] \<Rightarrow> False
      | c # cs \<Rightarrow>
          if \<not> IsAlpha c then False
          else list_all (\<lambda>c. \<not> (\<not> IsAlphaNumeric c \<and> c \<noteq> CHR ''-'' \<and> c \<noteq> CHR ''_'' \<and> c \<noteq> CHR ''.'')) cs)"

section \<open>Facts: character classes\<close>

lemmas char_class_defs =
  IsDigit_def IsAlpha_def IsAlphaNumeric_def IsHexDigit_def

lemma ToLowerAscii_eq_tolower_classic: "ToLowerAscii = tolower_classic"
proof
  fix c
  show "ToLowerAscii c = tolower_classic c"
  proof (cases "CHR ''A'' \<le> c \<and> c \<le> CHR ''Z''")
    case True
    then have "65 \<le> ord c" by (simp add: char_ranges)
    then have "ord c - 65 + 97 = ord c + 32" by simp
    with True show ?thesis by (simp add: ToLowerAscii_def tolower_classic_def add.commute)
  next
    case False
    then show ?thesis unfolding ToLowerAscii_def tolower_classic_def by (simp only: if_False)
  qed
qed

lemma IsDigit_DigitValue: "IsDigit c \<Longrightarrow> DigitValue c \<le> 9"
  by (simp add: IsDigit_def DigitValue_def char_ranges) linarith

lemma IsDigit_not_special:
  "IsDigit c \<Longrightarrow> c \<noteq> CHR ''.'' \<and> c \<noteq> CHR ''/'' \<and> c \<noteq> CHR '':'' \<and> c \<noteq> CHR ''-'' \<and> c \<noteq> CHR ''%''"
  by (auto simp: IsDigit_def)

lemma IsHexDigit_not_special: "IsHexDigit c \<Longrightarrow> c \<noteq> CHR ''.'' \<and> c \<noteq> CHR '':''"
  by (auto simp: IsHexDigit_def IsDigit_def)

section \<open>Facts: splitting\<close>

lemma SplitLoop_parts: "SplitLoop t sep cur parts = parts @ SplitLoop t sep cur []"
proof (induction t arbitrary: cur parts)
  case Nil
  then show ?case by simp
next
  case (Cons c cs)
  show ?case
    using Cons [of "[]" "parts @ [cur]"] Cons [of "[]" "[cur]"] Cons [of "cur @ [c]" parts]
    by simp
qed

lemma SplitLoop_current:
  "SplitLoop t sep cur [] = (cur @ hd (SplitLoop t sep [] [])) # tl (SplitLoop t sep [] [])"
proof (induction t arbitrary: cur)
  case Nil
  then show ?case by simp
next
  case (Cons c cs)
  show ?case
    using Cons [of "cur @ [c]"] Cons [of "[c]"] SplitLoop_parts [of cs sep "[]" "[cur]"]
      SplitLoop_parts [of cs sep "[]" "[[]]"]
    by simp
qed

lemma Split_Nil [simp]: "Split [] sep = [[]]"
  by (simp add: Split_def)

lemma Split_Cons:
  "Split (c # cs) sep =
     (if c = sep then [] # Split cs sep else (c # hd (Split cs sep)) # tl (Split cs sep))"
  using SplitLoop_parts [of cs sep "[]" "[[]]"] SplitLoop_current [of cs sep "[c]"]
  by (simp add: Split_def)

lemma Split_not_Nil [simp]: "Split t sep \<noteq> []"
  by (cases t) (auto simp: Split_Cons)

lemma Split_sep_free: "p \<in> set (Split t sep) \<Longrightarrow> sep \<notin> set p"
proof (induction t arbitrary: p)
  case Nil
  then show ?case by simp
next
  case (Cons c cs)
  have "hd (Split cs sep) \<in> set (Split cs sep)" by simp
  with Cons show ?case
    by (cases "Split cs sep") (auto simp: Split_Cons split: if_splits)
qed

lemma join_Split: "join [sep] (Split t sep) = t"
proof (induction t)
  case Nil
  then show ?case by simp
next
  case (Cons c cs)
  then show ?case
    by (cases "Split cs sep"; cases "tl (Split cs sep)") (auto simp: Split_Cons join_Cons)
qed

lemma Split_no_sep [simp]: "sep \<notin> set t \<Longrightarrow> Split t sep = [t]"
  by (induction t) (auto simp: Split_Cons)

lemma Split_append_sep: "sep \<notin> set x \<Longrightarrow> Split (x @ sep # t) sep = x # Split t sep"
  by (induction x) (auto simp: Split_Cons)

lemma Split_join:
  "ps \<noteq> [] \<Longrightarrow> (\<forall>p \<in> set ps. sep \<notin> set p) \<Longrightarrow> Split (join [sep] ps) sep = ps"
  by (induction "[sep]" ps rule: join.induct) (auto simp: Split_append_sep)

section \<open>Facts: DNS names\<close>

lemma EqualsDnsName_iff: "EqualsDnsName a b \<longleftrightarrow> map ToLowerAscii a = map ToLowerAscii b"
proof
  assume "EqualsDnsName a b"
  then show "map ToLowerAscii a = map ToLowerAscii b"
    by (auto simp: EqualsDnsName_def list_all2_conv_all_nth intro!: nth_equalityI split: if_splits)
next
  assume eq: "map ToLowerAscii a = map ToLowerAscii b"
  then have len: "length a = length b" by (rule map_eq_imp_length_eq)
  have "ToLowerAscii (a ! i) = ToLowerAscii (b ! i)" if "i < length a" for i
    using arg_cong [OF eq, of "\<lambda>xs. xs ! i"] that len by simp
  with len show "EqualsDnsName a b"
    by (simp add: EqualsDnsName_def list_all2_conv_all_nth)
qed

lemma EndsWithDnsName_iff:
  "EndsWithDnsName name suffix \<longleftrightarrow>
     (\<exists>front rest. name = front @ rest \<and> map ToLowerAscii rest = map ToLowerAscii suffix)"
proof
  assume "EndsWithDnsName name suffix"
  then show "\<exists>front rest. name = front @ rest \<and> map ToLowerAscii rest = map ToLowerAscii suffix"
    by (intro exI [of _ "take (length name - length suffix) name"]
        exI [of _ "drop (length name - length suffix) name"])
      (simp add: EndsWithDnsName_def EqualsDnsName_iff split: if_splits)
next
  assume "\<exists>front rest. name = front @ rest \<and> map ToLowerAscii rest = map ToLowerAscii suffix"
  then obtain front rest where 1: "name = front @ rest"
    and 2: "map ToLowerAscii rest = map ToLowerAscii suffix" by blast
  from 2 have "length rest = length suffix" by (rule map_eq_imp_length_eq)
  with 1 2 show "EndsWithDnsName name suffix"
    by (simp add: EndsWithDnsName_def EqualsDnsName_iff)
qed

section \<open>Facts: labels\<close>

lemma TopLabelScan_Some:
  "TopLabelScan l a h = Some (a', h') \<longleftrightarrow>
     (\<forall>c \<in> set l. IsAlphaNumeric c \<or> c = CHR ''-'') \<and>
     (a' \<longleftrightarrow> a \<or> (\<exists>c \<in> set l. IsAlpha c)) \<and> (h' \<longleftrightarrow> h \<or> CHR ''-'' \<in> set l)"
proof (induction l arbitrary: a h)
  case Nil
  then show ?case by auto
next
  case (Cons c cs)
  have "\<not> IsAlpha CHR ''-''" "\<not> IsDigit CHR ''-''" by (simp_all add: IsAlpha_def IsDigit_def)
  with Cons show ?case by (auto simp: IsAlphaNumeric_def)
qed

lemma IsTopLabelD:
  assumes "IsTopLabel l"
  shows "l \<noteq> [] \<and> (\<forall>c \<in> set l. IsAlphaNumeric c \<or> c = CHR ''-'') \<and> \<not> list_all IsDigit l"
proof -
  from assms obtain a h where scan: "TopLabelScan l False False = Some (a, h)"
    and ah: "a \<or> h" and ne: "l \<noteq> []"
    by (auto simp: IsTopLabel_def split: if_splits option.splits)
  have "\<not> IsDigit CHR ''-''" by (simp add: IsDigit_def)
  moreover have "\<not> IsDigit c" if "IsAlpha c" for c
    using that by (auto simp: IsAlpha_def IsDigit_def char_ranges)
  ultimately have "\<not> list_all IsDigit l"
    using scan ah unfolding TopLabelScan_Some by (auto simp: list_all_iff)
  with ne scan show ?thesis unfolding TopLabelScan_Some by auto
qed

section \<open>Facts: macros\<close>

lemma ReadDigits_cap: "d \<le> maximumDigits \<Longrightarrow> fst (ReadDigits t pos d) \<le> maximumDigits"
proof (induction t pos d rule: ReadDigits.induct)
  case (1 t pos d)
  show ?case
  proof (cases "pos < length t \<and> IsDigit (t ! pos)")
    case True
    show ?thesis using "1.IH" [OF True refl refl] True by (simp add: ReadDigits.simps [of t pos] Let_def)
  next
    case False
    with "1.prems" show ?thesis by (auto simp: ReadDigits.simps [of t pos])
  qed
qed

lemma TryReadMacro_digits_cap:
  "TryReadMacro t position macros = Some m \<Longrightarrow> digits m \<le> maximumDigits"
  using ReadDigits_cap [of 0 t "position + 3"]
  by (auto dest!: TryReadMacro_cases elim!: ReadMacroBody_SomeE simp: numeral_3_eq_3)

lemma IsValidMacroString_from_step:
  "IsValidMacroString_from t macros pos \<Longrightarrow> pos < length t \<Longrightarrow>
   (t ! pos = CHR ''%'' \<and> (\<exists>m. TryReadMacro t pos macros = Some m \<and>
        IsValidMacroString_from t macros (macro_end m))) \<or>
   (t ! pos \<noteq> CHR ''%'' \<and> IsMacroLiteral (t ! pos) macros \<and> IsValidMacroString_from t macros (pos + 1))"
  by (simp add: IsValidMacroString_from.simps [of t macros pos] split: if_splits option.splits)

lemma LastExpansionEnd_returns_from:
  "IsValidMacroString_from t macros pos \<Longrightarrow> macros = RecordTerm \<Longrightarrow> e \<in> {None} \<union> Some ` {..length t} \<Longrightarrow>
   \<exists>r \<in> {None} \<union> Some ` {..length t}. LastExpansionEnd t pos e = Some r"
proof (induction t macros pos arbitrary: e rule: IsValidMacroString_from.induct)
  case (1 t macros pos)
  show ?case
  proof (cases "pos < length t")
    case False
    with "1.prems" show ?thesis by (subst LastExpansionEnd.simps) auto
  next
    case pos: True
    show ?thesis
    proof (cases "t ! pos = CHR ''%''")
      case True
      with "1.prems"(1) pos obtain m where m: "TryReadMacro t pos macros = Some m"
        "IsValidMacroString_from t macros (macro_end m)"
        using IsValidMacroString_from_step by blast
      have "macro_end m \<le> length t" using TryReadMacro_bounds [OF m(1)] by simp
      with "1.IH"(1) [OF pos True m(1) m(2) "1.prems"(2), of "Some (macro_end m)"] m pos True "1.prems"(2)
      show ?thesis by (subst LastExpansionEnd.simps) simp
    next
      case False
      with "1.prems"(1) pos have "IsMacroLiteral (t ! pos) macros" "IsValidMacroString_from t macros (pos + 1)"
        using IsValidMacroString_from_step by blast+
      with "1.IH"(2) [OF pos False _ _ "1.prems"(2,3)] pos False show ?thesis
        by (subst LastExpansionEnd.simps) simp
    qed
  qed
qed

section \<open>Facts: the characters of a macro string\<close>

text \<open>The characters a term of a record may be made of: printable and not the space.\<close>

definition term_char :: "char \<Rightarrow> bool" where
  "term_char c \<longleftrightarrow> 0x21 \<le> ord c \<and> ord c \<le> 0x7E"

lemma term_char_classes:
  "IsDigit c \<Longrightarrow> term_char c" "IsAlpha c \<Longrightarrow> term_char c" "IsMacroDelimiter c \<Longrightarrow> term_char c"
  "IsHexDigit c \<Longrightarrow> term_char c" "IsMacroLiteral c RecordTerm \<Longrightarrow> term_char c"
  by (auto simp: term_char_def char_class_defs IsMacroDelimiter_def IsMacroLiteral_def char_ranges
      split: if_splits)

lemma ToLowerAscii_ord: "ord (ToLowerAscii c) = (if 65 \<le> ord c \<and> ord c \<le> 90 then ord c + 32 else ord c)"
  by (auto simp: ToLowerAscii_def char_ranges)

lemma IsMacroLetter_alpha:
  assumes "IsMacroLetter c ms"
  shows "IsAlpha c"
proof -
  have "97 \<le> ord (ToLowerAscii c) \<and> ord (ToLowerAscii c) \<le> 122"
    using assms by (auto simp: IsMacroLetter_def Let_def split: if_splits)
  then show ?thesis using ToLowerAscii_ord [of c]
    by (auto simp: IsAlpha_def char_ranges split: if_splits)
qed

lemma ToLower_r_alpha: "ToLowerAscii c = CHR ''r'' \<Longrightarrow> IsAlpha c"
  using ToLowerAscii_ord [of c] by (auto simp: IsAlpha_def char_ranges split: if_splits)

lemma ReadDigits_range:
  "ReadDigits t pos d = (d', pos') \<Longrightarrow> pos \<le> i \<Longrightarrow> i < pos' \<Longrightarrow> IsDigit (t ! i)"
proof (induction t pos d rule: ReadDigits.induct)
  case (1 t pos d)
  show ?case
  proof (cases "pos < length t \<and> IsDigit (t ! pos)")
    case True
    with "1.prems" show ?thesis
      using "1.IH" [OF True refl refl]
      by (cases "i = pos") (auto simp: ReadDigits.simps [of t pos] Let_def)
  next
    case False
    with "1.prems" show ?thesis by (auto simp: ReadDigits.simps [of t pos])
  qed
qed

lemma SkipDelimiters_range:
  "pos \<le> i \<Longrightarrow> i < SkipDelimiters t pos \<Longrightarrow> IsMacroDelimiter (t ! i)"
proof (induction t pos rule: SkipDelimiters.induct)
  case (1 t pos)
  show ?case
  proof (cases "pos < length t \<and> IsMacroDelimiter (t ! pos)")
    case True
    with "1.prems" "1.IH" [OF True] show ?thesis
      by (cases "i = pos") (auto simp: SkipDelimiters.simps [of t pos])
  next
    case False
    with "1.prems" show ?thesis by (auto simp: SkipDelimiters.simps [of t pos])
  qed
qed

lemma ReadMacroBody_chars:
  assumes "ReadMacroBody t pos ms = Some m"
  shows "(\<forall>i. pos \<le> i \<longrightarrow> i < macro_end m \<longrightarrow> term_char (t ! i)) \<and> t ! (macro_end m - 1) = CHR ''}''"
  using assms
proof (rule ReadMacroBody_SomeE)
  fix d q r q' q''
  assume *: "IsMacroLetter (t ! pos) ms" "ReadDigits t (pos + 1) 0 = (d, q)" "ReadReverse t q = (r, q')"
    "SkipDelimiters t q' = q''" "t ! q'' = CHR ''}''"
    "m = \<lparr> is_literal = False, literal = CHR 0x00, letter = t ! pos, digits = d,
           reverse = r, delimiters = take (q'' - q') (drop q' t), macro_end = q'' + 1 \<rparr>"
  have rev: "q' = q \<or> q' = q + 1 \<and> IsAlpha (t ! q)"
    using *(3) by (auto simp: ReadReverse_def ToLower_r_alpha split: if_splits)
  have brace: "term_char CHR ''}''" by (simp add: term_char_def)
  have "term_char (t ! i)" if "pos \<le> i" "i < macro_end m" for i
  proof -
    from that *(6) consider "i = pos" | "pos + 1 \<le> i" "i < q" | "q \<le> i" "i < q'" | "q' \<le> i" "i < q''" | "i = q''"
      by fastforce
    then show ?thesis
    proof cases
      case 1
      with *(1) show ?thesis by (simp add: IsMacroLetter_alpha term_char_classes)
    next
      case 2
      with *(2) show ?thesis by (auto intro: ReadDigits_range term_char_classes)
    next
      case 3
      with rev show ?thesis by (auto simp: term_char_classes less_Suc_eq)
    next
      case 4
      with *(4) show ?thesis by (auto intro: SkipDelimiters_range term_char_classes)
    next
      case 5
      with *(5) brace show ?thesis by simp
    qed
  qed
  with *(5,6) show ?thesis by simp
qed

definition expansion_end_char :: "char \<Rightarrow> bool" where
  "expansion_end_char c \<longleftrightarrow> c \<in> {CHR ''}'', CHR ''%'', CHR ''_'', CHR ''-''}"

lemma TryReadMacro_chars:
  assumes "TryReadMacro t pos ms = Some m"
  shows "(\<forall>i. pos \<le> i \<longrightarrow> i < macro_end m \<longrightarrow> term_char (t ! i)) \<and> expansion_end_char (t ! (macro_end m - 1))"
proof -
  note c = TryReadMacro_cases [OF assms]
  have lits: "term_char CHR ''%''" "term_char CHR ''{''" "term_char CHR ''_''" "term_char CHR ''-''"
    by (simp_all add: term_char_def)
  show ?thesis
  proof (cases "ReadMacroBody t (pos + 2) ms = Some m \<and> t ! (pos + 1) = CHR ''{''")
    case True
    then have body: "\<forall>i. pos + 2 \<le> i \<longrightarrow> i < macro_end m \<longrightarrow> term_char (t ! i)"
      "t ! (macro_end m - 1) = CHR ''}''" using ReadMacroBody_chars by blast+
    have "term_char (t ! i)" if "pos \<le> i" "i < macro_end m" for i
    proof (cases "pos + 2 \<le> i")
      case False
      with that have "i = pos \<or> i = pos + 1" by auto
      with c True lits show ?thesis by auto
    qed (use body that in blast)
    with body show ?thesis by (simp add: expansion_end_char_def)
  next
    case False
    with c have lit: "macro_end m = pos + 2" "t ! (pos + 1) \<in> {CHR ''%'', CHR ''_'', CHR ''-''}" by auto
    have "term_char (t ! i)" if "pos \<le> i" "i < macro_end m" for i
    proof -
      from that lit(1) have "i = pos \<or> i = pos + 1" by auto
      with c lit lits show ?thesis by auto
    qed
    with lit show ?thesis by (auto simp: expansion_end_char_def)
  qed
qed

lemma IsValidMacroString_chars_from:
  "IsValidMacroString_from t macros pos \<Longrightarrow> macros = RecordTerm \<Longrightarrow> pos \<le> i \<Longrightarrow> i < length t \<Longrightarrow> term_char (t ! i)"
proof (induction t macros pos rule: IsValidMacroString_from.induct)
  case (1 t macros pos)
  then have pos: "pos < length t" by simp
  show ?case
  proof (cases "t ! pos = CHR ''%''")
    case True
    with "1.prems"(1) pos obtain m where m: "TryReadMacro t pos macros = Some m"
      "IsValidMacroString_from t macros (macro_end m)"
      using IsValidMacroString_from_step by blast
    with "1.IH"(1) [OF pos True m(1) m(2) "1.prems"(2)] TryReadMacro_chars [OF m(1)] "1.prems"
    show ?thesis by (cases "i < macro_end m") auto
  next
    case False
    with "1.prems"(1) pos have lit: "IsMacroLiteral (t ! pos) macros" "IsValidMacroString_from t macros (pos + 1)"
      using IsValidMacroString_from_step by blast+
    with "1.IH"(2) [OF pos False _ lit(2) "1.prems"(2)] "1.prems" show ?thesis
      by (cases "i = pos") (auto simp: term_char_classes)
  qed
qed

lemma IsValidMacroString_chars: "IsValidMacroString t RecordTerm \<Longrightarrow> c \<in> set t \<Longrightarrow> term_char c"
  using IsValidMacroString_chars_from [of t RecordTerm 0]
  by (auto simp: IsValidMacroString_def in_set_conv_nth)

section \<open>Facts: how a domain specification ends\<close>

lemma LastExpansionEnd_char:
  "IsValidMacroString_from t macros pos \<Longrightarrow> macros = RecordTerm \<Longrightarrow>
   (\<And>q. e = Some q \<Longrightarrow> expansion_end_char (t ! (q - 1))) \<Longrightarrow>
   LastExpansionEnd t pos e = Some (Some q) \<Longrightarrow> expansion_end_char (t ! (q - 1))"
proof (induction t macros pos arbitrary: e rule: IsValidMacroString_from.induct)
  case (1 t macros pos)
  show ?case
  proof (cases "pos < length t")
    case False
    with "1.prems" show ?thesis by (subst (asm) LastExpansionEnd.simps) auto
  next
    case pos: True
    show ?thesis
    proof (cases "t ! pos = CHR ''%''")
      case True
      with "1.prems"(1) pos obtain m where m: "TryReadMacro t pos macros = Some m"
        "IsValidMacroString_from t macros (macro_end m)"
        using IsValidMacroString_from_step by blast
      have "LastExpansionEnd t (macro_end m) (Some (macro_end m)) = Some (Some q)"
        using "1.prems"(2,4) m True pos by (subst (asm) LastExpansionEnd.simps) simp
      with "1.IH"(1) [OF pos True m(1) m(2) "1.prems"(2), of "Some (macro_end m)"]
        TryReadMacro_chars [OF m(1)] show ?thesis by simp
    next
      case False
      with "1.prems"(1) pos have lit: "IsMacroLiteral (t ! pos) macros" "IsValidMacroString_from t macros (pos + 1)"
        using IsValidMacroString_from_step by blast+
      have "LastExpansionEnd t (pos + 1) e = Some (Some q)"
        using "1.prems"(4) False pos by (subst (asm) LastExpansionEnd.simps) simp
      with "1.IH"(2) [OF pos False _ lit(2) "1.prems"(2,3)] lit show ?thesis by simp
    qed
  qed
qed

lemma IsValidDomainSpec_cases:
  assumes "IsValidDomainSpec t"
  obtains (expansion) "t \<noteq> []" "expansion_end_char (last t)"
  | (absolute) front l where "t = front @ ''.'' @ l @ ''.''" "IsTopLabel l"
  | (relative) front l where "t = front @ ''.'' @ l" "IsTopLabel l"
proof -
  from assms have ne: "t \<noteq> []" and valid: "IsValidMacroString t RecordTerm"
    by (auto simp: IsValidDomainSpec_def split: if_splits)
  obtain e where e: "LastExpansionEnd t 0 None = Some e"
    using LastExpansionEnd_returns_from [of t RecordTerm 0 None] valid by (auto simp: IsValidMacroString_def)
  show thesis
  proof (cases "e = Some (length t)")
    case True
    with e valid ne have "expansion_end_char (last t)"
      using LastExpansionEnd_char [of t RecordTerm 0 None "length t"]
      by (simp add: IsValidMacroString_def last_conv_nth)
    with ne show thesis by (rule expansion)
  next
    case False
    define name where "name = (if t ! (length t - 1) = CHR ''.'' then take (length t - 1) t else t)"
    from assms ne valid e False obtain dot where dot: "ReverseFind name CHR ''.'' = Some dot"
      and top: "IsTopLabel (drop (dot + 1) name)"
      by (auto simp: IsValidDomainSpec_def name_def Let_def split: option.splits if_splits)
    have "name = take dot name @ ''.'' @ drop (dot + 1) name"
      using ReverseFind_SomeD [OF dot] id_take_nth_drop [of dot name] by simp
    moreover have "t = (if t ! (length t - 1) = CHR ''.'' then name @ ''.'' else name)"
      using ne append_butlast_last_id [OF ne]
      by (auto simp: name_def butlast_conv_take last_conv_nth)
    ultimately show thesis
      using absolute [of "take dot name" "drop (dot + 1) name"] relative [of "take dot name" "drop (dot + 1) name"] top
      by (metis append.assoc)
  qed
qed

section \<open>Properties\<close>

lemma IsValidIP4Network_digits:
  assumes "IsValidIP4Network t"
  shows "(\<forall>c \<in> set t. IsDigit c \<or> c = CHR ''.'') \<and> t \<noteq> [] \<and> IsDigit (last t)"
proof -
  from assms obtain a b c d where s: "Split t CHR ''.'' = [a, b, c, d]"
    by (auto simp: IsValidIP4Network_def Let_def split: if_splits dest!: list_length_4)
  with assms have o: "IsOctet a" "IsOctet b" "IsOctet c" "IsOctet d" by (auto simp: IsValidIP4Network_def)
  have digits: "IsOctet w \<Longrightarrow> w \<noteq> [] \<and> (\<forall>x \<in> set w. IsDigit x)" for w
    by (auto simp: IsOctet_def list_all_iff split: if_splits)
  have "t = a @ ''.'' @ b @ ''.'' @ c @ ''.'' @ d" using join_Split [of "CHR ''.''" t] s by simp
  with digits [OF o(1)] digits [OF o(2)] digits [OF o(3)] digits [OF o(4)] show ?thesis by auto
qed

text \<open>
  C40: the second walk of \<^verbatim>\<open>IsValidDomainSpec\<close>, which ignores whether a macro could be read and would
  never advance past one that could not, returns on every string the first walk accepted.
\<close>

theorem second_walk_returns:
  "IsValidMacroString t RecordTerm \<Longrightarrow> \<exists>lastExpansionEnd. LastExpansionEnd t 0 None = Some lastExpansionEnd"
  using LastExpansionEnd_returns_from [of t RecordTerm 0 None] by (auto simp: IsValidMacroString_def)

theorem second_walk_returns_witness:
  "IsValidMacroString ''%{d2r-}.example'' RecordTerm \<and>
   (\<exists>lastExpansionEnd. LastExpansionEnd ''%{d2r-}.example'' 0 None = Some lastExpansionEnd)"
proof -
  have "IsValidMacroString ''%{d2r-}.example'' RecordTerm" by code_simp
  with second_walk_returns show ?thesis by blast
qed

text \<open>
  A macro that is read starts at a percent sign, ends inside the text, is at least two characters
  long, and keeps at most \<open>maximumDigits\<close> labels however many digits were written.
\<close>

theorem macro_read_in_bounds:
  "TryReadMacro t position macros = Some m \<Longrightarrow>
   t ! position = CHR ''%'' \<and> position + 2 \<le> macro_end m \<and> macro_end m \<le> length t \<and> digits m \<le> maximumDigits"
  using TryReadMacro_bounds TryReadMacro_digits_cap by blast

theorem macro_read_in_bounds_witness:
  "\<exists>m. TryReadMacro ''a.%{l99999999999r}'' 2 RecordTerm = Some m \<and> macro_end m \<le> 18 \<and> digits m \<le> maximumDigits"
proof -
  have "TryReadMacro ''a.%{l99999999999r}'' 2 RecordTerm \<noteq> None" by code_simp
  then obtain m where m: "TryReadMacro ''a.%{l99999999999r}'' 2 RecordTerm = Some m" by blast
  from macro_read_in_bounds [OF m] m show ?thesis by auto
qed

text \<open>
  DNS names are equal, and one ends in another, exactly up to the case of ASCII letters: no locale
  and no NUL byte changes the comparison.
\<close>

theorem dns_names_compared:
  "(EqualsDnsName a b \<longleftrightarrow> map ToLowerAscii a = map ToLowerAscii b) \<and>
   (EndsWithDnsName a b \<longleftrightarrow> (\<exists>front rest. a = front @ rest \<and> EqualsDnsName rest b))"
  by (simp add: EqualsDnsName_iff EndsWithDnsName_iff)

text \<open>
  a domain specification that ends in a label, not in an expansion, has a top label that is not
  made of digits alone, so no IPv4 address is a domain specification.
\<close>

theorem domain_spec_is_no_address: "\<not> (IsValidDomainSpec t \<and> IsValidIP4Network t)"
proof
  assume t: "IsValidDomainSpec t \<and> IsValidIP4Network t"
  note ip4 = IsValidIP4Network_digits [of t]
  from t have "IsValidDomainSpec t" by simp
  then show False
  proof (cases rule: IsValidDomainSpec_cases)
    case expansion
    with t ip4 show False by (auto simp: expansion_end_char_def IsDigit_def char_ranges)
  next
    case (absolute front l)
    with t ip4 show False by (auto simp: IsDigit_def char_ranges)
  next
    case (relative front l)
    with t ip4 have "\<forall>c \<in> set l. IsDigit c \<or> c = CHR ''.''" by auto
    moreover have "c \<noteq> CHR ''.''" if "IsAlphaNumeric c \<or> c = CHR ''-''" for c
      using that by (auto simp: IsAlphaNumeric_def IsAlpha_def IsDigit_def char_ranges)
    ultimately show False using IsTopLabelD [OF relative(2)] unfolding list_all_iff by blast
  qed
qed

end
