(* ===== verification/StringParser.thy ===== *)
theory StringParser
  imports SPF_Syntax
begin

text \<open>
  The functions of Common/Util/Parsing/StringParser.cpp that the modelled components call. Every
  separator they pass to \<^verbatim>\<open>SplitString\<close> is one character, and is a character here. The byte version of
  \<^verbatim>\<open>SplitString\<close> keeps each part in a wide string before it is stored, so each part goes to UTF-16 and
  back in the code page of the machine: that conversion is the parameter \<open>conv\<close>. A text without the
  separator is stored as it is.
\<close>

section \<open>Splitting\<close>

function SplitStringLoop ::
  "(AnsiString \<Rightarrow> AnsiString) \<Rightarrow> AnsiString \<Rightarrow> char \<Rightarrow> nat \<Rightarrow> nat option \<Rightarrow> AnsiString list \<Rightarrow> nat \<times> AnsiString list" where
  "SplitStringLoop conv sInput sep iBeginning iEnd vecResult =
     (case iEnd of
        None \<Rightarrow> (iBeginning, vecResult)
      | Some e \<Rightarrow>
          if e < iBeginning \<or> length sInput \<le> e then (iBeginning, vecResult)
          else SplitStringLoop conv sInput sep (e + 1) (Find_from sInput [sep] (e + 1))
                 (vecResult @ [conv (Mid_count sInput iBeginning (e - iBeginning))]))"
  by pat_completeness auto
termination
  by (relation "measure (\<lambda>(f, s, sep, b, e, r). length s - b)") auto

declare SplitStringLoop.simps [simp del]

definition SplitStringAnsi :: "(AnsiString \<Rightarrow> AnsiString) \<Rightarrow> AnsiString \<Rightarrow> char \<Rightarrow> AnsiString list" where
  "SplitStringAnsi conv sInput sep =
     (let iEnd = Find_str sInput [sep];
          vecResult = (if iEnd = None \<and> sInput \<noteq> [] then [sInput] else []);
          (iBeginning, vecResult) = SplitStringLoop conv sInput sep 0 iEnd vecResult;
          sSubString = conv (Mid sInput iBeginning)
      in if iBeginning > 0 \<and> sSubString \<noteq> [] then vecResult @ [sSubString]
         else vecResult)"

text \<open>The wide version is the same code, and stores each part as it is.\<close>

definition SplitString :: "AnsiString \<Rightarrow> char \<Rightarrow> AnsiString list" where
  "SplitString sInput sep = SplitStringAnsi (\<lambda>part. part) sInput sep"

section \<open>Addresses and numbers\<close>

definition ExtractDomain :: "AnsiString \<Rightarrow> AnsiString" where
  "ExtractDomain sEMailAddress =
     (case ReverseFind sEMailAddress CHR ''@'' of
        None \<Rightarrow> Mid sEMailAddress 0
      | Some iAtSign \<Rightarrow> Mid sEMailAddress (iAtSign + 1))"

definition ExtractAddress :: "AnsiString \<Rightarrow> AnsiString" where
  "ExtractAddress sEMailAddress =
     (case ReverseFind sEMailAddress CHR ''@'' of
        None \<Rightarrow> []
      | Some iAtSign \<Rightarrow> Mid_count sEMailAddress 0 iAtSign)"

definition IsNumeric :: "AnsiString \<Rightarrow> bool" where
  "IsNumeric sInput = list_all (\<lambda>c. Find ''1234567890'' c \<noteq> None) sInput"

section \<open>Facts\<close>

lemma Find_str_single: "Find_str s [c] = Find s c"
  by (induction s) auto

lemma Find_from_single: "start \<le> length s \<Longrightarrow> Find_from s [c] start = map_option (\<lambda>i. start + i) (Find (drop start s) c)"
  by (simp add: Find_from_def Find_str_single)

lemma Find_from_hit: "b \<le> length s \<Longrightarrow> Find (drop b s) c = Some i \<Longrightarrow> Find_from s [c] b = Some (b + i)"
  by (simp add: Find_from_single)

lemma Split_first:
  "Find t c = None \<Longrightarrow> Split t c = [t]"
  "Find t c = Some i \<Longrightarrow> Split t c = take i t # Split (drop (Suc i) t) c"
proof -
  show "Find t c = None \<Longrightarrow> Split t c = [t]" by simp
  assume f: "Find t c = Some i"
  then have i: "i < length t" "t ! i = c" "c \<notin> set (take i t)" using Find_SomeD by blast+
  then have "t = take i t @ c # drop (Suc i) t" using id_take_nth_drop [of i t] by simp
  with i Split_append_sep [of c "take i t" "drop (Suc i) t"] show "Split t c = take i t # Split (drop (Suc i) t) c"
    by simp
qed

lemma SplitStringLoop_spec:
  assumes "b \<le> length s"
  shows "SplitStringLoop (\<lambda>x. x) s c b (Find_from s [c] b) r = (b', r') \<Longrightarrow>
    b' \<le> length s \<and> Split (drop b s) c = drop (length r) r' @ [drop b' s] \<and> take (length r) r' = r \<and> (b' = b \<and> r' = r \<or> b < b')"
  using assms
proof (induction "length s - b" arbitrary: b r rule: less_induct)
  case less
  show ?case
  proof (cases "Find (drop b s) c")
    case None
    with less.prems show ?thesis
      by (simp add: Find_from_single SplitStringLoop.simps [of _ s c b] Split_first(1))
  next
    case (Some i)
    then have i: "i < length (drop b s)" using Find_SomeD by blast
    have "SplitStringLoop (\<lambda>x. x) s c (b + i + 1) (Find_from s [c] (b + i + 1)) (r @ [take i (drop b s)]) = (b', r')"
      using less.prems(1) i Some unfolding Find_from_single [OF less.prems(2), unfolded Some]
      by (subst (asm) SplitStringLoop.simps) (simp add: Find_from_hit [OF less.prems(2) Some] not_le less_diff_conv2 [OF less.prems(2)] add.commute split: if_splits)
    moreover have "length s - (b + i + 1) < length s - b" "b + i + 1 \<le> length s" using i by auto
    ultimately have IH: "b' \<le> length s" "Split (drop (b + i + 1) s) c = drop (length (r @ [take i (drop b s)])) r' @ [drop b' s]"
      "take (length (r @ [take i (drop b s)])) r' = r @ [take i (drop b s)]" "b < b'"
      using less.hyps by fastforce+
    have r': "r' = r @ take i (drop b s) # drop (length r + 1) r'"
      by (metis IH(3) append.assoc append_Cons append_Nil append_take_drop_id length_append_singleton Suc_eq_plus1)
    then have "drop (length r) r' = take i (drop b s) # drop (length r + 1) r'" "take (length r) r' = r"
      by (metis append_eq_conv_conj)+
    with IH Split_first(2) [OF Some] show ?thesis by (simp add: add.commute)
  qed
qed

lemma SplitStringLoop_map:
  "SplitStringLoop conv s c b e (map conv r) = (case SplitStringLoop (\<lambda>x. x) s c b e r of (b', r') \<Rightarrow> (b', map conv r'))"
proof (induction "length s - b" arbitrary: b e r rule: less_induct)
  case less
  show ?case
  proof (cases "\<exists>i. e = Some i \<and> b \<le> i \<and> i < length s")
    case True
    then obtain i where i: "e = Some i" "b \<le> i" "i < length s" by blast
    then have "length s - (i + 1) < length s - b" by auto
    from less [OF this, of "Find_from s [c] (i + 1)" "r @ [take (i - b) (drop b s)]"] i show ?thesis
      by (subst (1 2) SplitStringLoop.simps) simp
  next
    case False
    then have "e = None \<or> (\<exists>i. e = Some i \<and> (i < b \<or> length s \<le> i))" by (cases e) (auto simp: not_less)
    then show ?thesis by (subst (1 2) SplitStringLoop.simps) auto
  qed
qed

text \<open>The byte version in terms of the plain split: a text without the separator is the only part that is not converted.\<close>

lemma SplitStringAnsi_code [code]:
  "SplitStringAnsi conv s c =
     (let ps = Split s c
      in if tl ps = [] then (if s = [] then [] else [s])
         else map conv (butlast ps) @ (if conv (last ps) = [] then [] else [conv (last ps)]))"
proof -
  obtain b r where br: "SplitStringLoop (\<lambda>x. x) s c 0 (Find_from s [c] 0) [] = (b, r)" by fastforce
  note spec = SplitStringLoop_spec [OF _ br, simplified]
  have start: "Find_str s [c] = Find_from s [c] 0" by (cases "Find_str s [c]") (simp_all add: Find_from_def)
  show ?thesis
  proof (cases "Find s c")
    case None
    then show ?thesis
      by (simp add: SplitStringAnsi_def Find_str_single SplitStringLoop.simps Split_first(1)
          Find_None_iff [THEN iffD2] Let_def del: Find_None_iff)
  next
    case (Some i)
    then have two: "tl (Split s c) \<noteq> []" using Split_first(2) [OF Some] Split_not_Nil by simp
    have "b \<noteq> 0"
    proof
      assume "b = 0"
      with spec two show False by simp
    qed
    moreover have "s \<noteq> []" "Find_str s [c] \<noteq> None" using Some by (auto simp: Find_str_single)
    ultimately show ?thesis using spec two SplitStringLoop_map [of conv s c 0 "Find_from s [c] 0" "[]"] br
      by (auto simp: SplitStringAnsi_def start Let_def)
  qed
qed

text \<open>\<^verbatim>\<open>SplitString\<close> is the plain split, less an empty last part.\<close>

lemma SplitString_eq: "SplitString s c = (let ps = Split s c in if last ps = [] then butlast ps else ps)"
proof -
  have "Split s c = [s]" if "tl (Split s c) = []"
    using that join_Split [of c s] Split_not_Nil [of s c] by (cases "Split s c") auto
  moreover have "butlast (Split s c) @ [last (Split s c)] = Split s c" using Split_not_Nil by simp
  ultimately show ?thesis unfolding SplitString_def SplitStringAnsi_code Let_def by auto
qed

lemma SplitString_Nil [simp]: "SplitString [] c = []"
  by (simp add: SplitString_eq)

lemma SplitString_Cons:
  "SplitString (x # xs) c =
     (if x = c then [] # SplitString xs c
      else case SplitString xs c of [] \<Rightarrow> [[x]] | p # ps \<Rightarrow> (x # p) # ps)"
proof (cases "Split xs c")
  case Nil
  then show ?thesis by simp
next
  case (Cons q qs)
  then show ?thesis
    by (cases "qs = []") (auto simp: SplitString_eq Split_Cons Let_def last_append neq_Nil_conv)
qed

text \<open>Where the conversion gives every part of the text back, the byte version is the plain split.\<close>

lemma SplitStringAnsi_conv:
  assumes "\<And>p. set p \<subseteq> set s \<Longrightarrow> conv p = p"
  shows "SplitStringAnsi conv s c = SplitString s c"
proof -
  have "set p \<subseteq> set s" if "p \<in> set (Split s c)" for p
    using set_part_join [OF that, of "[c]"] by (simp add: join_Split)
  then have "map conv (butlast (Split s c)) = butlast (Split s c)" "conv (last (Split s c)) = last (Split s c)"
    using assms Split_not_Nil by (auto intro!: map_idI dest: in_set_butlastD)
  then show ?thesis unfolding SplitString_def SplitStringAnsi_code by (simp add: Let_def)
qed

end
