(* ===== verification/SPF_Address.thy ===== *)
theory SPF_Address
  imports SPF_Syntax
begin

unbundle bit_operations_syntax

text \<open>
  An IP address in the forms an SPF evaluation needs it in, SMTP/SPF/SPFAddress.h and
  SPFAddress.cpp: reading the literals the grammar accepts, the dotted, readable and reverse-mapping
  forms the macros use, and the comparison of two addresses over a prefix. The sixteen bytes of the
  source's array are a list of sixteen 8-bit words, a group of an IPv6 address is a 16-bit word, and
  the shifts and casts of the source are the word operations.
\<close>

section \<open>The address\<close>

datatype Family = FamilyNone | FamilyIP4 | FamilyIP6

record SPFAddress =
  family :: Family
  bytes :: "byte list"

definition SPFAddress_init :: SPFAddress where
  "SPFAddress_init = \<lparr> family = FamilyNone, bytes = replicate 16 0 \<rparr>"

section \<open>Reading an address\<close>

definition HexValue :: "char \<Rightarrow> int" where
  "HexValue c =
     (if c \<ge> CHR ''0'' \<and> c \<le> CHR ''9'' then int (ord c) - int (ord CHR ''0'')
      else if c \<ge> CHR ''a'' \<and> c \<le> CHR ''f'' then int (ord c) - int (ord CHR ''a'') + 10
      else if c \<ge> CHR ''A'' \<and> c \<le> CHR ''F'' then int (ord c) - int (ord CHR ''A'') + 10
      else -1)"

fun ReadIP4Loop :: "AnsiString list \<Rightarrow> nat \<Rightarrow> byte list \<Rightarrow> byte list" where
  "ReadIP4Loop [] i bs = bs"
| "ReadIP4Loop (octet # octets) i bs =
     (if i < 4 then ReadIP4Loop octets (i + 1) (bs[i := word_of_nat (DecimalValue octet)]) else bs)"

definition ReadIP4 :: "AnsiString \<Rightarrow> byte list \<Rightarrow> byte list" where
  "ReadIP4 text bs = ReadIP4Loop (Split text CHR ''.'') 0 bs"

definition QuadGroup :: "byte \<Rightarrow> byte \<Rightarrow> 16 word" where
  "QuadGroup hi lo = push_bit 8 (ucast hi) OR ucast lo"

definition HexGroupValue :: "AnsiString \<Rightarrow> int" where
  "HexGroupValue w = foldl (\<lambda>value c. (push_bit 4 value) OR (HexValue c)) 0 w"

fun ReadIP6GroupsLoop :: "AnsiString list \<Rightarrow> 16 word list \<Rightarrow> 16 word list" where
  "ReadIP6GroupsLoop [] groups = groups"
| "ReadIP6GroupsLoop (w # written) groups =
     (if Find w CHR ''.'' \<noteq> None then
        let quad = ReadIP4 w [0, 0, 0, 0]
        in ReadIP6GroupsLoop written
             (groups @ [QuadGroup (quad ! 0) (quad ! 1)] @ [QuadGroup (quad ! 2) (quad ! 3)])
      else ReadIP6GroupsLoop written (groups @ [word_of_int (HexGroupValue w)]))"

definition ReadIP6Groups :: "AnsiString \<Rightarrow> 16 word list" where
  "ReadIP6Groups side =
     (if side = [] then [] else ReadIP6GroupsLoop (Split side CHR '':'') [])"

text \<open>The two loops of \<^verbatim>\<open>ReadIP6\<close> that lay groups out in the sixteen bytes, from group \<open>k\<close> on.\<close>

fun StoreGroups :: "16 word list \<Rightarrow> nat \<Rightarrow> byte list \<Rightarrow> byte list" where
  "StoreGroups [] k bs = bs"
| "StoreGroups (g # gs) k bs =
     StoreGroups gs (k + 1) (bs[k * 2 := ucast (drop_bit 8 g), k * 2 + 1 := ucast (g AND 0xFF)])"

definition ReadIP6 :: "AnsiString \<Rightarrow> byte list option" where
  "ReadIP6 text =
     (let (beforeText, after, compressed) =
            (case Find_str text ''::'' of
               None \<Rightarrow> (text, [], False)
             | Some doubleColon \<Rightarrow> (Left text doubleColon, Mid text (doubleColon + 2), True));
          head = ReadIP6Groups beforeText;
          tail = ReadIP6Groups after;
          written = length head + length tail
      in if written > 8 \<or> (\<not> compressed \<and> written \<noteq> 8) then None
         else Some (StoreGroups tail (8 - length tail) (StoreGroups head 0 (replicate 16 0))))"

definition IsIP4Mapped :: "byte list \<Rightarrow> bool" where
  "IsIP4Mapped bs =
     (if list_ex (\<lambda>i. bs ! i \<noteq> 0) [0..<10] then False else bs ! 10 = 0xFF \<and> bs ! 11 = 0xFF)"

text \<open>\<open>None\<close> is the source's false, which leaves the address at its initial value.\<close>

definition TryParse :: "AnsiString \<Rightarrow> SPFAddress option" where
  "TryParse text =
     (if IsValidIP4Network text then
        Some (SPFAddress_init\<lparr> bytes := ReadIP4 text (bytes SPFAddress_init), family := FamilyIP4 \<rparr>)
      else if \<not> IsValidIP6Network text then None
      else case ReadIP6 text of
        None \<Rightarrow> None
      | Some bs \<Rightarrow>
          if IsIP4Mapped bs then
            Some (SPFAddress_init
                    \<lparr> bytes := take 4 (drop 12 bs) @ drop 4 (bytes SPFAddress_init),
                      family := FamilyIP4 \<rparr>)
          else Some (SPFAddress_init\<lparr> bytes := take 16 bs, family := FamilyIP6 \<rparr>))"

section \<open>Writing an address\<close>

text \<open>
  \<^verbatim>\<open>ToDecimal\<close> fills a buffer of twelve digits from the least significant one and turns it around.
  The list grows at its head, which is the turning around.
\<close>

function ToDecimalLoop :: "nat \<Rightarrow> nat \<Rightarrow> AnsiString \<Rightarrow> AnsiString" where
  "ToDecimalLoop value count ds =
     (let ds = char_of (ord CHR ''0'' + value mod 10) # ds;
          count = count + 1;
          value = value div 10
      in if value > 0 \<and> count < 12 then ToDecimalLoop value count ds else ds)"
  by pat_completeness auto
termination
  by (relation "measure (\<lambda>(value, count, ds). value)") auto

declare ToDecimalLoop.simps [simp del]

definition ToDecimal :: "nat \<Rightarrow> AnsiString" where
  "ToDecimal value = ToDecimalLoop value 0 []"

definition UPPER_HEX_DIGITS :: AnsiString where
  "UPPER_HEX_DIGITS = ''0123456789ABCDEF''"

definition LOWER_HEX_DIGITS :: AnsiString where
  "LOWER_HEX_DIGITS = ''0123456789abcdef''"

definition WriteGroup :: "16 word \<Rightarrow> AnsiString" where
  "WriteGroup g =
     foldl (\<lambda>text shift.
              let nibble = unat (drop_bit shift g AND 0x0F)
              in if nibble = 0 \<and> text = [] \<and> shift > 0 then text
                 else text @ [LOWER_HEX_DIGITS ! nibble]) [] [12, 8, 4, 0]"

definition ToDottedQuad :: "byte list \<Rightarrow> AnsiString" where
  "ToDottedQuad bs =
     foldl (\<lambda>text i. (if i > 0 then text @ ''.'' else text) @ ToDecimal (unat (bs ! i))) [] [0..<4]"

definition GetBitCount :: "SPFAddress \<Rightarrow> int" where
  "GetBitCount a =
     (case family a of FamilyIP4 \<Rightarrow> 32 | FamilyIP6 \<Rightarrow> 128 | FamilyNone \<Rightarrow> 0)"

definition GetDottedForm :: "SPFAddress \<Rightarrow> AnsiString" where
  "GetDottedForm a =
     (if family a = FamilyIP4 then ToDottedQuad (bytes a)
      else if family a \<noteq> FamilyIP6 then []
      else foldl (\<lambda>text i.
                    (if i > 0 then text @ ''.'' else text) @
                    [UPPER_HEX_DIGITS ! unat (drop_bit 4 (bytes a ! i))] @ ''.'' @
                    [UPPER_HEX_DIGITS ! unat (bytes a ! i AND 0x0F)]) [] [0..<16])"

function ZeroRunLength :: "16 word list \<Rightarrow> nat \<Rightarrow> nat \<Rightarrow> nat" where
  "ZeroRunLength groups i len =
     (if i + len < 8 \<and> groups ! (i + len) = 0 then ZeroRunLength groups i (len + 1) else len)"
  by pat_completeness auto
termination
  by (relation "measure (\<lambda>(groups, i, len). 8 - (i + len))") auto

declare ZeroRunLength.simps [simp del]

lemma ZeroRunLength_ge: "len \<le> ZeroRunLength groups i len"
proof (induction groups i len rule: ZeroRunLength.induct)
  case (1 groups i len)
  then show ?case by (cases "i + len < 8 \<and> groups ! (i + len) = 0")
      (auto simp: ZeroRunLength.simps [of groups i len])
qed

lemma ZeroRunLength_pos:
  "i < 8 \<Longrightarrow> groups ! i = 0 \<Longrightarrow> 0 < ZeroRunLength groups i 0"
  using ZeroRunLength_ge [of 1 groups i] by (simp add: ZeroRunLength.simps [of groups i 0])

lemma ZeroRunLength_decreases:
  "i < 8 \<Longrightarrow> groups ! i = 0 \<Longrightarrow> 8 - (i + ZeroRunLength groups i 0) < 8 - i"
  using ZeroRunLength_pos [of i groups] by linarith

text \<open>
  The scan for the run that \<^verbatim>\<open>::\<close> stands for. \<open>None\<close> is the source's -1; the index moves past the
  run just measured, as \<^verbatim>\<open>i += length - 1\<close> and the loop's own increment make it.
\<close>

function BestRun :: "16 word list \<Rightarrow> nat \<Rightarrow> nat option \<Rightarrow> nat \<Rightarrow> nat option \<times> nat" where
  "BestRun groups i bestStart bestLength =
     (if i < 8 then
        if groups ! i \<noteq> 0 then BestRun groups (i + 1) bestStart bestLength
        else
          let len = ZeroRunLength groups i 0
          in if len > bestLength then BestRun groups (i + len) (Some i) len
             else BestRun groups (i + len) bestStart bestLength
      else (bestStart, bestLength))"
  by pat_completeness auto
termination
  by (relation "measure (\<lambda>(groups, i, bestStart, bestLength). 8 - i)")
    (auto simp: ZeroRunLength_decreases)

declare BestRun.simps [simp del]

definition AddressGroups :: "byte list \<Rightarrow> 16 word list" where
  "AddressGroups bs = map (\<lambda>i. push_bit 8 (ucast (bs ! (i * 2))) OR ucast (bs ! (i * 2 + 1))) [0..<8]"

text \<open>The two loops that write the groups from \<open>first\<close> up to \<open>limit\<close>, with colons between them.\<close>

definition WriteGroups :: "16 word list \<Rightarrow> nat \<Rightarrow> nat \<Rightarrow> AnsiString \<Rightarrow> AnsiString" where
  "WriteGroups groups first limit text =
     foldl (\<lambda>text i. (if i > first then text @ '':'' else text) @ WriteGroup (groups ! i)) text
       [first..<limit]"

definition GetReadableForm :: "SPFAddress \<Rightarrow> AnsiString" where
  "GetReadableForm a =
     (if family a = FamilyIP4 then ToDottedQuad (bytes a)
      else if family a \<noteq> FamilyIP6 then []
      else
        let groups = AddressGroups (bytes a);
            (bestStart, bestLength) = BestRun groups 0 None 0;
            (bestStart, bestLength) = (if bestLength < 2 then (None, 0) else (bestStart, bestLength));
            runEnd = (case bestStart of None \<Rightarrow> 8 | Some s \<Rightarrow> s);
            text = WriteGroups groups 0 runEnd []
        in case bestStart of
             None \<Rightarrow> text
           | Some s \<Rightarrow> WriteGroups groups (s + bestLength) 8 (text @ ''::''))"

definition GetArpaLabel :: "SPFAddress \<Rightarrow> AnsiString" where
  "GetArpaLabel a =
     (case family a of FamilyIP4 \<Rightarrow> ''in-addr'' | FamilyIP6 \<Rightarrow> ''ip6'' | FamilyNone \<Rightarrow> [])"

definition GetReverseName :: "SPFAddress \<Rightarrow> AnsiString" where
  "GetReverseName a =
     (if family a = FamilyNone then []
      else
        let parts = Split (GetDottedForm a) CHR ''.'';
            name = foldl (\<lambda>name part. name @ part @ ''.'') [] (rev parts)
        in name @ GetArpaLabel a @ ''.arpa'')"

section \<open>Comparing addresses\<close>

definition MatchesPrefix :: "SPFAddress \<Rightarrow> SPFAddress \<Rightarrow> int \<Rightarrow> bool" where
  "MatchesPrefix a other prefixLength =
     (if family a = FamilyNone \<or> family a \<noteq> family other then False
      else if prefixLength < 0 \<or> prefixLength > GetBitCount a then False
      else
        let wholeBytes = nat prefixLength div 8
        in if list_ex (\<lambda>i. bytes a ! i \<noteq> bytes other ! i) [0..<wholeBytes] then False
           else
             let remainingBits = nat prefixLength mod 8
             in if remainingBits = 0 then True
                else
                  let mask = push_bit (8 - remainingBits) (0xFF :: byte)
                  in (bytes a ! wholeBytes AND mask) = (bytes other ! wholeBytes AND mask))"

definition Equals :: "SPFAddress \<Rightarrow> SPFAddress \<Rightarrow> bool" where
  "Equals a other = MatchesPrefix a other (GetBitCount a)"

section \<open>Facts: decimal numbers\<close>

definition dec_digit :: "nat \<Rightarrow> char" where
  "dec_digit n = char_of (48 + n)"

lemma dec_digit_simps [simp]:
  "n < 10 \<Longrightarrow> IsDigit (dec_digit n)"
  "n < 10 \<Longrightarrow> DigitValue (dec_digit n) = n"
  "n < 10 \<Longrightarrow> dec_digit n = CHR ''0'' \<longleftrightarrow> n = 0"
proof -
  assume n: "n < 10"
  then have *: "ord (dec_digit n) = 48 + n" by (simp add: dec_digit_def)
  with n show "IsDigit (dec_digit n)" by (simp add: IsDigit_def char_ranges)
  from * show "DigitValue (dec_digit n) = n" by (simp add: DigitValue_def)
  from * show "dec_digit n = CHR ''0'' \<longleftrightarrow> n = 0" by (simp add: char_eq_ord)
qed

lemma dec_digit_DigitValue: "IsDigit c \<Longrightarrow> dec_digit (DigitValue c) = c"
  by (simp add: dec_digit_def DigitValue_def IsDigit_def char_ranges)

lemma DigitValue_pos: "IsDigit c \<Longrightarrow> c \<noteq> CHR ''0'' \<Longrightarrow> 0 < DigitValue c"
  using dec_digit_DigitValue [of c] dec_digit_simps(3) [of "DigitValue c"] IsDigit_DigitValue [of c]
  by fastforce

lemma ToDecimal_unfold:
  "ToDecimal v =
     (if v < 10 then [dec_digit v]
      else if v < 100 then [dec_digit (v div 10), dec_digit (v mod 10)]
      else [dec_digit (v div 100), dec_digit (v div 10 mod 10), dec_digit (v mod 10)])"
  if "v < 1000"
proof -
  have loop: "ToDecimalLoop w c ds = (if w < 10 then dec_digit w # ds else
      ToDecimalLoop (w div 10) (c + 1) (dec_digit (w mod 10) # ds))" if "c < 11" for w c ds
    using that by (subst ToDecimalLoop.simps) (simp add: Let_def dec_digit_def div_greater_zero_iff)
  have "v div 10 div 10 = v div 100" by (simp flip: div_mult2_eq)
  moreover have "v div 10 < 10 \<longleftrightarrow> v < 100" "v div 100 < 10" using that by auto
  ultimately show ?thesis
    using loop [of 0 v "[]"] loop [of 1 "v div 10"] loop [of 2 "v div 100"]
    by (simp add: ToDecimal_def numeral_2_eq_2)
qed

text \<open>The numerals the grammar writes out: at most three digits, and no leading zero.\<close>

definition canonical3 :: "AnsiString \<Rightarrow> bool" where
  "canonical3 t \<longleftrightarrow> t \<noteq> [] \<and> length t \<le> 3 \<and> list_all IsDigit t \<and> \<not> (length t > 1 \<and> t ! 0 = CHR ''0'')"

lemma canonical3_ToDecimal: "n < 1000 \<Longrightarrow> canonical3 (ToDecimal n)"
  by (auto simp: ToDecimal_unfold canonical3_def)

lemma DecimalValue_ToDecimal: "n < 1000 \<Longrightarrow> DecimalValue (ToDecimal n) = n"
proof -
  assume n: "n < 1000"
  have "n div 10 div 10 = n div 100" by (simp flip: div_mult2_eq)
  then have "(n div 100 * 10 + n div 10 mod 10) * 10 + n mod 10 = n"
    by (metis div_mod_decomp)
  with n show ?thesis by (simp add: ToDecimal_unfold DecimalValue_def)
qed

lemma three_digits:
  fixes a b c :: nat
  assumes "a \<le> 9" "b \<le> 9" "c \<le> 9"
  shows "((a * 10 + b) * 10 + c) div 100 = a" "((a * 10 + b) * 10 + c) div 10 mod 10 = b"
    "((a * 10 + b) * 10 + c) mod 10 = c" "(a * 10 + b) * 10 + c < 1000"
proof -
  show "((a * 10 + b) * 10 + c) div 100 = a" using assms by (intro div_nat_eqI) auto
  have "((a * 10 + b) * 10 + c) div 10 = a * 10 + b" using assms by (intro div_nat_eqI) auto
  with assms show "((a * 10 + b) * 10 + c) div 10 mod 10 = b" by simp
  have "((a * 10 + b) * 10 + c) mod 10 = c mod 10" by (simp only: mod_mult_self3)
  with assms show "((a * 10 + b) * 10 + c) mod 10 = c" by simp
qed (use assms in auto)

lemma canonical3_value:
  assumes "canonical3 t"
  shows "DecimalValue t < 1000 \<and> ToDecimal (DecimalValue t) = t"
proof -
  consider a where "t = [a]" | a b where "t = [a, b]" | a b c where "t = [a, b, c]"
    using assms unfolding canonical3_def
    by (cases t rule: remdups_adj.cases; cases "tl (tl t)"; cases "tl (tl (tl t))") auto
  then show ?thesis
  proof cases
    case 1
    with assms show ?thesis using IsDigit_DigitValue [of a]
      by (simp add: canonical3_def DecimalValue_def ToDecimal_unfold dec_digit_DigitValue)
  next
    case 2
    with assms have d: "IsDigit a" "IsDigit b" "a \<noteq> CHR ''0''" by (auto simp: canonical3_def)
    then have "0 < DigitValue a" by (simp add: DigitValue_pos)
    with 2 d show ?thesis using IsDigit_DigitValue [of a] IsDigit_DigitValue [of b]
      by (simp add: DecimalValue_def ToDecimal_unfold dec_digit_DigitValue)
  next
    case 3
    with assms have d: "IsDigit a" "IsDigit b" "IsDigit c" "a \<noteq> CHR ''0''"
      by (auto simp: canonical3_def)
    then have "0 < DigitValue a" by (simp add: DigitValue_pos)
    moreover note three_digits [of "DigitValue a" "DigitValue b" "DigitValue c"]
    ultimately show ?thesis using 3 d IsDigit_DigitValue [OF d(1)] IsDigit_DigitValue [OF d(2)]
        IsDigit_DigitValue [OF d(3)]
      by (simp add: DecimalValue_def ToDecimal_unfold dec_digit_DigitValue)
  qed
qed

lemma canonical3_iff: "canonical3 t \<longleftrightarrow> (\<exists>n < 1000. t = ToDecimal n)"
  using canonical3_value canonical3_ToDecimal by metis

lemma IsOctet_iff: "IsOctet t \<longleftrightarrow> (\<exists>n \<le> 255. t = ToDecimal n)"
proof -
  have "IsOctet t \<longleftrightarrow> canonical3 t \<and> DecimalValue t \<le> 255"
    by (cases t) (auto simp: IsOctet_def canonical3_def)
  also have "\<dots> \<longleftrightarrow> (\<exists>n \<le> 255. t = ToDecimal n)"
  proof
    assume "canonical3 t \<and> DecimalValue t \<le> 255"
    then show "\<exists>n \<le> 255. t = ToDecimal n" using canonical3_value [of t] by metis
  next
    assume "\<exists>n \<le> 255. t = ToDecimal n"
    then obtain n where "n \<le> 255" "t = ToDecimal n" by blast
    then show "canonical3 t \<and> DecimalValue t \<le> 255"
      using canonical3_ToDecimal [of n] DecimalValue_ToDecimal [of n] by simp
  qed
  finally show ?thesis .
qed

lemma TryParsePrefixLength_iff:
  "TryParsePrefixLength t m = Some n \<longleftrightarrow> n < 1000 \<and> n \<le> m \<and> t = ToDecimal n"
proof -
  have "TryParsePrefixLength t m = Some n \<longleftrightarrow> canonical3 t \<and> DecimalValue t = n \<and> n \<le> m"
    by (auto simp: TryParsePrefixLength_def canonical3_def Let_def)
  also have "\<dots> \<longleftrightarrow> n < 1000 \<and> n \<le> m \<and> t = ToDecimal n"
    by (auto simp: canonical3_iff DecimalValue_ToDecimal)
  finally show ?thesis .
qed

section \<open>Facts: dotted quads\<close>

lemma ToDottedQuad_eq:
  "ToDottedQuad bs = join ''.'' (map (\<lambda>i. ToDecimal (unat (bs ! i))) [0, 1, 2, 3])"
  by (simp add: ToDottedQuad_def upt_rec numeral_2_eq_2 numeral_3_eq_3)

lemma unat_byte_le: "unat (b :: byte) \<le> 255"
proof -
  have "unat b < 2 ^ LENGTH(8)" by (rule unsigned_less)
  then show ?thesis by simp
qed

lemma ToDecimal_digits: "n < 1000 \<Longrightarrow> c \<in> set (ToDecimal n) \<Longrightarrow> IsDigit c"
  using canonical3_ToDecimal [of n] by (simp add: canonical3_def list_all_iff)

lemma ToDecimal_no_dot: "n < 1000 \<Longrightarrow> CHR ''.'' \<notin> set (ToDecimal n)"
  using ToDecimal_digits [of n "CHR ''.''"] IsDigit_not_special by blast

lemma byte_lt_1000 [simp]: "unat (b :: byte) < 1000"
  using unat_byte_le [of b] by simp

lemma Split_ToDottedQuad:
  "Split (ToDottedQuad bs) CHR ''.'' = map (\<lambda>i. ToDecimal (unat (bs ! i))) [0, 1, 2, 3]"
  unfolding ToDottedQuad_eq by (rule Split_join) (auto simp: ToDecimal_no_dot)

lemma IsValidIP4Network_ToDottedQuad: "IsValidIP4Network (ToDottedQuad bs)"
  by (auto simp: IsValidIP4Network_def Split_ToDottedQuad IsOctet_iff intro: unat_byte_le)

lemma IsValidIP4Network_iff: "IsValidIP4Network t \<longleftrightarrow> (\<exists>a b c d. t = ToDottedQuad [a, b, c, d])"
proof
  assume valid: "IsValidIP4Network t"
  then obtain p q r s where parts: "Split t CHR ''.'' = [p, q, r, s]"
    and octets: "IsOctet p" "IsOctet q" "IsOctet r" "IsOctet s"
    by (auto simp: IsValidIP4Network_def Let_def dest!: list_length_4 split: if_splits)
  have "\<exists>b :: byte. oct = ToDecimal (unat b)" if "IsOctet oct" for oct
  proof -
    from that obtain n where "n \<le> 255" "oct = ToDecimal n" by (auto simp: IsOctet_iff)
    then have "oct = ToDecimal (unat (word_of_nat n :: byte))" by (simp add: unat_of_nat)
    then show ?thesis ..
  qed
  then obtain a b c d :: byte where "p = ToDecimal (unat a)" "q = ToDecimal (unat b)"
    "r = ToDecimal (unat c)" "s = ToDecimal (unat d)" using octets by metis
  moreover have "t = join ''.'' [p, q, r, s]" using join_Split [of "CHR ''.''" t] parts by simp
  ultimately have "t = ToDottedQuad [a, b, c, d]" by (simp add: ToDottedQuad_eq)
  then show "\<exists>a b c d. t = ToDottedQuad [a, b, c, d]" by blast
qed (auto simp: IsValidIP4Network_ToDottedQuad)

lemma ReadIP4_ToDottedQuad:
  assumes "4 \<le> length bs" "length q = 4"
  shows "ReadIP4 (ToDottedQuad q) bs = q @ drop 4 bs"
proof -
  from assms(2) obtain a b c d where q: "q = [a, b, c, d]" using list_length_4 by blast
  from assms(1) obtain w x y z zs where "bs = w # x # y # z # zs"
    by (cases bs rule: remdups_adj.cases; cases "tl (tl bs)"; cases "tl (tl (tl bs))") auto
  with q show ?thesis
    by (simp add: ReadIP4_def Split_ToDottedQuad DecimalValue_ToDecimal)
qed

section \<open>Facts: hexadecimal groups\<close>

lemma LOWER_HEX_DIGITS_nth:
  "n < 16 \<Longrightarrow> IsHexDigit (LOWER_HEX_DIGITS ! n) \<and> HexValue (LOWER_HEX_DIGITS ! n) = int n"
proof -
  assume "n < 16"
  then have "n \<in> set [0..<16]" by simp
  moreover have "\<forall>n \<in> set [0..<16].
      IsHexDigit (LOWER_HEX_DIGITS ! n) \<and> HexValue (LOWER_HEX_DIGITS ! n) = int n" by code_simp
  ultimately show ?thesis by blast
qed

lemma shift_or_nibble: "0 \<le> h \<Longrightarrow> h < 16 \<Longrightarrow> (push_bit 4 v) OR h = 16 * v + (h :: int)"
proof -
  assume h: "0 \<le> h" "h < 16"
  then have take: "take_bit 4 h = h" by (simp add: take_bit_int_eq_self)
  have "n < 4" if "bit h n" for n
    using that take by (metis bit_take_bit_iff)
  then have "\<not> bit h n" if "4 \<le> n" for n
    using that by (meson not_less)
  then have "push_bit 4 v AND h = 0"
    by (intro bit_eqI) (auto simp: bit_and_iff bit_push_bit_iff)
  then have "push_bit 4 v + h = (push_bit 4 v) OR h" by (rule disjunctive_add_eq_or)
  then show ?thesis by (simp add: push_bit_eq_mult mult.commute)
qed

lemma HexGroupValue_snoc:
  "HexGroupValue (w @ [c]) = (push_bit 4 (HexGroupValue w)) OR (HexValue c)"
  by (simp add: HexGroupValue_def)

lemma HexGroupValue_Nil [simp]: "HexGroupValue [] = 0"
  by (simp add: HexGroupValue_def)

text \<open>
  \<open>WriteGroup\<close> starts with the first nonzero nibble, or writes the last one. Its loop is followed
  with the invariant that the text read back is the value of the nibbles passed.
\<close>

definition write_nibble :: "16 word \<Rightarrow> AnsiString \<Rightarrow> nat \<Rightarrow> AnsiString" where
  "write_nibble g t shift =
     (let nibble = unat (drop_bit shift g AND 0x0F)
      in if nibble = 0 \<and> t = [] \<and> shift > 0 then t else t @ [LOWER_HEX_DIGITS ! nibble])"

lemma nibble_lt: "unat (drop_bit shift (g :: 16 word) AND 0x0F) < 16"
proof -
  have "drop_bit shift g AND 0x0F \<le> 0x0F" by (rule word_and_le1)
  then have "unat (drop_bit shift g AND 0x0F) \<le> unat (0x0F :: 16 word)"
    by (rule word_le_nat_alt [THEN iffD1])
  then show ?thesis by simp
qed

lemma uint_nibble_lt: "uint (drop_bit shift (g :: 16 word) AND 0x0F) < 16"
  using nibble_lt [of shift g] by (metis of_nat_less_iff of_nat_numeral of_nat_unat)

lemma drop_bit_nibble:
  "unat (drop_bit k (g :: 16 word)) = 16 * unat (drop_bit (k + 4) g) + unat (drop_bit k g AND 0x0F)"
proof -
  have "drop_bit k g AND 0x0F = take_bit 4 (drop_bit k g)"
    by (simp add: take_bit_eq_mask mask_eq_exp_minus_1)
  then have "unat (drop_bit k g AND 0x0F) = unat (drop_bit k g) mod 16"
    by (simp only: unsigned_take_bit_eq) (simp add: take_bit_eq_mod)
  moreover have "unat (drop_bit (k + 4) g) = unat (drop_bit k g) div 16"
    by (simp only: unat_drop_bit_eq) (simp add: drop_bit_eq_div power_add div_mult2_eq)
  ultimately show ?thesis by simp
qed

lemma write_nibble_inv:
  assumes "HexGroupValue t = int (unat (drop_bit (k + 4) g))" "list_all IsHexDigit t"
  shows "HexGroupValue (write_nibble g t k) = int (unat (drop_bit k g)) \<and>
    list_all IsHexDigit (write_nibble g t k) \<and> length (write_nibble g t k) \<le> length t + 1"
proof (cases "unat (drop_bit k g AND 0x0F) = 0 \<and> t = [] \<and> k > 0")
  case True
  with assms drop_bit_nibble [of k g] show ?thesis by (simp add: write_nibble_def Let_def)
next
  case False
  note hex = LOWER_HEX_DIGITS_nth [OF nibble_lt, of k g]
  have "push_bit 4 (HexGroupValue t) OR HexValue (LOWER_HEX_DIGITS ! unat (drop_bit k g AND 0x0F))
      = 16 * HexGroupValue t + int (unat (drop_bit k g AND 0x0F))"
    using hex uint_nibble_lt [of k g] by (subst shift_or_nibble) simp_all
  also have "\<dots> = int (unat (drop_bit k g))"
    using assms(1) drop_bit_nibble [of k g] by simp
  moreover have "write_nibble g t k = t @ [LOWER_HEX_DIGITS ! unat (drop_bit k g AND 0x0F)]"
    unfolding write_nibble_def Let_def by (rule if_not_P [OF False])
  ultimately show ?thesis using assms(2) hex by (simp only: HexGroupValue_snoc) simp
qed

lemma unat_group_lt: "unat (g :: 16 word) < 65536"
proof -
  have "unat g < 2 ^ LENGTH(16)" by (rule unsigned_less)
  then show ?thesis by simp
qed

lemma WriteGroup_correct:
  "HexGroupValue (WriteGroup g) = int (unat g)" "IsHexGroup (WriteGroup g)"
proof -
  define t1 where "t1 = write_nibble g [] 12"
  define t2 where "t2 = write_nibble g t1 8"
  define t3 where "t3 = write_nibble g t2 4"
  have W: "WriteGroup g = write_nibble g t3 0"
    by (simp add: WriteGroup_def t1_def t2_def t3_def write_nibble_def)
  have 0: "unat (drop_bit 16 g) = 0"
    by (simp only: unat_drop_bit_eq) (simp add: drop_bit_eq_div unat_group_lt)
  note 1 = write_nibble_inv [of "[]" 12 g, folded t1_def]
  note 2 = write_nibble_inv [of t1 8 g, folded t2_def]
  note 3 = write_nibble_inv [of t2 4 g, folded t3_def]
  note 4 = write_nibble_inv [of t3 0 g, folded W]
  show "HexGroupValue (WriteGroup g) = int (unat g)" using 0 1 2 3 4 by simp
  have "WriteGroup g \<noteq> []" unfolding W by (simp add: write_nibble_def)
  then show "IsHexGroup (WriteGroup g)" using 0 1 2 3 4
    by (cases "WriteGroup g") (auto simp: IsHexGroup_def)
qed

lemma WriteGroup_read: "word_of_int (HexGroupValue (WriteGroup g)) = g"
  by (simp add: WriteGroup_correct(1))

lemma IsHexGroupD: "IsHexGroup w \<Longrightarrow> w \<noteq> [] \<and> CHR ''.'' \<notin> set w \<and> CHR '':'' \<notin> set w"
  using IsHexDigit_not_special by (fastforce simp: IsHexGroup_def list_all_iff split: if_splits)

lemmas WriteGroup_text = WriteGroup_correct(2) [THEN IsHexGroupD]

section \<open>Facts: groups and bytes\<close>

definition group_bytes :: "16 word \<Rightarrow> byte list" where
  "group_bytes g = [ucast (drop_bit 8 g), ucast (g AND 0xFF)]"

lemma length_concat_group_bytes [simp]: "length (concat (map group_bytes gs)) = 2 * length gs"
  by (induction gs) (auto simp: group_bytes_def)

lemma StoreGroups_eq:
  "2 * (k + length gs) \<le> length bs \<Longrightarrow>
   StoreGroups gs k bs = take (2 * k) bs @ concat (map group_bytes gs) @ drop (2 * (k + length gs)) bs"
proof (induction gs k bs rule: StoreGroups.induct)
  case (1 k bs)
  then show ?case by simp
next
  case (2 g gs k bs)
  let ?bs = "bs[k * 2 := ucast (drop_bit 8 g), k * 2 + 1 := ucast (g AND 0xFF)]"
  have "take (2 * (k + 1)) ?bs = take (2 * k) bs @ group_bytes g"
    using "2.prems" by (simp add: take_Suc_snoc group_bytes_def mult.commute nth_list_update)
  moreover have "drop (2 * (k + 1 + length gs)) ?bs = drop (2 * (k + 1 + length gs)) bs"
    by simp
  ultimately show ?case using "2.IH" "2.prems" by simp
qed

lemma group_bytes_0 [simp]: "group_bytes 0 = [0, 0]"
  by (simp add: group_bytes_def)

lemma group_bytes_QuadGroup: "group_bytes (QuadGroup hi lo) = [hi, lo]"
proof -
  have "ucast (drop_bit 8 (QuadGroup hi lo)) = hi"
    by (rule bit_eqI) (auto simp: QuadGroup_def bit_simps dest: bit_imp_le_length)
  moreover have "ucast (QuadGroup hi lo AND 0xFF) = lo"
  proof -
    have "(0xFF :: 16 word) = mask 8" by (simp add: mask_eq_exp_minus_1)
    moreover have "ucast (QuadGroup hi lo AND mask 8) = lo"
      by (rule bit_eqI) (auto simp: QuadGroup_def bit_simps bit_mask_iff simp del: mask_numeral)
    ultimately show ?thesis by simp
  qed
  ultimately show ?thesis by (simp add: group_bytes_def)
qed

lemma AddressGroups_eq: "AddressGroups bs = map (\<lambda>i. QuadGroup (bs ! (i * 2)) (bs ! (i * 2 + 1))) [0..<8]"
  by (simp add: AddressGroups_def QuadGroup_def)

lemma length_AddressGroups [simp]: "length (AddressGroups bs) = 8"
  by (simp add: AddressGroups_def)

lemma concat_AddressGroups: "length bs = 16 \<Longrightarrow> concat (map group_bytes (AddressGroups bs)) = bs"
proof -
  assume len: "length bs = 16"
  have upt: "[0..<8] = [0, 1, 2, 3, 4, 5, 6, 7]" by (simp add: upt_rec)
  have upt16: "[0..<16] = [0, 1, 2, 3, 4, 5, 6, 7, 8, 9, 10, 11, 12, 13, 14, 15]"
    by (simp add: upt_rec)
  have "concat (map group_bytes (AddressGroups bs)) = map ((!) bs) [0..<16]"
    unfolding AddressGroups_eq upt upt16 by (simp add: group_bytes_QuadGroup)
  also have "\<dots> = bs" using len map_nth [of bs] by simp
  finally show ?thesis .
qed

section \<open>Facts: the run of zero groups\<close>

definition zero_run :: "16 word list \<Rightarrow> nat \<Rightarrow> nat \<Rightarrow> bool" where
  "zero_run groups s l \<longleftrightarrow> s + l \<le> 8 \<and> (\<forall>j < l. groups ! (s + j) = 0)"

lemma ZeroRunLength_spec:
  "zero_run groups i len \<Longrightarrow>
   zero_run groups i (ZeroRunLength groups i len) \<and> \<not> zero_run groups i (ZeroRunLength groups i len + 1)"
proof (induction groups i len rule: ZeroRunLength.induct)
  case (1 groups i len)
  show ?case
  proof (cases "i + len < 8 \<and> groups ! (i + len) = 0")
    case True
    with "1.prems" have "zero_run groups i (len + 1)" by (auto simp: zero_run_def less_Suc_eq)
    with "1.IH" [OF True] True show ?thesis by (simp add: ZeroRunLength.simps [of groups i len])
  next
    case False
    with "1.prems" show ?thesis
      by (auto simp: ZeroRunLength.simps [of groups i len] zero_run_def)
  qed
qed

lemma zero_run_mono: "zero_run groups s l \<Longrightarrow> l' \<le> l \<Longrightarrow> zero_run groups s l'"
  by (auto simp: zero_run_def)

lemma ZeroRunLength_max: "i \<le> 8 \<Longrightarrow> zero_run groups i l \<Longrightarrow> l \<le> ZeroRunLength groups i 0"
proof (rule ccontr)
  assume i: "i \<le> 8" and l: "zero_run groups i l" "\<not> l \<le> ZeroRunLength groups i 0"
  then have "zero_run groups i (ZeroRunLength groups i 0 + 1)" by (auto elim: zero_run_mono)
  moreover have "zero_run groups i 0" using i by (simp add: zero_run_def)
  ultimately show False using ZeroRunLength_spec [of groups i 0] by simp
qed

text \<open>
  What the scan has established when it stands at \<open>i\<close>: the best run so far is a run, no run that
  starts before \<open>i\<close> is longer, and none that starts before the best one is as long.
\<close>

definition best_until :: "16 word list \<Rightarrow> nat \<Rightarrow> nat option \<Rightarrow> nat \<Rightarrow> bool" where
  "best_until groups i bs bl \<longleftrightarrow>
     (case bs of
        None \<Rightarrow> bl = 0
      | Some s \<Rightarrow> s < i \<and> 0 < bl \<and> zero_run groups s bl \<and> (\<forall>s' < s. \<not> zero_run groups s' bl)) \<and>
     (\<forall>s' l'. s' < i \<longrightarrow> zero_run groups s' l' \<longrightarrow> l' \<le> bl)"

lemma best_until_skip:
  assumes "best_until groups i bs bl" "groups ! i \<noteq> 0"
  shows "best_until groups (i + 1) bs bl"
proof -
  have "l' = 0" if "zero_run groups i l'" for l'
    using that assms(2) by (cases l') (auto simp: zero_run_def dest: spec [of _ 0])
  with assms(1) show ?thesis
    by (auto simp: best_until_def less_Suc_eq split: option.splits)
qed

text \<open>A run that starts inside the run just measured is shorter than it.\<close>

lemma zero_run_inside:
  assumes "zero_run groups (i + j) l'" "j \<le> ZeroRunLength groups i 0" "i \<le> 8"
  shows "j + l' \<le> ZeroRunLength groups i 0"
proof -
  from ZeroRunLength_spec [of groups i 0] assms(3)
  have run: "zero_run groups i (ZeroRunLength groups i 0)" by (simp add: zero_run_def)
  have "groups ! (i + k) = 0" if "k < j + l'" for k
  proof (cases "k < j")
    case True
    with run assms(2) show ?thesis by (auto simp: zero_run_def)
  next
    case False
    with that have "k - j < l'" by simp
    with assms(1) have "groups ! (i + j + (k - j)) = 0" by (simp only: zero_run_def)
    with False show ?thesis by simp
  qed
  with assms(1) have "zero_run groups i (j + l')" by (auto simp: zero_run_def)
  with assms(3) show ?thesis by (rule ZeroRunLength_max)
qed

lemma best_until_run:
  assumes "best_until groups i bs bl" "groups ! i = 0" "i < 8"
  defines "l \<equiv> ZeroRunLength groups i 0"
  shows "if l > bl then best_until groups (i + l) (Some i) l else best_until groups (i + l) bs bl"
proof -
  from ZeroRunLength_spec [of groups i 0] assms(3)
  have run: "zero_run groups i l" by (simp add: zero_run_def l_def)
  have pos: "0 < l" using ZeroRunLength_pos assms(2,3) by (simp add: l_def)
  have inside: "l' \<le> l" if "i \<le> s'" "s' < i + l" "zero_run groups s' l'" for s' l'
  proof -
    have "s' - i + l' \<le> l"
      using zero_run_inside [of groups i "s' - i" l'] that assms(3) by (simp add: l_def)
    then show ?thesis by simp
  qed
  have before: "l' \<le> bl" if "s' < i" "zero_run groups s' l'" for s' l'
    using assms(1) that by (auto simp: best_until_def)
  show ?thesis
  proof (cases "l > bl")
    case True
    then have "\<not> zero_run groups s' l" if "s' < i" for s'
      using before [OF that] by (meson not_le)
    moreover have "l' \<le> l" if "s' < i + l" "zero_run groups s' l'" for s' l'
      using before [of s' l'] inside [of s' l'] that True by (cases "s' < i") auto
    ultimately show ?thesis using True run pos by (simp add: best_until_def)
  next
    case False
    then have "l' \<le> bl" if "s' < i + l" "zero_run groups s' l'" for s' l'
      using before [of s' l'] inside [of s' l'] that by (cases "s' < i") auto
    with assms(1) False show ?thesis by (auto simp: best_until_def split: option.splits)
  qed
qed

lemma BestRun_best_until:
  "best_until groups i bs bl \<Longrightarrow> i \<le> 8 \<Longrightarrow> BestRun groups i bs bl = (s, l) \<Longrightarrow> best_until groups 8 s l"
proof (induction groups i bs bl rule: BestRun.induct)
  case (1 groups i bs bl)
  show ?case
  proof (cases "i < 8")
    case False
    then have "BestRun groups i bs bl = (bs, bl)" by (subst BestRun.simps) simp
    with "1.prems" False show ?thesis by simp
  next
    case i: True
    show ?thesis
    proof (cases "groups ! i \<noteq> 0")
      case True
      with i "1.prems"(3) have "BestRun groups (i + 1) bs bl = (s, l)"
        by (simp add: BestRun.simps [of groups i])
      with "1.IH"(1) [OF i True best_until_skip [OF "1.prems"(1) True]] i show ?thesis by simp
    next
      case False
      have run: "i + ZeroRunLength groups i 0 \<le> 8"
        using ZeroRunLength_spec [of groups i 0] i by (simp add: zero_run_def)
      show ?thesis
      proof (cases "ZeroRunLength groups i 0 > bl")
        case True
        then have "BestRun groups (i + ZeroRunLength groups i 0) (Some i) (ZeroRunLength groups i 0) = (s, l)"
          using i False "1.prems"(3) by (simp add: BestRun.simps [of groups i] Let_def)
        with "1.IH"(2) [OF i False refl True] best_until_run [OF "1.prems"(1) _ i] run True False
        show ?thesis by simp
      next
        case le: False
        then have "BestRun groups (i + ZeroRunLength groups i 0) bs bl = (s, l)"
          using i False "1.prems"(3) by (simp add: BestRun.simps [of groups i] Let_def)
        with "1.IH"(3) [OF i False refl le] best_until_run [OF "1.prems"(1) _ i] run le False
        show ?thesis by simp
      qed
    qed
  qed
qed

lemma BestRun_best: "BestRun groups 0 None 0 = (s, l) \<Longrightarrow> best_until groups 8 s l"
  by (rule BestRun_best_until [of groups 0]) (auto simp: best_until_def)

section \<open>Facts: finding the double colon\<close>

fun no_double :: "'a \<Rightarrow> 'a list \<Rightarrow> bool" where
  "no_double c (x # y # zs) = (\<not> (x = c \<and> y = c) \<and> no_double c (y # zs))"
| "no_double c zs = True"

lemma Find_str_double_None: "no_double c s \<Longrightarrow> Find_str s [c, c] = None"
  by (induction c s rule: no_double.induct) auto

lemma Find_str_double_hit:
  "no_double c x \<Longrightarrow> x = [] \<or> last x \<noteq> c \<Longrightarrow> Find_str (x @ c # c # y) [c, c] = Some (length x)"
  by (induction c x rule: no_double.induct) auto

lemma no_double_free: "c \<notin> set s \<Longrightarrow> no_double c s"
  by (induction c s rule: no_double.induct) auto

lemma no_double_append_sep:
  "x \<noteq> [] \<Longrightarrow> c \<notin> set x \<Longrightarrow> no_double c t \<Longrightarrow> t \<noteq> [] \<Longrightarrow> hd t \<noteq> c \<Longrightarrow> no_double c (x @ c # t)"
  by (induction c x rule: no_double.induct) (auto simp: neq_Nil_conv)

definition colon_parts :: "char \<Rightarrow> AnsiString list \<Rightarrow> bool" where
  "colon_parts c ps \<longleftrightarrow> (\<forall>p \<in> set ps. p \<noteq> [] \<and> c \<notin> set p)"

lemma join_colon_parts:
  "colon_parts c ps \<Longrightarrow> ps \<noteq> [] \<Longrightarrow>
   no_double c (join [c] ps) \<and> join [c] ps \<noteq> [] \<and> hd (join [c] ps) \<noteq> c \<and> last (join [c] ps) \<noteq> c"
proof (induction "[c]" ps rule: join.induct)
  case (2 x)
  then show ?case by (auto simp: colon_parts_def no_double_free)
next
  case (3 x y zs)
  then have IH: "no_double c (join [c] (y # zs))" "join [c] (y # zs) \<noteq> []"
    "hd (join [c] (y # zs)) \<noteq> c" "last (join [c] (y # zs)) \<noteq> c" and x: "x \<noteq> []" "c \<notin> set x"
    by (auto simp: colon_parts_def)
  then have "hd x \<noteq> c" by (metis hd_in_set)
  with IH x show ?case by (simp add: no_double_append_sep)
qed simp

section \<open>Facts: the written groups read back\<close>

lemma WriteGroups_eq:
  "WriteGroups groups first limit t = t @ join '':'' (map (\<lambda>i. WriteGroup (groups ! i)) [first..<limit])"
proof (induction limit)
  case 0
  then show ?case by (simp add: WriteGroups_def)
next
  case (Suc limit)
  have step: "WriteGroups groups first (Suc limit) t =
      (if first \<le> limit
       then (if limit > first then WriteGroups groups first limit t @ '':'' else WriteGroups groups first limit t)
            @ WriteGroup (groups ! limit)
       else t)"
    by (simp add: WriteGroups_def)
  show ?case
  proof (cases "first < limit")
    case True
    then have "map (\<lambda>i. WriteGroup (groups ! i)) [first..<limit] \<noteq> []" by simp
    with True step Suc show ?thesis by (simp add: join_snoc)
  next
    case False
    with step Suc show ?thesis by (cases "first = limit") auto
  qed
qed

lemma colon_parts_WriteGroup: "colon_parts CHR '':'' (map WriteGroup gs)"
  using WriteGroup_text by (auto simp: colon_parts_def)

definition side_text :: "16 word list \<Rightarrow> AnsiString" where
  "side_text gs = join '':'' (map WriteGroup gs)"

lemma ReadIP6GroupsLoop_WriteGroup:
  "ReadIP6GroupsLoop (map WriteGroup gs) acc = acc @ gs"
proof (induction gs arbitrary: acc)
  case Nil
  then show ?case by simp
next
  case (Cons g gs)
  then show ?case using WriteGroup_text [of g] by (simp add: WriteGroup_read)
qed

lemma Split_side_text: "gs \<noteq> [] \<Longrightarrow> Split (side_text gs) CHR '':'' = map WriteGroup gs"
  unfolding side_text_def using WriteGroup_text by (intro Split_join) auto

lemma side_text_Nil [simp]: "side_text [] = []"
  by (simp add: side_text_def)

lemma side_text_facts:
  "no_double CHR '':'' (side_text gs) \<and> (side_text gs = [] \<longleftrightarrow> gs = []) \<and>
   (gs \<noteq> [] \<longrightarrow> last (side_text gs) \<noteq> CHR '':'')"
  using join_colon_parts [OF colon_parts_WriteGroup, of gs] by (cases "gs = []") (auto simp: side_text_def)

lemma ReadIP6Groups_side_text: "ReadIP6Groups (side_text gs) = gs"
  using side_text_facts [of gs]
  by (cases "gs = []") (auto simp: ReadIP6Groups_def Split_side_text ReadIP6GroupsLoop_WriteGroup)

lemma CountIP6Groups_WriteGroup: "CountIP6Groups (map WriteGroup gs) n = Some (n + length gs)"
proof (induction gs arbitrary: n)
  case Nil
  then show ?case by simp
next
  case (Cons g gs)
  then show ?case using WriteGroup_text [of g] WriteGroup_correct(2) [of g] by simp
qed

lemma full_text_reads:
  assumes "length gs = 8"
  shows "IsValidIP6Network (side_text gs)"
    and "ReadIP6 (side_text gs) = Some (concat (map group_bytes gs))"
proof -
  from assms have ne: "gs \<noteq> []" "side_text gs \<noteq> []" using side_text_facts [of gs] by auto
  have find: "Find_str (side_text gs) ''::'' = None"
    using side_text_facts [of gs] by (simp add: Find_str_double_None)
  from find ne assms show "IsValidIP6Network (side_text gs)"
    by (simp add: IsValidIP6Network_def Split_side_text CountIP6Groups_WriteGroup)
  have "ReadIP6Groups [] = []" by (simp add: ReadIP6Groups_def)
  with find assms show "ReadIP6 (side_text gs) = Some (concat (map group_bytes gs))"
    by (simp add: ReadIP6_def ReadIP6Groups_side_text StoreGroups_eq)
qed

lemma concat_group_bytes_zeros: "concat (replicate n [0, 0]) = replicate (2 * n) (0 :: byte)"
  by (induction n) auto

lemma compressed_text_reads:
  assumes "length hs + length ts \<le> 7"
  defines "t \<equiv> side_text hs @ ''::'' @ side_text ts"
  shows "IsValidIP6Network t"
    and "ReadIP6 t = Some (concat (map group_bytes (hs @ replicate (8 - length hs - length ts) 0 @ ts)))"
proof -
  have find: "Find_str t ''::'' = Some (length (side_text hs))"
    unfolding t_def using side_text_facts [of hs] by (auto simp: Find_str_double_hit)
  have after: "Find_str (side_text ts) ''::'' = None"
    using side_text_facts [of ts] by (simp add: Find_str_double_None)
  have parts: "take (length (side_text hs)) t = side_text hs"
    "drop (length (side_text hs) + 2) t = side_text ts" by (simp_all add: t_def)
  have "(if side_text hs \<noteq> [] then Split (side_text hs) CHR '':'' else []) = map WriteGroup hs"
    "(if side_text ts \<noteq> [] then Split (side_text ts) CHR '':'' else []) = map WriteGroup ts"
    using side_text_facts by (auto simp: Split_side_text)
  then show "IsValidIP6Network t" using find after parts assms(1) CountIP6Groups_WriteGroup [of "hs @ ts" 0]
    by (simp add: IsValidIP6Network_def)
  let ?z = "replicate 16 (0 :: byte)"
  have "StoreGroups ts (8 - length ts) (StoreGroups hs 0 ?z) =
      concat (map group_bytes hs) @ replicate (16 - 2 * length hs - 2 * length ts) 0 @ concat (map group_bytes ts)"
    using assms(1) by (simp add: StoreGroups_eq diff_mult_distrib2)
  moreover have "16 - 2 * length hs - 2 * length ts = 2 * (8 - length hs - length ts)" by simp
  ultimately show "ReadIP6 t = Some (concat (map group_bytes (hs @ replicate (8 - length hs - length ts) 0 @ ts)))"
    using find parts assms(1)
    by (simp add: ReadIP6_def ReadIP6Groups_side_text concat_group_bytes_zeros)
qed

lemma not_IP4_if_colon: "CHR '':'' \<in> set t \<Longrightarrow> \<not> IsValidIP4Network t"
proof
  assume colon: "CHR '':'' \<in> set t" and "IsValidIP4Network t"
  then obtain a b c d where "t = ToDottedQuad [a, b, c, d]" by (auto simp: IsValidIP4Network_iff)
  moreover have "CHR '':'' \<notin> set (ToDecimal (unat x))" for x :: byte
    using ToDecimal_digits [of "unat x" "CHR '':''"] IsDigit_not_special [of "CHR '':''"] by auto
  ultimately show False using colon by (auto simp: ToDottedQuad_eq)
qed

section \<open>Facts: the readable form\<close>

text \<open>The groups as \<^verbatim>\<open>GetReadableForm\<close> leaves them: what is before the run and what is after it.\<close>

lemma readable_form_cases:
  assumes "family a = FamilyIP6"
  defines "gs \<equiv> AddressGroups (bytes a)"
  obtains (full) "GetReadableForm a = side_text gs" "\<forall>s. \<not> zero_run gs s 2"
  | (short) s l where "GetReadableForm a = side_text (take s gs) @ ''::'' @ side_text (drop (s + l) gs)"
      "best_until gs 8 (Some s) l" "2 \<le> l"
proof -
  obtain bs bl where best: "BestRun gs 0 None 0 = (bs, bl)" by fastforce
  then have bu: "best_until gs 8 bs bl" by (rule BestRun_best)
  have whole: "map (\<lambda>i. WriteGroup (gs ! i)) [i..<j] = map WriteGroup (take (j - i) (drop i gs))"
    if "j \<le> 8" for i j
    using that by (auto intro!: nth_equalityI simp: gs_def)
  show thesis
  proof (cases "bl < 2")
    case True
    have "\<not> zero_run gs s 2" for s
    proof
      assume run: "zero_run gs s 2"
      then have "s < 8" by (simp add: zero_run_def)
      with bu run have "2 \<le> bl" by (auto simp: best_until_def)
      with True show False by simp
    qed
    moreover have "GetReadableForm a = side_text gs"
      using assms(1) best True whole [of 8 0]
      by (simp add: GetReadableForm_def Let_def WriteGroups_eq side_text_def gs_def)
    ultimately show thesis using full by blast
  next
    case False
    with bu obtain s where s: "bs = Some s" by (cases bs) (auto simp: best_until_def)
    with bu have sl: "s + bl \<le> 8" by (auto simp: best_until_def zero_run_def)
    have "GetReadableForm a = side_text (take s gs) @ ''::'' @ side_text (drop (s + bl) gs)"
      using assms(1) best False s sl whole [of s 0] whole [of 8 "s + bl"]
      by (simp add: GetReadableForm_def Let_def WriteGroups_eq side_text_def gs_def)
    with short bu s False show thesis by simp
  qed
qed

definition wf_address :: "SPFAddress \<Rightarrow> bool" where
  "wf_address a \<longleftrightarrow> length (bytes a) = 16 \<and>
     (case family a of
        FamilyNone \<Rightarrow> bytes a = replicate 16 0
      | FamilyIP4 \<Rightarrow> drop 4 (bytes a) = replicate 12 0
      | FamilyIP6 \<Rightarrow> \<not> IsIP4Mapped (bytes a))"

lemma zero_run_replicate:
  assumes "zero_run gs s l" "length gs = 8"
  shows "gs = take s gs @ replicate l 0 @ drop (s + l) gs"
proof -
  have "take l (drop s gs) = replicate l 0"
    using assms by (auto intro!: nth_equalityI simp: zero_run_def)
  then show ?thesis by (metis append_take_drop_id drop_drop add.commute)
qed

lemma ReadIP6_GetReadableForm:
  assumes "family a = FamilyIP6" "length (bytes a) = 16"
  shows "IsValidIP6Network (GetReadableForm a) \<and> ReadIP6 (GetReadableForm a) = Some (bytes a) \<and>
    CHR '':'' \<in> set (GetReadableForm a)"
  using assms(1)
proof (cases a rule: readable_form_cases)
  case full
  have "side_text (AddressGroups (bytes a)) = join '':'' (map WriteGroup (AddressGroups (bytes a)))"
    by (simp add: side_text_def)
  then have "CHR '':'' \<in> set (side_text (AddressGroups (bytes a)))"
    by (simp add: AddressGroups_eq upt_rec)
  with full full_text_reads [of "AddressGroups (bytes a)"] concat_AddressGroups [OF assms(2)]
  show ?thesis by simp
next
  case (short s l)
  let ?gs = "AddressGroups (bytes a)"
  from short(2) have run: "zero_run ?gs s l" by (simp add: best_until_def)
  then have sl: "s + l \<le> 8" by (simp add: zero_run_def)
  have "?gs = take s ?gs @ replicate l 0 @ drop (s + l) ?gs"
    using zero_run_replicate [OF run] by simp
  then have whole: "concat (map group_bytes (take s ?gs @ replicate l 0 @ drop (s + l) ?gs)) = bytes a"
    using concat_AddressGroups [OF assms(2)] by simp
  have "8 - length (take s ?gs) - length (drop (s + l) ?gs) = l" using sl by simp
  with compressed_text_reads [of "take s ?gs" "drop (s + l) ?gs"] sl short(3) whole short(1)
  show ?thesis by simp
qed

lemma TryParse_wf:
  assumes "TryParse t = Some a"
  shows "wf_address a \<and> family a \<noteq> FamilyNone"
proof (cases "IsValidIP4Network t")
  case True
  then obtain p q r s where "t = ToDottedQuad [p, q, r, s]" by (auto simp: IsValidIP4Network_iff)
  with True assms show ?thesis
    by (auto simp: TryParse_def wf_address_def SPFAddress_init_def ReadIP4_ToDottedQuad)
next
  case False
  with assms obtain bs where bs: "ReadIP6 t = Some bs" by (auto simp: TryParse_def split: if_splits option.splits)
  then have "length bs = 16"
    by (auto simp: ReadIP6_def Let_def StoreGroups_eq split: if_splits prod.splits)
  with False assms bs show ?thesis
    by (auto simp: TryParse_def wf_address_def SPFAddress_init_def split: if_splits)
qed

lemma TryParse_GetReadableForm:
  assumes "wf_address a" "family a \<noteq> FamilyNone"
  shows "TryParse (GetReadableForm a) = Some a"
proof (cases "family a")
  case FamilyIP4
  let ?q = "take 4 (bytes a)"
  from assms FamilyIP4 have len: "length ?q = 4" and rest: "drop 4 (bytes a) = replicate 12 0"
    by (auto simp: wf_address_def)
  have "ToDottedQuad ?q = ToDottedQuad (bytes a)" by (simp add: ToDottedQuad_eq)
  then have "ReadIP4 (ToDottedQuad (bytes a)) (replicate 16 0) = ?q @ drop 4 (bytes a)"
    using ReadIP4_ToDottedQuad [of "replicate 16 0" ?q] len rest by simp
  with FamilyIP4 show ?thesis
    by (simp add: TryParse_def GetReadableForm_def IsValidIP4Network_ToDottedQuad SPFAddress_init_def)
next
  case FamilyIP6
  with assms have "length (bytes a) = 16" "\<not> IsIP4Mapped (bytes a)" by (auto simp: wf_address_def)
  with ReadIP6_GetReadableForm [OF FamilyIP6] FamilyIP6 show ?thesis
    by (simp add: TryParse_def not_IP4_if_colon SPFAddress_init_def)
qed (use assms in simp)

section \<open>Facts: the literals the grammar accepts are the ones the reader reads\<close>

lemma ReadIP6GroupsLoop_length:
  "CountIP6Groups ws n = Some m \<Longrightarrow> length (ReadIP6GroupsLoop ws gs) + n = length gs + m"
proof (induction ws arbitrary: n gs)
  case Nil
  then show ?case by simp
next
  case (Cons w ws)
  show ?case
  proof (cases "CHR ''.'' \<in> set w")
    case True
    with Cons.prems have "ws = []" "m = n + 2"
      by (auto split: if_splits dest: IsHexGroupD)
    with True show ?thesis by (simp add: Let_def)
  next
    case False
    with Cons.prems have "CountIP6Groups ws (n + 1) = Some m" by (auto split: if_splits)
    with Cons.IH [of "n + 1" "gs @ [word_of_int (HexGroupValue w)]"] False show ?thesis by simp
  qed
qed

lemma CountIP6Groups_append:
  "CountIP6Groups (xs @ ys) n = Some m \<Longrightarrow>
   \<exists>k. CountIP6Groups xs n = Some k \<and> CountIP6Groups ys k = Some m"
proof (induction xs arbitrary: n)
  case Nil
  then show ?case by simp
next
  case (Cons x xs)
  then show ?case by (cases "xs = []") (auto split: if_splits dest: IsHexGroupD)
qed

lemma ReadIP6_if_valid: "IsValidIP6Network t \<Longrightarrow> \<exists>bs. ReadIP6 t = Some bs"
proof -
  assume valid: "IsValidIP6Network t"
  define before where "before = (case Find_str t ''::'' of None \<Rightarrow> t | Some i \<Rightarrow> take i t)"
  define after where "after = (case Find_str t ''::'' of None \<Rightarrow> [] | Some i \<Rightarrow> drop (i + 2) t)"
  define side where "side s = (if s \<noteq> [] then Split s CHR '':'' else [])" for s
  from valid obtain m where m: "CountIP6Groups (side before @ side after) 0 = Some m"
    "if Find_str t ''::'' \<noteq> None then m \<le> 7 else m = 8"
    by (auto simp: IsValidIP6Network_def before_def after_def side_def Let_def
        split: option.splits if_splits prod.splits)
  then obtain k where "CountIP6Groups (side before) 0 = Some k" "CountIP6Groups (side after) k = Some m"
    using CountIP6Groups_append by blast
  then have "length (ReadIP6Groups before) = k" "length (ReadIP6Groups after) + k = m"
    using ReadIP6GroupsLoop_length [of "side before" 0 k "[]"] ReadIP6GroupsLoop_length [of "side after" k m "[]"]
    by (auto simp: ReadIP6Groups_def side_def)
  with m(2) show ?thesis
    by (auto simp: ReadIP6_def before_def after_def Let_def split: option.splits if_splits)
qed

lemma TryParse_iff_valid: "TryParse t \<noteq> None \<longleftrightarrow> IsValidIP4Network t \<or> IsValidIP6Network t"
  using ReadIP6_if_valid [of t] by (auto simp: TryParse_def)

section \<open>Facts: prefixes\<close>

text \<open>Bit \<open>i\<close> of an address, counted from the most significant bit of the first byte.\<close>

definition address_bit :: "SPFAddress \<Rightarrow> nat \<Rightarrow> bool" where
  "address_bit a i = bit (bytes a ! (i div 8)) (7 - i mod 8)"

lemma byte_eq_iff_bits: "(x :: byte) = y \<longleftrightarrow> (\<forall>j < 8. bit x (7 - j) = bit y (7 - j))"
proof
  assume all: "\<forall>j < 8. bit x (7 - j) = bit y (7 - j)"
  show "x = y"
  proof (rule bit_eqI)
    fix n assume "possible_bit TYPE(8 word) n"
    then have "n < 8" by simp
    then have "7 - n < 8" "7 - (7 - n) = n" by auto
    with all show "bit x n = bit y n" by metis
  qed
qed simp

lemma masked_byte_eq_iff_bits:
  assumes "0 < r" "r < 8"
  shows "(x AND push_bit (8 - r) 0xFF) = (y AND push_bit (8 - r) (0xFF :: byte)) \<longleftrightarrow>
    (\<forall>j < r. bit x (7 - j) = bit y (7 - j))"
proof -
  have m: "(0xFF :: byte) = mask 8" by (simp add: mask_eq_exp_minus_1)
  have mask: "bit (push_bit (8 - r) (0xFF :: byte)) n \<longleftrightarrow> 8 - r \<le> n" if "n < 8" for n
    unfolding m using that by (auto simp: bit_simps bit_mask_iff simp del: mask_numeral)
  have "(x AND push_bit (8 - r) 0xFF) = (y AND push_bit (8 - r) (0xFF :: byte)) \<longleftrightarrow>
      (\<forall>j < 8. 8 - r \<le> 7 - j \<longrightarrow> bit x (7 - j) = bit y (7 - j))"
    unfolding byte_eq_iff_bits by (auto simp: bit_and_iff mask)
  also have "\<dots> \<longleftrightarrow> (\<forall>j < r. bit x (7 - j) = bit y (7 - j))"
    using assms by (auto; (drule_tac x = j in spec)?; simp)
  finally show ?thesis .
qed

text \<open>The whole bytes of a prefix and its remaining bits together are its first bits.\<close>

lemma prefix_split:
  fixes P :: "nat \<Rightarrow> bool"
  shows "(\<forall>i < n. P i) \<longleftrightarrow> (\<forall>w < n div 8. \<forall>j < 8. P (w * 8 + j)) \<and> (\<forall>j < n mod 8. P (n div 8 * 8 + j))"
proof
  assume all: "\<forall>i < n. P i"
  have "w * 8 + j < n" if "w < n div 8" "j < 8" for w j
  proof -
    from that have "w * 8 + j < (w + 1) * 8" by simp
    also have "\<dots> \<le> n div 8 * 8" using that by (intro mult_right_mono) auto
    finally show ?thesis using div_mult_mod_eq [of n 8] by linarith
  qed
  moreover have "n div 8 * 8 + j < n" if "j < n mod 8" for j
    using that div_mult_mod_eq [of n 8] by linarith
  ultimately show "(\<forall>w < n div 8. \<forall>j < 8. P (w * 8 + j)) \<and> (\<forall>j < n mod 8. P (n div 8 * 8 + j))"
    using all by blast
next
  assume parts: "(\<forall>w < n div 8. \<forall>j < 8. P (w * 8 + j)) \<and> (\<forall>j < n mod 8. P (n div 8 * 8 + j))"
  show "\<forall>i < n. P i"
  proof (intro allI impI)
    fix i assume "i < n"
    then have "i div 8 < n div 8 \<or> i div 8 = n div 8 \<and> i mod 8 < n mod 8"
      by (metis div_le_mono div_mult_mod_eq less_or_eq_imp_le linorder_neqE_nat nat_add_left_cancel_less
          le_neq_implies_less)
    moreover have "P (w * 8 + j)" if "w < n div 8" "j < 8" for w j using parts that by blast
    moreover have "P (n div 8 * 8 + j)" if "j < n mod 8" for j using parts that by blast
    moreover have "i mod 8 < 8" by simp
    ultimately show "P i" by (metis div_mult_mod_eq)
  qed
qed

lemma address_bit_at: "j < 8 \<Longrightarrow> address_bit a (w * 8 + j) = bit (bytes a ! w) (7 - j)"
  by (simp add: address_bit_def)

lemma MatchesPrefix_iff:
  "MatchesPrefix a b n \<longleftrightarrow>
     family a \<noteq> FamilyNone \<and> family a = family b \<and> 0 \<le> n \<and> n \<le> GetBitCount a \<and>
     (\<forall>i < nat n. address_bit a i = address_bit b i)"
proof (cases "family a \<noteq> FamilyNone \<and> family a = family b \<and> 0 \<le> n \<and> n \<le> GetBitCount a")
  case False
  then show ?thesis by (auto simp: MatchesPrefix_def)
next
  case True
  let ?w = "nat n div 8" and ?r = "nat n mod 8"
  have "(\<forall>i < nat n. address_bit a i = address_bit b i) \<longleftrightarrow>
      (\<forall>i < ?w. bytes a ! i = bytes b ! i) \<and>
      (\<forall>j < ?r. bit (bytes a ! ?w) (7 - j) = bit (bytes b ! ?w) (7 - j))"
    unfolding prefix_split [of "nat n"] byte_eq_iff_bits
    by (simp add: address_bit_at)
  moreover have "MatchesPrefix a b n \<longleftrightarrow>
      (\<forall>i < ?w. bytes a ! i = bytes b ! i) \<and>
      (?r = 0 \<or> (bytes a ! ?w AND push_bit (8 - ?r) 0xFF) = (bytes b ! ?w AND push_bit (8 - ?r) 0xFF))"
    using True by (auto simp: MatchesPrefix_def Let_def list_ex_iff)
  ultimately show ?thesis using True masked_byte_eq_iff_bits [of ?r "bytes a ! ?w" "bytes b ! ?w"]
    by (cases "?r = 0") auto
qed

lemma Equals_iff:
  assumes "wf_address a" "wf_address b" "family a \<noteq> FamilyNone"
  shows "Equals a b \<longleftrightarrow> a = b"
proof
  assume eq: "Equals a b"
  then have fam: "family a = family b" by (simp add: Equals_def MatchesPrefix_iff)
  have bits: "\<forall>i < nat (GetBitCount a). address_bit a i = address_bit b i"
    using eq by (simp add: Equals_def MatchesPrefix_iff)
  have first: "bytes a ! w = bytes b ! w" if "w < nat (GetBitCount a) div 8" for w
    using bits that unfolding prefix_split [of "nat (GetBitCount a)"] byte_eq_iff_bits
    by (simp add: address_bit_at)
  have "bytes a ! w = bytes b ! w" if "w < 16" for w
  proof (cases "w < nat (GetBitCount a) div 8")
    case False
    with that assms fam have "family a = FamilyIP4" "4 \<le> w"
      by (auto simp: GetBitCount_def split: Family.splits)
    then have "bytes c ! w = drop 4 (bytes c) ! (w - 4)" if "length (bytes c) = 16" for c
      using that \<open>w < 16\<close> by simp
    moreover have "length (bytes a) = 16" "length (bytes b) = 16"
      "drop 4 (bytes a) = replicate 12 0" "drop 4 (bytes b) = replicate 12 0"
      using assms(1,2) fam \<open>family a = FamilyIP4\<close> by (auto simp: wf_address_def)
    ultimately show ?thesis by metis
  qed (simp add: first)
  then have "bytes a = bytes b" using assms(1,2) by (auto simp: wf_address_def intro: nth_equalityI)
  with fam show "a = b" by simp
next
  assume "a = b"
  with assms(3) show "Equals a b"
    by (auto simp: Equals_def MatchesPrefix_iff GetBitCount_def split: Family.splits)
qed

section \<open>Properties\<close>

text \<open>
  C15: writing an address and reading it back gives the address: the readable form of every IPv4
  address and of every IPv6 address that is not an IPv4-mapped one, which the reader turns into IPv4.
\<close>

theorem address_text_round_trip:
  "wf_address a \<Longrightarrow> family a \<noteq> FamilyNone \<Longrightarrow> TryParse (GetReadableForm a) = Some a"
  by (rule TryParse_GetReadableForm)

theorem address_text_round_trip_witness:
  "GetReadableForm \<lparr> family = FamilyIP6, bytes = [0x20, 1, 0xd, 0xb8, 0, 0, 0, 0, 0, 1, 0, 0, 0, 0, 0, 1] \<rparr> = ''2001:db8::1:0:0:1'' \<and>
   TryParse ''2001:db8::1:0:0:1'' =
     Some \<lparr> family = FamilyIP6, bytes = [0x20, 1, 0xd, 0xb8, 0, 0, 0, 0, 0, 1, 0, 0, 0, 0, 0, 1] \<rparr>"
proof -
  let ?a = "\<lparr> family = FamilyIP6, bytes = [0x20, 1, 0xd, 0xb8, 0, 0, 0, 0, 0, 1, 0, 0, 0, 0, 0, 1] \<rparr>"
  have "wf_address ?a" by code_simp
  then have "TryParse (GetReadableForm ?a) = Some ?a" by (rule address_text_round_trip) simp
  moreover have "GetReadableForm ?a = ''2001:db8::1:0:0:1''" by code_simp
  ultimately show ?thesis by simp
qed

text \<open>
  a text is read as an address exactly when it is in the grammar of section 12 for one, and what is
  read is a well formed address of one of the two families.
\<close>

theorem address_read_iff_grammar:
  "(TryParse t \<noteq> None \<longleftrightarrow> IsValidIP4Network t \<or> IsValidIP6Network t) \<and>
   (\<forall>a. TryParse t = Some a \<longrightarrow> wf_address a \<and> family a \<noteq> FamilyNone)"
  using TryParse_iff_valid TryParse_wf by blast

theorem address_read_iff_grammar_witness:
  "IsValidIP6Network ''::ffff:192.0.2.1'' \<and> (\<exists>a. TryParse ''::ffff:192.0.2.1'' = Some a \<and> wf_address a)"
proof -
  have "IsValidIP6Network ''::ffff:192.0.2.1''" by code_simp
  with address_read_iff_grammar [of "''::ffff:192.0.2.1''"] show ?thesis by auto
qed

text \<open>
  an address matches a network to a prefix length exactly when both are of one family, the length
  is one of that family, and the leading bits that the length counts are equal.
\<close>

theorem prefix_match_is_bitwise:
  "MatchesPrefix a b n \<longleftrightarrow>
     family a \<noteq> FamilyNone \<and> family a = family b \<and> 0 \<le> n \<and> n \<le> GetBitCount a \<and>
     (\<forall>i < nat n. address_bit a i = address_bit b i)"
  by (rule MatchesPrefix_iff)

theorem prefix_match_is_bitwise_witness:
  "MatchesPrefix \<lparr> family = FamilyIP4, bytes = 10 # 1 # 200 # replicate 13 0 \<rparr>
     \<lparr> family = FamilyIP4, bytes = 10 # 1 # 192 # replicate 13 0 \<rparr> 20 \<and>
   address_bit \<lparr> family = FamilyIP4, bytes = 10 # 1 # 200 # replicate 13 0 \<rparr> 19 =
   address_bit \<lparr> family = FamilyIP4, bytes = 10 # 1 # 192 # replicate 13 0 \<rparr> 19"
proof -
  let ?a = "\<lparr> family = FamilyIP4, bytes = 10 # 1 # 200 # replicate 13 0 \<rparr>"
  let ?b = "\<lparr> family = FamilyIP4, bytes = 10 # 1 # 192 # replicate 13 0 \<rparr>"
  have m: "MatchesPrefix ?a ?b 20" by code_simp
  then have "\<forall>i < nat 20. address_bit ?a i = address_bit ?b i" using prefix_match_is_bitwise by blast
  then have "address_bit ?a 19 = address_bit ?b 19" by (rule allE [of _ 19]) simp
  with m show ?thesis by blast
qed

text \<open>
  the run of zero groups the readable form leaves out is the longest there is, and the first of the
  longest, as RFC 5952 section 4.2.3 asks; no run is found only where no group is zero.
\<close>

theorem best_run_is_first_longest:
  "BestRun groups 0 None 0 = (start, len) \<Longrightarrow>
   (\<forall>s l. s < 8 \<longrightarrow> zero_run groups s l \<longrightarrow> l \<le> len) \<and>
   (case start of
      None \<Rightarrow> len = 0
    | Some s \<Rightarrow> s < 8 \<and> 0 < len \<and> zero_run groups s len \<and> (\<forall>s' < s. \<not> zero_run groups s' len))"
  using BestRun_best [of groups start len] by (auto simp: best_until_def split: option.splits)

theorem best_run_is_first_longest_witness:
  "BestRun [1, 0, 0, 1, 0, 0, 1, 0] 0 None 0 = (Some 1, 2) \<and> zero_run [1, 0, 0, 1, 0, 0, 1, 0] 1 2"
proof -
  have "BestRun [1, 0, 0, 1, 0, 0, 1, 0] 0 None 0 = (Some 1, 2)" by code_simp
  with best_run_is_first_longest [of "[1, 0, 0, 1, 0, 0, 1, 0]" "Some 1" 2] show ?thesis by simp
qed

text \<open>
  a dotted quad and a prefix length are accepted only as the code itself would write them: four
  octets in plain decimal, and a length of at most three digits that is within its maximum. No leading
  zero, sign or empty number is read.
\<close>

theorem decimals_are_canonical:
  "(IsValidIP4Network t \<longleftrightarrow> (\<exists>a b c d. t = ToDottedQuad [a, b, c, d])) \<and>
   (TryParsePrefixLength t m = Some n \<longleftrightarrow> n < 1000 \<and> n \<le> m \<and> t = ToDecimal n)"
  by (simp add: IsValidIP4Network_iff TryParsePrefixLength_iff)

text \<open>
  the address grammar takes a dotted quad that stands before a trailing double colon, although the
  quad may only be the last group of an address: the quad is the last group that is written, and the
  address that is read has it in front.
\<close>

theorem quad_before_compression:
  "IsValidIP6Network ''1.2.3.4::'' \<and>
   TryParse ''1.2.3.4::'' = Some \<lparr> family = FamilyIP6, bytes = [1, 2, 3, 4] @ replicate 12 0 \<rparr>"
  by code_simp

end
