(* ===== verification/SPF_Record.thy ===== *)
theory SPF_Record
  imports SPF_Address
begin

text \<open>
  An SPF record as published, SMTP/SPF/SPFRecord.h and SPFRecord.cpp: the mechanisms and modifiers a
  record holds and the parser that reads one. A parser step of the source that returns false and
  fills its \<^verbatim>\<open>error\<close> argument is \<open>Inl\<close> of that text, one that returns true is \<open>Inr\<close> of the record as it
  stands; the source's callers never look at the record of a failed step.
\<close>

section \<open>Mechanisms and records\<close>

datatype MechanismType =
  TypeAll | TypeInclude | TypeA | TypeMX | TypePTR | TypeIP4 | TypeIP6 | TypeExists

datatype Qualifier = QualifierPass | QualifierFail | QualifierSoftFail | QualifierNeutral

record SPFMechanism =
  mechanism_type :: MechanismType
  qualifier :: Qualifier
  domain_spec :: AnsiString
  has_domain_spec :: bool
  address :: AnsiString
  ip4_prefix_length :: nat
  ip6_prefix_length :: nat

definition SPFMechanism_init :: "MechanismType \<Rightarrow> Qualifier \<Rightarrow> SPFMechanism" where
  "SPFMechanism_init ty q =
     \<lparr> mechanism_type = ty, qualifier = q, domain_spec = [], has_domain_spec = False,
       address = [], ip4_prefix_length = 32, ip6_prefix_length = 128 \<rparr>"

definition SetDomainSpec :: "AnsiString \<Rightarrow> SPFMechanism \<Rightarrow> SPFMechanism" where
  "SetDomainSpec domainSpec m = m\<lparr> domain_spec := domainSpec, has_domain_spec := True \<rparr>"

record SPFRecord =
  mechanisms :: "SPFMechanism list"
  has_redirect :: bool
  redirect_domain_spec :: AnsiString
  has_explanation :: bool
  explanation_domain_spec :: AnsiString

definition SPFRecord_init :: SPFRecord where
  "SPFRecord_init =
     \<lparr> mechanisms = [], has_redirect = False, redirect_domain_spec = [],
       has_explanation = False, explanation_domain_spec = [] \<rparr>"

abbreviation push_mechanism :: "SPFMechanism \<Rightarrow> SPFRecord \<Rightarrow> SPFRecord" where
  "push_mechanism m r \<equiv> r\<lparr> mechanisms := mechanisms r @ [m] \<rparr>"

section \<open>Text helpers\<close>

definition VERSION :: AnsiString where
  "VERSION = ''v=spf1''"

definition VERSION_LENGTH :: nat where
  "VERSION_LENGTH = 6"

definition EqualsNoCase :: "AnsiString \<Rightarrow> AnsiString \<Rightarrow> bool" where
  "EqualsNoCase left right = (CompareNoCase left right = 0)"

definition StartsWithNoCase :: "AnsiString \<Rightarrow> AnsiString \<Rightarrow> bool" where
  "StartsWithNoCase text wanted =
     (if length text < length wanted then False
      else CompareNoCase (Left text (length wanted)) wanted = 0)"

fun SplitTermsLoop :: "AnsiString \<Rightarrow> AnsiString \<Rightarrow> AnsiString list \<Rightarrow> AnsiString list" where
  "SplitTermsLoop [] current terms = (if current \<noteq> [] then terms @ [current] else terms)"
| "SplitTermsLoop (c # cs) current terms =
     (if c = CHR '' ''
      then SplitTermsLoop cs [] (if current \<noteq> [] then terms @ [current] else terms)
      else SplitTermsLoop cs (current @ [c]) terms)"

definition SplitTerms :: "AnsiString \<Rightarrow> AnsiString list" where
  "SplitTerms text = SplitTermsLoop text [] []"

text \<open>The slash before a trailing run of digits, and the digits. \<open>None\<close> is the source's -1.\<close>

definition FindTrailingLength :: "AnsiString \<Rightarrow> (nat \<times> AnsiString) option" where
  "FindTrailingLength term =
     (case ReverseFind term CHR ''/'' of
        None \<Rightarrow> None
      | Some slash \<Rightarrow>
          let ds = Mid term (slash + 1)
          in if ds = [] then None
             else if list_ex (\<lambda>c. c < CHR ''0'' \<or> c > CHR ''9'') ds then None
             else Some (slash, ds))"

text \<open>
  The term without its lengths and the two lengths, each as it was passed in where none is written;
  \<open>None\<close> is the source's false.
\<close>

definition TryReadDualPrefixLengths :: "AnsiString \<Rightarrow> nat \<Rightarrow> nat \<Rightarrow> (AnsiString \<times> nat \<times> nat) option" where
  "TryReadDualPrefixLengths term ip4Length ip6Length =
     (case FindTrailingLength term of
        None \<Rightarrow> Some (term, ip4Length, ip6Length)
      | Some (slash, ds) \<Rightarrow>
          if slash = 0 \<or> term ! (slash - 1) \<noteq> CHR ''/'' then
            (case TryParsePrefixLength ds 32 of
               None \<Rightarrow> None
             | Some ip4Length \<Rightarrow> Some (Left term slash, ip4Length, ip6Length))
          else
            (case TryParsePrefixLength ds 128 of
               None \<Rightarrow> None
             | Some ip6Length \<Rightarrow>
                 let term = Left term (slash - 1)
                 in case FindTrailingLength term of
                      None \<Rightarrow> Some (term, ip4Length, ip6Length)
                    | Some (previous, moreDigits) \<Rightarrow>
                        if previous > 0 \<and> term ! (previous - 1) = CHR ''/'' then None
                        else
                          (case TryParsePrefixLength moreDigits 32 of
                             None \<Rightarrow> None
                           | Some ip4Length \<Rightarrow> Some (Left term previous, ip4Length, ip6Length))))"

definition TryReadSinglePrefixLength :: "AnsiString \<Rightarrow> nat \<Rightarrow> nat \<Rightarrow> (AnsiString \<times> nat) option" where
  "TryReadSinglePrefixLength term maximumLength len =
     (case FindTrailingLength term of
        None \<Rightarrow> Some (term, len)
      | Some (slash, ds) \<Rightarrow>
          if slash > 0 \<and> term ! (slash - 1) = CHR ''/'' then None
          else
            (case TryParsePrefixLength ds maximumLength of
               None \<Rightarrow> None
             | Some len \<Rightarrow> Some (Left term slash, len)))"

definition HasVersionTag :: "AnsiString \<Rightarrow> bool" where
  "HasVersionTag textRecord =
     (if \<not> StartsWithNoCase textRecord VERSION then False
      else length textRecord = VERSION_LENGTH \<or> textRecord ! VERSION_LENGTH = CHR '' '')"

section \<open>Parsing the mechanisms\<close>

definition ParseAll :: "Qualifier \<Rightarrow> AnsiString \<Rightarrow> SPFRecord \<Rightarrow> AnsiString + SPFRecord" where
  "ParseAll q remainder r =
     (if remainder \<noteq> [] then Inl ''The all mechanism takes no argument.''
      else Inr (push_mechanism (SPFMechanism_init TypeAll q) r))"

definition ParseWithRequiredDomain ::
  "MechanismType \<Rightarrow> Qualifier \<Rightarrow> AnsiString \<Rightarrow> SPFRecord \<Rightarrow> AnsiString + SPFRecord" where
  "ParseWithRequiredDomain ty q remainder r =
     (if remainder = [] \<or> remainder ! 0 \<noteq> CHR '':'' then Inl ''The mechanism needs a domain.''
      else
        let domainSpec = Mid remainder 1
        in if \<not> IsValidDomainSpec domainSpec then Inl (''Not a valid domain: '' @ domainSpec)
           else Inr (push_mechanism (SetDomainSpec domainSpec (SPFMechanism_init ty q)) r))"

definition ParseAddressMechanism ::
  "MechanismType \<Rightarrow> Qualifier \<Rightarrow> AnsiString \<Rightarrow> SPFRecord \<Rightarrow> AnsiString + SPFRecord" where
  "ParseAddressMechanism ty q remainder r =
     (case TryReadDualPrefixLengths remainder 32 128 of
        None \<Rightarrow> Inl (''Not a valid prefix length: '' @ remainder)
      | Some (rest, ip4Length, ip6Length) \<Rightarrow>
          let m = (SPFMechanism_init ty q)
                    \<lparr> ip4_prefix_length := ip4Length, ip6_prefix_length := ip6Length \<rparr>
          in if rest \<noteq> [] then
               if rest ! 0 \<noteq> CHR '':'' then Inl (''Not a valid mechanism argument: '' @ remainder)
               else
                 let domainSpec = Mid rest 1
                 in if \<not> IsValidDomainSpec domainSpec
                    then Inl (''Not a valid domain: '' @ domainSpec)
                    else Inr (push_mechanism (SetDomainSpec domainSpec m) r)
             else Inr (push_mechanism m r))"

definition ParsePtr :: "Qualifier \<Rightarrow> AnsiString \<Rightarrow> SPFRecord \<Rightarrow> AnsiString + SPFRecord" where
  "ParsePtr q remainder r =
     (let m = SPFMechanism_init TypePTR q
      in if remainder \<noteq> [] then
           if remainder ! 0 \<noteq> CHR '':'' then Inl (''Not a valid ptr argument: '' @ remainder)
           else
             let domainSpec = Mid remainder 1
             in if \<not> IsValidDomainSpec domainSpec
                then Inl (''Not a valid domain: '' @ domainSpec)
                else Inr (push_mechanism (SetDomainSpec domainSpec m) r)
         else Inr (push_mechanism m r))"

definition ParseIP ::
  "MechanismType \<Rightarrow> Qualifier \<Rightarrow> AnsiString \<Rightarrow> SPFRecord \<Rightarrow> AnsiString + SPFRecord" where
  "ParseIP ty q remainder r =
     (if remainder = [] \<or> remainder ! 0 \<noteq> CHR '':'' then Inl ''The mechanism needs an address.''
      else
        let m = SPFMechanism_init ty q;
            rest = Mid remainder 1
        in if ty = TypeIP4 then
             (case TryReadSinglePrefixLength rest 32 32 of
                None \<Rightarrow> Inl (''Not a valid IPv4 prefix length: '' @ remainder)
              | Some (rest, ip4Length) \<Rightarrow>
                  if \<not> IsValidIP4Network rest then Inl (''Not a valid IPv4 address: '' @ rest)
                  else Inr (push_mechanism (m\<lparr> ip4_prefix_length := ip4Length, address := rest \<rparr>) r))
           else
             (case TryReadSinglePrefixLength rest 128 128 of
                None \<Rightarrow> Inl (''Not a valid IPv6 prefix length: '' @ remainder)
              | Some (rest, ip6Length) \<Rightarrow>
                  if \<not> IsValidIP6Network rest then Inl (''Not a valid IPv6 address: '' @ rest)
                  else Inr (push_mechanism (m\<lparr> ip6_prefix_length := ip6Length, address := rest \<rparr>) r)))"

section \<open>Parsing terms\<close>

definition ParseModifier :: "AnsiString \<Rightarrow> AnsiString \<Rightarrow> SPFRecord \<Rightarrow> AnsiString + SPFRecord" where
  "ParseModifier name value r =
     (if \<not> IsValidModifierName name then Inl (''Not a valid modifier name: '' @ name)
      else if EqualsNoCase name ''redirect'' then
        (if has_redirect r then Inl ''The record carries more than one redirect modifier.''
         else if \<not> IsValidDomainSpec value then Inl (''Not a valid redirect domain: '' @ value)
         else Inr (r\<lparr> has_redirect := True, redirect_domain_spec := value \<rparr>))
      else if EqualsNoCase name ''exp'' then
        (if has_explanation r then Inl ''The record carries more than one exp modifier.''
         else if \<not> IsValidDomainSpec value then Inl (''Not a valid exp domain: '' @ value)
         else Inr (r\<lparr> has_explanation := True, explanation_domain_spec := value \<rparr>))
      else if \<not> IsValidMacroString value RecordTerm then Inl (''Not a valid modifier value: '' @ value)
      else Inr r)"

definition TakeQualifier :: "AnsiString \<Rightarrow> Qualifier \<times> AnsiString" where
  "TakeQualifier rest =
     (case rest of
        [] \<Rightarrow> (QualifierPass, rest)
      | c # _ \<Rightarrow>
          if c = CHR ''+'' then (QualifierPass, Mid rest 1)
          else if c = CHR ''-'' then (QualifierFail, Mid rest 1)
          else if c = CHR ''~'' then (QualifierSoftFail, Mid rest 1)
          else if c = CHR ''?'' then (QualifierNeutral, Mid rest 1)
          else (QualifierPass, rest))"

text \<open>The first colon or slash, where a mechanism's name ends.\<close>

fun FindNameEnd :: "AnsiString \<Rightarrow> nat option" where
  "FindNameEnd [] = None"
| "FindNameEnd (c # cs) =
     (if c \<noteq> CHR '':'' \<and> c \<noteq> CHR ''/'' then map_option Suc (FindNameEnd cs) else Some 0)"

definition ParseDirective :: "AnsiString \<Rightarrow> SPFRecord \<Rightarrow> AnsiString + SPFRecord" where
  "ParseDirective term r =
     (let (q, rest) = TakeQualifier term;
          (name, remainder) =
            (case FindNameEnd rest of
               None \<Rightarrow> (rest, [])
             | Some i \<Rightarrow> (Left rest i, Mid rest i))
      in if EqualsNoCase name ''all'' then ParseAll q remainder r
         else if EqualsNoCase name ''include'' then ParseWithRequiredDomain TypeInclude q remainder r
         else if EqualsNoCase name ''exists'' then ParseWithRequiredDomain TypeExists q remainder r
         else if EqualsNoCase name ''a'' then ParseAddressMechanism TypeA q remainder r
         else if EqualsNoCase name ''mx'' then ParseAddressMechanism TypeMX q remainder r
         else if EqualsNoCase name ''ptr'' then ParsePtr q remainder r
         else if EqualsNoCase name ''ip4'' then ParseIP TypeIP4 q remainder r
         else if EqualsNoCase name ''ip6'' then ParseIP TypeIP6 q remainder r
         else Inl (''Unknown term: '' @ term))"

text \<open>
  The equals sign that makes a term a modifier: one that comes before any colon or slash.
\<close>

fun FindModifierEquals :: "AnsiString \<Rightarrow> nat option" where
  "FindModifierEquals [] = None"
| "FindModifierEquals (c # cs) =
     (if c = CHR '':'' \<or> c = CHR ''/'' then None
      else if c \<noteq> CHR ''='' then map_option Suc (FindModifierEquals cs)
      else Some 0)"

definition ParseTerm :: "AnsiString \<Rightarrow> SPFRecord \<Rightarrow> AnsiString + SPFRecord" where
  "ParseTerm term r =
     (case FindModifierEquals term of
        Some i \<Rightarrow> ParseModifier (Left term i) (Mid term (i + 1)) r
      | None \<Rightarrow> ParseDirective term r)"

fun ParseTerms :: "AnsiString list \<Rightarrow> SPFRecord \<Rightarrow> AnsiString + SPFRecord" where
  "ParseTerms [] r = Inr r"
| "ParseTerms (term # terms) r =
     (case ParseTerm term r of Inl e \<Rightarrow> Inl e | Inr r \<Rightarrow> ParseTerms terms r)"

definition Parse :: "AnsiString \<Rightarrow> AnsiString + SPFRecord" where
  "Parse textRecord =
     (if \<not> HasVersionTag textRecord then Inl ''The record does not begin with the SPF version.''
      else if \<not> IsAsciiPrintable textRecord
      then Inl ''The record contains a byte which is not printable ASCII.''
      else ParseTerms (drop 1 (SplitTerms textRecord)) SPFRecord_init)"

section \<open>Well-formed records\<close>

text \<open>
  What the parser promises of a mechanism: the fields its type may carry, each of them valid, the
  others at their defaults. The prefix lengths are within the family's bits, and an address literal
  is one the reader of addresses reads.
\<close>

definition wf_mechanism :: "SPFMechanism \<Rightarrow> bool" where
  "wf_mechanism m \<longleftrightarrow>
     ip4_prefix_length m \<le> 32 \<and> ip6_prefix_length m \<le> 128 \<and>
     (if has_domain_spec m then IsValidDomainSpec (domain_spec m) else domain_spec m = []) \<and>
     (case mechanism_type m of
        TypeAll \<Rightarrow> \<not> has_domain_spec m
      | TypeInclude \<Rightarrow> has_domain_spec m
      | TypeExists \<Rightarrow> has_domain_spec m
      | TypeIP4 \<Rightarrow> \<not> has_domain_spec m
      | TypeIP6 \<Rightarrow> \<not> has_domain_spec m
      | _ \<Rightarrow> True) \<and>
     (case mechanism_type m of
        TypeIP4 \<Rightarrow> IsValidIP4Network (address m)
      | TypeIP6 \<Rightarrow> IsValidIP6Network (address m)
      | _ \<Rightarrow> address m = []) \<and>
     (mechanism_type m \<in> {TypeA, TypeMX, TypeIP4} \<or> ip4_prefix_length m = 32) \<and>
     (mechanism_type m \<in> {TypeA, TypeMX, TypeIP6} \<or> ip6_prefix_length m = 128)"

definition wf_record :: "SPFRecord \<Rightarrow> bool" where
  "wf_record r \<longleftrightarrow>
     list_all wf_mechanism (mechanisms r) \<and>
     (if has_redirect r then IsValidDomainSpec (redirect_domain_spec r) else redirect_domain_spec r = []) \<and>
     (if has_explanation r then IsValidDomainSpec (explanation_domain_spec r)
      else explanation_domain_spec r = [])"

lemmas wf_defs = wf_mechanism_def wf_record_def SPFMechanism_init_def SetDomainSpec_def

lemma wf_record_init: "wf_record SPFRecord_init"
  by (simp add: wf_record_def SPFRecord_init_def)

lemma wf_push: "wf_record r \<Longrightarrow> wf_mechanism m \<Longrightarrow> wf_record (push_mechanism m r)"
  by (simp add: wf_record_def)

lemma wf_plain:
  "ty \<in> {TypeAll, TypeA, TypeMX, TypePTR} \<Longrightarrow> wf_mechanism (SPFMechanism_init ty q)"
  by (auto simp: wf_defs)

lemma wf_domain:
  "ty \<in> {TypeInclude, TypeExists, TypeA, TypeMX, TypePTR} \<Longrightarrow> IsValidDomainSpec d \<Longrightarrow>
   wf_mechanism (SetDomainSpec d (SPFMechanism_init ty q))"
  by (auto simp: wf_defs)

lemma wf_lengths:
  "wf_mechanism m \<Longrightarrow> mechanism_type m \<in> {TypeA, TypeMX} \<Longrightarrow> i \<le> 32 \<Longrightarrow> j \<le> 128 \<Longrightarrow>
   wf_mechanism (m\<lparr> ip4_prefix_length := i, ip6_prefix_length := j \<rparr>)"
  by (auto simp: wf_mechanism_def)

lemma TryReadDualPrefixLengths_bounds:
  "TryReadDualPrefixLengths term i j = Some (rest, i', j') \<Longrightarrow> i \<le> 32 \<Longrightarrow> j \<le> 128 \<Longrightarrow> i' \<le> 32 \<and> j' \<le> 128"
  by (auto simp: TryReadDualPrefixLengths_def TryParsePrefixLength_iff Let_def
      split: option.splits prod.splits if_splits)

lemma TryReadSinglePrefixLength_bounds:
  "TryReadSinglePrefixLength term m i = Some (rest, i') \<Longrightarrow> i \<le> m \<Longrightarrow> i' \<le> m"
  by (auto simp: TryReadSinglePrefixLength_def TryParsePrefixLength_iff
      split: option.splits prod.splits if_splits)

lemma ParseAll_wf: "ParseAll q rem r = Inr r' \<Longrightarrow> wf_record r \<Longrightarrow> wf_record r'"
  by (auto simp: ParseAll_def wf_push wf_plain split: if_splits)

lemma ParseWithRequiredDomain_wf:
  "ParseWithRequiredDomain ty q rem r = Inr r' \<Longrightarrow> ty \<in> {TypeInclude, TypeExists} \<Longrightarrow> wf_record r \<Longrightarrow>
   wf_record r'"
  by (auto simp: ParseWithRequiredDomain_def Let_def wf_push wf_domain split: if_splits)

lemma ParsePtr_wf: "ParsePtr q rem r = Inr r' \<Longrightarrow> wf_record r \<Longrightarrow> wf_record r'"
  by (auto simp: ParsePtr_def Let_def wf_push wf_plain wf_domain split: if_splits)

lemma ParseAddressMechanism_wf:
  assumes "ParseAddressMechanism ty q rem r = Inr r'" "ty \<in> {TypeA, TypeMX}" "wf_record r"
  shows "wf_record r'"
proof -
  from assms(1) obtain rest i j where read: "TryReadDualPrefixLengths rem 32 128 = Some (rest, i, j)"
    by (auto simp: ParseAddressMechanism_def split: option.splits)
  then have "i \<le> 32 \<and> j \<le> 128" by (rule TryReadDualPrefixLengths_bounds) auto
  with assms read show ?thesis
    by (auto simp: ParseAddressMechanism_def Let_def wf_defs split: if_splits)
qed

lemma ParseIP_wf:
  assumes "ParseIP ty q rem r = Inr r'" "ty \<in> {TypeIP4, TypeIP6}" "wf_record r"
  shows "wf_record r'"
  using assms TryReadSinglePrefixLength_bounds [of "drop 1 rem" 32 32]
    TryReadSinglePrefixLength_bounds [of "drop 1 rem" 128 128]
  by (auto simp: ParseIP_def Let_def wf_defs split: if_splits option.splits)

lemma ParseModifier_wf: "ParseModifier name value r = Inr r' \<Longrightarrow> wf_record r \<Longrightarrow> wf_record r'"
  by (auto simp: ParseModifier_def wf_record_def split: if_splits)

lemma ParseDirective_wf: "ParseDirective term r = Inr r' \<Longrightarrow> wf_record r \<Longrightarrow> wf_record r'"
  by (auto simp: ParseDirective_def Let_def split: prod.splits if_splits
      intro: ParseAll_wf ParsePtr_wf
      dest: ParseWithRequiredDomain_wf ParseAddressMechanism_wf ParseIP_wf)

lemma ParseTerm_wf: "ParseTerm term r = Inr r' \<Longrightarrow> wf_record r \<Longrightarrow> wf_record r'"
  by (auto simp: ParseTerm_def split: option.splits intro: ParseModifier_wf ParseDirective_wf)

lemma ParseTerms_wf: "ParseTerms ts r = Inr r' \<Longrightarrow> wf_record r \<Longrightarrow> wf_record r'"
  by (induction ts r rule: ParseTerms.induct) (auto split: sum.splits dest: ParseTerm_wf)

lemma Parse_wf: "Parse t = Inr r \<Longrightarrow> wf_record r"
  by (auto simp: Parse_def split: if_splits intro: ParseTerms_wf wf_record_init)

section \<open>Facts: splitting a record into terms\<close>

lemma SplitTermsLoop_spec:
  "SplitTermsLoop t cur ts = ts @ filter (\<lambda>p. p \<noteq> []) (SplitLoop t CHR '' '' cur [])"
proof (induction t cur ts rule: SplitTermsLoop.induct)
  case (1 cur ts)
  then show ?case by simp
next
  case (2 c cs cur ts)
  then show ?case using SplitLoop_parts [of cs "CHR '' ''" "[]" "[cur]"] by auto
qed

lemma SplitTerms_spec: "SplitTerms t = filter (\<lambda>p. p \<noteq> []) (Split t CHR '' '')"
  by (simp add: SplitTerms_def Split_def SplitTermsLoop_spec)

lemma SplitTerms_join:
  assumes "ts \<noteq> []" "\<forall>p \<in> set ts. p \<noteq> [] \<and> CHR '' '' \<notin> set p"
  shows "SplitTerms (join '' '' ts) = ts"
  using assms Split_join [of ts "CHR '' ''"] by (simp add: SplitTerms_spec filter_id_conv)

lemma ParseTerms_append:
  "ParseTerms (xs @ ys) r = (case ParseTerms xs r of Inl e \<Rightarrow> Inl e | Inr r' \<Rightarrow> ParseTerms ys r')"
  by (induction xs r rule: ParseTerms.induct) (auto split: sum.splits)

section \<open>Writing a record\<close>

text \<open>
  A printer for records, the specification side of the parser: every mechanism with its qualifier,
  its name and its argument, the modifiers after the mechanisms.
\<close>

definition qualifier_char :: "Qualifier \<Rightarrow> char" where
  "qualifier_char q =
     (case q of QualifierPass \<Rightarrow> CHR ''+'' | QualifierFail \<Rightarrow> CHR ''-''
      | QualifierSoftFail \<Rightarrow> CHR ''~'' | QualifierNeutral \<Rightarrow> CHR ''?'')"

definition mechanism_name :: "MechanismType \<Rightarrow> AnsiString" where
  "mechanism_name ty =
     (case ty of
        TypeAll \<Rightarrow> ''all'' | TypeInclude \<Rightarrow> ''include'' | TypeExists \<Rightarrow> ''exists'' | TypeA \<Rightarrow> ''a''
      | TypeMX \<Rightarrow> ''mx'' | TypePTR \<Rightarrow> ''ptr'' | TypeIP4 \<Rightarrow> ''ip4'' | TypeIP6 \<Rightarrow> ''ip6'')"

definition write_lengths :: "nat \<Rightarrow> nat \<Rightarrow> AnsiString" where
  "write_lengths i j =
     (if i = 32 then [] else CHR ''/'' # ToDecimal i) @ (if j = 128 then [] else ''//'' @ ToDecimal j)"

definition write_argument :: "SPFMechanism \<Rightarrow> AnsiString" where
  "write_argument m =
     (case mechanism_type m of
        TypeIP4 \<Rightarrow> CHR '':'' # address m @ CHR ''/'' # ToDecimal (ip4_prefix_length m)
      | TypeIP6 \<Rightarrow> CHR '':'' # address m @ CHR ''/'' # ToDecimal (ip6_prefix_length m)
      | _ \<Rightarrow> (if has_domain_spec m then CHR '':'' # domain_spec m else []) @
            write_lengths (ip4_prefix_length m) (ip6_prefix_length m))"

definition write_mechanism :: "SPFMechanism \<Rightarrow> AnsiString" where
  "write_mechanism m =
     qualifier_char (qualifier m) # mechanism_name (mechanism_type m) @ write_argument m"

definition write_modifiers :: "SPFRecord \<Rightarrow> AnsiString list" where
  "write_modifiers r =
     (if has_redirect r then [''redirect='' @ redirect_domain_spec r] else []) @
     (if has_explanation r then [''exp='' @ explanation_domain_spec r] else [])"

definition write_record :: "SPFRecord \<Rightarrow> AnsiString" where
  "write_record r = join '' '' (VERSION # map write_mechanism (mechanisms r) @ write_modifiers r)"

section \<open>Facts: trailing lengths\<close>

lemma FindTrailingLength_decimal:
  "n < 1000 \<Longrightarrow> FindTrailingLength (x @ CHR ''/'' # ToDecimal n) = Some (length x, ToDecimal n)"
proof -
  assume n: "n < 1000"
  have "CHR ''/'' \<notin> set (ToDecimal n)"
    using ToDecimal_digits [OF n, of "CHR ''/''"] IsDigit_not_special by blast
  moreover have "ToDecimal n \<noteq> []" using canonical3_ToDecimal [OF n] by (simp add: canonical3_def)
  moreover have "\<not> list_ex (\<lambda>c. c < CHR ''0'' \<or> c > CHR ''9'') (ToDecimal n)"
    using ToDecimal_digits [OF n] unfolding list_ex_iff IsDigit_def by (meson leD)
  ultimately show ?thesis
    by (simp add: FindTrailingLength_def ReverseFind_append_hit)
qed

lemma FindTrailingLength_SomeD:
  assumes "FindTrailingLength t = Some (i, ds)"
  shows "i < length t \<and> ds = drop (i + 1) t \<and> ds \<noteq> [] \<and> (\<forall>c \<in> set ds. IsDigit c) \<and> IsDigit (last t)"
proof -
  from assms have "ReverseFind t CHR ''/'' = Some i" and ds: "ds = drop (i + 1) t" "ds \<noteq> []"
    "\<forall>c \<in> set ds. IsDigit c"
    by (auto simp: FindTrailingLength_def Let_def list_ex_iff IsDigit_def not_less
        split: option.splits if_splits)
  moreover from this have "i < length t" using ReverseFind_SomeD by blast
  moreover have "last t = last ds" using ds by (simp add: last_drop)
  ultimately show ?thesis by (metis last_in_set)
qed

lemma FindTrailingLength_last: "\<not> IsDigit (last t) \<Longrightarrow> FindTrailingLength t = None"
  using FindTrailingLength_SomeD [of t] by (cases "FindTrailingLength t") auto

lemma expansion_end_not_digit: "expansion_end_char c \<Longrightarrow> \<not> IsDigit c \<and> c \<noteq> CHR ''/''"
  by (auto simp: expansion_end_char_def IsDigit_def)

lemma label_char: "IsAlphaNumeric c \<or> c = CHR ''-'' \<Longrightarrow> c \<noteq> CHR ''/'' \<and> c \<noteq> CHR ''.''"
  by (auto simp: char_class_defs)

lemma domain_spec_no_length:
  assumes "IsValidDomainSpec d"
  shows "FindTrailingLength (CHR '':'' # d) = None \<and> last (CHR '':'' # d) \<noteq> CHR ''/''"
  using assms
proof (cases rule: IsValidDomainSpec_cases)
  case expansion
  then show ?thesis using expansion_end_not_digit [of "last d"]
    by (simp add: FindTrailingLength_last)
next
  case (absolute front l)
  have "\<not> IsDigit CHR ''.''" by (simp add: IsDigit_def)
  with absolute show ?thesis by (simp add: FindTrailingLength_last)
next
  case (relative front l)
  then have l: "l \<noteq> []" "\<forall>c \<in> set l. c \<noteq> CHR ''/'' \<and> c \<noteq> CHR ''.''"
    using IsTopLabelD [OF relative(2)] label_char by auto
  have "last l \<noteq> CHR ''/''" using l last_in_set by blast
  moreover have "FindTrailingLength (CHR '':'' # d) = None"
  proof (rule ccontr)
    assume "FindTrailingLength (CHR '':'' # d) \<noteq> None"
    then obtain i ds where some: "FindTrailingLength (CHR '':'' # d) = Some (i, ds)" by auto
    then have rf: "ReverseFind (CHR '':'' # d) CHR ''/'' = Some i"
      by (auto simp: FindTrailingLength_def Let_def split: option.splits if_splits)
    have eq: "CHR '':'' # d = (CHR '':'' # front) @ CHR ''.'' # l" using relative(1) by simp
    have "ReverseFind (CHR '':'' # d) CHR ''/'' = ReverseFind (CHR '':'' # front) CHR ''/''"
      unfolding eq by (rule ReverseFind_append_miss) (use l(2) in auto)
    with rf have "i < length (CHR '':'' # front)" using ReverseFind_SomeD by metis
    then have "drop (i + 1) ((CHR '':'' # front) @ CHR ''.'' # l) = drop (i + 1) (CHR '':'' # front) @ CHR ''.'' # l"
      by simp
    then have "CHR ''.'' \<in> set (drop (i + 1) (CHR '':'' # d))" unfolding eq by simp
    moreover have "\<not> IsDigit CHR ''.''" by (simp add: IsDigit_def)
    ultimately show False using FindTrailingLength_SomeD [OF some] by blast
  qed
  ultimately show ?thesis using relative(1) l by simp
qed

lemma TryReadDualPrefixLengths_print:
  assumes "i \<le> 32" "j \<le> 128" "FindTrailingLength x = None" "x = [] \<or> last x \<noteq> CHR ''/''"
  shows "TryReadDualPrefixLengths (x @ write_lengths i j) 32 128 = Some (x, i, j)"
proof -
  have nth: "x ! (length x - 1) \<noteq> CHR ''/''" if "length x \<noteq> 0"
    using assms(4) that by (simp add: last_conv_nth)
  have parse: "TryParsePrefixLength (ToDecimal i) 32 = Some i" "TryParsePrefixLength (ToDecimal j) 128 = Some j"
    using assms(1,2) by (simp_all add: TryParsePrefixLength_iff)
  note len4 = FindTrailingLength_decimal [of i x]
  have len6: "FindTrailingLength (y @ ''//'' @ ToDecimal j) = Some (length y + 1, ToDecimal j)" for y
    using FindTrailingLength_decimal [of j "y @ ''/''"] assms(2) by simp
  consider "i = 32" "j = 128" | "i \<noteq> 32" "j = 128" | "i = 32" "j \<noteq> 128" | "i \<noteq> 32" "j \<noteq> 128" by blast
  then show ?thesis
  proof cases
    case 1
    with assms(3) show ?thesis by (simp add: TryReadDualPrefixLengths_def write_lengths_def)
  next
    case 2
    with len4 assms(1) parse nth show ?thesis
      by (auto simp: TryReadDualPrefixLengths_def write_lengths_def nth_append)
  next
    case 3
    with len6 [of x] parse assms(3) show ?thesis
      by (simp add: TryReadDualPrefixLengths_def write_lengths_def Let_def nth_append)
  next
    case 4
    with len6 [of "x @ CHR ''/'' # ToDecimal i"] len4 assms(1) parse nth show ?thesis
      by (cases "x = []") (auto simp: TryReadDualPrefixLengths_def write_lengths_def Let_def nth_append)
  qed
qed

section \<open>Facts: the characters of an address literal\<close>

definition address_char :: "char \<Rightarrow> bool" where
  "address_char c \<longleftrightarrow> IsHexDigit c \<or> c = CHR ''.'' \<or> c = CHR '':''"

lemma address_char_facts: "address_char c \<Longrightarrow> term_char c \<and> c \<noteq> CHR ''/''"
  by (auto simp: address_char_def term_char_classes) (auto simp: term_char_def IsHexDigit_def IsDigit_def)

lemma IP4_chars: "IsValidIP4Network t \<Longrightarrow> t \<noteq> [] \<and> (\<forall>c \<in> set t. address_char c)"
proof -
  assume "IsValidIP4Network t"
  then obtain a b c d where t: "t = ToDottedQuad [a, b, c, d]" by (auto simp: IsValidIP4Network_iff)
  have "IsHexDigit x" if "x \<in> set (ToDecimal (unat (w :: byte)))" for x w
    using ToDecimal_digits [OF _ that] by (simp add: IsHexDigit_def)
  with t show ?thesis by (auto simp: ToDottedQuad_eq address_char_def)
qed

lemma CountIP6Groups_chars:
  "CountIP6Groups gs n = Some m \<Longrightarrow> g \<in> set gs \<Longrightarrow> \<forall>c \<in> set g. address_char c"
proof (induction gs arbitrary: n)
  case Nil
  then show ?case by simp
next
  case (Cons x xs)
  have hex: "\<forall>c \<in> set x. address_char c" if "IsHexGroup x"
    using that by (auto simp: IsHexGroup_def list_all_iff address_char_def split: if_splits)
  from Cons IP4_chars [of x] hex show ?case by (auto split: if_splits)
qed

lemma Find_str_double_SomeD: "Find_str t [c, c] = Some i \<Longrightarrow> t = take i t @ [c, c] @ drop (i + 2) t"
proof (induction t arbitrary: i)
  case Nil
  then show ?case by simp
next
  case (Cons x xs)
  show ?case
  proof (cases "take 2 (x # xs) = [c, c]")
    case True
    with Cons.prems have "i = 0" by (simp add: numeral_2_eq_2)
    with True append_take_drop_id [of 2 "x # xs"] show ?thesis by simp
  next
    case False
    with Cons.prems obtain j where "Find_str xs [c, c] = Some j" "i = Suc j"
      by (auto simp: numeral_2_eq_2 split: if_splits)
    with Cons.IH [of j] show ?thesis by simp
  qed
qed

lemma set_Split: "set t \<subseteq> insert sep (\<Union> (set ` set (Split t sep)))"
  using set_join_subset [of "[sep]" "Split t sep"] by (simp add: join_Split)

lemma IP6_chars: "IsValidIP6Network t \<Longrightarrow> t \<noteq> [] \<and> (\<forall>c \<in> set t. address_char c)"
proof -
  assume valid: "IsValidIP6Network t"
  define before where "before = (case Find_str t ''::'' of None \<Rightarrow> t | Some i \<Rightarrow> take i t)"
  define after where "after = (case Find_str t ''::'' of None \<Rightarrow> [] | Some i \<Rightarrow> drop (i + 2) t)"
  define side where "side s = (if s \<noteq> [] then Split s CHR '':'' else [])" for s
  from valid obtain m where m: "CountIP6Groups (side before @ side after) 0 = Some m"
    by (auto simp: IsValidIP6Network_def before_def after_def side_def Let_def
        split: option.splits if_splits prod.splits)
  have part: "\<forall>c \<in> set s. address_char c" if "set (side s) \<subseteq> set (side before @ side after)" for s
  proof
    fix c assume c: "c \<in> set s"
    with set_Split [of s "CHR '':''"] have "c = CHR '':'' \<or> (\<exists>g \<in> set (Split s CHR '':''). c \<in> set g)" by blast
    moreover have "set (Split s CHR '':'') \<subseteq> set (side before @ side after)"
      using that c by (auto simp: side_def)
    ultimately show "address_char c"
      using CountIP6Groups_chars [OF m] by (auto simp: address_char_def)
  qed
  have "\<forall>c \<in> set before. address_char c" "\<forall>c \<in> set after. address_char c" by (rule part, simp)+
  moreover have "set t \<subseteq> set before \<union> set after \<union> {CHR '':''}"
  proof (cases "Find_str t ''::''")
    case None
    then show ?thesis by (auto simp: before_def)
  next
    case (Some i)
    from Find_str_double_SomeD [OF Some]
    have "set t = set (take i t @ ''::'' @ drop (i + 2) t)" by metis
    with Some show ?thesis by (auto simp: before_def after_def)
  qed
  moreover have "t \<noteq> []" using valid by (auto simp: IsValidIP6Network_def)
  ultimately show ?thesis by (auto simp: address_char_def)
qed

lemma TryReadSinglePrefixLength_print:
  assumes "t \<noteq> []" "\<forall>c \<in> set t. address_char c" "n \<le> mx" "n < 1000"
  shows "TryReadSinglePrefixLength (t @ CHR ''/'' # ToDecimal n) mx k = Some (t, n)"
proof -
  have "t ! (length t - 1) \<noteq> CHR ''/''"
    using assms(1,2) address_char_facts by (metis last_conv_nth last_in_set)
  moreover have "TryParsePrefixLength (ToDecimal n) mx = Some n"
    using assms(3,4) by (simp add: TryParsePrefixLength_iff)
  ultimately show ?thesis
    using assms(1,4) by (simp add: TryReadSinglePrefixLength_def FindTrailingLength_decimal nth_append)
qed

section \<open>Facts: reading back a written term\<close>

lemma FindNameEnd_append:
  assumes "\<forall>c \<in> set name. c \<noteq> CHR '':'' \<and> c \<noteq> CHR ''/''" "rest = [] \<or> hd rest = CHR '':'' \<or> hd rest = CHR ''/''"
  shows "FindNameEnd (name @ rest) = (if rest = [] then None else Some (length name))"
  using assms by (induction name) (cases rest; auto)+

lemma FindModifierEquals_append:
  assumes "\<forall>c \<in> set name. c \<noteq> CHR '':'' \<and> c \<noteq> CHR ''/'' \<and> c \<noteq> CHR ''=''"
    "rest = [] \<or> hd rest = CHR '':'' \<or> hd rest = CHR ''/''"
  shows "FindModifierEquals (name @ rest) = None"
  using assms by (induction name) (cases rest; auto)+

lemma EqualsNoCase_iff:
  "CHR 0x00 \<notin> set a \<Longrightarrow> CHR 0x00 \<notin> set b \<Longrightarrow> EqualsNoCase a b \<longleftrightarrow> map tolower_classic a = map tolower_classic b"
  by (simp add: EqualsNoCase_def CompareNoCase_zero_iff)

lemma mechanism_name_chars:
  "c \<in> set (qualifier_char q # mechanism_name ty) \<Longrightarrow>
   c \<noteq> CHR '':'' \<and> c \<noteq> CHR ''/'' \<and> c \<noteq> CHR ''='' \<and> term_char c"
  by (cases q; cases ty) (auto simp: qualifier_char_def mechanism_name_def term_char_def)

lemma TakeQualifier_write: "TakeQualifier (qualifier_char q # t) = (q, t)"
  by (cases q) (simp_all add: qualifier_char_def TakeQualifier_def)

lemma mechanism_name_EqualsNoCase:
  "EqualsNoCase (mechanism_name ty) (mechanism_name ty') \<longleftrightarrow> ty = ty'"
  by (subst EqualsNoCase_iff) (cases ty; cases ty'; simp add: mechanism_name_def tolower_classic_def)+

lemma name_literals:
  "''all'' = mechanism_name TypeAll" "''include'' = mechanism_name TypeInclude"
  "''exists'' = mechanism_name TypeExists" "''a'' = mechanism_name TypeA" "''mx'' = mechanism_name TypeMX"
  "''ptr'' = mechanism_name TypePTR" "''ip4'' = mechanism_name TypeIP4" "''ip6'' = mechanism_name TypeIP6"
  by (simp_all add: mechanism_name_def)

text \<open>The dispatch on the name, for a term that was written: each type reaches its own parser.\<close>

definition parse_by_type :: "MechanismType \<Rightarrow> Qualifier \<Rightarrow> AnsiString \<Rightarrow> SPFRecord \<Rightarrow> AnsiString + SPFRecord" where
  "parse_by_type ty =
     (case ty of
        TypeAll \<Rightarrow> ParseAll
      | TypeInclude \<Rightarrow> ParseWithRequiredDomain TypeInclude
      | TypeExists \<Rightarrow> ParseWithRequiredDomain TypeExists
      | TypeA \<Rightarrow> ParseAddressMechanism TypeA
      | TypeMX \<Rightarrow> ParseAddressMechanism TypeMX
      | TypePTR \<Rightarrow> ParsePtr
      | TypeIP4 \<Rightarrow> ParseIP TypeIP4
      | TypeIP6 \<Rightarrow> ParseIP TypeIP6)"

lemma ParseTerm_written:
  assumes "rest = [] \<or> hd rest = CHR '':'' \<or> hd rest = CHR ''/''"
  shows "ParseTerm (qualifier_char q # mechanism_name ty @ rest) r = parse_by_type ty q rest r"
proof -
  have "FindModifierEquals ((qualifier_char q # mechanism_name ty) @ rest) = None"
    by (rule FindModifierEquals_append) (use mechanism_name_chars assms in blast)+
  moreover have "FindNameEnd (mechanism_name ty @ rest) = (if rest = [] then None else Some (length (mechanism_name ty)))"
    by (rule FindNameEnd_append) (use mechanism_name_chars [of _ q ty] assms in auto)
  ultimately show ?thesis
    by (simp add: ParseTerm_def ParseDirective_def TakeQualifier_write name_literals mechanism_name_EqualsNoCase
        parse_by_type_def split: MechanismType.splits)
qed

lemma write_argument_start: "write_argument m = [] \<or> hd (write_argument m) = CHR '':'' \<or> hd (write_argument m) = CHR ''/''"
  by (auto simp: write_argument_def write_lengths_def split: MechanismType.splits)

lemma ParseAddressMechanism_written:
  assumes "wf_mechanism m" "mechanism_type m \<in> {TypeA, TypeMX}"
  shows "ParseAddressMechanism (mechanism_type m) (qualifier m) (write_argument m) r = Inr (push_mechanism m r)"
proof -
  let ?x = "if has_domain_spec m then CHR '':'' # domain_spec m else []"
  have arg: "write_argument m = ?x @ write_lengths (ip4_prefix_length m) (ip6_prefix_length m)"
    using assms(2) by (auto simp: write_argument_def)
  have "FindTrailingLength ?x = None \<and> (?x = [] \<or> last ?x \<noteq> CHR ''/'')"
    using assms(1) domain_spec_no_length [of "domain_spec m"]
    by (auto simp: wf_mechanism_def FindTrailingLength_def)
  then have "TryReadDualPrefixLengths (write_argument m) 32 128 = Some (?x, ip4_prefix_length m, ip6_prefix_length m)"
    unfolding arg using assms(1) by (intro TryReadDualPrefixLengths_print) (auto simp: wf_mechanism_def)
  with assms show ?thesis
    by (auto simp: ParseAddressMechanism_def wf_mechanism_def SPFMechanism_init_def SetDomainSpec_def Let_def)
qed

lemma ParseIP_written:
  assumes "wf_mechanism m" "mechanism_type m \<in> {TypeIP4, TypeIP6}"
  shows "ParseIP (mechanism_type m) (qualifier m) (write_argument m) r = Inr (push_mechanism m r)"
proof (cases "mechanism_type m = TypeIP4")
  case True
  with assms(1) have "IsValidIP4Network (address m)" "ip4_prefix_length m \<le> 32"
    by (auto simp: wf_mechanism_def)
  with True assms(1) IP4_chars [of "address m"]
  show ?thesis
    by (auto simp: ParseIP_def write_argument_def wf_mechanism_def SPFMechanism_init_def Let_def
        TryReadSinglePrefixLength_print)
next
  case False
  with assms have ty: "mechanism_type m = TypeIP6" by simp
  with assms(1) have "IsValidIP6Network (address m)" "ip6_prefix_length m \<le> 128"
    by (auto simp: wf_mechanism_def)
  with ty assms(1) IP6_chars [of "address m"]
  show ?thesis
    by (auto simp: ParseIP_def write_argument_def wf_mechanism_def SPFMechanism_init_def Let_def
        TryReadSinglePrefixLength_print)
qed

lemma ParseTerm_write_mechanism:
  assumes "wf_mechanism m"
  shows "ParseTerm (write_mechanism m) r = Inr (push_mechanism m r)"
proof -
  have "ParseTerm (write_mechanism m) r = parse_by_type (mechanism_type m) (qualifier m) (write_argument m) r"
    unfolding write_mechanism_def by (rule ParseTerm_written) (rule write_argument_start)
  also have "\<dots> = Inr (push_mechanism m r)"
  proof (cases "mechanism_type m \<in> {TypeA, TypeMX, TypeIP4, TypeIP6}")
    case True
    with assms ParseAddressMechanism_written [of m r] ParseIP_written [of m r] show ?thesis
      by (auto simp: parse_by_type_def)
  next
    case False
    with assms show ?thesis
      by (cases "mechanism_type m"; cases "has_domain_spec m")
        (auto simp: parse_by_type_def write_argument_def write_lengths_def wf_mechanism_def ParseAll_def
          ParseWithRequiredDomain_def ParsePtr_def SPFMechanism_init_def SetDomainSpec_def Let_def)
  qed
  finally show ?thesis .
qed

section \<open>Facts: a written record\<close>

lemma IsValidDomainSpec_chars: "IsValidDomainSpec d \<Longrightarrow> c \<in> set d \<Longrightarrow> term_char c"
  by (auto simp: IsValidDomainSpec_def IsValidMacroString_chars split: if_splits)

lemma write_mechanism_chars:
  assumes "wf_mechanism m" "c \<in> set (write_mechanism m)"
  shows "term_char c"
proof -
  have lits: "term_char CHR '':''" "term_char CHR ''/''" by (simp_all add: term_char_def)
  have dec: "term_char x" if "n < 1000" "x \<in> set (ToDecimal n)" for n x
    using ToDecimal_digits [OF that] by (rule term_char_classes)
  have addr: "term_char x" if "x \<in> set (address m)" for x
    using assms(1) that IP4_chars [of "address m"] IP6_chars [of "address m"] address_char_facts [of x]
    by (auto simp: wf_mechanism_def split: MechanismType.splits)
  have spec: "term_char x" if "has_domain_spec m" "x \<in> set (domain_spec m)" for x
    using assms(1) that IsValidDomainSpec_chars [of "domain_spec m" x] by (auto simp: wf_mechanism_def)
  have lens: "ip4_prefix_length m < 1000" "ip6_prefix_length m < 1000"
    using assms(1) by (auto simp: wf_mechanism_def)
  from assms(2) consider "c \<in> set (qualifier_char (qualifier m) # mechanism_name (mechanism_type m))"
    | "c \<in> set (write_argument m)" by (auto simp: write_mechanism_def)
  then show ?thesis
  proof cases
    case 1
    then show ?thesis using mechanism_name_chars by blast
  next
    case 2
    then show ?thesis using lits lens
      by (auto simp: write_argument_def write_lengths_def split: MechanismType.splits if_splits
          intro: dec addr spec)
  qed
qed

lemma written_terms:
  assumes "wf_record r"
  shows "\<forall>p \<in> set (VERSION # map write_mechanism (mechanisms r) @ write_modifiers r).
    p \<noteq> [] \<and> (\<forall>c \<in> set p. term_char c)"
proof -
  have v: "\<forall>c \<in> set VERSION. term_char c" "VERSION \<noteq> []" by (simp_all add: VERSION_def term_char_def)
  have ms: "write_mechanism m \<noteq> [] \<and> (\<forall>c \<in> set (write_mechanism m). term_char c)"
    if "m \<in> set (mechanisms r)" for m
    using assms that write_mechanism_chars [of m]
    by (auto simp: wf_record_def list_all_iff) (simp add: write_mechanism_def)
  have mods: "p \<noteq> [] \<and> (\<forall>c \<in> set p. term_char c)" if "p \<in> set (write_modifiers r)" for p
    using assms that IsValidDomainSpec_chars
    by (auto simp: write_modifiers_def wf_record_def split: if_splits) (auto simp: term_char_def)
  show ?thesis
  proof
    fix p assume "p \<in> set (VERSION # map write_mechanism (mechanisms r) @ write_modifiers r)"
    then consider "p = VERSION" | m where "m \<in> set (mechanisms r)" "p = write_mechanism m"
      | "p \<in> set (write_modifiers r)" by auto
    then show "p \<noteq> [] \<and> (\<forall>c \<in> set p. term_char c)" using v ms mods by cases auto
  qed
qed

lemma not_space_if_term_char: "term_char c \<Longrightarrow> c \<noteq> CHR '' ''"
  by (auto simp: term_char_def)

lemma HasVersionTag_join: "HasVersionTag (join '' '' (VERSION # ts))"
proof -
  obtain rest where "join '' '' (VERSION # ts) = VERSION @ rest" "rest = [] \<or> hd rest = CHR '' ''"
    by (cases ts) auto
  moreover have "CompareNoCase VERSION VERSION = 0"
    by (subst CompareNoCase_zero_iff) (simp_all add: VERSION_def)
  moreover have "length VERSION = VERSION_LENGTH" by (simp add: VERSION_def VERSION_LENGTH_def)
  ultimately show ?thesis
    by (cases rest) (auto simp: HasVersionTag_def StartsWithNoCase_def nth_append)
qed

lemma IsAsciiPrintable_join:
  assumes "\<forall>p \<in> set ts. \<forall>c \<in> set p. term_char c"
  shows "IsAsciiPrintable (join '' '' ts)"
proof -
  have "0x20 \<le> ord c \<and> ord c \<le> 0x7E" if "c \<in> set (join '' '' ts)" for c
    using that assms set_join_subset [of "'' ''" ts] by (fastforce simp: term_char_def)
  then show ?thesis by (auto simp: IsAsciiPrintable_def list_all_iff not_less)
qed

lemma ParseTerms_write_mechanisms:
  "list_all wf_mechanism ms \<Longrightarrow>
   ParseTerms (map write_mechanism ms) r = Inr (r\<lparr> mechanisms := mechanisms r @ ms \<rparr>)"
  by (induction ms arbitrary: r) (auto simp: ParseTerm_write_mechanism)

lemma ParseTerm_redirect:
  assumes "IsValidDomainSpec d" "\<not> has_redirect r"
  shows "ParseTerm (''redirect='' @ d) r = Inr (r\<lparr> has_redirect := True, redirect_domain_spec := d \<rparr>)"
proof -
  have "IsValidModifierName ''redirect''" by code_simp
  moreover have "EqualsNoCase ''redirect'' ''redirect''" by (simp add: EqualsNoCase_iff)
  ultimately show ?thesis using assms by (simp add: ParseTerm_def ParseModifier_def)
qed

lemma ParseTerm_exp:
  assumes "IsValidDomainSpec d" "\<not> has_explanation r"
  shows "ParseTerm (''exp='' @ d) r = Inr (r\<lparr> has_explanation := True, explanation_domain_spec := d \<rparr>)"
proof -
  have "IsValidModifierName ''exp''" by code_simp
  moreover have "EqualsNoCase ''exp'' ''exp''" "\<not> EqualsNoCase ''exp'' ''redirect''" by (simp_all add: EqualsNoCase_iff)
  ultimately show ?thesis using assms by (simp add: ParseTerm_def ParseModifier_def)
qed

lemma ParseTerms_write_modifiers:
  assumes "wf_record r"
  shows "ParseTerms (write_modifiers r) (SPFRecord_init\<lparr> mechanisms := mechanisms r \<rparr>) = Inr r"
  using assms
  by (cases "has_redirect r"; cases "has_explanation r")
    (auto simp: write_modifiers_def wf_record_def SPFRecord_init_def
      ParseTerm_redirect [simplified] ParseTerm_exp [simplified])

lemma Parse_write_record:
  assumes "wf_record r"
  shows "Parse (write_record r) = Inr r"
proof -
  let ?ts = "VERSION # map write_mechanism (mechanisms r) @ write_modifiers r"
  note terms = written_terms [OF assms]
  have "SplitTerms (write_record r) = ?ts"
    unfolding write_record_def using terms not_space_if_term_char by (intro SplitTerms_join) blast+
  moreover have "HasVersionTag (write_record r)" "IsAsciiPrintable (write_record r)"
    unfolding write_record_def using terms by (intro HasVersionTag_join IsAsciiPrintable_join; blast)+
  moreover have "ParseTerms (map write_mechanism (mechanisms r) @ write_modifiers r) SPFRecord_init = Inr r"
    using assms ParseTerms_write_modifiers [OF assms]
    by (simp add: ParseTerms_append ParseTerms_write_mechanisms wf_record_def SPFRecord_init_def)
  ultimately show ?thesis by (simp add: Parse_def)
qed

section \<open>Properties\<close>

text \<open>
  a record that is parsed is well formed: its domain specifications, its address literals and its
  prefix lengths are in the grammar, and every mechanism has the argument its type calls for.
\<close>

theorem parsed_record_is_well_formed: "Parse t = Inr r \<Longrightarrow> wf_record r"
  by (rule Parse_wf)

theorem parsed_record_is_well_formed_witness:
  "\<exists>r. Parse ''v=spf1 a:mail.example.com/24//64 ip6:2001:db8::/32 exists:%{ir}.sbl.example.org -all'' = Inr r \<and> wf_record r"
proof -
  have "\<not> isl (Parse ''v=spf1 a:mail.example.com/24//64 ip6:2001:db8::/32 exists:%{ir}.sbl.example.org -all'')" by code_simp
  then obtain r where "Parse ''v=spf1 a:mail.example.com/24//64 ip6:2001:db8::/32 exists:%{ir}.sbl.example.org -all'' = Inr r"
    by (metis isl_def sumE)
  with parsed_record_is_well_formed show ?thesis by blast
qed

text \<open>
  C14: every well formed record can be published: parsing the text written for it gives it back, so the
  parser is complete for the records it can produce.
\<close>

theorem record_text_round_trip: "wf_record r \<Longrightarrow> Parse (write_record r) = Inr r"
  by (rule Parse_write_record)

theorem record_text_round_trip_witness:
  "Parse ''v=spf1 -mx:example.org/24 redirect=_spf.example.net'' =
     Inr \<lparr> mechanisms = [\<lparr> mechanism_type = TypeMX, qualifier = QualifierFail, domain_spec = ''example.org'',
             has_domain_spec = True, address = [], ip4_prefix_length = 24, ip6_prefix_length = 128 \<rparr>],
           has_redirect = True, redirect_domain_spec = ''_spf.example.net'',
           has_explanation = False, explanation_domain_spec = [] \<rparr>"
proof -
  let ?r = "\<lparr> mechanisms = [\<lparr> mechanism_type = TypeMX, qualifier = QualifierFail, domain_spec = ''example.org'',
             has_domain_spec = True, address = [], ip4_prefix_length = 24, ip6_prefix_length = 128 \<rparr>],
           has_redirect = True, redirect_domain_spec = ''_spf.example.net'',
           has_explanation = False, explanation_domain_spec = [] \<rparr>"
  have "wf_record ?r" by code_simp
  then have "Parse (write_record ?r) = Inr ?r" by (rule record_text_round_trip)
  moreover have "write_record ?r = ''v=spf1 -mx:example.org/24 redirect=_spf.example.net''" by code_simp
  ultimately show ?thesis by simp
qed

end
