(* ===== verification/SPF_Lookup.thy ===== *)
theory SPF_Lookup
  imports AnsiStrings
begin

text \<open>
  The DNS seam of an SPF evaluation. \<open>SPFDnsLookup\<close> is the interface of SMTP/SPF/SPFDnsLookup.h: five
  queries, each of which is either not answered (\<open>None\<close>, the source's false) or answered with a list
  of records. A query may change the world it is asked in, so an answer carries the world after it;
  nothing else is assumed of a resolver, and two equal queries may be answered differently.
  \<open>CountingLookup\<close> (SPFEvaluator.cpp) wraps a resolver and counts the queries that were answered with
  nothing; \<open>SPFDnsResolver\<close> (SPFDnsResolver.cpp) is the resolver the server uses, over a record
  query that is not part of this component.
\<close>

section \<open>The interface\<close>

type_synonym 'w query = "'w \<Rightarrow> AnsiString \<Rightarrow> AnsiString list option \<times> 'w"

record 'w SPFDnsLookup =
  GetTXTRecords :: "'w query"
  GetARecords :: "'w query"
  GetAAAARecords :: "'w query"
  GetMXRecords :: "'w query"
  GetPTRRecords :: "'w query"

section \<open>Counting the void answers\<close>

record 'w CountingLookup =
  lookup_world :: 'w
  void_lookups :: nat

definition CountingLookup_init :: "'w \<Rightarrow> 'w CountingLookup" where
  "CountingLookup_init w = \<lparr> lookup_world = w, void_lookups = 0 \<rparr>"

definition Count :: "AnsiString list option \<Rightarrow> 'w CountingLookup \<Rightarrow> 'w CountingLookup" where
  "Count answer cl =
     (case answer of
        Some values \<Rightarrow> if values = [] then cl\<lparr> void_lookups := void_lookups cl + 1 \<rparr> else cl
      | None \<Rightarrow> cl)"

definition CountedQuery ::
  "'w query \<Rightarrow> 'w CountingLookup \<Rightarrow> AnsiString \<Rightarrow> AnsiString list option \<times> 'w CountingLookup" where
  "CountedQuery q cl name =
     (let (answer, w) = q (lookup_world cl) name
      in (answer, Count answer (cl\<lparr> lookup_world := w \<rparr>)))"

definition CountingGetTXTRecords where
  "CountingGetTXTRecords L = CountedQuery (GetTXTRecords L)"

definition CountingGetARecords where
  "CountingGetARecords L = CountedQuery (GetARecords L)"

definition CountingGetAAAARecords where
  "CountingGetAAAARecords L = CountedQuery (GetAAAARecords L)"

definition CountingGetMXRecords where
  "CountingGetMXRecords L = CountedQuery (GetMXRecords L)"

definition CountingGetPTRRecords where
  "CountingGetPTRRecords L = CountedQuery (GetPTRRecords L)"

definition GetVoidQueryCount :: "'w CountingLookup \<Rightarrow> nat" where
  "GetVoidQueryCount cl = void_lookups cl"

section \<open>The server's resolver\<close>

text \<open>
  \<open>GetRecordsOfType\<close> of the server's \<^verbatim>\<open>DNSResolver\<close> is the parameter \<open>grot\<close>: a resource type, a name
  and the world it is asked in.
\<close>

type_synonym 'w record_query = "nat \<Rightarrow> 'w query"

definition RESOURCE_TYPE_A :: nat where "RESOURCE_TYPE_A = 0x0001"
definition RESOURCE_TYPE_PTR :: nat where "RESOURCE_TYPE_PTR = 0x000c"
definition RESOURCE_TYPE_MX :: nat where "RESOURCE_TYPE_MX = 0x000f"
definition RESOURCE_TYPE_TEXT :: nat where "RESOURCE_TYPE_TEXT = 0x0010"
definition RESOURCE_TYPE_AAAA :: nat where "RESOURCE_TYPE_AAAA = 0x001c"

definition ResolverQuery :: "'w record_query \<Rightarrow> nat \<Rightarrow> 'w query" where
  "ResolverQuery grot resourceType w query =
     (if query = [] then (None, w) else grot resourceType w query)"

text \<open>
  The null MX filter walks the names from the last to the first and erases the roots and the empty
  ones; \<open>i\<close> counts the names still to look at.
\<close>

fun EraseNullMX :: "nat \<Rightarrow> AnsiString list \<Rightarrow> AnsiString list" where
  "EraseNullMX 0 hostNames = hostNames"
| "EraseNullMX (Suc i) hostNames =
     (if hostNames ! i = ''.'' \<or> hostNames ! i = []
      then EraseNullMX i (take i hostNames @ drop (Suc i) hostNames)
      else EraseNullMX i hostNames)"

definition ResolverGetMXRecords :: "'w record_query \<Rightarrow> 'w query" where
  "ResolverGetMXRecords grot w domain =
     (case ResolverQuery grot RESOURCE_TYPE_MX w domain of
        (None, w) \<Rightarrow> (None, w)
      | (Some hostNames, w) \<Rightarrow> (Some (EraseNullMX (length hostNames) hostNames), w))"

definition SPFDnsResolver :: "'w record_query \<Rightarrow> 'w SPFDnsLookup" where
  "SPFDnsResolver grot =
     \<lparr> GetTXTRecords = ResolverQuery grot RESOURCE_TYPE_TEXT,
       GetARecords = ResolverQuery grot RESOURCE_TYPE_A,
       GetAAAARecords = ResolverQuery grot RESOURCE_TYPE_AAAA,
       GetMXRecords = ResolverGetMXRecords grot,
       GetPTRRecords = ResolverQuery grot RESOURCE_TYPE_PTR \<rparr>"

section \<open>Facts\<close>

lemma EraseNullMX_filter:
  "i \<le> length hs \<Longrightarrow> EraseNullMX i hs = filter (\<lambda>h. \<not> (h = ''.'' \<or> h = [])) (take i hs) @ drop i hs"
proof (induction i hs rule: EraseNullMX.induct)
  case (1 hs)
  then show ?case by simp
next
  case (2 i hs)
  then have len: "i < length hs" by simp
  show ?case
  proof (cases "hs ! i = ''.'' \<or> hs ! i = []")
    case True
    with "2.IH"(1) [OF True] len show ?thesis by (simp add: take_Suc_snoc)
  next
    case False
    with "2.IH"(2) [OF False] len show ?thesis by (simp add: take_Suc_snoc drop_eq_Cons_nth)
  qed
qed

text \<open>One counted query: the void count grows by one exactly when the answer is an empty list.\<close>

lemma CountedQuery_void:
  "CountedQuery q cl name = (ans, cl') \<Longrightarrow>
   void_lookups cl' = void_lookups cl + (if ans = Some [] then 1 else 0)"
  by (auto simp: CountedQuery_def Count_def Let_def split: prod.splits option.splits if_splits)

lemma CountedQuery_world:
  "CountedQuery q cl name = (ans, cl') \<Longrightarrow> q (lookup_world cl) name = (ans, lookup_world cl')"
  by (auto simp: CountedQuery_def Count_def Let_def split: prod.splits option.splits if_splits)

lemmas counting_query_defs =
  CountingGetTXTRecords_def CountingGetARecords_def CountingGetAAAARecords_def
  CountingGetMXRecords_def CountingGetPTRRecords_def

section \<open>Metering\<close>

text \<open>
  A meter is a number read off the world that no query raises by more than one. What an operation
  may spend is proved for every meter; it is then read for the two worlds below, in which every query
  is written down.
\<close>

locale query_meter =
  fixes L :: "'w SPFDnsLookup" and cost :: "'w \<Rightarrow> nat"
  assumes TXT_cost: "GetTXTRecords L w n = (ans, w') \<Longrightarrow> cost w' \<le> cost w + 1"
    and A_cost: "GetARecords L w n = (ans, w') \<Longrightarrow> cost w' \<le> cost w + 1"
    and AAAA_cost: "GetAAAARecords L w n = (ans, w') \<Longrightarrow> cost w' \<le> cost w + 1"
    and MX_cost: "GetMXRecords L w n = (ans, w') \<Longrightarrow> cost w' \<le> cost w + 1"
    and PTR_cost: "GetPTRRecords L w n = (ans, w') \<Longrightarrow> cost w' \<le> cost w + 1"
begin

definition spent :: "'w CountingLookup \<Rightarrow> nat" where
  "spent cl = cost (lookup_world cl)"

lemma spent_CountedQuery:
  "(\<And>w ans w'. q w n = (ans, w') \<Longrightarrow> cost w' \<le> cost w + 1) \<Longrightarrow>
   CountedQuery q cl n = (ans, cl') \<Longrightarrow> spent cl' \<le> spent cl + 1"
  unfolding spent_def using CountedQuery_world by blast

lemma spent_TXT: "CountingGetTXTRecords L cl n = (ans, cl') \<Longrightarrow> spent cl' \<le> spent cl + 1"
  unfolding counting_query_defs by (rule spent_CountedQuery [OF TXT_cost])

lemma spent_A: "CountingGetARecords L cl n = (ans, cl') \<Longrightarrow> spent cl' \<le> spent cl + 1"
  unfolding counting_query_defs by (rule spent_CountedQuery [OF A_cost])

lemma spent_AAAA: "CountingGetAAAARecords L cl n = (ans, cl') \<Longrightarrow> spent cl' \<le> spent cl + 1"
  unfolding counting_query_defs by (rule spent_CountedQuery [OF AAAA_cost])

lemma spent_MX: "CountingGetMXRecords L cl n = (ans, cl') \<Longrightarrow> spent cl' \<le> spent cl + 1"
  unfolding counting_query_defs by (rule spent_CountedQuery [OF MX_cost])

lemma spent_PTR: "CountingGetPTRRecords L cl n = (ans, cl') \<Longrightarrow> spent cl' \<le> spent cl + 1"
  unfolding counting_query_defs by (rule spent_CountedQuery [OF PTR_cost])

end

text \<open>
  Any lookup, in a world that also counts the queries; and the server's resolver over a record query
  whose calls are counted.
\<close>

definition MeteredQuery :: "'w query \<Rightarrow> ('w \<times> nat) query" where
  "MeteredQuery q = (\<lambda>(w, k) name. let (ans, w) = q w name in (ans, (w, k + 1)))"

definition MeteredLookup :: "'w SPFDnsLookup \<Rightarrow> ('w \<times> nat) SPFDnsLookup" where
  "MeteredLookup L =
     \<lparr> GetTXTRecords = MeteredQuery (GetTXTRecords L), GetARecords = MeteredQuery (GetARecords L),
       GetAAAARecords = MeteredQuery (GetAAAARecords L), GetMXRecords = MeteredQuery (GetMXRecords L),
       GetPTRRecords = MeteredQuery (GetPTRRecords L) \<rparr>"

definition MeteredRecordQuery :: "'w record_query \<Rightarrow> ('w \<times> nat) record_query" where
  "MeteredRecordQuery grot resourceType = MeteredQuery (grot resourceType)"

lemma MeteredQuery_cost: "MeteredQuery q w n = (ans, w') \<Longrightarrow> snd w' = snd w + 1"
  by (cases w) (auto simp: MeteredQuery_def split: prod.splits)

interpretation metered: query_meter "MeteredLookup L" snd for L :: "'w SPFDnsLookup"
  by unfold_locales (auto simp: MeteredLookup_def dest: MeteredQuery_cost)

interpretation resolver: query_meter "SPFDnsResolver (MeteredRecordQuery grot)" snd for grot :: "'w record_query"
  by unfold_locales
    (auto simp: SPFDnsResolver_def ResolverQuery_def ResolverGetMXRecords_def MeteredRecordQuery_def
      split: if_splits prod.splits option.splits dest: MeteredQuery_cost)

section \<open>Properties\<close>

text \<open>
  walking the MX names backwards and erasing in place leaves exactly the names that are neither the
  root nor empty, in the order they came.
\<close>

theorem null_mx_is_erased:
  "EraseNullMX (length hostNames) hostNames = filter (\<lambda>h. \<not> (h = ''.'' \<or> h = [])) hostNames"
  by (simp add: EraseNullMX_filter)

end
