(* ===== verification/SPF_Locator.thy ===== *)
theory SPF_Locator
  imports SPF_Record SPF_Lookup
begin

text \<open>
  Finding and parsing the record a domain publishes, SMTP/SPF/SPFRecordLocator.h and
  SPFRecordLocator.cpp. The record and the error text that the source hands back through arguments
  are carried by the results they belong to.
\<close>

datatype LocatorResult =
  NoRecord | Found SPFRecord | Ambiguous | SyntaxError AnsiString | TemporaryError

definition Locate ::
  "'w SPFDnsLookup \<Rightarrow> AnsiString \<Rightarrow> 'w CountingLookup \<Rightarrow> LocatorResult \<times> 'w CountingLookup" where
  "Locate L domain cl =
     (if \<not> IsValidDomainName domain then (NoRecord, cl)
      else
        case CountingGetTXTRecords L cl domain of
          (None, cl) \<Rightarrow> (TemporaryError, cl)
        | (Some textRecords, cl) \<Rightarrow>
            let candidates = filter HasVersionTag textRecords
            in if candidates = [] then (NoRecord, cl)
               else if length candidates > 1 then (Ambiguous, cl)
               else
                 case Parse (candidates ! 0) of
                   Inl e \<Rightarrow> (SyntaxError e, cl)
                 | Inr r \<Rightarrow> (Found r, cl))"

lemma Locate_Found_wf: "Locate L domain cl = (Found r, cl') \<Longrightarrow> wf_record r"
  by (auto simp: Locate_def Let_def Parse_wf split: if_splits prod.splits option.splits sum.splits)

text \<open>A lookup that failed is not a void answer; and a record is located with one query at most.\<close>

lemma Locate_temporary: "Locate L domain cl = (TemporaryError, cl') \<Longrightarrow> void_lookups cl' = void_lookups cl"
  by (auto simp: Locate_def Let_def counting_query_defs split: if_splits prod.splits option.splits sum.splits
      dest: CountedQuery_void)

context query_meter
begin

lemma spent_Locate: "Locate L domain cl = (located, cl') \<Longrightarrow> spent cl' \<le> spent cl + 1"
  by (auto simp: Locate_def Let_def split: if_splits prod.splits option.splits sum.splits dest: spent_TXT)

end

section \<open>Properties\<close>

text \<open>
  a policy is found exactly when the domain can be asked about, the query is answered, and one and
  only one of the answers carries the version tag and parses; the answers without it do not matter.
\<close>

theorem located_policy:
  "fst (Locate L domain cl) = Found r \<longleftrightarrow>
     IsValidDomainName domain \<and>
     (\<exists>records t cl'. CountingGetTXTRecords L cl domain = (Some records, cl') \<and>
        filter HasVersionTag records = [t] \<and> Parse t = Inr r)"
proof -
  have one: "length xs = 1 \<longleftrightarrow> (\<exists>t. xs = [t])" for xs :: "AnsiString list"
    by (simp add: length_Suc_conv)
  have "\<not> 1 < length xs \<Longrightarrow> xs \<noteq> [] \<Longrightarrow> \<exists>t. xs = [t]" for xs :: "AnsiString list"
    unfolding one [symmetric] by (cases xs) auto
  then show ?thesis
    by (fastforce simp: Locate_def Let_def split: if_splits prod.splits option.splits sum.splits)
qed

end
