(* ===== verification/SPF_Macro.thy ===== *)
theory SPF_Macro
  imports SPF_Address SPF_Lookup
begin

text \<open>
  Macro expansion, SMTP/SPF/SPFMacroExpander.h and SPFMacroExpander.cpp. The expander queries DNS for
  the p macro, through the counting lookup of the check it belongs to, so its operations take and
  return that lookup beside their own state.
\<close>

section \<open>The transformers\<close>

fun SplitAtAnyLoop :: "AnsiString \<Rightarrow> AnsiString \<Rightarrow> AnsiString \<Rightarrow> AnsiString list \<Rightarrow> AnsiString list" where
  "SplitAtAnyLoop [] delims current parts = parts @ [current]"
| "SplitAtAnyLoop (c # cs) delims current parts =
     (if Find delims c \<noteq> None then SplitAtAnyLoop cs delims [] (parts @ [current])
      else SplitAtAnyLoop cs delims (current @ [c]) parts)"

definition SplitAtAny :: "AnsiString \<Rightarrow> AnsiString \<Rightarrow> AnsiString list" where
  "SplitAtAny text delims = SplitAtAnyLoop text delims [] []"

function ReversePartsLoop :: "'a list \<Rightarrow> nat \<Rightarrow> nat \<Rightarrow> 'a list" where
  "ReversePartsLoop parts low high =
     (if low + 1 < high then
        let high = high - 1;
            held = parts ! low
        in ReversePartsLoop (parts[low := parts ! high, high := held]) (low + 1) high
      else parts)"
  by pat_completeness auto
termination
  by (relation "measure (\<lambda>(parts, low, high). high)") auto

declare ReversePartsLoop.simps [simp del]

definition Transform :: "AnsiString \<Rightarrow> Macro \<Rightarrow> AnsiString" where
  "Transform value macro =
     (let delims = (if delimiters macro = [] then ''.'' else delimiters macro);
          parts = SplitAtAny value delims;
          parts = (if reverse macro then ReversePartsLoop parts 0 (length parts) else parts);
          count = length parts;
          first = (if digits macro > 0 \<and> digits macro < count then count - digits macro else 0)
      in foldl (\<lambda>text i. (if i > first then text @ ''.'' else text) @ parts ! i) [] [first..<count])"

section \<open>Escaping and numbers\<close>

definition IsUnreserved :: "char \<Rightarrow> bool" where
  "IsUnreserved c \<longleftrightarrow>
     (c \<ge> CHR ''a'' \<and> c \<le> CHR ''z'') \<or> (c \<ge> CHR ''A'' \<and> c \<le> CHR ''Z'') \<or>
     (c \<ge> CHR ''0'' \<and> c \<le> CHR ''9'') \<or>
     c = CHR ''-'' \<or> c = CHR ''.'' \<or> c = CHR ''_'' \<or> c = CHR ''~''"

definition UrlEscape :: "AnsiString \<Rightarrow> AnsiString" where
  "UrlEscape text =
     concat (map (\<lambda>c. if IsUnreserved c then [c]
                      else [CHR ''%'', ''0123456789ABCDEF'' ! (ord c div 16), ''0123456789ABCDEF'' ! (ord c mod 16)])
               text)"

function ToDecimal64Loop :: "nat \<Rightarrow> nat \<Rightarrow> AnsiString \<Rightarrow> AnsiString" where
  "ToDecimal64Loop value count ds =
     (let ds = char_of (ord CHR ''0'' + value mod 10) # ds;
          count = count + 1;
          value = value div 10
      in if value > 0 \<and> count < 24 then ToDecimal64Loop value count ds else ds)"
  by pat_completeness auto
termination
  by (relation "measure (\<lambda>(value, count, ds). value)") auto

declare ToDecimal64Loop.simps [simp del]

definition ToDecimal64 :: "int \<Rightarrow> AnsiString" where
  "ToDecimal64 value = ToDecimal64Loop (nat (if value < 0 then 0 else value)) 0 []"

section \<open>The expander\<close>

definition POSTMASTER :: AnsiString where
  "POSTMASTER = ''postmaster''"

record SPFMacroExpander =
  client_address :: SPFAddress
  sender :: AnsiString
  local_part :: AnsiString
  sender_domain :: AnsiString
  helo_host :: AnsiString
  receiving_host :: AnsiString
  timestamp :: int
  validated_names_known :: bool
  validated_names :: "AnsiString list"

definition SPFMacroExpander_init :: "SPFAddress \<Rightarrow> AnsiString \<Rightarrow> AnsiString \<Rightarrow> SPFMacroExpander" where
  "SPFMacroExpander_init clientAddress sender0 heloHost =
     (let x = \<lparr> client_address = clientAddress, sender = [], local_part = [], sender_domain = [],
                helo_host = heloHost, receiving_host = ''unknown'', timestamp = 0,
                validated_names_known = False, validated_names = [] \<rparr>
      in if sender0 = [] then
           x\<lparr> local_part := POSTMASTER, sender_domain := heloHost, sender := POSTMASTER @ ''@'' @ heloHost \<rparr>
         else
           case ReverseFind sender0 CHR ''@'' of
             None \<Rightarrow>
               x\<lparr> local_part := POSTMASTER, sender_domain := sender0, sender := POSTMASTER @ ''@'' @ sender0 \<rparr>
           | Some position \<Rightarrow>
               let x = x\<lparr> local_part := Left sender0 position, sender_domain := Mid sender0 (position + 1) \<rparr>
               in if local_part x = [] then
                    x\<lparr> local_part := POSTMASTER, sender := POSTMASTER @ sender0 \<rparr>
                  else x\<lparr> sender := sender0 \<rparr>)"

definition SetReceivingHost :: "AnsiString \<Rightarrow> SPFMacroExpander \<Rightarrow> SPFMacroExpander" where
  "SetReceivingHost name x = x\<lparr> receiving_host := name \<rparr>"

definition SetTimestamp :: "int \<Rightarrow> SPFMacroExpander \<Rightarrow> SPFMacroExpander" where
  "SetTimestamp seconds x = x\<lparr> timestamp := seconds \<rparr>"

type_synonym 'w expander_state = "SPFMacroExpander \<times> 'w CountingLookup"

section \<open>The validated names\<close>

definition MaximumPtrNames :: nat where
  "MaximumPtrNames = 10"

text \<open>The inner loop over a name's addresses, which stops at the first that is the client.\<close>

definition IsClientAmong :: "SPFAddress \<Rightarrow> AnsiString list \<Rightarrow> bool" where
  "IsClientAmong client addresses =
     list_ex (\<lambda>a. case TryParse a of None \<Rightarrow> False | Some parsed \<Rightarrow> Equals parsed client) addresses"

fun ValidateNames ::
  "'w SPFDnsLookup \<Rightarrow> SPFAddress \<Rightarrow> AnsiString list \<Rightarrow> AnsiString list \<Rightarrow> 'w CountingLookup \<Rightarrow>
   AnsiString list \<times> 'w CountingLookup" where
  "ValidateNames L client [] validated cl = (validated, cl)"
| "ValidateNames L client (name # names) validated cl =
     (let (answer, cl) = (if family client = FamilyIP6 then CountingGetAAAARecords L cl name
                          else CountingGetARecords L cl name)
      in case answer of
           None \<Rightarrow> ValidateNames L client names validated cl
         | Some addresses \<Rightarrow>
             ValidateNames L client names
               (if IsClientAmong client addresses then validated @ [name] else validated) cl)"

definition FindValidatedNames :: "'w SPFDnsLookup \<Rightarrow> 'w expander_state \<Rightarrow> 'w expander_state" where
  "FindValidatedNames L = (\<lambda>(x, cl).
     case CountingGetPTRRecords L cl (GetReverseName (client_address x)) of
       (None, cl) \<Rightarrow> (x, cl)
     | (Some names, cl) \<Rightarrow>
         let names = (if length names > MaximumPtrNames then take MaximumPtrNames names else names);
             (validated, cl) = ValidateNames L (client_address x) names (validated_names x) cl
         in (x\<lparr> validated_names := validated \<rparr>, cl))"

definition GetValidatedNames ::
  "'w SPFDnsLookup \<Rightarrow> 'w expander_state \<Rightarrow> AnsiString list \<times> 'w expander_state" where
  "GetValidatedNames L = (\<lambda>(x, cl).
     let (x, cl) = (if \<not> validated_names_known x
                    then FindValidatedNames L (x\<lparr> validated_names_known := True \<rparr>, cl)
                    else (x, cl))
     in (validated_names x, (x, cl)))"

text \<open>The choice among the validated names: the domain itself, a name below it, or the first.\<close>

definition ChooseValidatedName :: "AnsiString list \<Rightarrow> AnsiString \<Rightarrow> AnsiString" where
  "ChooseValidatedName names domain =
     (if names = [] then ''unknown''
      else case find (\<lambda>n. EqualsDnsName n domain) names of
        Some n \<Rightarrow> n
      | None \<Rightarrow>
          (case find (\<lambda>n. EndsWithDnsName n (''.'' @ domain)) names of
             Some n \<Rightarrow> n
           | None \<Rightarrow> names ! 0))"

definition GetValidatedName ::
  "'w SPFDnsLookup \<Rightarrow> AnsiString \<Rightarrow> 'w expander_state \<Rightarrow> AnsiString \<times> 'w expander_state" where
  "GetValidatedName L domain s =
     (let (names, s) = GetValidatedNames L s in (ChooseValidatedName names domain, s))"

section \<open>Expansion\<close>

definition GetMacroValue ::
  "'w SPFDnsLookup \<Rightarrow> char \<Rightarrow> AnsiString \<Rightarrow> 'w expander_state \<Rightarrow> AnsiString \<times> 'w expander_state" where
  "GetMacroValue L l domain = (\<lambda>(x, cl).
     if l = CHR ''s'' then (sender x, (x, cl))
     else if l = CHR ''l'' then (local_part x, (x, cl))
     else if l = CHR ''o'' then (sender_domain x, (x, cl))
     else if l = CHR ''d'' then (domain, (x, cl))
     else if l = CHR ''i'' then (GetDottedForm (client_address x), (x, cl))
     else if l = CHR ''p'' then GetValidatedName L domain (x, cl)
     else if l = CHR ''h'' then (helo_host x, (x, cl))
     else if l = CHR ''v'' then (GetArpaLabel (client_address x), (x, cl))
     else if l = CHR ''c'' then (GetReadableForm (client_address x), (x, cl))
     else if l = CHR ''r'' then (receiving_host x, (x, cl))
     else if l = CHR ''t'' then (ToDecimal64 (timestamp x), (x, cl))
     else ([], (x, cl)))"

text \<open>What one macro contributes to the text, with the state its value was fetched in.\<close>

definition ExpandMacro ::
  "'w SPFDnsLookup \<Rightarrow> Macro \<Rightarrow> AnsiString \<Rightarrow> 'w expander_state \<Rightarrow> AnsiString \<times> 'w expander_state" where
  "ExpandMacro L macro domain s =
     (if is_literal macro then
        (if literal macro = CHR ''%'' then ''%''
         else if literal macro = CHR ''_'' then '' ''
         else ''%20'', s)
      else
        let (v, s) = GetMacroValue L (ToLowerAscii (letter macro)) domain s;
            value = Transform v macro
        in (if letter macro \<noteq> ToLowerAscii (letter macro) then UrlEscape value else value, s))"

function ExpandLoop ::
  "'w SPFDnsLookup \<Rightarrow> AnsiString \<Rightarrow> MacroSet \<Rightarrow> AnsiString \<Rightarrow> nat \<Rightarrow> AnsiString \<Rightarrow> 'w expander_state \<Rightarrow>
   AnsiString option \<times> 'w expander_state" where
  "ExpandLoop L text macros domain pos result s =
     (if pos < length text then
        if text ! pos \<noteq> CHR ''%'' then ExpandLoop L text macros domain (pos + 1) (result @ [text ! pos]) s
        else
          (case TryReadMacro text pos macros of
             None \<Rightarrow> (None, s)
           | Some macro \<Rightarrow>
               let (value, s) = ExpandMacro L macro domain s
               in ExpandLoop L text macros domain (macro_end macro) (result @ value) s)
      else (Some result, s))"
  by pat_completeness auto
termination
  by (relation "measure (\<lambda>(L, text, macros, domain, pos, result, s). length text - pos)")
    (auto dest: TryReadMacro_bounds)

declare ExpandLoop.simps [simp del]

text \<open>Whole labels are dropped from the left while the name is too long to be asked about.\<close>

function ShortenName :: "AnsiString \<Rightarrow> AnsiString" where
  "ShortenName result =
     (if length result > 253 then
        (case Find result CHR ''.'' of
           None \<Rightarrow> result
         | Some dot \<Rightarrow> ShortenName (Mid result (dot + 1)))
      else result)"
  by pat_completeness auto
termination
  by (relation "measure length") (auto dest: Find_SomeD)

declare ShortenName.simps [simp del]

definition FinishDomainName :: "AnsiString \<Rightarrow> AnsiString" where
  "FinishDomainName result =
     ShortenName (if result \<noteq> [] \<and> result ! (length result - 1) = CHR ''.''
                  then Left result (length result - 1) else result)"

definition Expand ::
  "'w SPFDnsLookup \<Rightarrow> AnsiString \<Rightarrow> bool \<Rightarrow> AnsiString \<Rightarrow> 'w expander_state \<Rightarrow>
   AnsiString option \<times> 'w expander_state" where
  "Expand L text asDomainName domain s =
     (let macros = (if asDomainName then RecordTerm else ExplanationText)
      in if \<not> IsValidMacroString text macros then (None, s)
         else
           case ExpandLoop L text macros domain 0 [] s of
             (None, s) \<Rightarrow> (None, s)
           | (Some result, s) \<Rightarrow> (Some (if asDomainName then FinishDomainName result else result), s))"

definition ExpandDomainSpec where
  "ExpandDomainSpec L domainSpec domain s = Expand L domainSpec True domain s"

definition ExpandExplanation where
  "ExpandExplanation L text domain s = Expand L text False domain s"

section \<open>Facts: the transformers\<close>

lemma list_ends_cases:
  obtains "length M \<le> 1" | a N b where "M = a # N @ [b]"
  by (metis One_nat_def append_butlast_last_id le_SucI length_0_conv length_Suc_conv list.exhaust nle_le zero_le_one)

lemma ReversePartsLoop_segment:
  "ReversePartsLoop (A @ M @ B) (length A) (length A + length M) = A @ rev M @ B"
proof (induction M arbitrary: A B rule: measure_induct_rule [of length])
  case (less M)
  show ?case
  proof (cases M rule: list_ends_cases)
    case 1
    then have "rev M = M" by (cases M) auto
    with 1 show ?thesis by (simp add: ReversePartsLoop.simps)
  next
    case (2 a N b)
    have "ReversePartsLoop (A @ M @ B) (length A) (length A + length M) =
          ReversePartsLoop ((A @ [b]) @ N @ (a # B)) (length (A @ [b])) (length (A @ [b]) + length N)"
      by (subst ReversePartsLoop.simps) (simp add: 2 nth_append list_update_append)
    also have "\<dots> = (A @ [b]) @ rev N @ (a # B)" using less [of N "A @ [b]" "a # B"] 2 by simp
    finally show ?thesis by (simp add: 2)
  qed
qed

lemma ReversePartsLoop_rev: "ReversePartsLoop parts 0 (length parts) = rev parts"
  using ReversePartsLoop_segment [of "[]" parts "[]"] by simp

lemma SplitAtAnyLoop_parts: "SplitAtAnyLoop t delims cur parts = parts @ SplitAtAnyLoop t delims cur []"
proof (induction t arbitrary: cur parts)
  case Nil
  then show ?case by simp
next
  case (Cons c cs)
  show ?case
    using Cons [of "[]" "parts @ [cur]"] Cons [of "[]" "[cur]"] Cons [of "cur @ [c]" parts] by simp
qed

lemma SplitAtAnyLoop_current:
  "\<exists>p ps. SplitAtAnyLoop t delims [] [] = p # ps \<and> SplitAtAnyLoop t delims cur [] = (cur @ p) # ps"
proof (induction t arbitrary: cur)
  case (Cons c cs)
  then show ?case
    using SplitAtAnyLoop_parts [of cs delims "[]" "[cur]"] SplitAtAnyLoop_parts [of cs delims "[]" "[[]]"]
      Cons [of "[c]"] Cons [of "cur @ [c]"] by auto
qed simp

lemma SplitAtAny_Nil [simp]: "SplitAtAny [] delims = [[]]"
  by (simp add: SplitAtAny_def)

lemma SplitAtAny_Cons:
  "SplitAtAny (c # cs) delims =
     (if c \<in> set delims then [] # SplitAtAny cs delims
      else (c # hd (SplitAtAny cs delims)) # tl (SplitAtAny cs delims))"
  using SplitAtAnyLoop_parts [of cs delims "[]" "[[]]"] SplitAtAnyLoop_current [of cs delims "[c]"]
  by (auto simp: SplitAtAny_def)

lemma SplitAtAny_not_Nil [simp]: "SplitAtAny t delims \<noteq> []"
  by (cases t) (auto simp: SplitAtAny_Cons)

text \<open>
  The parts hold no delimiter and there is one more of them than there are delimiters in the value;
  with a single delimiter the split is the one of the address literals.
\<close>

lemma SplitAtAny_free: "p \<in> set (SplitAtAny t delims) \<Longrightarrow> set p \<inter> set delims = {}"
proof (induction t arbitrary: p)
  case (Cons c cs)
  have "hd (SplitAtAny cs delims) \<in> set (SplitAtAny cs delims)" by (rule hd_in_set) simp
  from Cons.IH [OF this] have "\<forall>x \<in> set (hd (SplitAtAny cs delims)). x \<notin> set delims" by blast
  with Cons show ?case
    by (auto simp: SplitAtAny_Cons split: if_splits dest: list.set_sel(2) [OF SplitAtAny_not_Nil])
qed simp

lemma SplitAtAny_single: "SplitAtAny t [d] = Split t d"
  by (induction t) (auto simp: SplitAtAny_Cons Split_Cons)

lemma length_SplitAtAny: "length (SplitAtAny t delims) = Suc (length (filter (\<lambda>c. c \<in> set delims) t))"
  by (induction t) (auto simp: SplitAtAny_Cons)

lemma foldl_join_parts:
  "first \<le> n \<Longrightarrow> n \<le> length parts \<Longrightarrow>
   foldl (\<lambda>t i. (if i > first then t @ sep else t) @ parts ! i) [] [first..<n] =
   join sep (take (n - first) (drop first parts))"
proof (induction n)
  case (Suc n)
  show ?case
  proof (cases "first = Suc n")
    case False
    with Suc.prems have le: "first \<le> n" by simp
    have "take (Suc n - first) (drop first parts) = take (n - first) (drop first parts) @ [parts ! n]"
      using Suc.prems le by (simp add: Suc_diff_le take_Suc_snoc)
    moreover have "n > first \<Longrightarrow> take (n - first) (drop first parts) \<noteq> []"
      using Suc.prems by simp
    ultimately show ?thesis using Suc le by (auto simp: join_snoc)
  qed simp
qed simp

definition transform_spec :: "AnsiString \<Rightarrow> Macro \<Rightarrow> AnsiString" where
  "transform_spec value macro =
     (let parts = SplitAtAny value (if delimiters macro = [] then ''.'' else delimiters macro);
          parts = (if reverse macro then rev parts else parts);
          kept = (if digits macro = 0 then parts else drop (length parts - digits macro) parts)
      in join ''.'' kept)"

lemma Transform_eq: "Transform value macro = transform_spec value macro"
  by (auto simp: Transform_def transform_spec_def Let_def ReversePartsLoop_rev foldl_join_parts)

section \<open>Facts: escaping and numbers\<close>

definition hex_digit_value :: "char \<Rightarrow> nat" where
  "hex_digit_value c = (if IsDigit c then ord c - 48 else ord c - 55)"

fun percent_decode :: "AnsiString \<Rightarrow> AnsiString" where
  "percent_decode (c # cs) =
     (if c = CHR ''%'' then
        (case cs of h # l # rest \<Rightarrow> char_of (16 * hex_digit_value h + hex_digit_value l) # percent_decode rest
         | _ \<Rightarrow> c # percent_decode cs)
      else c # percent_decode cs)"
| "percent_decode [] = []"

lemma hex_digit_value_digit: "n < 16 \<Longrightarrow> hex_digit_value (''0123456789ABCDEF'' ! n) = n"
proof -
  have "\<forall>n \<in> set [0..<16]. hex_digit_value (''0123456789ABCDEF'' ! n) = n" by code_simp
  then show "n < 16 \<Longrightarrow> hex_digit_value (''0123456789ABCDEF'' ! n) = n" by simp
qed

lemma percent_decode_UrlEscape: "percent_decode (UrlEscape t) = t"
proof (induction t)
  case (Cons c t)
  have "c = CHR ''%'' \<Longrightarrow> \<not> IsUnreserved c" by (simp add: IsUnreserved_def)
  with Cons show ?case
    by (auto simp: UrlEscape_def hex_digit_value_digit div_less_iff_less_mult mult.commute [of 16]
        nat_of_char_less_256 less_mult_imp_div_less)
qed (simp add: UrlEscape_def)

lemma UrlEscape_chars: "c \<in> set (UrlEscape t) \<Longrightarrow> IsUnreserved c \<or> c = CHR ''%''"
proof -
  have hex: "n < 16 \<Longrightarrow> IsUnreserved (''0123456789ABCDEF'' ! n)" for n
  proof -
    have "\<forall>n \<in> set [0..<16]. IsUnreserved (''0123456789ABCDEF'' ! n)" by code_simp
    then show "n < 16 \<Longrightarrow> IsUnreserved (''0123456789ABCDEF'' ! n)" by simp
  qed
  have "ord d div 16 < 16" for d :: char
    using nat_of_char_less_256 [of d] by (simp add: less_mult_imp_div_less)
  then show "c \<in> set (UrlEscape t) \<Longrightarrow> IsUnreserved c \<or> c = CHR ''%''"
    by (induction t) (auto simp: UrlEscape_def hex split: if_splits)
qed

definition decimal_value :: "AnsiString \<Rightarrow> nat" where
  "decimal_value t = foldl (\<lambda>v c. 10 * v + (ord c - 48)) 0 t"

lemma decimal_value_Cons: "decimal_value (c # t) = (ord c - 48) * 10 ^ length t + decimal_value t"
proof -
  let ?f = "\<lambda>v c. 10 * v + (ord c - 48)"
  have "foldl ?f a t = a * 10 ^ length t + foldl ?f 0 t" for a
  proof (induction t arbitrary: a)
    case (Cons d t)
    show ?case using Cons [of "?f a d"] Cons [of "?f 0 d"] by (simp add: algebra_simps)
  qed simp
  from this [of "ord c - 48"] show ?thesis by (simp add: decimal_value_def)
qed

lemma ToDecimal64Loop_value:
  "v < 10 ^ (24 - n) \<Longrightarrow> n < 24 \<Longrightarrow>
   decimal_value (ToDecimal64Loop v n ds) = v * 10 ^ length ds + decimal_value ds"
proof (induction v n ds rule: ToDecimal64Loop.induct)
  case (1 v n ds)
  let ?d = "char_of (ord CHR ''0'' + v mod 10) :: char"
  have digit: "ord ?d - 48 = v mod 10" by (simp add: of_char_of)
  show ?case
  proof (cases "v div 10 > 0 \<and> n + 1 < 24")
    case True
    have "24 - n = Suc (24 - (n + 1))" using 1 by simp
    then have "v div 10 < 10 ^ (24 - (n + 1))" using "1.prems"(1) by (simp add: less_mult_imp_div_less mult.commute)
    from "1.IH" [OF refl refl refl True this] True
    have "decimal_value (ToDecimal64Loop v n ds) =
          (v div 10) * 10 ^ length (?d # ds) + decimal_value (?d # ds)"
      by (subst ToDecimal64Loop.simps) (simp add: Let_def)
    also have "\<dots> = (10 * (v div 10) + v mod 10) * 10 ^ length ds + decimal_value ds"
      by (simp only: decimal_value_Cons digit length_Cons power_Suc add_mult_distrib)
    finally show ?thesis by simp
  next
    case False
    have "v < 10"
    proof (cases "n + 1 < 24")
      case True
      with False show ?thesis by simp
    next
      case False
      with 1 have "24 - n = 1" by simp
      with 1 show ?thesis by simp
    qed
    with False show ?thesis
      by (subst ToDecimal64Loop.simps) (simp add: Let_def decimal_value_Cons of_char_of)
  qed
qed

lemma decimal_value_ToDecimal64:
  "v < 2 ^ 63 \<Longrightarrow> decimal_value (ToDecimal64 v) = nat v"
  using ToDecimal64Loop_value [of "nat v" 0 "[]"]
  by (auto simp: ToDecimal64_def decimal_value_def nat_less_iff ToDecimal64Loop.simps [of 0])

section \<open>Facts: the sender\<close>

lemma init_sender_parts:
  "sender (SPFMacroExpander_init a t h) =
     local_part (SPFMacroExpander_init a t h) @ ''@'' @ sender_domain (SPFMacroExpander_init a t h)"
proof (cases "t = [] \<or> ReverseFind t CHR ''@'' = None")
  case False
  then obtain p where p: "ReverseFind t CHR ''@'' = Some p" "t \<noteq> []" by auto
  from ReverseFind_SomeD [OF p(1)] have at: "p < length t" "t ! p = CHR ''@''" by auto
  have "t = take p t @ CHR ''@'' # drop (Suc p) t" using id_take_nth_drop [OF at(1)] at by simp
  with p at show ?thesis by (auto simp: SPFMacroExpander_init_def Let_def)
qed (auto simp: SPFMacroExpander_init_def Let_def)

lemma init_local_part: "local_part (SPFMacroExpander_init a t h) \<noteq> []"
  by (auto simp: SPFMacroExpander_init_def Let_def POSTMASTER_def split: option.splits)

section \<open>Facts: expansion\<close>

lemma ExpandLoop_valid:
  "IsValidMacroString_from t macros pos \<Longrightarrow> \<exists>r s'. ExpandLoop L t macros domain pos result s = (Some (result @ r), s')"
proof (induction t macros pos arbitrary: result s rule: IsValidMacroString_from.induct)
  case (1 t macros pos)
  show ?case
  proof (cases "pos < length t")
    case False
    then show ?thesis by (subst ExpandLoop.simps) simp
  next
    case pos: True
    from IsValidMacroString_from_step [OF "1.prems" pos] show ?thesis
    proof (elim disjE exE conjE)
      fix m
      assume m: "t ! pos = CHR ''%''" "TryReadMacro t pos macros = Some m" "IsValidMacroString_from t macros (macro_end m)"
      obtain v s1 where "ExpandMacro L m domain s = (v, s1)" by (metis surj_pair)
      with "1.IH"(1) [OF pos m(1,2,3), of "result @ v" s1] pos m show ?thesis
        by (subst ExpandLoop.simps) auto
    next
      assume lit: "t ! pos \<noteq> CHR ''%''" "IsMacroLiteral (t ! pos) macros" "IsValidMacroString_from t macros (pos + 1)"
      with "1.IH"(2) [OF pos lit(1) _ lit(3), of "result @ [t ! pos]" s] pos show ?thesis
        by (subst ExpandLoop.simps) auto
    qed
  qed
qed

lemma Expand_Some_iff:
  "fst (Expand L t asName domain s) \<noteq> None \<longleftrightarrow> IsValidMacroString t (if asName then RecordTerm else ExplanationText)"
  using ExpandLoop_valid [of t "if asName then RecordTerm else ExplanationText" 0 L domain "[]" s]
  by (auto simp: Expand_def IsValidMacroString_def Let_def)

text \<open>
  Shortening keeps a suffix that starts at a label; it is the longest such suffix a query can hold,
  unless the last label alone is too long.
\<close>

definition label_start :: "AnsiString \<Rightarrow> nat \<Rightarrow> bool" where
  "label_start t k \<longleftrightarrow> k \<le> length t \<and> (k = 0 \<or> t ! (k - 1) = CHR ''.'')"

lemma ShortenName_spec:
  "\<exists>k. label_start t k \<and> ShortenName t = drop k t \<and>
       (length t - k \<le> 253 \<or> CHR ''.'' \<notin> set (drop k t)) \<and>
       (\<forall>j < k. label_start t j \<longrightarrow> length t - j > 253)"
proof (induction t rule: ShortenName.induct)
  case (1 t)
  show ?case
  proof (cases "length t > 253 \<and> CHR ''.'' \<in> set t")
    case False
    then have "ShortenName t = t" by (subst ShortenName.simps) (auto simp: Find_None_iff [THEN iffD2])
    with False show ?thesis by (intro exI [of _ 0]) (auto simp: label_start_def)
  next
    case True
    then obtain d where d: "Find t CHR ''.'' = Some d" by (metis Find_None_iff not_None_eq)
    then have dot: "d < length t" "t ! d = CHR ''.''" "CHR ''.'' \<notin> set (take d t)" by (auto dest: Find_SomeD)
    let ?u = "drop (Suc d) t"
    have step: "ShortenName t = ShortenName ?u" using True d by (subst ShortenName.simps) simp
    from "1.IH" [OF _ d] True obtain k where k: "label_start ?u k" "ShortenName ?u = drop k ?u"
      "length ?u - k \<le> 253 \<or> CHR ''.'' \<notin> set (drop k ?u)" "\<forall>j < k. label_start ?u j \<longrightarrow> length ?u - j > 253"
      by auto
    have starts: "label_start t (Suc d + j) \<longleftrightarrow> label_start ?u j" for j
      using dot by (cases j) (auto simp: label_start_def)
    have "length t - j > 253" if "j < Suc d + k" "label_start t j" for j
    proof (cases "j \<le> d")
      case True
      have "j = 0"
      proof (rule ccontr)
        assume "j \<noteq> 0"
        with that True dot have "take d t ! (j - 1) = CHR ''.''" "j - 1 < length (take d t)" by (auto simp: label_start_def)
        with dot(3) show False using nth_mem by metis
      qed
      with \<open>length t > 253 \<and> _\<close> show ?thesis by simp
    next
      case False
      then obtain i where i: "j = Suc d + i" by (metis add.commute le_add_diff_inverse2 not_less_eq_eq)
      with that k(4) starts [of i] have "length ?u - i > 253" by auto
      with i show ?thesis by simp
    qed
    with k step starts [of k] show ?thesis by (intro exI [of _ "Suc d + k"]) (auto simp: add.commute)
  qed
qed

section \<open>Facts: the state an expansion leaves\<close>

text \<open>
  The one operation of the expander that changes state is the fetching of the validated names. So a
  reflexive and transitive relation that fetching respects is respected by every expansion; the
  locale proves that once, for the memo, the frame and the query count below.
\<close>

locale expander_relation =
  fixes L :: "'w SPFDnsLookup" and R :: "'w expander_state \<Rightarrow> 'w expander_state \<Rightarrow> bool"
  assumes R_refl: "R s s"
    and R_trans: "R s s' \<Longrightarrow> R s' s'' \<Longrightarrow> R s s''"
    and R_fetch: "GetValidatedNames L s = (names, s') \<Longrightarrow> R s s'"
begin

lemma R_GetMacroValue: "GetMacroValue L l domain s = (v, s') \<Longrightarrow> R s s'"
  by (cases s) (auto simp: GetMacroValue_def GetValidatedName_def Let_def R_refl
      split: if_splits prod.splits dest: R_fetch)

lemma R_ExpandMacro: "ExpandMacro L m domain s = (v, s') \<Longrightarrow> R s s'"
  by (auto simp: ExpandMacro_def Let_def R_refl split: if_splits prod.splits dest: R_GetMacroValue)

lemma R_ExpandLoop: "ExpandLoop L t macros domain pos result s = (r, s') \<Longrightarrow> R s s'"
proof (induction "length t - pos" arbitrary: pos result s rule: less_induct)
  case less
  show ?case
  proof (cases "pos < length t \<and> t ! pos = CHR ''%'' \<and> TryReadMacro t pos macros \<noteq> None")
    case True
    then obtain m where m: "pos < length t" "t ! pos = CHR ''%''" "TryReadMacro t pos macros = Some m" by auto
    obtain v s1 where v: "ExpandMacro L m domain s = (v, s1)" by (metis surj_pair)
    with less.prems m have "ExpandLoop L t macros domain (macro_end m) (result @ v) s1 = (r, s')"
      by (subst (asm) ExpandLoop.simps) simp
    moreover have "length t - macro_end m < length t - pos" using m(1) TryReadMacro_bounds [OF m(3)] by linarith
    ultimately have "R s1 s'" by (rule less.hyps [rotated])
    with R_ExpandMacro [OF v] show ?thesis by (rule R_trans)
  next
    case False
    with less.prems consider "s' = s" | "pos < length t" "ExpandLoop L t macros domain (pos + 1) (result @ [t ! pos]) s = (r, s')"
      by (simp add: ExpandLoop.simps [of L t macros domain pos] split: if_splits)
    then show ?thesis using less.hyps [of "pos + 1"] by cases (auto simp: R_refl)
  qed
qed

lemma R_Expand: "Expand L t asName domain s = (r, s') \<Longrightarrow> R s s'"
  by (auto simp: Expand_def Let_def R_refl split: if_splits prod.splits option.splits dest: R_ExpandLoop)

end

text \<open>The memo: once the names are known they are not asked for again, and stay what they are.\<close>

definition memo_kept :: "'w expander_state \<Rightarrow> 'w expander_state \<Rightarrow> bool" where
  "memo_kept s s' \<longleftrightarrow> (validated_names_known (fst s) \<longrightarrow> s' = s)"

text \<open>The frame: an expansion writes nothing of the expander but the memo.\<close>

definition same_subject :: "'w expander_state \<Rightarrow> 'w expander_state \<Rightarrow> bool" where
  "same_subject s s' \<longleftrightarrow>
     (\<exists>k ns. fst s' = fst s\<lparr> validated_names_known := k, validated_names := ns \<rparr>)"

lemma FindValidatedNames_frame:
  "FindValidatedNames L (x, cl) = (x', cl') \<Longrightarrow> \<exists>ns. x' = x\<lparr> validated_names := ns \<rparr>"
  by (auto simp: FindValidatedNames_def Let_def split: prod.splits option.splits if_splits
      intro: exI [of _ "validated_names x"])

lemma GetValidatedNames_result:
  "GetValidatedNames L s = (names, s') \<Longrightarrow> validated_names_known (fst s') \<and> names = validated_names (fst s')"
  by (cases s) (auto simp: GetValidatedNames_def Let_def split: prod.splits if_splits dest!: FindValidatedNames_frame)

interpretation memo: expander_relation L memo_kept for L
  by unfold_locales (auto simp: memo_kept_def GetValidatedNames_def Let_def)

lemma same_subject_refl [simp]: "same_subject s s"
  unfolding same_subject_def
  by (rule exI [of _ "validated_names_known (fst s)"], rule exI [of _ "validated_names (fst s)"]) simp

lemma same_subject_trans: "same_subject s s' \<Longrightarrow> same_subject s' s'' \<Longrightarrow> same_subject s s''"
  unfolding same_subject_def by (elim exE) (simp, blast)

lemma same_subject_fetch: "GetValidatedNames L s = (names, s') \<Longrightarrow> same_subject s s'"
proof -
  assume got: "GetValidatedNames L s = (names, s')"
  obtain x cl where s: "s = (x, cl)" by (cases s)
  show ?thesis
  proof (cases "validated_names_known x")
    case True
    with got have "s' = s" by (simp add: GetValidatedNames_def s)
    then show ?thesis by simp
  next
    case False
    with got s have "FindValidatedNames L (x\<lparr> validated_names_known := True \<rparr>, cl) = s'"
      by (auto simp: GetValidatedNames_def Let_def split: prod.splits)
    then show ?thesis
      using FindValidatedNames_frame [of L "x\<lparr> validated_names_known := True \<rparr>" cl "fst s'" "snd s'"]
      by (auto simp: s same_subject_def)
  qed
qed

interpretation subject: expander_relation L same_subject for L
  by unfold_locales (auto intro: same_subject_trans same_subject_fetch)

section \<open>Facts: the queries of an expansion\<close>

context query_meter
begin

lemma spent_address_query:
  "(if b then CountingGetAAAARecords L cl n else CountingGetARecords L cl n) = (ans, cl') \<Longrightarrow>
   spent cl' \<le> spent cl + 1"
  by (auto split: if_splits dest: spent_A spent_AAAA)

lemma ValidateNames_cost:
  "ValidateNames L client names validated cl = (r, cl') \<Longrightarrow> spent cl' \<le> spent cl + length names"
proof (induction names arbitrary: validated cl)
  case (Cons name names)
  obtain ans cl1 where q: "(if family client = FamilyIP6 then CountingGetAAAARecords L cl name
                            else CountingGetARecords L cl name) = (ans, cl1)" by (metis surj_pair)
  with Cons.prems have "\<exists>v. ValidateNames L client names v cl1 = (r, cl')"
    by (cases ans) auto
  with Cons.IH spent_address_query [OF q] show ?case by fastforce
qed simp

lemma FindValidatedNames_cost:
  assumes "FindValidatedNames L (x, cl) = (x', cl')"
  shows "spent cl' \<le> spent cl + (1 + MaximumPtrNames)"
proof -
  obtain ans cl1 where q: "CountingGetPTRRecords L cl (GetReverseName (client_address x)) = (ans, cl1)"
    by (metis surj_pair)
  have "spent cl' \<le> spent cl1 + MaximumPtrNames"
  proof (cases ans)
    case None
    with assms q show ?thesis by (simp add: FindValidatedNames_def)
  next
    case (Some names)
    then obtain v where "ValidateNames L (client_address x) (take MaximumPtrNames names) (validated_names x) cl1 = (v, cl')"
      using assms q by (auto simp: FindValidatedNames_def Let_def split: prod.splits if_splits)
    from ValidateNames_cost [OF this] show ?thesis by simp
  qed
  with spent_PTR [OF q] show ?thesis by simp
qed

text \<open>
  What an expansion may still spend: the one fetch of the validated names, if it has not been made.
\<close>

definition expander_potential :: "'w expander_state \<Rightarrow> nat" where
  "expander_potential s =
     spent (snd s) + (if validated_names_known (fst s) then 0 else 1 + MaximumPtrNames)"

lemma fetch_potential: "GetValidatedNames L s = (names, s') \<Longrightarrow> expander_potential s' \<le> expander_potential s"
proof -
  assume got: "GetValidatedNames L s = (names, s')"
  obtain x cl where s: "s = (x, cl)" by (cases s)
  show ?thesis
  proof (cases "validated_names_known x")
    case True
    with got show ?thesis by (simp add: GetValidatedNames_def s)
  next
    case False
    with got s have "FindValidatedNames L (x\<lparr> validated_names_known := True \<rparr>, cl) = (fst s', snd s')"
      by (auto simp: GetValidatedNames_def Let_def split: prod.splits)
    from FindValidatedNames_cost [OF this] GetValidatedNames_result [OF got] False s
    show ?thesis by (simp add: expander_potential_def)
  qed
qed

sublocale expansion: expander_relation L "\<lambda>s s'. expander_potential s' \<le> expander_potential s"
  by unfold_locales (auto dest: fetch_potential)

end

text \<open>The validated names are names the reverse mapping gave, at most ten of them.\<close>

lemma ValidateNames_length:
  "ValidateNames L client names validated cl = (r, cl') \<Longrightarrow> length r \<le> length validated + length names"
proof (induction names arbitrary: validated cl)
  case (Cons name names)
  then obtain v cl1 where v: "ValidateNames L client names v cl1 = (r, cl')" "length v \<le> length validated + 1"
    by (auto simp: Let_def split: prod.splits option.splits if_splits)
  with Cons.IH [OF v(1)] show ?case by simp
qed simp

lemma GetValidatedNames_length:
  "GetValidatedNames L (x, cl) = (names, s') \<Longrightarrow> validated_names x = [] \<Longrightarrow> length names \<le> MaximumPtrNames"
  by (fastforce simp: GetValidatedNames_def FindValidatedNames_def Let_def
      split: prod.splits option.splits if_splits dest: ValidateNames_length)

section \<open>Properties\<close>

text \<open>
  an expansion fails only on a macro string that is not in the grammar: the failure the loop itself
  would report cannot happen, since the string was checked first.
\<close>

theorem expansion_fails_only_on_grammar:
  "fst (Expand L t asDomainName domain s) \<noteq> None \<longleftrightarrow>
     IsValidMacroString t (if asDomainName then RecordTerm else ExplanationText)"
  by (rule Expand_Some_iff)

text \<open>
  the transformers of section 7.3: the value is split at the delimiters, the parts are turned round
  where r is written, the right hand ones that the digits ask for are kept, and they are joined with
  dots.
\<close>

theorem transformers_meaning:
  "Transform value macro =
     (let parts = SplitAtAny value (if delimiters macro = [] then ''.'' else delimiters macro);
          turned = (if reverse macro then rev parts else parts)
      in join ''.'' (if digits macro = 0 then turned else drop (length turned - digits macro) turned))"
  by (simp add: Transform_eq transform_spec_def Let_def)

text \<open>
  escaping loses nothing: decoding the escapes gives the value back, and what is written is made of
  unreserved characters and percent signs only.
\<close>

theorem url_escape_round_trip:
  "percent_decode (UrlEscape t) = t \<and> list_all (\<lambda>c. IsUnreserved c \<or> c = CHR ''%'') (UrlEscape t)"
  using UrlEscape_chars by (auto simp: percent_decode_UrlEscape list_all_iff)

text \<open>
  a name too long to be asked about loses labels from the left, as few as will do: what is left
  starts at a label, is at most 253 characters long unless it is a single label, and every longer tail
  of labels is too long.
\<close>

theorem long_name_is_shortened:
  "\<exists>k. label_start t k \<and> ShortenName t = drop k t \<and>
       (length (ShortenName t) \<le> 253 \<or> CHR ''.'' \<notin> set (ShortenName t)) \<and>
       (\<forall>j < k. \<not> label_start t j \<or> length (drop j t) > 253)"
proof -
  obtain k where "label_start t k" "ShortenName t = drop k t" "length t - k \<le> 253 \<or> CHR ''.'' \<notin> set (drop k t)"
    "\<forall>j < k. label_start t j \<longrightarrow> length t - j > 253"
    using ShortenName_spec [of t] by blast
  then show ?thesis by (intro exI [of _ k]) auto
qed

theorem long_name_is_shortened_witness:
  "ShortenName (replicate 200 CHR ''a'' @ ''.'' @ replicate 100 CHR ''b'') = replicate 100 CHR ''b'' \<and>
   (\<exists>k. label_start (replicate 200 CHR ''a'' @ ''.'' @ replicate 100 CHR ''b'') k \<and>
        drop k (replicate 200 CHR ''a'' @ ''.'' @ replicate 100 CHR ''b'') = replicate 100 CHR ''b'')"
proof -
  have "ShortenName (replicate 200 CHR ''a'' @ ''.'' @ replicate 100 CHR ''b'') = replicate 100 CHR ''b''" by code_simp
  with long_name_is_shortened [of "replicate 200 CHR ''a'' @ ''.'' @ replicate 100 CHR ''b''"] show ?thesis by metis
qed

text \<open>
  the macros s, l and o agree: whatever sender the check was given, also an empty one or one
  without a local part, the sender is the local part, an at sign and the domain, and the local part is
  not empty.
\<close>

theorem sender_macros_agree:
  "sender (SPFMacroExpander_init a t h) =
     local_part (SPFMacroExpander_init a t h) @ ''@'' @ sender_domain (SPFMacroExpander_init a t h) \<and>
   local_part (SPFMacroExpander_init a t h) \<noteq> []"
  by (simp only: init_sender_parts init_local_part simp_thms)

text \<open>
  the validated names are looked up once: asked for again, they are the same, and neither the
  expander nor the DNS is touched.
\<close>

theorem validated_names_fetched_once:
  "GetValidatedNames L s = (names, s') \<Longrightarrow> GetValidatedNames L s' = (names, s')"
  using GetValidatedNames_result [of L s names s'] by (cases s') (simp add: GetValidatedNames_def)

theorem validated_names_fetched_once_witness:
  "\<exists>names s'. GetValidatedNames (SPFDnsResolver (\<lambda>ty w n. (Some [''192.0.2.1''], w + 1)))
      (SPFMacroExpander_init (SPFAddress_init\<lparr> family := FamilyIP4 \<rparr>) [] [], CountingLookup_init (0 :: nat)) = (names, s') \<and>
    GetValidatedNames (SPFDnsResolver (\<lambda>ty w n. (Some [''192.0.2.1''], w + 1))) s' = (names, s')"
proof -
  obtain names s' where "GetValidatedNames (SPFDnsResolver (\<lambda>ty w n. (Some [''192.0.2.1''], w + 1)))
      (SPFMacroExpander_init (SPFAddress_init\<lparr> family := FamilyIP4 \<rparr>) [] [], CountingLookup_init (0 :: nat)) = (names, s')"
    by (metis surj_pair)
  with validated_names_fetched_once show ?thesis by blast
qed

text \<open>
  the t macro writes the seconds as a decimal number, and every 63-bit time fits its buffer.
\<close>

theorem timestamp_is_decimal: "v < 2 ^ 63 \<Longrightarrow> decimal_value (ToDecimal64 v) = nat v"
  by (rule decimal_value_ToDecimal64)

theorem timestamp_is_decimal_witness: "decimal_value (ToDecimal64 407) = 407 \<and> ToDecimal64 407 = ''407''"
proof -
  have "decimal_value (ToDecimal64 407) = nat 407" by (rule timestamp_is_decimal) simp
  moreover have "ToDecimal64 407 = ''407''" by code_simp
  ultimately show ?thesis by simp
qed

end
