(* ===== verification/SPF_Evaluator.thy ===== *)
theory SPF_Evaluator
  imports SPF_Locator SPF_Macro
begin

text \<open>
  \<^verbatim>\<open>check_host()\<close> of RFC 7208 section 4, SMTP/SPF/SPFEvaluator.h and SPFEvaluator.cpp. The evaluator's
  state is threaded through every operation: the counting lookup and the expander it shares with the
  macro expansion, the counters of section 4.6.4 and the error a failed mechanism leaves behind.

  An include and a redirect evaluate another domain one level deeper. The operations below
  \<^verbatim>\<open>CheckDomain_\<close> take that evaluation as their argument \<open>self\<close>, and \<open>CheckDomain\<close> ties the knot: the
  level is bounded by \<open>MAXIMUM_DEPTH\<close>, which is also why the recursion ends. A null \<^verbatim>\<open>explanation\<close>
  pointer is \<open>want = False\<close>.
\<close>

section \<open>Results and state\<close>

datatype SPFResult = ResultNone | Neutral | Pass | Fail | SoftFail | TempError | PermError

datatype Match = MatchYes | MatchNo | MatchError

datatype TargetName = Resolved AnsiString | Unusable | TargetSyntaxError

record 'w SPFEvaluator =
  counting_lookup :: "'w CountingLookup"
  expander :: SPFMacroExpander
  evaluator_client :: SPFAddress
  evaluator_host :: AnsiString
  evaluator_timestamp :: int
  terms :: nat
  void_terms :: nat
  void_term_limit :: int
  error_result :: SPFResult

definition MaximumTerms :: nat where "MaximumTerms = 10"
definition MaximumVoidTerms :: int where "MaximumVoidTerms = 2"
definition MaximumMxNames :: nat where "MaximumMxNames = 10"
definition MAXIMUM_DEPTH :: nat where "MAXIMUM_DEPTH = MaximumTerms + 2"

definition SPFEvaluator_init :: "'w \<Rightarrow> 'w SPFEvaluator" where
  "SPFEvaluator_init w =
     \<lparr> counting_lookup = CountingLookup_init w,
       expander = SPFMacroExpander_init SPFAddress_init [] [],
       evaluator_client = SPFAddress_init, evaluator_host = ''unknown'', evaluator_timestamp = 0,
       terms = 0, void_terms = 0, void_term_limit = MaximumVoidTerms, error_result = PermError \<rparr>"

definition EvaluatorSetReceivingHost :: "AnsiString \<Rightarrow> 'w SPFEvaluator \<Rightarrow> 'w SPFEvaluator" where
  "EvaluatorSetReceivingHost name st = st\<lparr> evaluator_host := name \<rparr>"

definition EvaluatorSetTimestamp :: "int \<Rightarrow> 'w SPFEvaluator \<Rightarrow> 'w SPFEvaluator" where
  "EvaluatorSetTimestamp seconds st = st\<lparr> evaluator_timestamp := seconds \<rparr>"

definition SetVoidTermLimit :: "int \<Rightarrow> 'w SPFEvaluator \<Rightarrow> 'w SPFEvaluator" where
  "SetVoidTermLimit limit st = st\<lparr> void_term_limit := limit \<rparr>"

type_synonym 'w checker =
  "AnsiString \<Rightarrow> bool \<Rightarrow> 'w SPFEvaluator \<Rightarrow> SPFResult \<times> AnsiString \<times> 'w SPFEvaluator"

section \<open>Helpers\<close>

definition IsAtOrBelow :: "AnsiString \<Rightarrow> AnsiString \<Rightarrow> bool" where
  "IsAtOrBelow name targetName =
     (if EqualsDnsName name targetName then True else EndsWithDnsName name (''.'' @ targetName))"

definition ResultOf :: "Qualifier \<Rightarrow> SPFResult" where
  "ResultOf q =
     (case q of
        QualifierPass \<Rightarrow> Pass
      | QualifierFail \<Rightarrow> Fail
      | QualifierSoftFail \<Rightarrow> SoftFail
      | QualifierNeutral \<Rightarrow> Neutral)"

definition FailWith :: "SPFResult \<Rightarrow> 'w SPFEvaluator \<Rightarrow> Match \<times> 'w SPFEvaluator" where
  "FailWith result st = (MatchError, st\<lparr> error_result := result \<rparr>)"

definition CountTerm :: "'w SPFEvaluator \<Rightarrow> bool \<times> 'w SPFEvaluator" where
  "CountTerm st = (let st = st\<lparr> terms := terms st + 1 \<rparr> in (terms st \<le> MaximumTerms, st))"

definition CountVoidTerm :: "nat \<Rightarrow> 'w SPFEvaluator \<Rightarrow> 'w SPFEvaluator" where
  "CountVoidTerm voidQueriesBefore st =
     (if GetVoidQueryCount (counting_lookup st) > voidQueriesBefore
      then st\<lparr> void_terms := void_terms st + 1 \<rparr> else st)"

definition GetHasTooManyVoidTerms :: "'w SPFEvaluator \<Rightarrow> bool" where
  "GetHasTooManyVoidTerms st =
     (if void_term_limit st \<le> 0 then False else int (void_terms st) > void_term_limit st)"

text \<open>The expander's operations, run on the evaluator's expander and lookup.\<close>

definition WithExpander ::
  "('w expander_state \<Rightarrow> 'b \<times> 'w expander_state) \<Rightarrow> 'w SPFEvaluator \<Rightarrow> 'b \<times> 'w SPFEvaluator" where
  "WithExpander f st =
     (let (b, (x, cl)) = f (expander st, counting_lookup st)
      in (b, st\<lparr> expander := x, counting_lookup := cl \<rparr>))"

definition WithLookup ::
  "('w CountingLookup \<Rightarrow> 'b \<times> 'w CountingLookup) \<Rightarrow> 'w SPFEvaluator \<Rightarrow> 'b \<times> 'w SPFEvaluator" where
  "WithLookup f st = (let (b, cl) = f (counting_lookup st) in (b, st\<lparr> counting_lookup := cl \<rparr>))"

definition ResolveTargetName ::
  "'w SPFDnsLookup \<Rightarrow> SPFMechanism \<Rightarrow> AnsiString \<Rightarrow> 'w SPFEvaluator \<Rightarrow> TargetName \<times> 'w SPFEvaluator" where
  "ResolveTargetName L m domain st =
     (let (target, st) = (if \<not> has_domain_spec m then (Some domain, st)
                          else WithExpander (ExpandDomainSpec L (domain_spec m) domain) st)
      in case target of
           None \<Rightarrow> (TargetSyntaxError, st)
         | Some targetName \<Rightarrow>
             if \<not> IsValidDomainName targetName then (Unusable, st) else (Resolved targetName, st))"

definition TryLookupAddresses ::
  "'w SPFDnsLookup \<Rightarrow> AnsiString \<Rightarrow> 'w SPFEvaluator \<Rightarrow> AnsiString list option \<times> 'w SPFEvaluator" where
  "TryLookupAddresses L host st =
     (if family (evaluator_client st) = FamilyIP6
      then WithLookup (\<lambda>cl. CountingGetAAAARecords L cl host) st
      else WithLookup (\<lambda>cl. CountingGetARecords L cl host) st)"

definition MatchesAnyAddress :: "SPFAddress \<Rightarrow> AnsiString list \<Rightarrow> nat \<Rightarrow> bool" where
  "MatchesAnyAddress client addresses prefixLength =
     list_ex (\<lambda>a. case TryParse a of
                    None \<Rightarrow> False
                  | Some addr \<Rightarrow> MatchesPrefix client addr (int prefixLength)) addresses"

definition PrefixLengthFor :: "SPFAddress \<Rightarrow> SPFMechanism \<Rightarrow> nat" where
  "PrefixLengthFor client m =
     (if family client = FamilyIP6 then ip6_prefix_length m else ip4_prefix_length m)"

definition ExplanationFor ::
  "'w SPFDnsLookup \<Rightarrow> SPFRecord \<Rightarrow> AnsiString \<Rightarrow> 'w SPFEvaluator \<Rightarrow> AnsiString \<times> 'w SPFEvaluator" where
  "ExplanationFor L r domain st =
     (if \<not> has_explanation r then ([], st)
      else
        case WithExpander (ExpandDomainSpec L (explanation_domain_spec r) domain) st of
          (None, st) \<Rightarrow> ([], st)
        | (Some targetName, st) \<Rightarrow>
            case WithLookup (\<lambda>cl. CountingGetTXTRecords L cl targetName) st of
              (None, st) \<Rightarrow> ([], st)
            | (Some records, st) \<Rightarrow>
                if length records \<noteq> 1 then ([], st)
                else
                  case WithExpander (ExpandExplanation L (records ! 0) domain) st of
                    (None, st) \<Rightarrow> ([], st)
                  | (Some explanation, st) \<Rightarrow> (explanation, st))"

section \<open>The mechanisms\<close>

definition MatchAddressLiteral :: "SPFMechanism \<Rightarrow> 'w SPFEvaluator \<Rightarrow> Match \<times> 'w SPFEvaluator" where
  "MatchAddressLiteral m st =
     (case TryParse (address m) of
        None \<Rightarrow> FailWith PermError st
      | Some network \<Rightarrow>
          let prefixLength = (if mechanism_type m = TypeIP4 then ip4_prefix_length m
                              else ip6_prefix_length m)
          in (if MatchesPrefix (evaluator_client st) network (int prefixLength)
              then MatchYes else MatchNo, st))"

definition MatchA ::
  "'w SPFDnsLookup \<Rightarrow> SPFMechanism \<Rightarrow> AnsiString \<Rightarrow> 'w SPFEvaluator \<Rightarrow> Match \<times> 'w SPFEvaluator" where
  "MatchA L m targetName st =
     (case TryLookupAddresses L targetName st of
        (None, st) \<Rightarrow> FailWith TempError st
      | (Some addresses, st) \<Rightarrow>
          (if MatchesAnyAddress (evaluator_client st) addresses (PrefixLengthFor (evaluator_client st) m)
           then MatchYes else MatchNo, st))"

fun MatchMXNames ::
  "'w SPFDnsLookup \<Rightarrow> nat \<Rightarrow> AnsiString list \<Rightarrow> 'w SPFEvaluator \<Rightarrow> Match \<times> 'w SPFEvaluator" where
  "MatchMXNames L prefixLength [] st = (MatchNo, st)"
| "MatchMXNames L prefixLength (hostName # hostNames) st =
     (case TryLookupAddresses L hostName st of
        (None, st) \<Rightarrow> FailWith TempError st
      | (Some addresses, st) \<Rightarrow>
          if MatchesAnyAddress (evaluator_client st) addresses prefixLength then (MatchYes, st)
          else MatchMXNames L prefixLength hostNames st)"

definition MatchMX ::
  "'w SPFDnsLookup \<Rightarrow> SPFMechanism \<Rightarrow> AnsiString \<Rightarrow> 'w SPFEvaluator \<Rightarrow> Match \<times> 'w SPFEvaluator" where
  "MatchMX L m targetName st =
     (case WithLookup (\<lambda>cl. CountingGetMXRecords L cl targetName) st of
        (None, st) \<Rightarrow> FailWith TempError st
      | (Some hostNames, st) \<Rightarrow>
          if length hostNames > MaximumMxNames then FailWith PermError st
          else MatchMXNames L (PrefixLengthFor (evaluator_client st) m) hostNames st)"

definition MatchPTR ::
  "'w SPFDnsLookup \<Rightarrow> AnsiString \<Rightarrow> 'w SPFEvaluator \<Rightarrow> Match \<times> 'w SPFEvaluator" where
  "MatchPTR L targetName st =
     (let (names, st) = WithExpander (GetValidatedNames L) st
      in (if list_ex (\<lambda>n. IsAtOrBelow n targetName) names then MatchYes else MatchNo, st))"

definition MatchExists ::
  "'w SPFDnsLookup \<Rightarrow> AnsiString \<Rightarrow> 'w SPFEvaluator \<Rightarrow> Match \<times> 'w SPFEvaluator" where
  "MatchExists L targetName st =
     (case WithLookup (\<lambda>cl. CountingGetARecords L cl targetName) st of
        (None, st) \<Rightarrow> FailWith TempError st
      | (Some addresses, st) \<Rightarrow> (if addresses = [] then MatchNo else MatchYes, st))"

definition MatchInclude ::
  "'w checker \<Rightarrow> AnsiString \<Rightarrow> 'w SPFEvaluator \<Rightarrow> Match \<times> 'w SPFEvaluator" where
  "MatchInclude self targetName st =
     (let (result, _, st) = self targetName False st
      in case result of
           Pass \<Rightarrow> (MatchYes, st)
         | Fail \<Rightarrow> (MatchNo, st)
         | SoftFail \<Rightarrow> (MatchNo, st)
         | Neutral \<Rightarrow> (MatchNo, st)
         | TempError \<Rightarrow> FailWith TempError st
         | ResultNone \<Rightarrow> FailWith PermError st
         | PermError \<Rightarrow> FailWith PermError st)"

text \<open>
  The five mechanisms that query DNS, on a target name already resolved and counted. An include's
  void is counted by the check it starts, the void of the others here.
\<close>

definition EvaluateQuery ::
  "'w SPFDnsLookup \<Rightarrow> 'w checker \<Rightarrow> SPFMechanism \<Rightarrow> AnsiString \<Rightarrow> 'w SPFEvaluator \<Rightarrow> Match \<times> 'w SPFEvaluator" where
  "EvaluateQuery L self m targetName st =
     (let voidQueriesBefore = GetVoidQueryCount (counting_lookup st)
      in if mechanism_type m = TypeInclude then MatchInclude self targetName st
         else
           let (match, st) =
                 (case mechanism_type m of
                    TypeA \<Rightarrow> MatchA L m targetName st
                  | TypeMX \<Rightarrow> MatchMX L m targetName st
                  | TypePTR \<Rightarrow> MatchPTR L targetName st
                  | TypeExists \<Rightarrow> MatchExists L targetName st
                  | _ \<Rightarrow> (MatchNo, st))
           in (match, CountVoidTerm voidQueriesBefore st))"

definition EvaluateMechanism ::
  "'w SPFDnsLookup \<Rightarrow> 'w checker \<Rightarrow> SPFMechanism \<Rightarrow> AnsiString \<Rightarrow> 'w SPFEvaluator \<Rightarrow> Match \<times> 'w SPFEvaluator" where
  "EvaluateMechanism L self m domain st =
     (if mechanism_type m = TypeAll then (MatchYes, st)
      else if mechanism_type m = TypeIP4 \<or> mechanism_type m = TypeIP6 then MatchAddressLiteral m st
      else
        case ResolveTargetName L m domain st of
          (TargetSyntaxError, st) \<Rightarrow> FailWith PermError st
        | (Unusable, st) \<Rightarrow> (MatchNo, st)
        | (Resolved targetName, st) \<Rightarrow>
            let (within, st) = CountTerm st
            in if \<not> within then FailWith PermError st
               else EvaluateQuery L self m targetName st)"

section \<open>The check\<close>

definition FollowRedirect ::
  "'w SPFDnsLookup \<Rightarrow> 'w checker \<Rightarrow> SPFRecord \<Rightarrow> AnsiString \<Rightarrow> bool \<Rightarrow> 'w SPFEvaluator \<Rightarrow>
   SPFResult \<times> AnsiString \<times> 'w SPFEvaluator" where
  "FollowRedirect L self r domain want st =
     (let redirect = SetDomainSpec (redirect_domain_spec r) (SPFMechanism_init TypeInclude QualifierPass)
      in case ResolveTargetName L redirect domain st of
           (TargetSyntaxError, st) \<Rightarrow> (PermError, [], st)
         | (Unusable, st) \<Rightarrow> (PermError, [], st)
         | (Resolved targetName, st) \<Rightarrow>
             let (within, st) = CountTerm st
             in if \<not> within then (PermError, [], st)
                else
                  let (result, explanation, st) = self targetName want st
                  in if result = ResultNone then (PermError, [], st) else (result, explanation, st))"

fun EvaluateMechanisms ::
  "'w SPFDnsLookup \<Rightarrow> 'w checker \<Rightarrow> SPFRecord \<Rightarrow> AnsiString \<Rightarrow> bool \<Rightarrow> SPFMechanism list \<Rightarrow> 'w SPFEvaluator \<Rightarrow>
   SPFResult \<times> AnsiString \<times> 'w SPFEvaluator" where
  "EvaluateMechanisms L self r domain want [] st =
     (if has_redirect r then FollowRedirect L self r domain want st else (Neutral, [], st))"
| "EvaluateMechanisms L self r domain want (m # ms) st =
     (let (match, st) = EvaluateMechanism L self m domain st
      in if GetHasTooManyVoidTerms st then (PermError, [], st)
         else
           case match of
             MatchError \<Rightarrow> (error_result st, [], st)
           | MatchNo \<Rightarrow> EvaluateMechanisms L self r domain want ms st
           | MatchYes \<Rightarrow>
               let result = ResultOf (qualifier m)
               in if result = Fail \<and> want then
                    let (explanation, st) = ExplanationFor L r domain st in (result, explanation, st)
                  else (result, [], st))"

definition CheckDomainBody ::
  "'w SPFDnsLookup \<Rightarrow> 'w checker \<Rightarrow> AnsiString \<Rightarrow> bool \<Rightarrow> 'w SPFEvaluator \<Rightarrow>
   SPFResult \<times> AnsiString \<times> 'w SPFEvaluator" where
  "CheckDomainBody L self domain want st =
     (let voidQueriesBefore = GetVoidQueryCount (counting_lookup st);
          (located, st) = WithLookup (Locate L domain) st;
          st = CountVoidTerm voidQueriesBefore st
      in case located of
           NoRecord \<Rightarrow> (ResultNone, [], st)
         | TemporaryError \<Rightarrow> (TempError, [], st)
         | Ambiguous \<Rightarrow> (PermError, [], st)
         | SyntaxError e \<Rightarrow> (PermError, [], st)
         | Found r \<Rightarrow>
             if GetHasTooManyVoidTerms st then (PermError, [], st)
             else EvaluateMechanisms L self r domain want (mechanisms r) st)"

text \<open>
  The recursion on the level, for any limit; the code's limit is \<open>MAXIMUM_DEPTH\<close>.
\<close>

function CheckDomainUpTo :: "nat \<Rightarrow> 'w SPFDnsLookup \<Rightarrow> nat \<Rightarrow> 'w checker" where
  "CheckDomainUpTo limit L depth domain want st =
     (if depth > limit then (PermError, [], st)
      else CheckDomainBody L (\<lambda>d e s. CheckDomainUpTo limit L (depth + 1) d e s) domain want st)"
  by pat_completeness auto
termination
  by (relation "measure (\<lambda>(limit, L, depth, domain, want, st). limit + 1 - depth)") auto

declare CheckDomainUpTo.simps [simp del]

definition CheckDomain :: "'w SPFDnsLookup \<Rightarrow> nat \<Rightarrow> 'w checker" where
  "CheckDomain L depth domain want st = CheckDomainUpTo MAXIMUM_DEPTH L depth domain want st"

definition Check ::
  "'w SPFDnsLookup \<Rightarrow> SPFAddress \<Rightarrow> AnsiString \<Rightarrow> AnsiString \<Rightarrow> AnsiString \<Rightarrow> 'w SPFEvaluator \<Rightarrow>
   SPFResult \<times> AnsiString \<times> 'w SPFEvaluator" where
  "Check L clientAddress domain sender0 heloHost st =
     (let st = st\<lparr> terms := 0, void_terms := 0, error_result := PermError,
                   evaluator_client := clientAddress,
                   counting_lookup := CountingLookup_init (lookup_world (counting_lookup st)),
                   expander := SetTimestamp (evaluator_timestamp st)
                                 (SetReceivingHost (evaluator_host st)
                                    (SPFMacroExpander_init clientAddress sender0 heloHost)) \<rparr>
      in CheckDomain L 0 domain True st)"

section \<open>Facts: what an operation may change\<close>

text \<open>
  The operations below the check write the lookup, the expander and the error only; the two counters
  are written by \<open>CountTerm\<close> and \<open>CountVoidTerm\<close>, which only count up.
\<close>

definition steady :: "'w SPFEvaluator \<Rightarrow> 'w SPFEvaluator \<Rightarrow> bool" where
  "steady st st' \<longleftrightarrow> (\<exists>cl x e. st' = st\<lparr> counting_lookup := cl, expander := x, error_result := e \<rparr>)"

definition evolves :: "'w SPFEvaluator \<Rightarrow> 'w SPFEvaluator \<Rightarrow> bool" where
  "evolves st st' \<longleftrightarrow>
     terms st \<le> terms st' \<and> void_terms st \<le> void_terms st' \<and>
     void_term_limit st' = void_term_limit st \<and> evaluator_client st' = evaluator_client st \<and>
     evaluator_host st' = evaluator_host st \<and> evaluator_timestamp st' = evaluator_timestamp st"

lemma steady_refl [simp]: "steady st st"
  unfolding steady_def by (cases st) auto

lemma steady_trans: "steady st st' \<Longrightarrow> steady st' st'' \<Longrightarrow> steady st st''"
  unfolding steady_def by (elim exE) (simp, blast)

lemma steadyD:
  "steady st st' \<Longrightarrow> terms st' = terms st \<and> void_terms st' = void_terms st \<and>
   void_term_limit st' = void_term_limit st \<and> evaluator_client st' = evaluator_client st"
  by (auto simp: steady_def)

lemma steady_evolves: "steady st st' \<Longrightarrow> evolves st st'"
  by (auto simp: steady_def evolves_def)

lemma evolves_refl [simp]: "evolves st st"
  by (simp add: evolves_def)

lemma evolves_trans: "evolves st st' \<Longrightarrow> evolves st' st'' \<Longrightarrow> evolves st st''"
  by (auto simp: evolves_def)

lemma steady_FailWith: "FailWith r st = (m, st') \<Longrightarrow> steady st st'"
  unfolding FailWith_def steady_def by (cases st) auto

lemma steady_WithLookup: "WithLookup f st = (b, st') \<Longrightarrow> steady st st'"
  unfolding WithLookup_def steady_def by (cases st) (auto split: prod.splits)

lemma steady_WithExpander: "WithExpander f st = (b, st') \<Longrightarrow> steady st st'"
  unfolding WithExpander_def steady_def by (cases st) (auto split: prod.splits)

lemma steady_TryLookupAddresses: "TryLookupAddresses L host st = (b, st') \<Longrightarrow> steady st st'"
  unfolding TryLookupAddresses_def by (auto split: if_splits intro: steady_WithLookup)

lemma steady_ResolveTargetName: "ResolveTargetName L m domain st = (t, st') \<Longrightarrow> steady st st'"
  unfolding ResolveTargetName_def
  by (auto split: if_splits option.splits prod.splits dest: steady_WithExpander)

lemmas steady_atoms = steady_FailWith steady_WithLookup steady_WithExpander steady_TryLookupAddresses

lemma steady_ExplanationFor: "ExplanationFor L r domain st = (e, st') \<Longrightarrow> steady st st'"
  unfolding ExplanationFor_def
  by (auto split: if_splits option.splits prod.splits dest!: steady_atoms intro: steady_trans)

lemma steady_MatchAddressLiteral: "MatchAddressLiteral m st = (b, st') \<Longrightarrow> steady st st'"
  unfolding MatchAddressLiteral_def by (auto split: option.splits dest: steady_atoms)

lemma steady_MatchA: "MatchA L m t st = (b, st') \<Longrightarrow> steady st st'"
  unfolding MatchA_def by (auto split: option.splits prod.splits dest!: steady_atoms intro: steady_trans)

lemma steady_MatchMXNames: "MatchMXNames L n names st = (b, st') \<Longrightarrow> steady st st'"
proof (induction names arbitrary: st)
  case (Cons host names)
  then show ?case
    by (fastforce split: option.splits prod.splits if_splits dest: steady_atoms intro: steady_trans)
qed simp

lemma steady_MatchMX: "MatchMX L m t st = (b, st') \<Longrightarrow> steady st st'"
  unfolding MatchMX_def
  by (auto split: option.splits prod.splits if_splits dest!: steady_atoms steady_MatchMXNames intro: steady_trans)

lemma steady_MatchPTR: "MatchPTR L t st = (b, st') \<Longrightarrow> steady st st'"
  unfolding MatchPTR_def by (auto split: prod.splits dest: steady_atoms)

lemma steady_MatchExists: "MatchExists L t st = (b, st') \<Longrightarrow> steady st st'"
  unfolding MatchExists_def by (auto split: option.splits prod.splits dest!: steady_atoms intro: steady_trans)

lemma evolves_CountTerm: "CountTerm st = (b, st') \<Longrightarrow> evolves st st'"
  by (auto simp: CountTerm_def Let_def evolves_def)

lemma evolves_CountVoidTerm: "evolves st (CountVoidTerm n st)"
  by (simp add: CountVoidTerm_def evolves_def)

text \<open>
  The query mechanisms but the include, as one operation: their state but the void count.
\<close>

lemma EvaluateQuery_cases:
  assumes "EvaluateQuery L self m t st = (b, st')"
  obtains (incl) "mechanism_type m = TypeInclude" "MatchInclude self t st = (b, st')"
    | (a) st1 where "mechanism_type m = TypeA" "MatchA L m t st = (b, st1)"
        "st' = CountVoidTerm (GetVoidQueryCount (counting_lookup st)) st1"
    | (mx) st1 where "mechanism_type m = TypeMX" "MatchMX L m t st = (b, st1)"
        "st' = CountVoidTerm (GetVoidQueryCount (counting_lookup st)) st1"
    | (ptr) st1 where "mechanism_type m = TypePTR" "MatchPTR L t st = (b, st1)"
        "st' = CountVoidTerm (GetVoidQueryCount (counting_lookup st)) st1"
    | (ex) st1 where "mechanism_type m = TypeExists" "MatchExists L t st = (b, st1)"
        "st' = CountVoidTerm (GetVoidQueryCount (counting_lookup st)) st1"
    | (none) "mechanism_type m \<in> {TypeAll, TypeIP4, TypeIP6}" "b = MatchNo" "st' = st"
  using assms
  by (cases "mechanism_type m")
    (auto simp: EvaluateQuery_def Let_def CountVoidTerm_def split: prod.splits)

lemma EvaluateQuery_steady:
  "EvaluateQuery L self m t st = (b, st') \<Longrightarrow> mechanism_type m \<noteq> TypeInclude \<Longrightarrow>
   \<exists>st1. steady st st1 \<and> (st' = st1 \<or> st' = CountVoidTerm (GetVoidQueryCount (counting_lookup st)) st1)"
  by (erule EvaluateQuery_cases)
    (blast intro: steady_refl dest: steady_MatchA steady_MatchMX steady_MatchPTR steady_MatchExists)+

lemma EvaluateMechanism_cases:
  assumes "EvaluateMechanism L self m domain st = (b, st')"
  obtains (all) "mechanism_type m = TypeAll" "b = MatchYes" "st' = st"
    | (literal) "mechanism_type m \<in> {TypeIP4, TypeIP6}" "MatchAddressLiteral m st = (b, st')"
    | (spec) st1 where "ResolveTargetName L m domain st = (TargetSyntaxError, st1)" "FailWith PermError st1 = (b, st')"
        "mechanism_type m \<notin> {TypeAll, TypeIP4, TypeIP6}"
    | (unusable) "ResolveTargetName L m domain st = (Unusable, st')" "b = MatchNo" "mechanism_type m \<notin> {TypeAll, TypeIP4, TypeIP6}"
    | (limit) t st1 st2 where "ResolveTargetName L m domain st = (Resolved t, st1)" "CountTerm st1 = (False, st2)"
        "FailWith PermError st2 = (b, st')"
    | (query) t st1 st2 where "mechanism_type m \<notin> {TypeAll, TypeIP4, TypeIP6}"
        "ResolveTargetName L m domain st = (Resolved t, st1)" "CountTerm st1 = (True, st2)"
        "EvaluateQuery L self m t st2 = (b, st')"
  using assms
  by (auto simp: EvaluateMechanism_def Let_def split: if_splits prod.splits TargetName.splits)

lemma FollowRedirect_cases:
  assumes "FollowRedirect L self r domain want st = (res, e, st')"
  obtains (unresolved) "res = PermError" "e = []"  "steady st st'"
    | (limit) st1 where "res = PermError" "e = []" "steady st st1" "CountTerm st1 = (False, st')"
    | (followed) m t st1 st2 res0 e0 where "ResolveTargetName L m domain st = (Resolved t, st1)" "CountTerm st1 = (True, st2)"
        "self t want st2 = (res0, e0, st')" "res = (if res0 = ResultNone then PermError else res0)"
        "e = (if res0 = ResultNone then [] else e0)"
  using assms
  by (auto simp: FollowRedirect_def Let_def split: if_splits prod.splits TargetName.splits
      dest!: steady_ResolveTargetName)

lemma EvaluateMechanisms_step:
  assumes "EvaluateMechanisms L self r domain want (m # ms) st = (res, e, st')"
    "EvaluateMechanism L self m domain st = (b, st1)"
  obtains (void) "GetHasTooManyVoidTerms st1" "res = PermError" "e = []" "st' = st1"
    | (error) "\<not> GetHasTooManyVoidTerms st1" "b = MatchError" "res = error_result st1" "e = []" "st' = st1"
    | (no) "\<not> GetHasTooManyVoidTerms st1" "b = MatchNo" "EvaluateMechanisms L self r domain want ms st1 = (res, e, st')"
    | (fail) "\<not> GetHasTooManyVoidTerms st1" "b = MatchYes" "res = Fail" "ResultOf (qualifier m) = Fail" "want"
        "ExplanationFor L r domain st1 = (e, st')"
    | (yes) "\<not> GetHasTooManyVoidTerms st1" "b = MatchYes" "res = ResultOf (qualifier m)" "e = []" "st' = st1"
proof -
  note eq = assms(1) [unfolded EvaluateMechanisms.simps(2) assms(2) Let_def split_conv]
  show thesis
  proof (cases "GetHasTooManyVoidTerms st1")
    case True
    with eq show thesis by (intro void) simp_all
  next
    case out: False
    show thesis
    proof (cases b)
      case MatchYes
      show thesis
      proof (cases "ResultOf (qualifier m) = Fail \<and> want")
        case True
        with eq out MatchYes show thesis by (intro fail) (simp_all split: prod.splits)
      next
        case False
        with eq out MatchYes show thesis by (intro yes) (simp_all split: if_splits)
      qed
    next
      case MatchNo
      with eq out show thesis by (intro no) simp_all
    next
      case MatchError
      with eq out show thesis by (intro error) auto
    qed
  qed
qed

lemma CheckDomainBody_cases:
  assumes "CheckDomainBody L self domain want st = (res, e, st')"
  obtains located st1 where "WithLookup (Locate L domain) st = (located, st1)"
    "(res, e, st') = (ResultNone, [], CountVoidTerm (GetVoidQueryCount (counting_lookup st)) st1) \<and> located = NoRecord \<or>
     (res, e, st') = (TempError, [], CountVoidTerm (GetVoidQueryCount (counting_lookup st)) st1) \<and> located = TemporaryError \<or>
     (res, e, st') = (PermError, [], CountVoidTerm (GetVoidQueryCount (counting_lookup st)) st1) \<or>
     (\<exists>r. located = Found r \<and> \<not> GetHasTooManyVoidTerms (CountVoidTerm (GetVoidQueryCount (counting_lookup st)) st1) \<and>
       EvaluateMechanisms L self r domain want (mechanisms r)
         (CountVoidTerm (GetVoidQueryCount (counting_lookup st)) st1) = (res, e, st'))"
  using assms
  by (auto simp: CheckDomainBody_def Let_def split: prod.splits LocatorResult.splits if_splits)

text \<open>
  The contract every level keeps: counters go up, the subject of the check stays. A checker that
  keeps it gives a level above it that keeps it.
\<close>

locale evolving_checker =
  fixes self :: "'w checker"
  assumes self_evolves: "self d want st = (r, e, st') \<Longrightarrow> evolves st st'"
begin

lemma MatchInclude_evolves: "MatchInclude self t st = (b, st') \<Longrightarrow> evolves st st'"
  by (auto simp: MatchInclude_def Let_def split: prod.splits SPFResult.splits
      dest!: self_evolves steady_FailWith [THEN steady_evolves] intro: evolves_trans)

lemma EvaluateQuery_evolves: "EvaluateQuery L self m t st = (b, st') \<Longrightarrow> evolves st st'"
  by (erule EvaluateQuery_cases)
    (auto dest!: steady_MatchA steady_MatchMX steady_MatchPTR steady_MatchExists MatchInclude_evolves steady_evolves
      intro: evolves_trans evolves_CountVoidTerm)

lemma EvaluateMechanism_evolves: "EvaluateMechanism L self m domain st = (b, st') \<Longrightarrow> evolves st st'"
  by (erule EvaluateMechanism_cases)
    (auto dest!: steady_ResolveTargetName steady_FailWith steady_MatchAddressLiteral evolves_CountTerm
      EvaluateQuery_evolves steady_evolves intro: evolves_trans)

lemma FollowRedirect_evolves: "FollowRedirect L self r domain want st = (res, e, st') \<Longrightarrow> evolves st st'"
  by (erule FollowRedirect_cases)
    (auto dest!: steady_ResolveTargetName evolves_CountTerm self_evolves steady_evolves intro: evolves_trans)

lemma EvaluateMechanisms_evolves:
  "EvaluateMechanisms L self r domain want ms st = (res, e, st') \<Longrightarrow> evolves st st'"
proof (induction ms arbitrary: st)
  case Nil
  then show ?case by (auto split: if_splits dest: FollowRedirect_evolves)
next
  case (Cons m ms)
  obtain b st1 where m: "EvaluateMechanism L self m domain st = (b, st1)" by fastforce
  note step = EvaluateMechanism_evolves [OF m]
  from Cons.prems m show ?case
    by (rule EvaluateMechanisms_step)
      (use step Cons.IH in \<open>auto dest!: steady_ExplanationFor steady_evolves intro: evolves_trans\<close>)
qed

lemma CheckDomainBody_evolves: "CheckDomainBody L self domain want st = (res, e, st') \<Longrightarrow> evolves st st'"
  by (erule CheckDomainBody_cases)
    (auto dest!: EvaluateMechanisms_evolves steady_WithLookup steady_evolves evolves_trans [OF evolves_CountVoidTerm]
      intro: evolves_trans evolves_CountVoidTerm)

end

lemma CheckDomainUpTo_body:
  "depth \<le> limit \<Longrightarrow>
   CheckDomainUpTo limit L depth = CheckDomainBody L (CheckDomainUpTo limit L (depth + 1))"
  by (intro ext) (simp add: CheckDomainUpTo.simps [of limit L depth])

lemma CheckDomainUpTo_beyond: "depth > limit \<Longrightarrow> CheckDomainUpTo limit L depth d want st = (PermError, [], st)"
  by (simp add: CheckDomainUpTo.simps)

text \<open>
  A contract holds at every level once it holds beyond the limit and is handed up by the body.
\<close>

lemma CheckDomainUpTo_contract:
  assumes beyond: "C (\<lambda>d want st. (PermError, [], st))"
    and body: "\<And>self. C self \<Longrightarrow> C (CheckDomainBody L self)"
  shows "C (CheckDomainUpTo limit L depth)"
proof (induction "limit + 1 - depth" arbitrary: depth)
  case 0
  then have "CheckDomainUpTo limit L depth = (\<lambda>d want st. (PermError, [], st))"
    by (intro ext CheckDomainUpTo_beyond) simp
  with beyond show ?case by simp
next
  case (Suc n)
  then have "C (CheckDomainUpTo limit L (depth + 1))" by simp
  with Suc.hyps(2) body show ?case by (simp add: CheckDomainUpTo_body)
qed

lemma evolving_CheckDomainUpTo: "evolving_checker (CheckDomainUpTo limit L depth :: 'w checker)"
proof (rule CheckDomainUpTo_contract)
  fix self :: "'w checker"
  assume "evolving_checker self"
  then show "evolving_checker (CheckDomainBody L self)"
    by (intro evolving_checker.intro) (rule evolving_checker.CheckDomainBody_evolves)
qed (simp add: evolving_checker_def)

lemma CheckDomain_eq: "CheckDomain L depth = CheckDomainUpTo MAXIMUM_DEPTH L depth"
  by (intro ext) (simp add: CheckDomain_def)

interpretation check: evolving_checker "CheckDomain L depth" for L :: "'w SPFDnsLookup" and depth
  unfolding CheckDomain_eq by (rule evolving_CheckDomainUpTo)

section \<open>Facts: the limits of section 4.6.4\<close>

text \<open>
  From a state within the limits a level ends within them, unless it ends in a permerror; a level
  that finds no record may be one void term over the limit, which its caller turns into a permerror.
  The explanation belongs to a fail.
\<close>

definition within_limits :: "'w SPFEvaluator \<Rightarrow> bool" where
  "within_limits st \<longleftrightarrow> terms st \<le> MaximumTerms \<and> \<not> GetHasTooManyVoidTerms st"

definition over_by_one :: "'w SPFEvaluator \<Rightarrow> bool" where
  "over_by_one st \<longleftrightarrow>
     terms st \<le> MaximumTerms + 1 \<and> (void_term_limit st > 0 \<longrightarrow> int (void_terms st) \<le> void_term_limit st + 1)"

definition level_outcome :: "SPFResult \<Rightarrow> AnsiString \<Rightarrow> bool \<Rightarrow> 'w SPFEvaluator \<Rightarrow> bool" where
  "level_outcome r e want st' \<longleftrightarrow>
     over_by_one st' \<and>
     (r \<noteq> PermError \<longrightarrow> terms st' \<le> MaximumTerms) \<and>
     (r \<noteq> PermError \<and> r \<noteq> ResultNone \<longrightarrow> \<not> GetHasTooManyVoidTerms st') \<and>
     (e \<noteq> [] \<longrightarrow> r = Fail \<and> want)"

lemma within_over: "within_limits st \<Longrightarrow> over_by_one st"
  by (auto simp: within_limits_def over_by_one_def GetHasTooManyVoidTerms_def split: if_splits)

lemma steady_limits: "steady st st' \<Longrightarrow> within_limits st' = within_limits st \<and> over_by_one st' = over_by_one st \<and>
    GetHasTooManyVoidTerms st' = GetHasTooManyVoidTerms st"
  by (auto dest: steadyD simp: within_limits_def over_by_one_def GetHasTooManyVoidTerms_def)

lemma CountVoidTerm_over: "within_limits st \<Longrightarrow> over_by_one (CountVoidTerm n st)"
  by (auto simp: within_limits_def over_by_one_def GetHasTooManyVoidTerms_def CountVoidTerm_def split: if_splits)

lemma CountVoidTerm_terms [simp]: "terms (CountVoidTerm n st) = terms st"
  by (simp add: CountVoidTerm_def)

lemma CountTerm_limits:
  "CountTerm st = (True, st') \<Longrightarrow> within_limits st \<Longrightarrow> within_limits st'"
  "CountTerm st = (False, st') \<Longrightarrow> within_limits st \<Longrightarrow> over_by_one st'"
  by (auto simp: CountTerm_def Let_def within_limits_def over_by_one_def GetHasTooManyVoidTerms_def split: if_splits)

text \<open>What a mechanism leaves: its error is one of the two errors, and only a permerror is over the term limit.\<close>

definition match_outcome :: "Match \<Rightarrow> 'w SPFEvaluator \<Rightarrow> bool" where
  "match_outcome b st' \<longleftrightarrow>
     over_by_one st' \<and>
     (b = MatchError \<longrightarrow> error_result st' \<in> {TempError, PermError}) \<and>
     (terms st' \<le> MaximumTerms \<or> b = MatchError \<and> error_result st' = PermError)"

lemma match_errors: "FailWith r st = (b, st') \<Longrightarrow> b = MatchError \<and> error_result st' = r"
  by (auto simp: FailWith_def)

lemma FailWithD:
  "FailWith r st = (b, st') \<Longrightarrow> b = MatchError \<and> error_result st' = r \<and> steady st st' \<and>
   terms st' = terms st \<and> over_by_one st' = over_by_one st"
  using match_errors steady_FailWith steady_limits steadyD by metis

lemma MatchAddressLiteral_error: "MatchAddressLiteral m st = (b, st') \<Longrightarrow> b = MatchError \<Longrightarrow> error_result st' \<in> {TempError, PermError}"
  by (auto simp: MatchAddressLiteral_def Let_def split: option.splits if_splits dest: match_errors)

lemma MatchA_error: "MatchA L m t st = (b, st') \<Longrightarrow> b = MatchError \<Longrightarrow> error_result st' \<in> {TempError, PermError}"
  by (auto simp: MatchA_def split: option.splits if_splits prod.splits dest: match_errors)

lemma MatchMXNames_error: "MatchMXNames L n names st = (b, st') \<Longrightarrow> b = MatchError \<Longrightarrow> error_result st' \<in> {TempError, PermError}"
  by (induction names arbitrary: st) (auto split: option.splits if_splits prod.splits dest: match_errors)

lemma MatchMX_error: "MatchMX L m t st = (b, st') \<Longrightarrow> b = MatchError \<Longrightarrow> error_result st' \<in> {TempError, PermError}"
  unfolding MatchMX_def by (auto split: option.splits if_splits prod.splits dest: match_errors MatchMXNames_error)

lemma MatchExists_error: "MatchExists L t st = (b, st') \<Longrightarrow> b = MatchError \<Longrightarrow> error_result st' \<in> {TempError, PermError}"
  by (auto simp: MatchExists_def split: option.splits if_splits prod.splits dest: match_errors)

lemma MatchPTR_error: "MatchPTR L t st = (b, st') \<Longrightarrow> b \<noteq> MatchError"
  by (auto simp: MatchPTR_def split: prod.splits if_splits)

lemma CountVoidTerm_error [simp]: "error_result (CountVoidTerm n st) = error_result st"
  by (simp add: CountVoidTerm_def)

locale limited_checker = evolving_checker self for self :: "'w checker" +
  assumes self_outcome: "within_limits st \<Longrightarrow> self d want st = (r, e, st') \<Longrightarrow> level_outcome r e want st'"
begin

lemma MatchInclude_outcome:
  assumes "within_limits st" "MatchInclude self t st = (b, st')"
  shows "match_outcome b st'"
proof -
  obtain r e st1 where s: "self t False st = (r, e, st1)" by (metis surj_pair)
  from self_outcome [OF assms(1) s] have "level_outcome r e False st1" .
  moreover have "r = Pass \<or> r = Fail \<or> r = SoftFail \<or> r = Neutral \<Longrightarrow> b \<noteq> MatchError \<and> st' = st1"
    using assms(2) s by (auto simp: MatchInclude_def)
  moreover have "r = TempError \<Longrightarrow> FailWith TempError st1 = (b, st')"
    and "r = ResultNone \<or> r = PermError \<Longrightarrow> FailWith PermError st1 = (b, st')"
    using assms(2) s by (auto simp: MatchInclude_def)
  ultimately show ?thesis
    by (cases r) (auto simp: level_outcome_def match_outcome_def dest!: FailWithD)
qed

lemma EvaluateQuery_outcome:
  assumes "within_limits st" "EvaluateQuery L self m t st = (b, st')"
  shows "match_outcome b st'"
proof -
  have queried: "match_outcome b (CountVoidTerm n st1)"
    if "steady st st1" "b = MatchError \<Longrightarrow> error_result st1 \<in> {TempError, PermError}" for n st1
    using that assms(1) steady_limits [OF that(1)] CountVoidTerm_over [of st1 n]
    by (auto simp: match_outcome_def within_limits_def)
  from assms(2) show ?thesis
  proof (cases rule: EvaluateQuery_cases)
    case incl
    with assms(1) show ?thesis by (blast intro: MatchInclude_outcome)
  next
    case none
    with assms(1) show ?thesis by (simp add: match_outcome_def within_over) (simp add: within_limits_def)
  next
    case (a st1)
    with queried [OF steady_MatchA [OF a(2)] MatchA_error [OF a(2)]] show ?thesis by simp
  next
    case (mx st1)
    with queried [OF steady_MatchMX [OF mx(2)] MatchMX_error [OF mx(2)]] show ?thesis by simp
  next
    case (ptr st1)
    with queried [OF steady_MatchPTR [OF ptr(2)]] MatchPTR_error [OF ptr(2)] show ?thesis by simp
  next
    case (ex st1)
    with queried [OF steady_MatchExists [OF ex(2)] MatchExists_error [OF ex(2)]] show ?thesis by simp
  qed
qed

lemma EvaluateMechanism_outcome:
  assumes "within_limits st" "EvaluateMechanism L self m domain st = (b, st')"
  shows "match_outcome b st'"
proof -
  have quiet: "match_outcome b st'" if "steady st st'" "b = MatchError \<Longrightarrow> error_result st' \<in> {TempError, PermError}"
    using that assms(1) steady_limits [OF that(1)] within_over [OF assms(1)]
    by (auto simp: match_outcome_def within_limits_def)
  from assms(2) show ?thesis
  proof (cases rule: EvaluateMechanism_cases)
    case all
    then show ?thesis by (intro quiet) auto
  next
    case literal
    then show ?thesis by (intro quiet) (auto dest: steady_MatchAddressLiteral MatchAddressLiteral_error)
  next
    case (spec st1)
    then show ?thesis
      by (intro quiet) (auto dest!: steady_ResolveTargetName FailWithD intro: steady_trans)
  next
    case unusable
    then show ?thesis by (intro quiet) (auto dest: steady_ResolveTargetName)
  next
    case (limit t st1 st2)
    then have "within_limits st1" using assms(1) steady_limits [OF steady_ResolveTargetName] by blast
    with limit CountTerm_limits(2) have "over_by_one st2" by blast
    with FailWithD [OF limit(3)] show ?thesis by (auto simp: match_outcome_def)
  next
    case (query t st1 st2)
    then have "within_limits st2" using assms(1) steady_limits [OF steady_ResolveTargetName] CountTerm_limits(1) by blast
    with query show ?thesis by (blast intro: EvaluateQuery_outcome)
  qed
qed

lemma FollowRedirect_outcome:
  assumes "within_limits st" "FollowRedirect L self r domain want st = (res, e, st')"
  shows "level_outcome res e want st'"
  using assms(2)
proof (cases rule: FollowRedirect_cases)
  case unresolved
  with assms(1) steady_limits within_over show ?thesis by (auto simp: level_outcome_def)
next
  case (limit st1)
  with assms(1) steady_limits CountTerm_limits(2) show ?thesis by (fastforce simp: level_outcome_def)
next
  case (followed m t st1 st2 res0 e0)
  then have "within_limits st2" using assms(1) steady_limits [OF steady_ResolveTargetName] CountTerm_limits(1) by blast
  from self_outcome [OF this followed(3)] followed(4,5) show ?thesis by (auto simp: level_outcome_def)
qed

lemma EvaluateMechanisms_outcome:
  "within_limits st \<Longrightarrow> EvaluateMechanisms L self r domain want ms st = (res, e, st') \<Longrightarrow> level_outcome res e want st'"
proof (induction ms arbitrary: st)
  case Nil
  then show ?case
    by (auto split: if_splits dest: FollowRedirect_outcome simp: level_outcome_def within_over) (simp_all add: within_limits_def)
next
  case (Cons m ms)
  obtain b st1 where m: "EvaluateMechanism L self m domain st = (b, st1)" by fastforce
  note out = EvaluateMechanism_outcome [OF Cons.prems(1) m]
  from Cons.prems(2) m show ?case
  proof (cases rule: EvaluateMechanisms_step)
    case no
    with out have "within_limits st1" by (auto simp: match_outcome_def within_limits_def)
    with no show ?thesis by (blast intro: Cons.IH)
  next
    case fail
    with out steady_limits [OF steady_ExplanationFor [OF fail(6)]] steadyD [OF steady_ExplanationFor [OF fail(6)]]
    show ?thesis by (auto simp: match_outcome_def level_outcome_def)
  qed (use out in \<open>auto simp: match_outcome_def level_outcome_def\<close>)
qed

lemma CheckDomainBody_outcome:
  assumes "within_limits st" "CheckDomainBody L self domain want st = (res, e, st')"
  shows "level_outcome res e want st'"
  using assms(2)
proof (cases rule: CheckDomainBody_cases)
  case (1 located st1)
  let ?st2 = "CountVoidTerm (GetVoidQueryCount (counting_lookup st)) st1"
  have st1: "within_limits st1" using assms(1) steady_limits [OF steady_WithLookup [OF 1(1)]] by simp
  then have over: "over_by_one ?st2" "terms ?st2 \<le> MaximumTerms"
    by (auto simp: CountVoidTerm_over) (simp add: within_limits_def)
  have "void_lookups (counting_lookup st1) = void_lookups (counting_lookup st)" if "located = TemporaryError"
    using 1(1) that by (auto simp: WithLookup_def split: prod.splits dest: Locate_temporary)
  then have temporary: "?st2 = st1" if "located = TemporaryError"
    using that by (simp add: CountVoidTerm_def GetVoidQueryCount_def)
  from 1(2) show ?thesis
  proof (elim disjE exE conjE)
    fix r
    assume "\<not> GetHasTooManyVoidTerms ?st2" "EvaluateMechanisms L self r domain want (mechanisms r) ?st2 = (res, e, st')"
    with over show ?thesis by (intro EvaluateMechanisms_outcome) (simp_all add: within_limits_def)
  qed (use over temporary st1 in \<open>auto simp: level_outcome_def within_limits_def\<close>)
qed

end

lemma limited_CheckDomainBody: "limited_checker self \<Longrightarrow> limited_checker (CheckDomainBody L self)"
  by (intro limited_checker.intro limited_checker_axioms.intro evolving_checker.intro)
    (blast intro: evolving_checker.CheckDomainBody_evolves limited_checker.axioms(1)
      limited_checker.CheckDomainBody_outcome)+

lemma limited_CheckDomainUpTo: "limited_checker (CheckDomainUpTo limit L depth :: 'w checker)"
proof (rule CheckDomainUpTo_contract)
  show "limited_checker (\<lambda>d want st. (PermError, [], st :: 'w SPFEvaluator))"
    by unfold_locales (auto simp: level_outcome_def within_over)
qed (rule limited_CheckDomainBody)

interpretation limited: limited_checker "CheckDomain L depth" for L :: "'w SPFDnsLookup" and depth
  unfolding CheckDomain_eq by (rule limited_CheckDomainUpTo)

section \<open>Facts: the queries of a check\<close>

text \<open>
  \<open>reserve\<close> is what has been spent and what the fetch of the validated names may still cost;
  \<open>potential\<close> adds eleven queries for every term the check may still count: an mx lookup and the
  addresses of ten names.
\<close>

context query_meter
begin

definition reserve :: "'w SPFEvaluator \<Rightarrow> nat" where
  "reserve st = expander_potential (expander st, counting_lookup st)"

definition potential :: "'w SPFEvaluator \<Rightarrow> nat" where
  "potential st = reserve st + (1 + MaximumMxNames) * (MaximumTerms - terms st)"

lemma reserve_updates [simp]:
  "reserve (st\<lparr> terms := n \<rparr>) = reserve st" "reserve (st\<lparr> void_terms := n \<rparr>) = reserve st"
  "reserve (st\<lparr> error_result := r \<rparr>) = reserve st"
  by (simp_all add: reserve_def)

lemma reserve_CountVoidTerm [simp]: "reserve (CountVoidTerm n st) = reserve st"
  by (simp add: CountVoidTerm_def)

lemma reserve_FailWith: "FailWith r st = (b, st') \<Longrightarrow> reserve st' = reserve st"
  by (auto simp: FailWith_def)

lemma reserve_WithLookup:
  "WithLookup f st = (b, st') \<Longrightarrow>
   (\<And>b cl'. f (counting_lookup st) = (b, cl') \<Longrightarrow> spent cl' \<le> spent (counting_lookup st) + n) \<Longrightarrow>
   reserve st' \<le> reserve st + n"
  by (auto simp: WithLookup_def reserve_def expander_potential_def split: prod.splits)

lemma reserve_WithExpander:
  "WithExpander f st = (b, st') \<Longrightarrow>
   (\<And>b s'. f (expander st, counting_lookup st) = (b, s') \<Longrightarrow>
     expander_potential s' \<le> expander_potential (expander st, counting_lookup st)) \<Longrightarrow>
   reserve st' \<le> reserve st"
  by (auto simp: WithExpander_def reserve_def split: prod.splits)

lemma reserve_ExpandDomainSpec: "WithExpander (ExpandDomainSpec L d domain) st = (b, st') \<Longrightarrow> reserve st' \<le> reserve st"
  by (erule reserve_WithExpander) (simp add: ExpandDomainSpec_def expansion.R_Expand)

lemma reserve_ExpandExplanation: "WithExpander (ExpandExplanation L d domain) st = (b, st') \<Longrightarrow> reserve st' \<le> reserve st"
  by (erule reserve_WithExpander) (simp add: ExpandExplanation_def expansion.R_Expand)

lemma reserve_TryLookupAddresses:
  assumes "TryLookupAddresses L host st = (b, st')"
  shows "reserve st' \<le> reserve st + 1"
proof (cases "family (evaluator_client st) = FamilyIP6")
  case True
  with assms have "WithLookup (\<lambda>cl. CountingGetAAAARecords L cl host) st = (b, st')" by (simp add: TryLookupAddresses_def)
  then show ?thesis by (rule reserve_WithLookup) (rule spent_AAAA)
next
  case False
  with assms have "WithLookup (\<lambda>cl. CountingGetARecords L cl host) st = (b, st')" by (simp add: TryLookupAddresses_def)
  then show ?thesis by (rule reserve_WithLookup) (rule spent_A)
qed

lemma reserve_ResolveTargetName: "ResolveTargetName L m domain st = (t, st') \<Longrightarrow> reserve st' \<le> reserve st"
  by (auto simp: ResolveTargetName_def split: if_splits option.splits prod.splits dest: reserve_ExpandDomainSpec)

lemma reserve_ExplanationFor:
  assumes "ExplanationFor L r domain st = (e, st')"
  shows "reserve st' \<le> reserve st + 1"
proof -
  obtain t st1 where t: "WithExpander (ExpandDomainSpec L (explanation_domain_spec r) domain) st = (t, st1)" by (metis surj_pair)
  have asked: "reserve st2 \<le> reserve st1 + 1" if "WithLookup (\<lambda>cl. CountingGetTXTRecords L cl n) st1 = (rs, st2)" for n rs st2
    using reserve_WithLookup [OF that] spent_TXT by blast
  show ?thesis using assms reserve_ExpandDomainSpec [OF t] t
    by (auto simp: ExplanationFor_def split: if_splits option.splits prod.splits
        dest!: asked reserve_ExpandExplanation)
qed

lemma reserve_MatchAddressLiteral: "MatchAddressLiteral m st = (b, st') \<Longrightarrow> reserve st' = reserve st"
  by (auto simp: MatchAddressLiteral_def split: option.splits dest: reserve_FailWith)

lemma reserve_MatchA: "MatchA L m t st = (b, st') \<Longrightarrow> reserve st' \<le> reserve st + 1"
  by (auto simp: MatchA_def split: option.splits prod.splits dest!: reserve_FailWith dest: reserve_TryLookupAddresses)

lemma reserve_MatchMXNames: "MatchMXNames L n names st = (b, st') \<Longrightarrow> reserve st' \<le> reserve st + length names"
proof (induction names arbitrary: st)
  case (Cons host names)
  then show ?case
    by (fastforce split: option.splits prod.splits if_splits dest: reserve_TryLookupAddresses reserve_FailWith)
qed simp

lemma reserve_MatchMX:
  assumes "MatchMX L m t st = (b, st')"
  shows "reserve st' \<le> reserve st + (1 + MaximumMxNames)"
proof -
  obtain ans st1 where mx: "WithLookup (\<lambda>cl. CountingGetMXRecords L cl t) st = (ans, st1)" by (metis surj_pair)
  have "reserve st1 \<le> reserve st + 1" using reserve_WithLookup [OF mx] spent_MX by blast
  moreover have "reserve st' \<le> reserve st1 + MaximumMxNames"
    using assms mx
    by (fastforce simp: MatchMX_def split: option.splits if_splits dest: reserve_FailWith reserve_MatchMXNames)
  ultimately show ?thesis by simp
qed

lemma reserve_MatchPTR: "MatchPTR L t st = (b, st') \<Longrightarrow> reserve st' \<le> reserve st"
  by (auto simp: MatchPTR_def split: prod.splits elim!: reserve_WithExpander dest: fetch_potential)

lemma reserve_MatchExists:
  assumes "MatchExists L t st = (b, st')"
  shows "reserve st' \<le> reserve st + 1"
proof -
  obtain ans st1 where a: "WithLookup (\<lambda>cl. CountingGetARecords L cl t) st = (ans, st1)" by (metis surj_pair)
  have "reserve st1 \<le> reserve st + 1" using reserve_WithLookup [OF a] spent_A by blast
  with assms a show ?thesis by (auto simp: MatchExists_def split: option.splits dest: reserve_FailWith)
qed

lemma potential_steady:
  "steady st st' \<Longrightarrow> reserve st' \<le> reserve st + n \<Longrightarrow> potential st' \<le> potential st + n"
  by (auto simp: potential_def dest: steadyD)

lemma potential_CountVoidTerm [simp]: "potential (CountVoidTerm n st) = potential st"
  by (simp add: potential_def)

lemma potential_FailWith: "FailWith r st = (b, st') \<Longrightarrow> potential st' = potential st"
  by (auto simp: FailWith_def potential_def)

text \<open>A term that is counted pays for its queries.\<close>

lemma potential_CountTerm:
  "CountTerm st = (True, st') \<Longrightarrow> potential st' + (1 + MaximumMxNames) = potential st"
  by (auto simp: CountTerm_def Let_def potential_def MaximumTerms_def MaximumMxNames_def)

lemma potential_CountTerm_over: "CountTerm st = (False, st') \<Longrightarrow> potential st' \<le> potential st"
  by (auto simp: CountTerm_def Let_def potential_def)

end

locale metered_checker = query_meter L cost + limited_checker self
  for L :: "'w SPFDnsLookup" and cost and self :: "'w checker" +
  assumes self_potential:
    "self d want st = (r, e, st') \<Longrightarrow> potential st' \<le> potential st + 1 + (if want then 1 else 0)"
begin

lemma MatchInclude_potential: "MatchInclude self t st = (b, st') \<Longrightarrow> potential st' \<le> potential st + 1"
  using self_potential [of t False st]
  by (auto simp: MatchInclude_def Let_def split: prod.splits SPFResult.splits dest!: potential_FailWith)

lemma EvaluateQuery_potential:
  assumes "EvaluateQuery L self m t st = (b, st')"
  shows "potential st' \<le> potential st + (1 + MaximumMxNames)"
  using assms
proof (cases rule: EvaluateQuery_cases)
  case incl
  then show ?thesis by (auto dest: MatchInclude_potential)
next
  case (a st1)
  then show ?thesis using potential_steady [OF steady_MatchA reserve_MatchA] by force
next
  case (mx st1)
  then show ?thesis using potential_steady [OF steady_MatchMX reserve_MatchMX] by force
next
  case (ptr st1)
  then show ?thesis using potential_steady [OF steady_MatchPTR, of L t st b st1 0] reserve_MatchPTR by force
next
  case (ex st1)
  then show ?thesis using potential_steady [OF steady_MatchExists reserve_MatchExists] by force
qed simp

lemma EvaluateMechanism_potential:
  assumes "EvaluateMechanism L self m domain st = (b, st')"
  shows "potential st' \<le> potential st"
proof -
  have resolve: "potential st1 \<le> potential st" if "ResolveTargetName L m domain st = (t, st1)" for t st1
    using potential_steady [OF steady_ResolveTargetName [OF that], of 0] reserve_ResolveTargetName [OF that] by simp
  from assms show ?thesis
  proof (cases rule: EvaluateMechanism_cases)
    case literal
    then show ?thesis using potential_steady [OF steady_MatchAddressLiteral, of m st b st' 0] reserve_MatchAddressLiteral by force
  next
    case (spec st1)
    then show ?thesis using resolve potential_FailWith by force
  next
    case unusable
    then show ?thesis using resolve by blast
  next
    case (limit t st1 st2)
    then show ?thesis using resolve potential_FailWith potential_CountTerm_over by (metis order_trans)
  next
    case (query t st1 st2)
    then show ?thesis
      using resolve [OF query(2)] potential_CountTerm [OF query(3)] EvaluateQuery_potential [OF query(4)] by linarith
  qed simp
qed

lemma FollowRedirect_potential:
  assumes "FollowRedirect L self r domain want st = (res, e, st')"
  shows "potential st' \<le> potential st + (if want then 1 else 0)"
  using assms
proof -
  obtain t st1 where t: "ResolveTargetName L (SetDomainSpec (redirect_domain_spec r) (SPFMechanism_init TypeInclude QualifierPass)) domain st = (t, st1)"
    by (metis surj_pair)
  have st1: "potential st1 \<le> potential st"
    using potential_steady [OF steady_ResolveTargetName [OF t], of 0] reserve_ResolveTargetName [OF t] by simp
  show ?thesis
  proof (cases t)
    case (Resolved name)
    obtain within st2 where c: "CountTerm st1 = (within, st2)" by (metis surj_pair)
    show ?thesis
    proof (cases within)
      case True
      with Resolved t c assms obtain res0 e0 where "self name want st2 = (res0, e0, st')"
        by (auto simp: FollowRedirect_def Let_def split: prod.splits if_splits)
      from self_potential [OF this] potential_CountTerm [of st1 st2] c True st1 show ?thesis by (auto split: if_splits)
    next
      case False
      with Resolved t c assms have "st' = st2" by (simp add: FollowRedirect_def Let_def)
      with potential_CountTerm_over [of st1 st2] c False st1 show ?thesis by simp
    qed
  qed (use assms t st1 in \<open>simp_all add: FollowRedirect_def Let_def\<close>)
qed

lemma EvaluateMechanisms_potential:
  "EvaluateMechanisms L self r domain want ms st = (res, e, st') \<Longrightarrow>
   potential st' \<le> potential st + (if want then 1 else 0)"
proof (induction ms arbitrary: st)
  case Nil
  then show ?case by (auto split: if_splits dest!: FollowRedirect_potential)
next
  case (Cons m ms)
  obtain b st1 where m: "EvaluateMechanism L self m domain st = (b, st1)" by fastforce
  note step = EvaluateMechanism_potential [OF m]
  from Cons.prems m show ?case
  proof (cases rule: EvaluateMechanisms_step)
    case no
    from Cons.IH [OF no(3)] step show ?thesis by simp
  next
    case fail
    with potential_steady [OF steady_ExplanationFor reserve_ExplanationFor, OF fail(6) fail(6)] step show ?thesis by simp
  qed (use step in auto)
qed

lemma CheckDomainBody_potential:
  assumes "CheckDomainBody L self domain want st = (res, e, st')"
  shows "potential st' \<le> potential st + 1 + (if want then 1 else 0)"
  using assms
proof (cases rule: CheckDomainBody_cases)
  case (1 located st1)
  have "reserve st1 \<le> reserve st + 1" using reserve_WithLookup [OF 1(1)] spent_Locate by blast
  from potential_steady [OF steady_WithLookup [OF 1(1)] this] 1(2) show ?thesis
    by (auto dest!: EvaluateMechanisms_potential)
qed

end

context query_meter
begin

lemma metered_CheckDomainUpTo: "metered_checker L cost (CheckDomainUpTo limit L depth)"
proof (rule CheckDomainUpTo_contract)
  have "limited_checker (CheckDomainUpTo 0 L 1)" by (rule limited_CheckDomainUpTo)
  moreover have "CheckDomainUpTo 0 L 1 = (\<lambda>d want st. (PermError, [], st))"
    by (intro ext) (simp add: CheckDomainUpTo_beyond)
  ultimately have "limited_checker (\<lambda>d want st. (PermError, [], st :: 'w SPFEvaluator))" by simp
  then show "metered_checker L cost (\<lambda>d want st. (PermError, [], st))"
    by (intro metered_checker.intro metered_checker_axioms.intro query_meter_axioms) auto
  fix self
  assume c: "metered_checker L cost self"
  then have "limited_checker self" by (simp add: metered_checker_def)
  then have "limited_checker (CheckDomainBody L self)" by (rule limited_CheckDomainBody)
  with metered_checker.CheckDomainBody_potential [OF c] show "metered_checker L cost (CheckDomainBody L self)"
    by (intro metered_checker.intro metered_checker_axioms.intro query_meter_axioms) auto
qed

end

interpretation metered_check: metered_checker "MeteredLookup L" snd "CheckDomain (MeteredLookup L) depth"
  for L :: "'w SPFDnsLookup" and depth
  unfolding CheckDomain_eq by (rule metered.metered_CheckDomainUpTo)

interpretation resolver_check: metered_checker "SPFDnsResolver (MeteredRecordQuery grot)" snd
    "CheckDomain (SPFDnsResolver (MeteredRecordQuery grot)) depth"
  for grot :: "'w record_query" and depth
  unfolding CheckDomain_eq by (rule resolver.metered_CheckDomainUpTo)

section \<open>Facts: the depth limit\<close>

text \<open>
  A level is entered with as many terms counted as there are levels above it, and no level is entered
  beyond the term limit. So two checkers that agree on the states a deeper level can be entered in
  give the same level, and the depth limit is never reached.
\<close>

definition agree_above :: "nat \<Rightarrow> 'w checker \<Rightarrow> 'w checker \<Rightarrow> bool" where
  "agree_above n f g \<longleftrightarrow>
     (\<forall>d want st. n < terms st \<and> terms st \<le> MaximumTerms \<longrightarrow> f d want st = g d want st)"

lemma CountTerm_True: "CountTerm st = (True, st') \<Longrightarrow> terms st' = terms st + 1 \<and> terms st' \<le> MaximumTerms"
  by (auto simp: CountTerm_def Let_def)

lemma agree_EvaluateQuery:
  "agree_above n f g \<Longrightarrow> n < terms st \<Longrightarrow> terms st \<le> MaximumTerms \<Longrightarrow> EvaluateQuery L f m t st = EvaluateQuery L g m t st"
  by (simp add: EvaluateQuery_def MatchInclude_def agree_above_def)

lemma agree_EvaluateMechanism:
  assumes "agree_above n f g" "n \<le> terms st"
  shows "EvaluateMechanism L f m domain st = EvaluateMechanism L g m domain st"
proof -
  obtain t st1 where t: "ResolveTargetName L m domain st = (t, st1)" by (metis surj_pair)
  obtain w st2 where w: "CountTerm st1 = (w, st2)" by (metis surj_pair)
  have "w \<Longrightarrow> n < terms st2 \<and> terms st2 \<le> MaximumTerms"
    using CountTerm_True [of st1 st2] w steadyD [OF steady_ResolveTargetName [OF t]] assms(2) by auto
  then have "w \<Longrightarrow> EvaluateQuery L f m name st2 = EvaluateQuery L g m name st2" for name
    using agree_EvaluateQuery [OF assms(1)] by blast
  with t w show ?thesis
    unfolding EvaluateMechanism_def by (auto simp: Let_def split: TargetName.splits prod.splits)
qed

lemma agree_FollowRedirect:
  assumes "agree_above n f g" "n \<le> terms st"
  shows "FollowRedirect L f r domain want st = FollowRedirect L g r domain want st"
proof -
  obtain t st1 where t: "ResolveTargetName L (SetDomainSpec (redirect_domain_spec r) (SPFMechanism_init TypeInclude QualifierPass)) domain st = (t, st1)"
    by (metis surj_pair)
  obtain w st2 where w: "CountTerm st1 = (w, st2)" by (metis surj_pair)
  have "w \<Longrightarrow> n < terms st2 \<and> terms st2 \<le> MaximumTerms"
    using CountTerm_True [of st1 st2] w steadyD [OF steady_ResolveTargetName [OF t]] assms(2) by auto
  then have "w \<Longrightarrow> f name want st2 = g name want st2" for name
    using assms(1) by (simp add: agree_above_def)
  with t w show ?thesis
    unfolding FollowRedirect_def by (auto simp: Let_def split: TargetName.splits prod.splits)
qed

lemma agree_EvaluateMechanisms:
  assumes "agree_above n f g" "evolving_checker f"
  shows "n \<le> terms st \<Longrightarrow>
    EvaluateMechanisms L f r domain want ms st = EvaluateMechanisms L g r domain want ms st"
proof (induction ms arbitrary: st)
  case Nil
  then show ?case by (simp add: agree_FollowRedirect [OF assms(1)])
next
  case (Cons m ms)
  obtain b st1 where m: "EvaluateMechanism L f m domain st = (b, st1)" by fastforce
  then have g: "EvaluateMechanism L g m domain st = (b, st1)"
    using agree_EvaluateMechanism [OF assms(1) Cons.prems] by metis
  have "n \<le> terms st1"
    using Cons.prems evolving_checker.EvaluateMechanism_evolves [OF assms(2) m] by (simp add: evolves_def)
  from Cons.IH [OF this] show ?case by (simp add: m g split: Match.splits)
qed

lemma agree_CheckDomainBody:
  assumes "agree_above n f g" "evolving_checker f" "n \<le> terms st"
  shows "CheckDomainBody L f domain want st = CheckDomainBody L g domain want st"
proof -
  obtain located st1 where l: "WithLookup (Locate L domain) st = (located, st1)" by (metis surj_pair)
  have "n \<le> terms (CountVoidTerm k st1)" for k
    using assms(3) steadyD [OF steady_WithLookup [OF l]] by simp
  from agree_EvaluateMechanisms [OF assms(1,2) this] show ?thesis
    by (simp add: CheckDomainBody_def l Let_def split: LocatorResult.splits)
qed

lemma depth_limit_unreached:
  assumes "MaximumTerms \<le> limit" "MaximumTerms \<le> limit'"
  shows "depth \<le> terms st \<Longrightarrow> terms st \<le> MaximumTerms \<Longrightarrow>
    CheckDomainUpTo limit L depth d want st = CheckDomainUpTo limit' L depth d want st"
proof (induction "MaximumTerms - depth" arbitrary: depth d want st rule: less_induct)
  case less
  have "agree_above depth (CheckDomainUpTo limit L (depth + 1)) (CheckDomainUpTo limit' L (depth + 1))"
    unfolding agree_above_def using less by auto
  moreover have "depth \<le> limit" "depth \<le> limit'" using less.prems assms by auto
  ultimately show ?case
    using agree_CheckDomainBody [OF _ evolving_CheckDomainUpTo less.prems(1)] by (simp add: CheckDomainUpTo_body)
qed

section \<open>Facts: a check without a record\<close>

context limited_checker
begin

lemma EvaluateMechanisms_decides:
  "within_limits st \<Longrightarrow> EvaluateMechanisms L self r domain want ms st = (res, e, st') \<Longrightarrow> res \<noteq> ResultNone"
proof (induction ms arbitrary: st)
  case Nil
  then show ?case by (auto split: if_splits elim!: FollowRedirect_cases)
next
  case (Cons m ms)
  obtain b st1 where m: "EvaluateMechanism L self m domain st = (b, st1)" by fastforce
  note out = EvaluateMechanism_outcome [OF Cons.prems(1) m]
  from Cons.prems(2) m show ?case
  proof (cases rule: EvaluateMechanisms_step)
    case error
    with out show ?thesis by (auto simp: match_outcome_def)
  next
    case no
    with out have "within_limits st1" by (auto simp: match_outcome_def within_limits_def)
    with no Cons.IH show ?thesis by blast
  qed (auto simp: ResultOf_def split: Qualifier.splits)
qed

lemma CheckDomainBody_none:
  assumes "within_limits st" "CheckDomainBody L self domain want st = (ResultNone, e, st')"
  shows "void_terms st' \<le> void_terms st + 1"
  using assms(2)
proof (cases rule: CheckDomainBody_cases)
  case (1 located st1)
  let ?st2 = "CountVoidTerm (GetVoidQueryCount (counting_lookup st)) st1"
  have st1: "terms st1 = terms st" "void_terms st1 = void_terms st" using steadyD [OF steady_WithLookup [OF 1(1)]] by auto
  have "within_limits ?st2" if "\<not> GetHasTooManyVoidTerms ?st2"
    using that st1 assms(1) by (simp add: within_limits_def)
  with 1(2) st1 show ?thesis
    by (auto simp: CountVoidTerm_def dest: EvaluateMechanisms_decides)
qed

end

section \<open>Properties\<close>

text \<open>
  two permerrors the evaluator keeps for records that should not have been parsed are never
  produced: every domain specification of a parsed record expands, and every address literal of one is
  read.
\<close>

theorem parsed_terms_never_fail:
  "Parse t = Inr r \<Longrightarrow> m \<in> set (mechanisms r) \<Longrightarrow>
   fst (ResolveTargetName L m domain st) \<noteq> TargetSyntaxError \<and>
   (mechanism_type m \<in> {TypeIP4, TypeIP6} \<longrightarrow> fst (MatchAddressLiteral m st) \<noteq> MatchError)"
proof -
  assume r: "Parse t = Inr r" "m \<in> set (mechanisms r)"
  then have wf: "wf_mechanism m" using Parse_wf [of t r] by (auto simp: wf_record_def list_all_iff)
  then have "TryParse (address m) \<noteq> None" if "mechanism_type m \<in> {TypeIP4, TypeIP6}"
    using that unfolding TryParse_iff_valid by (auto simp: wf_mechanism_def)
  then have literal: "fst (MatchAddressLiteral m st) \<noteq> MatchError" if "mechanism_type m \<in> {TypeIP4, TypeIP6}"
    using that by (auto simp: MatchAddressLiteral_def Let_def split: option.splits)
  let ?s = "(expander st, counting_lookup st)"
  have "fst (ExpandDomainSpec L (domain_spec m) domain ?s) \<noteq> None" if "has_domain_spec m"
    using wf that Expand_Some_iff [of L "domain_spec m" True domain ?s]
    by (auto simp: ExpandDomainSpec_def wf_mechanism_def IsValidDomainSpec_def split: if_splits)
  then have "fst (ResolveTargetName L m domain st) \<noteq> TargetSyntaxError"
    by (cases "ExpandDomainSpec L (domain_spec m) domain ?s")
      (auto simp: ResolveTargetName_def WithExpander_def split: option.splits)
  with literal show ?thesis by blast
qed

theorem parsed_terms_never_fail_witness:
  "\<exists>r m. Parse ''v=spf1 ip4:192.0.2.0/24 -all'' = Inr r \<and> m \<in> set (mechanisms r) \<and> mechanism_type m = TypeIP4 \<and>
     fst (MatchAddressLiteral m (SPFEvaluator_init ())) \<noteq> MatchError"
proof -
  let ?m = "(SPFMechanism_init TypeIP4 QualifierPass)\<lparr> address := ''192.0.2.0'', ip4_prefix_length := 24 \<rparr>"
  let ?r = "SPFRecord_init\<lparr> mechanisms := [?m, SPFMechanism_init TypeAll QualifierFail] \<rparr>"
  have "wf_record ?r" by code_simp
  then have "Parse (write_record ?r) = Inr ?r" by (rule Parse_write_record)
  moreover have "Parse ''v=spf1 ip4:192.0.2.0/24 -all'' = Parse (write_record ?r)" by code_simp
  ultimately have r: "Parse ''v=spf1 ip4:192.0.2.0/24 -all'' = Inr ?r" by simp
  have m: "?m \<in> set (mechanisms ?r)" "mechanism_type ?m = TypeIP4" by (simp_all add: SPFMechanism_init_def)
  from parsed_terms_never_fail [OF r m(1)] r m show ?thesis by blast
qed

text \<open>
  C23: the depth guard is never reached: with any limit of ten levels or more a check that starts with
  no terms counted gives what it gives with the limit of the code, because every level costs a term.
\<close>

theorem depth_guard_is_dead:
  "MaximumTerms \<le> limit \<Longrightarrow> terms st = 0 \<Longrightarrow>
   CheckDomain L 0 domain want st = CheckDomainUpTo limit L 0 domain want st"
  unfolding CheckDomain_def by (rule depth_limit_unreached) (simp_all add: MAXIMUM_DEPTH_def)

theorem depth_guard_is_dead_witness:
  "CheckDomain (SPFDnsResolver (\<lambda>ty w n. (Some [''v=spf1 include:a.example''], w))) 0 ''a.example'' True (SPFEvaluator_init ()) =
   CheckDomainUpTo 10 (SPFDnsResolver (\<lambda>ty w n. (Some [''v=spf1 include:a.example''], w))) 0 ''a.example'' True (SPFEvaluator_init ())"
  by (rule depth_guard_is_dead) (simp_all add: MaximumTerms_def SPFEvaluator_init_def)

end
