(* ===== verification/SPF_Semantics.thy ===== *)
theory SPF_Semantics
  imports SPF_Evaluator
begin

text \<open>
  What a check promises, without its machinery: the semantics of RFC 7208 section 4 over a DNS that
  gives every question one answer. It has no counters, no memo, no depth and no order of queries: a
  macro string means a list of items, the validated names are a filtered list, and \<open>check_host\<close> is the
  least relation closed under the rules of sections 4 to 6. The evaluator of \<open>SPF_Evaluator\<close> is shown
  to refine it: what it returns is what the rules give, or a permerror with a limit of section 4.6.4
  exceeded.
\<close>

section \<open>A DNS that does not change\<close>

record DnsView =
  view_txt :: "AnsiString \<Rightarrow> AnsiString list option"
  view_a :: "AnsiString \<Rightarrow> AnsiString list option"
  view_aaaa :: "AnsiString \<Rightarrow> AnsiString list option"
  view_mx :: "AnsiString \<Rightarrow> AnsiString list option"
  view_ptr :: "AnsiString \<Rightarrow> AnsiString list option"

locale stable_lookup =
  fixes L :: "'w SPFDnsLookup" and Z :: DnsView
  assumes stable_TXT: "GetTXTRecords L w n = (ans, w') \<Longrightarrow> ans = view_txt Z n"
    and stable_A: "GetARecords L w n = (ans, w') \<Longrightarrow> ans = view_a Z n"
    and stable_AAAA: "GetAAAARecords L w n = (ans, w') \<Longrightarrow> ans = view_aaaa Z n"
    and stable_MX: "GetMXRecords L w n = (ans, w') \<Longrightarrow> ans = view_mx Z n"
    and stable_PTR: "GetPTRRecords L w n = (ans, w') \<Longrightarrow> ans = view_ptr Z n"
begin

lemma counting_answers:
  "CountingGetTXTRecords L cl n = (ans, cl') \<Longrightarrow> ans = view_txt Z n"
  "CountingGetARecords L cl n = (ans, cl') \<Longrightarrow> ans = view_a Z n"
  "CountingGetAAAARecords L cl n = (ans, cl') \<Longrightarrow> ans = view_aaaa Z n"
  "CountingGetMXRecords L cl n = (ans, cl') \<Longrightarrow> ans = view_mx Z n"
  "CountingGetPTRRecords L cl n = (ans, cl') \<Longrightarrow> ans = view_ptr Z n"
  unfolding counting_query_defs
  by (auto dest: CountedQuery_world stable_TXT stable_A stable_AAAA stable_MX stable_PTR)

end

text \<open>
  The server's resolver is such a DNS where the record query under it is a table of the zone.
\<close>

definition TableQuery :: "(nat \<Rightarrow> AnsiString \<Rightarrow> AnsiString list option) \<Rightarrow> 'w record_query" where
  "TableQuery table resourceType w name = (table resourceType name, w)"

definition ask :: "(nat \<Rightarrow> AnsiString \<Rightarrow> AnsiString list option) \<Rightarrow> nat \<Rightarrow> AnsiString \<Rightarrow> AnsiString list option" where
  "ask table resourceType name = (if name = [] then None else table resourceType name)"

definition TableView :: "(nat \<Rightarrow> AnsiString \<Rightarrow> AnsiString list option) \<Rightarrow> DnsView" where
  "TableView table =
     \<lparr> view_txt = ask table RESOURCE_TYPE_TEXT, view_a = ask table RESOURCE_TYPE_A,
       view_aaaa = ask table RESOURCE_TYPE_AAAA,
       view_mx = (\<lambda>n. map_option (filter (\<lambda>h. \<not> (h = ''.'' \<or> h = []))) (ask table RESOURCE_TYPE_MX n)),
       view_ptr = ask table RESOURCE_TYPE_PTR \<rparr>"

interpretation table: stable_lookup "SPFDnsResolver (TableQuery table)" "TableView table"
  for table :: "nat \<Rightarrow> AnsiString \<Rightarrow> AnsiString list option"
  by unfold_locales
    (auto simp: SPFDnsResolver_def TableView_def ResolverQuery_def ResolverGetMXRecords_def TableQuery_def ask_def
      EraseNullMX_filter split: if_splits prod.splits option.splits)

section \<open>Names and expansions\<close>

definition view_addresses :: "DnsView \<Rightarrow> SPFAddress \<Rightarrow> AnsiString \<Rightarrow> AnsiString list option" where
  "view_addresses Z client = (if family client = FamilyIP6 then view_aaaa Z else view_a Z)"

definition validates :: "DnsView \<Rightarrow> SPFAddress \<Rightarrow> AnsiString \<Rightarrow> bool" where
  "validates Z client name \<longleftrightarrow>
     (\<exists>addresses. view_addresses Z client name = Some addresses \<and>
        (\<exists>a \<in> set addresses. \<exists>parsed. TryParse a = Some parsed \<and> Equals parsed client))"

definition client_names :: "DnsView \<Rightarrow> SPFAddress \<Rightarrow> AnsiString list" where
  "client_names Z client =
     (case view_ptr Z (GetReverseName client) of
        None \<Rightarrow> []
      | Some names \<Rightarrow> filter (validates Z client) (take MaximumPtrNames names))"

datatype macro_item = Plain char | Expansion Macro

function macro_items :: "AnsiString \<Rightarrow> MacroSet \<Rightarrow> nat \<Rightarrow> macro_item list option" where
  "macro_items t macros pos =
     (if pos < length t then
        if t ! pos = CHR ''%'' then
          (case TryReadMacro t pos macros of
             None \<Rightarrow> None
           | Some m \<Rightarrow> map_option ((#) (Expansion m)) (macro_items t macros (macro_end m)))
        else if IsMacroLiteral (t ! pos) macros
             then map_option ((#) (Plain (t ! pos))) (macro_items t macros (pos + 1)) else None
      else Some [])"
  by pat_completeness auto
termination
  by (relation "measure (\<lambda>(t, macros, pos). length t - pos)") (auto dest: TryReadMacro_bounds)

declare macro_items.simps [simp del]

definition macro_meaning :: "AnsiString list \<Rightarrow> SPFMacroExpander \<Rightarrow> AnsiString \<Rightarrow> char \<Rightarrow> AnsiString" where
  "macro_meaning names x domain l =
     (if l = CHR ''s'' then sender x
      else if l = CHR ''l'' then local_part x
      else if l = CHR ''o'' then sender_domain x
      else if l = CHR ''d'' then domain
      else if l = CHR ''i'' then GetDottedForm (client_address x)
      else if l = CHR ''p'' then ChooseValidatedName names domain
      else if l = CHR ''h'' then helo_host x
      else if l = CHR ''v'' then GetArpaLabel (client_address x)
      else if l = CHR ''c'' then GetReadableForm (client_address x)
      else if l = CHR ''r'' then receiving_host x
      else if l = CHR ''t'' then ToDecimal64 (timestamp x)
      else [])"

definition item_text :: "AnsiString list \<Rightarrow> SPFMacroExpander \<Rightarrow> AnsiString \<Rightarrow> macro_item \<Rightarrow> AnsiString" where
  "item_text names x domain i =
     (case i of
        Plain c \<Rightarrow> [c]
      | Expansion m \<Rightarrow>
          if is_literal m then
            (if literal m = CHR ''%'' then ''%'' else if literal m = CHR ''_'' then '' '' else ''%20'')
          else
            let v = transform_spec (macro_meaning names x domain (ToLowerAscii (letter m))) m
            in if letter m \<noteq> ToLowerAscii (letter m) then UrlEscape v else v)"

definition macro_text :: "AnsiString list \<Rightarrow> SPFMacroExpander \<Rightarrow> AnsiString \<Rightarrow> AnsiString \<Rightarrow> MacroSet \<Rightarrow> AnsiString option" where
  "macro_text names x domain t macros = map_option (concat \<circ> map (item_text names x domain)) (macro_items t macros 0)"

section \<open>The rules\<close>

datatype outcome = Yes | No | Err SPFResult

definition target_of :: "DnsView \<Rightarrow> SPFMacroExpander \<Rightarrow> AnsiString \<Rightarrow> bool \<Rightarrow> AnsiString \<Rightarrow> TargetName" where
  "target_of Z x domain given spec =
     (if \<not> given then (if IsValidDomainName domain then Resolved domain else Unusable)
      else case macro_text (client_names Z (client_address x)) x domain spec RecordTerm of
        None \<Rightarrow> TargetSyntaxError
      | Some t \<Rightarrow> if IsValidDomainName (FinishDomainName t) then Resolved (FinishDomainName t) else Unusable)"

definition listed :: "SPFAddress \<Rightarrow> nat \<Rightarrow> AnsiString list \<Rightarrow> bool" where
  "listed client prefix addresses \<longleftrightarrow>
     (\<exists>a \<in> set addresses. \<exists>network. TryParse a = Some network \<and> MatchesPrefix client network (int prefix))"

text \<open>The names of an mx are asked in turn, up to the first that lists the client or cannot be asked.\<close>

fun mx_outcome :: "DnsView \<Rightarrow> SPFAddress \<Rightarrow> nat \<Rightarrow> AnsiString list \<Rightarrow> outcome" where
  "mx_outcome Z client prefix [] = No"
| "mx_outcome Z client prefix (h # hs) =
     (case view_addresses Z client h of
        None \<Rightarrow> Err TempError
      | Some addresses \<Rightarrow> if listed client prefix addresses then Yes else mx_outcome Z client prefix hs)"

definition query_outcome :: "DnsView \<Rightarrow> SPFMacroExpander \<Rightarrow> SPFMechanism \<Rightarrow> AnsiString \<Rightarrow> outcome" where
  "query_outcome Z x m t =
     (let client = client_address x; prefix = PrefixLengthFor client m
      in case mechanism_type m of
           TypeA \<Rightarrow> (case view_addresses Z client t of
                       None \<Rightarrow> Err TempError
                     | Some addresses \<Rightarrow> if listed client prefix addresses then Yes else No)
         | TypeMX \<Rightarrow> (case view_mx Z t of
                        None \<Rightarrow> Err TempError
                      | Some hosts \<Rightarrow> if length hosts > MaximumMxNames then Err PermError
                                     else mx_outcome Z client prefix hosts)
         | TypePTR \<Rightarrow> if \<exists>n \<in> set (client_names Z client). IsAtOrBelow n t then Yes else No
         | TypeExists \<Rightarrow> (case view_a Z t of
                            None \<Rightarrow> Err TempError
                          | Some addresses \<Rightarrow> if addresses = [] then No else Yes)
         | _ \<Rightarrow> No)"

definition literal_outcome :: "SPFAddress \<Rightarrow> SPFMechanism \<Rightarrow> outcome" where
  "literal_outcome client m =
     (case TryParse (address m) of
        None \<Rightarrow> Err PermError
      | Some network \<Rightarrow>
          if MatchesPrefix client network
               (int (if mechanism_type m = TypeIP4 then ip4_prefix_length m else ip6_prefix_length m))
          then Yes else No)"

text \<open>The table of section 5.2.\<close>

definition include_outcome :: "SPFResult \<Rightarrow> outcome" where
  "include_outcome r =
     (if r = Pass then Yes
      else if r = TempError then Err TempError
      else if r = PermError \<or> r = ResultNone then Err PermError
      else No)"

definition located :: "DnsView \<Rightarrow> AnsiString \<Rightarrow> LocatorResult" where
  "located Z domain =
     (if \<not> IsValidDomainName domain then NoRecord
      else case view_txt Z domain of
        None \<Rightarrow> TemporaryError
      | Some records \<Rightarrow>
          (case filter HasVersionTag records of
             [] \<Rightarrow> NoRecord
           | [record] \<Rightarrow> (case Parse record of Inl e \<Rightarrow> SyntaxError e | Inr r \<Rightarrow> Found r)
           | _ \<Rightarrow> Ambiguous))"

inductive check_host :: "DnsView \<Rightarrow> SPFMacroExpander \<Rightarrow> AnsiString \<Rightarrow> SPFResult \<Rightarrow> bool"
  and directives :: "DnsView \<Rightarrow> SPFMacroExpander \<Rightarrow> AnsiString \<Rightarrow> SPFRecord \<Rightarrow> SPFMechanism list \<Rightarrow> SPFResult \<Rightarrow> bool"
  and directive :: "DnsView \<Rightarrow> SPFMacroExpander \<Rightarrow> AnsiString \<Rightarrow> SPFMechanism \<Rightarrow> outcome \<Rightarrow> bool"
  for Z :: DnsView and x :: SPFMacroExpander where
  no_record: "located Z d = NoRecord \<Longrightarrow> check_host Z x d ResultNone"
| not_read: "located Z d = TemporaryError \<Longrightarrow> check_host Z x d TempError"
| ambiguous: "located Z d = Ambiguous \<Longrightarrow> check_host Z x d PermError"
| malformed: "located Z d = SyntaxError e \<Longrightarrow> check_host Z x d PermError"
| found: "located Z d = Found r \<Longrightarrow> directives Z x d r (mechanisms r) res \<Longrightarrow> check_host Z x d res"
| matches: "directive Z x d m Yes \<Longrightarrow> directives Z x d r (m # ms) (ResultOf (qualifier m))"
| passes_on: "directive Z x d m No \<Longrightarrow> directives Z x d r ms res \<Longrightarrow> directives Z x d r (m # ms) res"
| fails: "directive Z x d m (Err e) \<Longrightarrow> directives Z x d r (m # ms) e"
| unmatched: "\<not> has_redirect r \<Longrightarrow> directives Z x d r [] Neutral"
| redirect: "has_redirect r \<Longrightarrow> target_of Z x d True (redirect_domain_spec r) = Resolved t \<Longrightarrow>
    check_host Z x t res \<Longrightarrow> directives Z x d r [] (if res = ResultNone then PermError else res)"
| redirect_nowhere: "has_redirect r \<Longrightarrow> target_of Z x d True (redirect_domain_spec r) \<in> {Unusable, TargetSyntaxError} \<Longrightarrow>
    directives Z x d r [] PermError"
| all: "mechanism_type m = TypeAll \<Longrightarrow> directive Z x d m Yes"
| address_literal: "mechanism_type m = TypeIP4 \<or> mechanism_type m = TypeIP6 \<Longrightarrow>
    directive Z x d m (literal_outcome (client_address x) m)"
| unusable_target: "mechanism_type m \<notin> {TypeAll, TypeIP4, TypeIP6} \<Longrightarrow>
    target_of Z x d (has_domain_spec m) (domain_spec m) = Unusable \<Longrightarrow> directive Z x d m No"
| bad_target: "mechanism_type m \<notin> {TypeAll, TypeIP4, TypeIP6} \<Longrightarrow>
    target_of Z x d (has_domain_spec m) (domain_spec m) = TargetSyntaxError \<Longrightarrow> directive Z x d m (Err PermError)"
| query: "mechanism_type m \<in> {TypeA, TypeMX, TypePTR, TypeExists} \<Longrightarrow>
    target_of Z x d (has_domain_spec m) (domain_spec m) = Resolved t \<Longrightarrow> directive Z x d m (query_outcome Z x m t)"
| included: "mechanism_type m = TypeInclude \<Longrightarrow>
    target_of Z x d (has_domain_spec m) (domain_spec m) = Resolved t \<Longrightarrow> check_host Z x t res \<Longrightarrow>
    directive Z x d m (include_outcome res)"

inductive_cases check_hostE: "check_host Z x d res"
inductive_cases directives_NilE: "directives Z x d r [] res"
inductive_cases directives_ConsE: "directives Z x d r (m # ms) res"
inductive_cases directiveE: "directive Z x d m out"

text \<open>The rules leave no choice: a check has at most one result.\<close>

lemma semantics_deterministic:
  "check_host Z x d res \<Longrightarrow> (\<And>res'. check_host Z x d res' \<Longrightarrow> res' = res)"
  "directives Z x d r ms res \<Longrightarrow> (\<And>res'. directives Z x d r ms res' \<Longrightarrow> res' = res)"
  "directive Z x d m out \<Longrightarrow> (\<And>out'. directive Z x d m out' \<Longrightarrow> out' = out)"
proof (induction rule: check_host_directives_directive.inducts)
  case (no_record d)
  from no_record(2,1) show ?case by (cases rule: check_hostE) auto
next
  case (not_read d)
  from not_read(2,1) show ?case by (cases rule: check_hostE) auto
next
  case (ambiguous d)
  from ambiguous(2,1) show ?case by (cases rule: check_hostE) auto
next
  case (malformed d e)
  from malformed(2,1) show ?case by (cases rule: check_hostE) auto
next
  case (found d r res)
  from found(4) show ?case
  proof (rule check_hostE)
    fix r'
    assume r': "located Z d = Found r'" "directives Z x d r' (mechanisms r') res'"
    with found(1) have "r' = r" by simp
    with r' found(3) show ?thesis by blast
  qed (use found(1) in auto)
next
  case (matches d m r ms)
  from matches(3) show ?case by (cases rule: directives_ConsE) (use matches.IH in blast)+
next
  case (passes_on d m r ms res)
  from passes_on.prems show ?case by (cases rule: directives_ConsE) (use passes_on.IH in blast)+
next
  case (fails d m e r ms)
  from fails(3) show ?case by (cases rule: directives_ConsE) (use fails.IH in blast)+
next
  case (unmatched r d)
  from unmatched(2,1) show ?case by (cases rule: directives_NilE) auto
next
  case (redirect r d t res)
  from redirect(5) show ?case
  proof (rule directives_NilE)
    fix t' res''
    assume t': "res' = (if res'' = ResultNone then PermError else res'')"
      "target_of Z x d True (redirect_domain_spec r) = Resolved t'" "check_host Z x t' res''"
    with redirect(2) have "t' = t" by simp
    with t' redirect(4) have "res'' = res" by blast
    with t' show ?thesis by simp
  qed (use redirect(1,2) in auto)
next
  case (redirect_nowhere r d)
  from redirect_nowhere(3) show ?case by (cases rule: directives_NilE) (use redirect_nowhere(1,2) in auto)
next
  case (included m d t res)
  from included(5) show ?case
  proof (rule directiveE)
    fix t' res'
    assume t': "out' = include_outcome res'"
      "target_of Z x d (has_domain_spec m) (domain_spec m) = Resolved t'" "check_host Z x t' res'"
    with included(2) have "t' = t" by simp
    with t' included(4) have "res' = res" by blast
    with t' show ?thesis by simp
  qed (use included(1,2) in auto)
next
  case (all m d)
  from all(2) show ?case by (cases rule: directiveE) (use all(1) in auto)
next
  case (address_literal m d)
  from address_literal(2) show ?case by (cases rule: directiveE) (use address_literal(1) in auto)
next
  case (unusable_target m d)
  from unusable_target(3) show ?case by (cases rule: directiveE) (use unusable_target(1,2) in auto)
next
  case (bad_target m d)
  from bad_target(3) show ?case by (cases rule: directiveE) (use bad_target(1,2) in auto)
next
  case (query m d t)
  from query(3) show ?case by (cases rule: directiveE) (use query(1,2) in auto)
qed

section \<open>Expansion refines its meaning\<close>

lemma macro_items_valid: "macro_items t macros pos \<noteq> None \<longleftrightarrow> IsValidMacroString_from t macros pos"
proof (induction t macros pos rule: macro_items.induct)
  case (1 t macros pos)
  then show ?case
    by (subst macro_items.simps, subst IsValidMacroString_from.simps) (auto split: option.splits)
qed

text \<open>\<open>memo_of Z x x'\<close>: \<open>x'\<close> is \<open>x\<close> but for the memo, and the memo is either untouched or right.\<close>

definition memo_of :: "DnsView \<Rightarrow> SPFMacroExpander \<Rightarrow> SPFMacroExpander \<Rightarrow> bool" where
  "memo_of Z x x' \<longleftrightarrow>
     x' = x\<lparr> validated_names_known := validated_names_known x',
            validated_names := if validated_names_known x' then client_names Z (client_address x) else [] \<rparr>"

lemma memo_of_fields:
  assumes "memo_of Z x x'"
  shows "client_address x' = client_address x" "sender x' = sender x" "local_part x' = local_part x"
    "sender_domain x' = sender_domain x" "helo_host x' = helo_host x" "receiving_host x' = receiving_host x"
    "timestamp x' = timestamp x"
    "validated_names x' = (if validated_names_known x' then client_names Z (client_address x) else [])"
  by (subst assms [unfolded memo_of_def], simp)+

lemma IsClientAmong_iff:
  "IsClientAmong client addresses \<longleftrightarrow>
     (\<exists>a \<in> set addresses. \<exists>parsed. TryParse a = Some parsed \<and> Equals parsed client)"
  by (auto simp: IsClientAmong_def list_ex_iff split: option.splits)

context stable_lookup
begin

lemma ValidateNames_names:
  "ValidateNames L client names v cl = (r, cl') \<Longrightarrow> r = v @ filter (validates Z client) names"
proof (induction names arbitrary: v cl)
  case (Cons name names)
  obtain ans cl1 where q: "(if family client = FamilyIP6 then CountingGetAAAARecords L cl name
                            else CountingGetARecords L cl name) = (ans, cl1)" by (metis surj_pair)
  then have ans: "ans = view_addresses Z client name"
    by (auto simp: view_addresses_def split: if_splits dest: counting_answers)
  show ?case
  proof (cases ans)
    case None
    with Cons q ans show ?thesis by (simp add: validates_def)
  next
    case (Some addresses)
    with Cons.prems q have "ValidateNames L client names (if IsClientAmong client addresses then v @ [name] else v) cl1 = (r, cl')"
      by simp
    from Cons.IH [OF this] Some ans show ?thesis by (auto simp: validates_def IsClientAmong_iff)
  qed
qed simp

lemma fetched_names:
  assumes "memo_of Z x (fst s)" "GetValidatedNames L s = (names, s')"
  shows "names = client_names Z (client_address x)" "memo_of Z x (fst s')"
proof -
  obtain x1 cl where s: "s = (x1, cl)" by (cases s)
  note fields = memo_of_fields [OF assms(1), unfolded s fst_conv]
  have "names = client_names Z (client_address x) \<and> memo_of Z x (fst s')"
  proof (cases "validated_names_known x1")
    case True
    with assms fields s show ?thesis by (auto simp: GetValidatedNames_def)
  next
    case False
    let ?x2 = "x1\<lparr> validated_names_known := True \<rparr>"
    obtain x3 cl3 where f: "FindValidatedNames L (?x2, cl) = (x3, cl3)" by (metis surj_pair)
    obtain ans cl1 where q: "CountingGetPTRRecords L cl (GetReverseName (client_address x)) = (ans, cl1)" by (metis surj_pair)
    note ans = counting_answers(5) [OF q]
    have x3: "x3 = ?x2\<lparr> validated_names := client_names Z (client_address x) \<rparr>"
    proof (cases ans)
      case None
      with f q ans fields False show ?thesis by (auto simp: FindValidatedNames_def client_names_def)
    next
      case (Some ns)
      with f q obtain v where
        "ValidateNames L (client_address x) (take MaximumPtrNames ns) [] cl1 = (v, cl3)" "x3 = ?x2\<lparr> validated_names := v \<rparr>"
        using fields False by (auto simp: FindValidatedNames_def Let_def split: prod.splits if_splits)
      moreover from this(1) have "v = filter (validates Z (client_address x)) (take MaximumPtrNames ns)"
        by (auto dest: ValidateNames_names)
      ultimately show ?thesis using Some ans by (simp add: client_names_def)
    qed
    have "x1 = x\<lparr> validated_names_known := False, validated_names := [] \<rparr>"
      using assms(1) False by (simp add: memo_of_def s)
    with x3 have "x3 = x\<lparr> validated_names_known := True, validated_names := client_names Z (client_address x) \<rparr>" by simp
    moreover have "names = validated_names x3" "s' = (x3, cl3)"
      using assms(2) s False f by (auto simp: GetValidatedNames_def)
    ultimately show ?thesis by (simp add: memo_of_def)
  qed
  then show "names = client_names Z (client_address x)" "memo_of Z x (fst s')" by auto
qed

lemma macro_value:
  assumes "memo_of Z x (fst s)" "GetMacroValue L l domain s = (v, s')"
  shows "v = macro_meaning (client_names Z (client_address x)) x domain l" "memo_of Z x (fst s')"
proof -
  obtain x1 cl where s: "s = (x1, cl)" by (cases s)
  note fields = memo_of_fields [OF assms(1), unfolded s fst_conv]
  show "v = macro_meaning (client_names Z (client_address x)) x domain l"
    using assms fields s fetched_names(1) [OF assms(1)]
    by (auto simp: GetMacroValue_def macro_meaning_def GetValidatedName_def Let_def split: if_splits prod.splits)
  show "memo_of Z x (fst s')"
    using assms s fetched_names(2) [OF assms(1)]
    by (auto simp: GetMacroValue_def GetValidatedName_def Let_def split: if_splits prod.splits)
qed

lemma macro_expanded:
  assumes "memo_of Z x (fst s)" "ExpandMacro L m domain s = (v, s')"
  shows "v = item_text (client_names Z (client_address x)) x domain (Expansion m) \<and> memo_of Z x (fst s')"
  using assms macro_value [OF assms(1), of "ToLowerAscii (letter m)" domain]
  by (auto simp: ExpandMacro_def item_text_def Let_def Transform_eq split: if_splits prod.splits)

lemma item_text_Plain: "item_text names x domain (Plain c) = [c]"
  by (simp add: item_text_def)

lemma items_expanded:
  assumes "macro_items t macros pos = Some items" "memo_of Z x (fst s)"
  shows "\<exists>s'. ExpandLoop L t macros domain pos result s =
      (Some (result @ concat (map (item_text (client_names Z (client_address x)) x domain) items)), s') \<and>
    memo_of Z x (fst s')"
  using assms
proof (induction t macros pos arbitrary: items result s rule: macro_items.induct)
  case (1 t macros pos)
  show ?case
  proof (cases "pos < length t")
    case False
    with "1.prems" show ?thesis by (subst ExpandLoop.simps) (simp add: macro_items.simps [of t macros pos])
  next
    case pos: True
    show ?thesis
    proof (cases "t ! pos = CHR ''%''")
      case True
      with pos "1.prems"(1) obtain m rest where m: "TryReadMacro t pos macros = Some m"
        "macro_items t macros (macro_end m) = Some rest" "items = Expansion m # rest"
        by (auto simp: macro_items.simps [of t macros pos] split: option.splits)
      obtain v s1 where v: "ExpandMacro L m domain s = (v, s1)" by (metis surj_pair)
      note exp = macro_expanded [OF "1.prems"(2) v]
      from "1.IH"(1) [OF pos True m(1,2), of s1 "result @ v"] exp pos True m v show ?thesis
        by (subst ExpandLoop.simps) simp
    next
      case False
      with pos "1.prems"(1) obtain rest where r: "IsMacroLiteral (t ! pos) macros"
        "macro_items t macros (pos + 1) = Some rest" "items = Plain (t ! pos) # rest"
        by (auto simp: macro_items.simps [of t macros pos] split: option.splits if_splits)
      from "1.IH"(2) [OF pos False r(1,2) "1.prems"(2), of "result @ [t ! pos]"] pos False r show ?thesis
        by (subst ExpandLoop.simps) (simp add: item_text_Plain)
    qed
  qed
qed

lemma expansion_refines:
  assumes "memo_of Z x (fst s)" "Expand L t asName domain s = (r, s')"
  shows "r = map_option (if asName then FinishDomainName else id)
      (macro_text (client_names Z (client_address x)) x domain t (if asName then RecordTerm else ExplanationText)) \<and>
    memo_of Z x (fst s')"
proof (cases "macro_items t (if asName then RecordTerm else ExplanationText) 0")
  case None
  then have "\<not> IsValidMacroString t (if asName then RecordTerm else ExplanationText)"
    unfolding IsValidMacroString_def macro_items_valid [symmetric] by simp
  with None assms show ?thesis by (auto simp: Expand_def Let_def macro_text_def)
next
  case (Some items)
  then have "IsValidMacroString t (if asName then RecordTerm else ExplanationText)"
    unfolding IsValidMacroString_def macro_items_valid [symmetric] by simp
  with Some assms(2) items_expanded [OF Some assms(1), of domain "[]"] show ?thesis
    by (auto simp: Expand_def Let_def macro_text_def)
qed

end

section \<open>The evaluator refines the rules\<close>

definition about :: "DnsView \<Rightarrow> SPFMacroExpander \<Rightarrow> 'w SPFEvaluator \<Rightarrow> bool" where
  "about Z x st \<longleftrightarrow> evaluator_client st = client_address x \<and> memo_of Z x (expander st)"

definition exceeded :: "'w SPFEvaluator \<Rightarrow> bool" where
  "exceeded st \<longleftrightarrow> terms st > MaximumTerms \<or> GetHasTooManyVoidTerms st"

definition outcome_of :: "Match \<Rightarrow> 'w SPFEvaluator \<Rightarrow> outcome" where
  "outcome_of b st = (case b of MatchYes \<Rightarrow> Yes | MatchNo \<Rightarrow> No | MatchError \<Rightarrow> Err (error_result st))"

lemma about_updates [simp]:
  "about Z x (st\<lparr> terms := n \<rparr>) = about Z x st" "about Z x (st\<lparr> void_terms := n \<rparr>) = about Z x st"
  "about Z x (st\<lparr> error_result := r \<rparr>) = about Z x st" "about Z x (st\<lparr> counting_lookup := cl \<rparr>) = about Z x st"
  by (simp_all add: about_def)

lemma about_CountVoidTerm [simp]: "about Z x (CountVoidTerm n st) = about Z x st"
  by (simp add: CountVoidTerm_def)

lemma about_CountTerm: "CountTerm st = (b, st') \<Longrightarrow> about Z x st' = about Z x st"
  by (auto simp: CountTerm_def Let_def)

lemma about_FailWith: "FailWith r st = (b, st') \<Longrightarrow> about Z x st' = about Z x st \<and> outcome_of b st' = Err r"
  by (auto simp: FailWith_def outcome_of_def)

lemma about_WithLookup: "WithLookup f st = (b, st') \<Longrightarrow> about Z x st' = about Z x st"
  by (auto simp: WithLookup_def split: prod.splits)

lemma outcome_of_CountVoidTerm [simp]: "outcome_of b (CountVoidTerm n st) = outcome_of b st"
  by (simp add: outcome_of_def split: Match.splits)

lemma outcome_of_simps [simp]: "outcome_of MatchYes st = Yes" "outcome_of MatchNo st = No"
  by (simp_all add: outcome_of_def)

lemma MatchesAnyAddress_iff: "MatchesAnyAddress client addresses n \<longleftrightarrow> listed client n addresses"
  by (auto simp: MatchesAnyAddress_def listed_def list_ex_iff split: option.splits)

lemma MatchAddressLiteral_refines:
  "about Z x st \<Longrightarrow> MatchAddressLiteral m st = (b, st') \<Longrightarrow>
   outcome_of b st' = literal_outcome (client_address x) m \<and> about Z x st'"
  by (auto simp: MatchAddressLiteral_def literal_outcome_def Let_def about_FailWith split: option.splits)
    (auto simp: about_def)

context stable_lookup
begin

lemma expanded_about:
  assumes "about Z x st" "WithExpander (Expand L t asName domain) st = (e, st')"
  shows "e = map_option (if asName then FinishDomainName else id)
      (macro_text (client_names Z (client_address x)) x domain t (if asName then RecordTerm else ExplanationText))"
    "about Z x st'"
  using assms expansion_refines [of x "(expander st, counting_lookup st)" t asName domain]
  by (auto simp: WithExpander_def about_def split: prod.splits)

lemma explained: "about Z x st \<Longrightarrow> ExplanationFor L r domain st = (e, st') \<Longrightarrow> about Z x st'"
  by (auto simp: ExplanationFor_def ExpandDomainSpec_def [abs_def] ExpandExplanation_def [abs_def]
      split: if_splits option.splits prod.splits dest: expanded_about(2) dest!: about_WithLookup [where Z = Z and x = x])

lemma resolved_target:
  assumes "about Z x st" "ResolveTargetName L m domain st = (t, st')"
  shows "t = target_of Z x domain (has_domain_spec m) (domain_spec m)" "about Z x st'"
proof -
  have expanded: "e = map_option FinishDomainName (macro_text (client_names Z (client_address x)) x domain d RecordTerm) \<and> about Z x st1"
    if "WithExpander (ExpandDomainSpec L d domain) st = (e, st1)" for d e st1
    using expanded_about [OF assms(1), of d True domain e st1] that by (simp add: ExpandDomainSpec_def [abs_def])
  show "t = target_of Z x domain (has_domain_spec m) (domain_spec m)"
    using assms(2)
    by (cases "macro_text (client_names Z (client_address x)) x domain (domain_spec m) RecordTerm")
      (auto simp: ResolveTargetName_def target_of_def split: if_splits prod.splits option.splits dest!: expanded)
  show "about Z x st'"
    using assms by (auto simp: ResolveTargetName_def split: if_splits prod.splits option.splits dest: expanded)
qed

lemma looked_up_addresses:
  assumes "about Z x st" "TryLookupAddresses L host st = (ans, st')"
  shows "ans = view_addresses Z (client_address x) host" "about Z x st'"
  using assms unfolding TryLookupAddresses_def view_addresses_def about_def
  by (auto simp: WithLookup_def split: if_splits prod.splits dest: counting_answers)

lemma MatchMXNames_refines:
  "about Z x st \<Longrightarrow> MatchMXNames L n names st = (b, st') \<Longrightarrow>
   outcome_of b st' = mx_outcome Z (client_address x) n names \<and> about Z x st'"
proof (induction names arbitrary: st)
  case (Cons host names)
  obtain ans st1 where a: "TryLookupAddresses L host st = (ans, st1)" by (metis surj_pair)
  note look = looked_up_addresses [OF Cons.prems(1) a]
  show ?case
  proof (cases ans)
    case None
    with a Cons.prems look show ?thesis by (auto dest: about_FailWith)
  next
    case (Some addresses)
    with look(1) have view: "view_addresses Z (client_address x) host = Some addresses" by simp
    have "evaluator_client st1 = client_address x" using look(2) by (simp add: about_def)
    with a Some Cons.prems(2) look(2) Cons.IH [OF look(2)] show ?thesis
      by (auto simp: MatchesAnyAddress_iff view split: if_splits)
  qed
qed auto

lemma EvaluateQuery_refines:
  assumes "about Z x st" "EvaluateQuery L self m t st = (b, st')"
    "mechanism_type m \<in> {TypeA, TypeMX, TypePTR, TypeExists}"
  shows "outcome_of b st' = query_outcome Z x m t \<and> about Z x st'"
  using assms(2)
proof (cases rule: EvaluateQuery_cases)
  case (a st1)
  obtain ans st2 where q: "TryLookupAddresses L t st = (ans, st2)" by (metis surj_pair)
  from looked_up_addresses [OF assms(1) q] a q show ?thesis
    by (auto simp: MatchA_def query_outcome_def Let_def MatchesAnyAddress_iff split: option.splits dest: about_FailWith)
      (auto simp: about_def)
next
  case (mx st1)
  obtain ans st2 where q: "WithLookup (\<lambda>cl. CountingGetMXRecords L cl t) st = (ans, st2)" by (metis surj_pair)
  have ans: "ans = view_mx Z t" using q by (auto simp: WithLookup_def split: prod.splits dest: counting_answers)
  have st2: "about Z x st2" using about_WithLookup [OF q] assms(1) by simp
  then have client: "evaluator_client st2 = client_address x" by (simp add: about_def)
  show ?thesis
    using mx q ans st2 client MatchMXNames_refines [OF st2]
    by (auto simp: MatchMX_def query_outcome_def Let_def split: option.splits if_splits dest: about_FailWith)
next
  case (ptr st1)
  obtain names s' where g: "GetValidatedNames L (expander st, counting_lookup st) = (names, s')" by (metis surj_pair)
  with fetched_names [of x "(expander st, counting_lookup st)" names s'] assms(1)
  have names: "names = client_names Z (client_address x)" "memo_of Z x (fst s')" by (auto simp: about_def)
  have w: "WithExpander (GetValidatedNames L) st = (names, st1)" and b: "b = (if list_ex (\<lambda>n. IsAtOrBelow n t) names then MatchYes else MatchNo)"
    using ptr(2) g by (auto simp: MatchPTR_def WithExpander_def split: prod.splits)
  from w g names assms(1) have "about Z x st1" by (auto simp: WithExpander_def about_def split: prod.splits)
  with ptr b names show ?thesis by (auto simp: query_outcome_def Let_def list_ex_iff)
next
  case (ex st1)
  obtain ans st2 where q: "WithLookup (\<lambda>cl. CountingGetARecords L cl t) st = (ans, st2)" by (metis surj_pair)
  have ans: "ans = view_a Z t" using q by (auto simp: WithLookup_def split: prod.splits dest: counting_answers)
  have "about Z x st2" using about_WithLookup [OF q] assms(1) by simp
  with ex q ans show ?thesis
    by (auto simp: MatchExists_def query_outcome_def Let_def split: option.splits dest: about_FailWith)
qed (use assms(3) in auto)

lemma located_refines:
  assumes "WithLookup (Locate L domain) st = (loc, st')"
  shows "loc = located Z domain"
proof -
  obtain cl' where "Locate L domain (counting_lookup st) = (loc, cl')"
    using assms by (auto simp: WithLookup_def split: prod.splits)
  then show ?thesis
    by (cases "view_txt Z domain"; cases "filter HasVersionTag (the (view_txt Z domain))" rule: remdups_adj.cases)
      (auto simp: Locate_def located_def Let_def split: if_splits prod.splits option.splits sum.splits
        dest!: counting_answers(1))
qed

end

text \<open>
  The contract of a level: from a state within the limits it returns what the rules give, or a
  permerror with a limit exceeded. It holds of the levels that have as many terms counted as there are
  levels above them, which is every level a check enters.
\<close>

definition faithful :: "DnsView \<Rightarrow> SPFMacroExpander \<Rightarrow> nat \<Rightarrow> 'w checker \<Rightarrow> bool" where
  "faithful Z x n self \<longleftrightarrow>
     (\<forall>d want st r e st'. n \<le> terms st \<longrightarrow> within_limits st \<longrightarrow> about Z x st \<longrightarrow> self d want st = (r, e, st') \<longrightarrow>
        about Z x st' \<and> (check_host Z x d r \<or> r = PermError \<and> exceeded st'))"

locale faithful_checker = stable_lookup L Z + limited_checker self
  for L :: "'w SPFDnsLookup" and Z and self :: "'w checker" +
  fixes x :: SPFMacroExpander and n :: nat
  assumes self_faithful: "faithful Z x (n + 1) self"
begin

lemma entered_below:
  assumes "n \<le> terms st" "within_limits st" "about Z x st"
    and "ResolveTargetName L m d st = (t, st1)" "CountTerm st1 = (True, st2)"
  shows "n + 1 \<le> terms st2" "within_limits st2" "about Z x st2"
  using assms steadyD [OF steady_ResolveTargetName [OF assms(4)]] steady_limits [OF steady_ResolveTargetName [OF assms(4)]]
    CountTerm_True [OF assms(5)] CountTerm_limits(1) [OF assms(5)] resolved_target(2) [OF assms(3,4)] about_CountTerm [OF assms(5)]
  by auto

lemma self_refines:
  assumes "n + 1 \<le> terms st" "within_limits st" "about Z x st" "self d want st = (r, e, st')"
  shows "about Z x st'" "check_host Z x d r \<or> r = PermError \<and> exceeded st'"
  using self_faithful assms unfolding faithful_def by blast+

lemma MatchInclude_refines:
  assumes "n + 1 \<le> terms st" "within_limits st" "about Z x st" "MatchInclude self t st = (b, st')"
  shows "about Z x st' \<and>
    ((\<exists>r. check_host Z x t r \<and> outcome_of b st' = include_outcome r) \<or> outcome_of b st' = Err PermError \<and> exceeded st')"
proof -
  obtain r e st1 where s: "self t False st = (r, e, st1)" by (metis surj_pair)
  note ref = self_refines [OF assms(1-3) s]
  have "outcome_of b st' = include_outcome r \<and> about Z x st' = about Z x st1 \<and> exceeded st' = exceeded st1"
  proof (cases r)
    case ResultNone
    with s assms(4) have f: "FailWith PermError st1 = (b, st')" by (simp add: MatchInclude_def)
    from ResultNone about_FailWith [OF f] steady_limits [OF steady_FailWith [OF f]] steadyD [OF steady_FailWith [OF f]]
    show ?thesis by (simp add: include_outcome_def exceeded_def)
  next
    case TempError
    with s assms(4) have f: "FailWith TempError st1 = (b, st')" by (simp add: MatchInclude_def)
    from TempError about_FailWith [OF f] steady_limits [OF steady_FailWith [OF f]] steadyD [OF steady_FailWith [OF f]]
    show ?thesis by (simp add: include_outcome_def exceeded_def)
  next
    case PermError
    with s assms(4) have f: "FailWith PermError st1 = (b, st')" by (simp add: MatchInclude_def)
    from PermError about_FailWith [OF f] steady_limits [OF steady_FailWith [OF f]] steadyD [OF steady_FailWith [OF f]]
    show ?thesis by (simp add: include_outcome_def exceeded_def)
  qed (use s assms(4) in \<open>auto simp: MatchInclude_def include_outcome_def\<close>)
  with ref show ?thesis by (auto simp: include_outcome_def)
qed

lemma EvaluateMechanism_refines:
  assumes "n \<le> terms st" "within_limits st" "about Z x st" "EvaluateMechanism L self m d st = (b, st')"
  shows "about Z x st' \<and> (directive Z x d m (outcome_of b st') \<or> outcome_of b st' = Err PermError \<and> exceeded st')"
  using assms(4)
proof (cases rule: EvaluateMechanism_cases)
  case all
  with assms(3) show ?thesis by (simp add: check_host_directives_directive.all)
next
  case literal
  with MatchAddressLiteral_refines [OF assms(3) literal(2)] show ?thesis
    by (auto intro: check_host_directives_directive.address_literal)
next
  case (spec st1)
  note t = resolved_target [OF assms(3) spec(1)]
  from about_FailWith [OF spec(2)] t spec(3) show ?thesis
    by (auto intro: check_host_directives_directive.bad_target)
next
  case unusable
  note t = resolved_target [OF assms(3) unusable(1)]
  from t unusable(2,3) show ?thesis by (auto intro: check_host_directives_directive.unusable_target)
next
  case (limit t st1 st2)
  then have "terms st' > MaximumTerms"
    by (auto simp: CountTerm_def Let_def dest: FailWithD)
  with limit about_FailWith [OF limit(3)] about_CountTerm [OF limit(2)] resolved_target(2) [OF assms(3) limit(1)]
  show ?thesis by (auto simp: exceeded_def)
next
  case (query t st1 st2)
  note below = entered_below [OF assms(1-3) query(2,3)]
  note t = resolved_target(1) [OF assms(3) query(2), symmetric]
  show ?thesis
  proof (cases "mechanism_type m = TypeInclude")
    case True
    with query(4) have "MatchInclude self t st2 = (b, st')" by (simp add: EvaluateQuery_def)
    from MatchInclude_refines [OF below this] t True show ?thesis
      by (auto intro: check_host_directives_directive.included)
  next
    case False
    with query(1) have ty: "mechanism_type m \<in> {TypeA, TypeMX, TypePTR, TypeExists}" by (cases "mechanism_type m") auto
    from EvaluateQuery_refines [OF below(3) query(4) ty] t ty show ?thesis
      by (auto intro: check_host_directives_directive.query)
  qed
qed

lemma FollowRedirect_refines:
  assumes "n \<le> terms st" "within_limits st" "about Z x st" "has_redirect r"
    "FollowRedirect L self r d want st = (res, e, st')"
  shows "about Z x st' \<and> (directives Z x d r [] res \<or> res = PermError \<and> exceeded st')"
proof -
  let ?m = "SetDomainSpec (redirect_domain_spec r) (SPFMechanism_init TypeInclude QualifierPass)"
  obtain t st1 where t: "ResolveTargetName L ?m d st = (t, st1)" by (metis surj_pair)
  have spec: "target_of Z x d True (redirect_domain_spec r) = t" and st1: "about Z x st1"
    using resolved_target [OF assms(3) t] by (simp_all add: SetDomainSpec_def)
  show ?thesis
  proof (cases t)
    case (Resolved name)
    obtain within st2 where c: "CountTerm st1 = (within, st2)" by (metis surj_pair)
    show ?thesis
    proof (cases within)
      case True
      with c have "CountTerm st1 = (True, st2)" by simp
      note below = entered_below [OF assms(1-3) t this]
      obtain res0 e0 st3 where s: "self name want st2 = (res0, e0, st3)" by (metis surj_pair)
      from assms(5) t Resolved c True s have "res = (if res0 = ResultNone then PermError else res0)" "st' = st3"
        by (auto simp: FollowRedirect_def Let_def split: if_splits)
      with self_refines [OF below s] spec Resolved assms(4) show ?thesis
        using check_host_directives_directive.redirect [of r Z x d name res0] by auto
    next
      case False
      with assms(5) t Resolved c have "res = PermError" "st' = st2" by (auto simp: FollowRedirect_def Let_def)
      with c False st1 show ?thesis by (auto simp: CountTerm_def Let_def exceeded_def)
    qed
  qed (use assms(4,5) t spec st1 in \<open>auto simp: FollowRedirect_def Let_def intro: check_host_directives_directive.redirect_nowhere\<close>)
qed

lemma EvaluateMechanisms_refines:
  "n \<le> terms st \<Longrightarrow> within_limits st \<Longrightarrow> about Z x st \<Longrightarrow>
   EvaluateMechanisms L self r d want ms st = (res, e, st') \<Longrightarrow>
   about Z x st' \<and> (directives Z x d r ms res \<or> res = PermError \<and> exceeded st')"
proof (induction ms arbitrary: st)
  case Nil
  then show ?case
    by (cases "has_redirect r") (auto dest: FollowRedirect_refines intro: check_host_directives_directive.unmatched)
next
  case (Cons m ms)
  obtain b st1 where m: "EvaluateMechanism L self m d st = (b, st1)" by fastforce
  note ref = EvaluateMechanism_refines [OF Cons.prems(1-3) m]
  note out = EvaluateMechanism_outcome [OF Cons.prems(2) m]
  from Cons.prems(4) m show ?case
  proof (cases rule: EvaluateMechanisms_step)
    case void
    with ref show ?thesis by (simp add: exceeded_def)
  next
    case error
    with ref show ?thesis by (auto simp: outcome_of_def intro: check_host_directives_directive.fails)
  next
    case no
    have "n \<le> terms st1" using Cons.prems(1) EvaluateMechanism_evolves [OF m] by (simp add: evolves_def)
    moreover have "within_limits st1" using no out by (auto simp: match_outcome_def within_limits_def)
    ultimately show ?thesis
      using Cons.IH [of st1] no ref by (auto intro: check_host_directives_directive.passes_on)
  next
    case fail
    have "about Z x st'" using explained [OF _ fail(6)] ref by blast
    with fail ref show ?thesis using check_host_directives_directive.matches [of Z x d m r ms] by auto
  next
    case yes
    with ref show ?thesis using check_host_directives_directive.matches [of Z x d m r ms] by auto
  qed
qed

lemma CheckDomainBody_refines:
  assumes "n \<le> terms st" "within_limits st" "about Z x st" "CheckDomainBody L self d want st = (res, e, st')"
  shows "about Z x st' \<and> (check_host Z x d res \<or> res = PermError \<and> exceeded st')"
proof -
  obtain loc st1 where l: "WithLookup (Locate L d) st = (loc, st1)" by (metis surj_pair)
  let ?st2 = "CountVoidTerm (GetVoidQueryCount (counting_lookup st)) st1"
  note loc = located_refines [OF l, symmetric]
  have st1: "about Z x ?st2" "n \<le> terms ?st2" "terms ?st2 \<le> MaximumTerms"
    using about_WithLookup [OF l, of Z x] steadyD [OF steady_WithLookup [OF l]] assms(1-3) by (auto simp: within_limits_def)
  show ?thesis
  proof (cases loc)
    case (Found r)
    show ?thesis
    proof (cases "GetHasTooManyVoidTerms ?st2")
      case True
      with assms(4) l Found st1 show ?thesis by (auto simp: CheckDomainBody_def Let_def exceeded_def)
    next
      case False
      with st1 have "within_limits ?st2" by (simp add: within_limits_def)
      moreover from False assms(4) l Found
      have "EvaluateMechanisms L self r d want (mechanisms r) ?st2 = (res, e, st')"
        by (simp add: CheckDomainBody_def Let_def)
      ultimately have "about Z x st' \<and> (directives Z x d r (mechanisms r) res \<or> res = PermError \<and> exceeded st')"
        by (rule EvaluateMechanisms_refines [OF st1(2) _ st1(1)])
      with loc Found show ?thesis by (auto intro: check_host_directives_directive.found)
    qed
  qed (use assms(4) l loc st1 in
      \<open>auto simp: CheckDomainBody_def Let_def intro: check_host_directives_directive.intros\<close>)
qed

end

context stable_lookup
begin

lemma CheckDomainUpTo_faithful:
  assumes "MaximumTerms \<le> limit"
  shows "faithful Z x depth (CheckDomainUpTo limit L depth)"
proof (induction "limit + 1 - depth" arbitrary: depth)
  case 0
  with assms show ?case by (auto simp: faithful_def within_limits_def)
next
  case (Suc k)
  then have "faithful Z x (depth + 1) (CheckDomainUpTo limit L (depth + 1))" by simp
  then have "faithful_checker L Z (CheckDomainUpTo limit L (depth + 1)) x depth"
    by (intro faithful_checker.intro faithful_checker_axioms.intro stable_lookup_axioms limited_CheckDomainUpTo)
  from faithful_checker.CheckDomainBody_refines [OF this] Suc.hyps(2) show ?case
    by (simp add: faithful_def CheckDomainUpTo_body)
qed

end

interpretation table_check: faithful_checker "SPFDnsResolver (TableQuery table)" "TableView table"
    "CheckDomain (SPFDnsResolver (TableQuery table)) (n + 1)" x n
  for table :: "nat \<Rightarrow> AnsiString \<Rightarrow> AnsiString list option" and x n
proof unfold_locales
  have "faithful (TableView table) x (n + 1) (CheckDomainUpTo MAXIMUM_DEPTH (SPFDnsResolver (TableQuery table)) (n + 1))"
    by (rule table.CheckDomainUpTo_faithful) (simp add: MAXIMUM_DEPTH_def)
  then show "faithful (TableView table) x (n + 1) (CheckDomain (SPFDnsResolver (TableQuery table)) (n + 1))"
    by (simp add: CheckDomain_eq)
qed

end
