(* ===== verification/DmarcTreeWalk.thy ===== *)
theory DmarcTreeWalk
  imports StringParser SPF_Semantics "HOL-Library.AList"
begin

text \<open>
  Common/AntiSpam/DMARC/DmarcTreeWalk.cpp: the organizational domain of a domain by the tree walk of
  RFC 9989 section 4.10. The TXT query of the resolver is the argument \<open>q\<close>, and the clock the
  argument \<open>now\<close>. The texts of the source are wide strings, and lists of 8-bit characters here.
  The map of cached answers is an association list with distinct keys.
\<close>

section \<open>Records\<close>

definition max_labels_walked :: nat where "max_labels_walked = 7"

definition NormalizeDomain :: "AnsiString \<Rightarrow> AnsiString" where
  "NormalizeDomain domain = TrimRight_chars (MakeLower domain) ''.''"

fun GetTagFrom :: "AnsiString list \<Rightarrow> AnsiString \<Rightarrow> AnsiString option" where
  "GetTagFrom [] tag = None"
| "GetTagFrom (part # parts) tag =
     (let part = Trim part
      in case Find_str part ''='' of
           None \<Rightarrow> GetTagFrom parts tag
         | Some equals \<Rightarrow>
             if equals = 0 then GetTagFrom parts tag
             else if MakeLower (Trim (Mid_count part 0 equals)) \<noteq> tag then GetTagFrom parts tag
             else Some (MakeLower (Trim (Mid part (equals + 1)))))"

definition GetTag :: "AnsiString \<Rightarrow> AnsiString \<Rightarrow> AnsiString option" where
  "GetTag rec tag = GetTagFrom (SplitString rec CHR '';'') tag"

fun SelectLoop :: "AnsiString list \<Rightarrow> AnsiString option \<Rightarrow> AnsiString option" where
  "SelectLoop [] out = out"
| "SelectLoop (rec # recs) out =
     (let trimmed = Trim rec
      in if \<not> StartsWith trimmed ''v=DMARC1'' then SelectLoop recs out
         else if out \<noteq> None then None
         else SelectLoop recs (Some trimmed))"

definition SelectSingleRecord :: "AnsiString list \<Rightarrow> AnsiString option" where
  "SelectSingleRecord txtRecords = SelectLoop txtRecords None"

section \<open>The walk\<close>

record DmarcTreeWalkRecord =
  walk_domain :: AnsiString
  walk_record :: AnsiString
  psd_yes :: bool
  psd_no :: bool

definition JoinLabels :: "AnsiString list \<Rightarrow> AnsiString" where
  "JoinLabels labels =
     foldl (\<lambda>target label0. (if target \<noteq> [] then target @ ''.'' else target) @ label0) [] labels"

definition WalkTargets :: "AnsiString \<Rightarrow> AnsiString list \<Rightarrow> AnsiString list" where
  "WalkTargets lowerDomain labels =
     (let startIndex = (if length labels \<ge> 8 then length labels - max_labels_walked else 1)
      in lowerDomain # map (\<lambda>i. JoinLabels (drop i labels)) [startIndex..<length labels])"

definition MakeWalkRecord :: "AnsiString \<Rightarrow> AnsiString \<Rightarrow> DmarcTreeWalkRecord" where
  "MakeWalkRecord target rec =
     \<lparr> walk_domain = target, walk_record = rec, psd_yes = (GetTag rec ''psd'' = Some ''y''),
       psd_no = (GetTag rec ''psd'' = Some ''n'') \<rparr>"

text \<open>The result is the records found, whether the resolver failed, and the world after it.\<close>

fun WalkLoop ::
  "'w query \<Rightarrow> AnsiString list \<Rightarrow> DmarcTreeWalkRecord list \<Rightarrow> 'w \<Rightarrow> DmarcTreeWalkRecord list \<times> bool \<times> 'w" where
  "WalkLoop q [] results w = (results, False, w)"
| "WalkLoop q (target # targets) results w =
     (case q w (''_dmarc.'' @ target) of
        (None, w) \<Rightarrow> (results, True, w)
      | (Some txtRecords, w) \<Rightarrow>
          (case SelectSingleRecord txtRecords of
             None \<Rightarrow> WalkLoop q targets results w
           | Some rec \<Rightarrow>
               let found = MakeWalkRecord target rec;
                   results = results @ [found]
               in if psd_yes found \<or> psd_no found then (results, False, w)
                  else WalkLoop q targets results w))"

definition Walk :: "'w query \<Rightarrow> AnsiString \<Rightarrow> 'w \<Rightarrow> DmarcTreeWalkRecord list \<times> bool \<times> 'w" where
  "Walk q domain w =
     (let lowerDomain = NormalizeDomain domain
      in if lowerDomain = [] then ([], False, w)
         else
           let labels = SplitString lowerDomain CHR ''.''
           in if labels = [] then ([], False, w)
              else WalkLoop q (WalkTargets lowerDomain labels) [] w)"

section \<open>The organizational domain\<close>

fun SelectBelowSuffix :: "AnsiString \<Rightarrow> DmarcTreeWalkRecord list \<Rightarrow> AnsiString option" where
  "SelectBelowSuffix lowerStart [] = None"
| "SelectBelowSuffix lowerStart (r # records) =
     (if \<not> psd_yes r \<or> walk_domain r = lowerStart then SelectBelowSuffix lowerStart records
      else
        let startLabels = SplitString lowerStart CHR ''.'';
            psdLabels = SplitString (walk_domain r) CHR ''.''
        in if length psdLabels \<ge> length startLabels then SelectBelowSuffix lowerStart records
           else Some (JoinLabels (drop (length startLabels - (length psdLabels + 1)) startLabels)))"

definition FewestLabels :: "DmarcTreeWalkRecord list \<Rightarrow> AnsiString" where
  "FewestLabels records =
     fst (foldl (\<lambda>(fewest, fewestCount) r.
                   let count = length (SplitString (walk_domain r) CHR ''.'')
                   in if count < fewestCount then (walk_domain r, count) else (fewest, fewestCount))
            (walk_domain (records ! 0), length (SplitString (walk_domain (records ! 0)) CHR ''.'')) records)"

definition SelectOrganizationalDomain :: "AnsiString \<Rightarrow> DmarcTreeWalkRecord list \<Rightarrow> AnsiString" where
  "SelectOrganizationalDomain startDomain records =
     (let lowerStart = NormalizeDomain startDomain
      in case List.find psd_no records of
           Some r \<Rightarrow> walk_domain r
         | None \<Rightarrow>
             (case SelectBelowSuffix lowerStart records of
                Some d \<Rightarrow> d
              | None \<Rightarrow> if records \<noteq> [] then FewestLabels records else lowerStart))"

section \<open>The cache\<close>

record CacheEntry =
  organizational_domain :: AnsiString
  expires :: int

type_synonym walk_cache = "(AnsiString \<times> CacheEntry) list"

definition cache_seconds :: int where "cache_seconds = 300"
definition max_cache_entries :: nat where "max_cache_entries = 10000"

text \<open>The two sections of \<^verbatim>\<open>GetOrganizationalDomain\<close> under the mutex.\<close>

definition ProbeCache :: "walk_cache \<Rightarrow> AnsiString \<Rightarrow> int \<Rightarrow> AnsiString option \<times> walk_cache" where
  "ProbeCache cache lowerDomain now =
     (case map_of cache lowerDomain of
        None \<Rightarrow> (None, cache)
      | Some cached \<Rightarrow>
          if expires cached > now \<and> expires cached \<le> now + cache_seconds
          then (Some (organizational_domain cached), cache)
          else (None, AList.delete lowerDomain cache))"

definition StoreCache :: "walk_cache \<Rightarrow> AnsiString \<Rightarrow> AnsiString \<Rightarrow> int \<Rightarrow> walk_cache" where
  "StoreCache cache lowerDomain organizationalDomain now =
     (let cache = (if length cache \<ge> max_cache_entries then [] else cache)
      in AList.update lowerDomain
           \<lparr> organizational_domain = organizationalDomain, expires = now + cache_seconds \<rparr> cache)"

definition ClearCache :: "walk_cache \<Rightarrow> walk_cache" where
  "ClearCache cache = []"

definition WalkGetOrganizationalDomain ::
  "'w query \<Rightarrow> int \<Rightarrow> AnsiString \<Rightarrow> walk_cache \<times> 'w \<Rightarrow> AnsiString \<times> bool \<times> walk_cache \<times> 'w" where
  "WalkGetOrganizationalDomain q now domain st =
     (case st of (cache, w) \<Rightarrow>
        let lowerDomain = NormalizeDomain domain
        in if lowerDomain = [] then (lowerDomain, False, cache, w)
           else
             case ProbeCache cache lowerDomain now of
               (Some cached, cache) \<Rightarrow> (cached, False, cache, w)
             | (None, cache) \<Rightarrow>
                 (case Walk q lowerDomain w of
                    (records, dnsError, w) \<Rightarrow>
                      if dnsError then (lowerDomain, True, cache, w)
                      else
                        let organizationalDomain = SelectOrganizationalDomain lowerDomain records
                        in (organizationalDomain, False,
                            StoreCache cache lowerDomain organizationalDomain now, w)))"

section \<open>Suffixes at label boundaries\<close>

definition dot_suffix :: "AnsiString \<Rightarrow> AnsiString \<Rightarrow> bool" where
  "dot_suffix s d \<longleftrightarrow> (\<exists>p. d = p @ s \<and> (p = [] \<or> last p = CHR ''.''))"

lemma dot_suffix_refl [simp]: "dot_suffix d d"
  by (auto simp: dot_suffix_def)

lemma join_concat: "join sep (x # xs) = x @ concat (map (\<lambda>y. sep @ y) xs)"
  by (induction xs arbitrary: x) auto

lemma JoinLabels_loop:
  "t \<noteq> [] \<Longrightarrow> foldl (\<lambda>t l. (if t \<noteq> [] then t @ ''.'' else t) @ l) t ls = t @ concat (map (\<lambda>y. ''.'' @ y) ls)"
  by (induction ls arbitrary: t) auto

lemma JoinLabels_eq: "JoinLabels ls = join ''.'' (dropWhile (\<lambda>l. l = []) ls)"
proof (induction ls)
  case Nil
  then show ?case by (simp add: JoinLabels_def)
next
  case (Cons l ls)
  then show ?case
  proof (cases "l = []")
    case True
    with Cons show ?thesis by (simp add: JoinLabels_def)
  next
    case False
    then show ?thesis unfolding JoinLabels_def by (simp add: JoinLabels_loop join_concat)
  qed
qed

lemma last_Split: "last (Split s c) = [] \<longleftrightarrow> s = [] \<or> last s = c"
proof (induction s)
  case Nil
  then show ?case by simp
next
  case (Cons x xs)
  then show ?case
  proof (cases "xs = []")
    case False
    have "Split xs c \<noteq> [[]]" using False join_Split [of c xs] by auto
    with False Cons show ?thesis by (cases "Split xs c"; cases "tl (Split xs c)") (auto simp: Split_Cons)
  qed (simp add: Split_Cons)
qed

lemma SplitString_domain:
  assumes "d \<noteq> []" "last d \<noteq> c"
  shows "SplitString d c = Split d c" "last (SplitString d c) \<noteq> []" "SplitString d c \<noteq> []"
  using assms last_Split [of d c] by (simp_all add: SplitString_eq Let_def)

lemma dot_suffix_join: "b \<noteq> [] \<Longrightarrow> dot_suffix (join ''.'' b) (join ''.'' (a @ b))"
proof (cases "a = []")
  case False
  then show "b \<noteq> [] \<Longrightarrow> ?thesis"
    unfolding dot_suffix_def by (intro exI [of _ "join ''.'' a @ ''.''"]) (simp add: join_append)
qed simp

lemma join_not_Nil: "b \<noteq> [] \<Longrightarrow> last b \<noteq> [] \<Longrightarrow> join ''.'' b \<noteq> []"
proof (cases b rule: rev_cases)
  case (snoc ys y)
  then show "last b \<noteq> [] \<Longrightarrow> ?thesis" by (cases "ys = []") (simp_all add: join_append)
qed simp

lemma dropWhile_suffix: "b \<noteq> [] \<Longrightarrow> last b \<noteq> [] \<Longrightarrow>
   dropWhile (\<lambda>l. l = []) b \<noteq> [] \<and> last (dropWhile (\<lambda>l. l = []) b) = last b"
  by (induction b) auto

text \<open>Every name the source joins from the last labels of a domain is a suffix of it at a dot.\<close>

lemma JoinLabels_dot_suffix:
  assumes d: "d \<noteq> []" "last d \<noteq> CHR ''.''" and i: "i < length (SplitString d CHR ''.'')"
  shows "dot_suffix (JoinLabels (drop i (SplitString d CHR ''.''))) d \<and> JoinLabels (drop i (SplitString d CHR ''.'')) \<noteq> []"
proof -
  let ?ls = "SplitString d CHR ''.''" and ?b = "dropWhile (\<lambda>l. l = []) (drop i (SplitString d CHR ''.''))"
  have b: "?b \<noteq> []" "last ?b \<noteq> []"
    using dropWhile_suffix [of "drop i ?ls"] SplitString_domain(2) [OF d] i by auto
  have "?ls = (take i ?ls @ takeWhile (\<lambda>l. l = []) (drop i ?ls)) @ ?b" by simp
  then have "dot_suffix (join ''.'' ?b) (join ''.'' ?ls)" using dot_suffix_join [OF b(1)] by metis
  moreover have "join ''.'' ?ls = d" using SplitString_domain(1) [OF d] by (simp add: join_Split)
  ultimately show ?thesis using join_not_Nil [OF b] by (simp add: JoinLabels_eq)
qed

section \<open>Normal form of a domain\<close>

definition normal_domain :: "AnsiString \<Rightarrow> bool" where
  "normal_domain d \<longleftrightarrow> list_all (\<lambda>c. tolower_classic c = c \<and> c \<noteq> CHR 0x00) d \<and> (d = [] \<or> last d \<noteq> CHR ''.'')"

lemma TrimRight_chars_dot:
  "TrimRight_chars s ''.'' = [] \<or> last (TrimRight_chars s ''.'') \<noteq> CHR ''.''"
  unfolding TrimRight_chars_def using hd_dropWhile [of "\<lambda>c. c \<in> set ''.''" "rev s"] by (auto simp: last_rev)

lemma TrimRight_chars_id: "s = [] \<or> last s \<noteq> CHR ''.'' \<Longrightarrow> TrimRight_chars s ''.'' = s"
  by (cases s rule: rev_cases) (auto simp: TrimRight_chars_def)

lemma normal_NormalizeDomain: "normal_domain (NormalizeDomain d)"
proof -
  have "tolower_classic c = c \<and> c \<noteq> CHR 0x00" if "c \<in> set (MakeLower d)" for c
    using that by (rule MakeLower_chars)
  moreover have "set (TrimRight_chars s cs) \<subseteq> set s" for s cs
    unfolding TrimRight_chars_def using set_dropWhileD by fastforce
  ultimately show ?thesis
    using TrimRight_chars_dot [of "MakeLower d"]
    by (auto simp: normal_domain_def NormalizeDomain_def list_all_iff)
qed

lemma NormalizeDomain_id: "normal_domain d \<Longrightarrow> NormalizeDomain d = d"
proof -
  assume n: "normal_domain d"
  then have "MakeLower d = d" by (intro MakeLower_id) (simp add: normal_domain_def list_all_iff)
  moreover have "TrimRight_chars d ''.'' = d" using n by (intro TrimRight_chars_id) (simp add: normal_domain_def)
  ultimately show ?thesis by (simp only: NormalizeDomain_def)
qed

lemmas NormalizeDomain_idem [simp] = NormalizeDomain_id [OF normal_NormalizeDomain]

section \<open>The walk\<close>

lemma WalkLoop_records:
  "WalkLoop q ts rs w = (rs', e, w') \<Longrightarrow> r \<in> set rs' \<Longrightarrow> r \<in> set rs \<or> walk_domain r \<in> set ts"
proof (induction q ts rs w rule: WalkLoop.induct)
  case (2 q target targets results w)
  then show ?case
    by (auto simp: Let_def MakeWalkRecord_def split: prod.splits option.splits if_splits)
qed simp

lemma WalkTargets_length: "labels \<noteq> [] \<Longrightarrow> length (WalkTargets d labels) \<le> 8"
  by (auto simp: WalkTargets_def Let_def max_labels_walked_def)

lemma WalkTargets_suffix:
  assumes "d \<noteq> []" "last d \<noteq> CHR ''.''" "t \<in> set (WalkTargets d (SplitString d CHR ''.''))"
  shows "dot_suffix t d \<and> t \<noteq> []"
  using assms JoinLabels_dot_suffix [OF assms(1,2)] by (auto simp: WalkTargets_def Let_def split: if_splits)

lemma Walk_records:
  assumes "Walk q d w = (rs, e, w')" "r \<in> set rs"
  shows "dot_suffix (walk_domain r) (NormalizeDomain d) \<and> walk_domain r \<noteq> []"
proof -
  let ?d = "NormalizeDomain d"
  have n: "?d \<noteq> []" using assms by (auto simp: Walk_def Let_def)
  then have "last ?d \<noteq> CHR ''.''" using normal_NormalizeDomain [of d] by (simp add: normal_domain_def)
  moreover have "walk_domain r \<in> set (WalkTargets ?d (SplitString ?d CHR ''.''))"
    using assms n WalkLoop_records by (fastforce simp: Walk_def Let_def split: if_splits)
  ultimately show ?thesis using WalkTargets_suffix n by blast
qed

text \<open>The contract of a TXT query whose calls are counted, which the walk is billed against.\<close>

locale text_query_meter =
  fixes q :: "'w query" and cost :: "'w \<Rightarrow> nat"
  assumes query_cost: "q w n = (ans, w') \<Longrightarrow> cost w' \<le> cost w + 1"
begin

lemma WalkLoop_cost: "WalkLoop q ts rs w = (rs', e, w') \<Longrightarrow> cost w' \<le> cost w + length ts"
proof (induction ts arbitrary: rs w)
  case (Cons t ts)
  obtain ans w1 where q: "q w (''_dmarc.'' @ t) = (ans, w1)" by fastforce
  from query_cost [OF this] have c: "cost w1 \<le> cost w + 1" .
  from Cons.prems q have "w' = w1 \<or> (\<exists>rs1. WalkLoop q ts rs1 w1 = (rs', e, w'))"
    by (auto simp: Let_def split: option.splits if_splits)
  then show ?case using Cons.IH c by fastforce
qed simp

lemma Walk_cost: "Walk q d w = (rs, e, w') \<Longrightarrow> cost w' \<le> cost w + 8"
proof -
  let ?d = "NormalizeDomain d"
  let ?ls = "SplitString ?d CHR ''.''"
  assume "Walk q d w = (rs, e, w')"
  then have "w' = w \<or> ?ls \<noteq> [] \<and> WalkLoop q (WalkTargets ?d ?ls) [] w = (rs, e, w')"
    by (auto simp: Walk_def Let_def split: if_splits)
  then show ?thesis using WalkLoop_cost WalkTargets_length [of ?ls ?d] by fastforce
qed

lemma WalkGetOrganizationalDomain_cost:
  "WalkGetOrganizationalDomain q now d (c, w) = (org, e, c', w') \<Longrightarrow> cost w' \<le> cost w + 8"
  using Walk_cost by (fastforce simp: WalkGetOrganizationalDomain_def Let_def split: if_splits prod.splits option.splits)

end

interpretation metered_text: text_query_meter "MeteredQuery q" snd for q :: "'w query"
  by unfold_locales (simp add: MeteredQuery_cost)

sublocale query_meter \<subseteq> text_meter: text_query_meter "GetTXTRecords L" cost
  by unfold_locales (rule TXT_cost)

section \<open>The selection\<close>

lemma SelectBelowSuffix_suffix:
  "normal_domain d \<Longrightarrow> d \<noteq> [] \<Longrightarrow> SelectBelowSuffix d rs = Some org \<Longrightarrow> dot_suffix org d \<and> org \<noteq> []"
proof (induction rs)
  case (Cons r rs)
  let ?ls = "SplitString d CHR ''.''"
  have "last d \<noteq> CHR ''.''" using Cons.prems by (simp add: normal_domain_def)
  from JoinLabels_dot_suffix [OF Cons.prems(2) this]
  have "dot_suffix (JoinLabels (drop i ?ls)) d \<and> JoinLabels (drop i ?ls) \<noteq> []" if "i < length ?ls" for i
    using that by blast
  with Cons show ?case by (auto simp: Let_def split: if_splits)
qed simp

lemma FewestLabels_member:
  assumes "rs \<noteq> []"
  shows "FewestLabels rs \<in> walk_domain ` set rs"
proof -
  let ?f = "\<lambda>(fewest, fewestCount) r. let count = length (SplitString (walk_domain r) CHR ''.'')
     in if count < fewestCount then (walk_domain r, count) else (fewest, fewestCount)"
  have "fst p \<in> A \<Longrightarrow> walk_domain ` set xs \<subseteq> A \<Longrightarrow> fst (foldl ?f p xs) \<in> A" for p xs A
    by (induction xs arbitrary: p) (auto simp: Let_def split: prod.splits)
  note member = this [OF _ order_refl]
  have "walk_domain (rs ! 0) \<in> walk_domain ` set rs" using assms by (intro imageI nth_mem) simp
  then show ?thesis unfolding FewestLabels_def by (intro member) simp
qed

text \<open>The three rules of the selection, as the first record of a kind.\<close>

definition labels_of :: "DmarcTreeWalkRecord \<Rightarrow> nat" where
  "labels_of r = length (SplitString (walk_domain r) CHR ''.'')"

lemma find_hd: "List.find P xs = (if filter P xs = [] then None else Some (hd (filter P xs)))"
  by (induction xs) auto

lemma SelectBelowSuffix_eq:
  "SelectBelowSuffix d rs =
     (let start = SplitString d CHR ''.'';
          below = filter (\<lambda>r. psd_yes r \<and> walk_domain r \<noteq> d \<and> labels_of r < length start) rs
      in if below = [] then None
         else Some (JoinLabels (drop (length start - (labels_of (hd below) + 1)) start)))"
  by (induction rs) (auto simp: Let_def labels_of_def)

lemma first_minimal:
  "foldl (\<lambda>b r. if m r < m b then r else b) b rs =
     hd (filter (\<lambda>r. \<forall>r' \<in> set (b # rs). m r \<le> (m r' :: nat)) (b # rs))"
proof (induction rs arbitrary: b)
  case Nil
  then show ?case by simp
next
  case (Cons x xs)
  show ?case
  proof (cases "m x < m b")
    case True
    have "filter (\<lambda>r. \<forall>r' \<in> set (b # x # xs). m r \<le> m r') (b # x # xs) =
        filter (\<lambda>r. \<forall>r' \<in> set (x # xs). m r \<le> m r') (x # xs)"
      using True by (auto intro!: filter_cong)
    with Cons True show ?thesis by simp
  next
    case False
    show ?thesis
    proof (cases "\<forall>r' \<in> set xs. m b \<le> m r'")
      case True
      with False Cons show ?thesis by simp
    next
      case other: False
      then obtain y where y: "y \<in> set xs" "m y < m b" by auto
      have "filter (\<lambda>r. \<forall>r' \<in> set (b # x # xs). m r \<le> m r') (b # x # xs) =
          filter (\<lambda>r. \<forall>r' \<in> set (b # xs). m r \<le> m r') (b # xs)"
        using False y by (auto intro!: filter_cong)
      with Cons False show ?thesis by simp
    qed
  qed
qed

lemma FewestLabels_eq:
  assumes "rs \<noteq> []"
  shows "FewestLabels rs = walk_domain (hd (filter (\<lambda>r. \<forall>r' \<in> set rs. labels_of r \<le> labels_of r') rs))"
proof -
  have loop: "fst (foldl (\<lambda>(fewest, fewestCount) r.
                   let count = length (SplitString (walk_domain r) CHR ''.'')
                   in if count < fewestCount then (walk_domain r, count) else (fewest, fewestCount))
            (walk_domain b, labels_of b) xs) = walk_domain (foldl (\<lambda>b r. if labels_of r < labels_of b then r else b) b xs)" for b xs
    by (induction xs arbitrary: b) (simp_all add: Let_def labels_of_def)
  obtain b xs where rs: "rs = b # xs" using assms by (cases rs) auto
  have "FewestLabels rs = walk_domain (foldl (\<lambda>b r. if labels_of r < labels_of b then r else b) b (b # xs))"
    unfolding FewestLabels_def loop [symmetric] using rs by (simp add: labels_of_def)
  also have "\<dots> = walk_domain (foldl (\<lambda>b r. if labels_of r < labels_of b then r else b) b xs)" by simp
  finally show ?thesis by (simp only: first_minimal rs)
qed

lemma Select_cases:
  "SelectOrganizationalDomain s rs \<in> walk_domain ` set rs \<or>
   SelectBelowSuffix (NormalizeDomain s) rs = Some (SelectOrganizationalDomain s rs) \<or>
   rs = [] \<and> SelectOrganizationalDomain s rs = NormalizeDomain s"
  using FewestLabels_member [of rs]
  by (auto simp: SelectOrganizationalDomain_def Let_def find_Some_iff split: option.splits)

lemma Select_suffix:
  assumes "NormalizeDomain s \<noteq> []" "\<And>r. r \<in> set rs \<Longrightarrow> dot_suffix (walk_domain r) (NormalizeDomain s) \<and> walk_domain r \<noteq> []"
  shows "dot_suffix (SelectOrganizationalDomain s rs) (NormalizeDomain s) \<and> SelectOrganizationalDomain s rs \<noteq> []"
  using Select_cases [of s rs]
proof (elim disjE)
  assume "SelectOrganizationalDomain s rs \<in> walk_domain ` set rs"
  then show ?thesis using assms(2) by (metis imageE)
qed (use assms(1) SelectBelowSuffix_suffix [OF normal_NormalizeDomain assms(1), of rs] in auto)

section \<open>The cache under any interleaving\<close>

text \<open>
  An answer of a complete walk: the walk, in some world, met no failure of the resolver, and the
  answer is what the records it found select.
\<close>

definition walk_answer :: "'w query \<Rightarrow> AnsiString \<Rightarrow> AnsiString \<Rightarrow> bool" where
  "walk_answer q d org \<longleftrightarrow>
     (\<exists>w rs w'. Walk q d w = (rs, False, w') \<and> org = SelectOrganizationalDomain d rs)"

text \<open>
  The states of the cache that calls on any number of threads can reach. Each section under the mutex
  is one step: a probe, the store at the end of a walk that some thread has made in the
  meantime, and a clearing. Between a thread's probe and its store any other steps may come.
\<close>

inductive cache_reachable :: "'w query \<Rightarrow> walk_cache \<Rightarrow> bool" for q where
  reach_empty: "cache_reachable q []"
| reach_probe: "cache_reachable q c \<Longrightarrow> cache_reachable q (snd (ProbeCache c d now))"
| reach_store: "cache_reachable q c \<Longrightarrow> normal_domain d \<Longrightarrow> d \<noteq> [] \<Longrightarrow> walk_answer q d org \<Longrightarrow>
    cache_reachable q (StoreCache c d org now)"
| reach_clear: "cache_reachable q c \<Longrightarrow> cache_reachable q (ClearCache c)"

definition cache_ok :: "'w query \<Rightarrow> walk_cache \<Rightarrow> bool" where
  "cache_ok q c \<longleftrightarrow> distinct (map fst c) \<and> length c \<le> max_cache_entries \<and>
     (\<forall>(d, e) \<in> set c. normal_domain d \<and> d \<noteq> [] \<and> walk_answer q d (organizational_domain e))"

lemma update_length: "length (AList.update k v xs) \<le> length xs + 1"
  by (induction xs) auto

lemma set_update_subset: "set (AList.update k v xs) \<subseteq> insert (k, v) (set xs)"
  by (induction xs) auto

lemma set_delete_subset: "set (AList.delete k xs) \<subseteq> set xs"
  by (auto simp: AList.delete_eq)

lemma cache_ok_delete: "cache_ok q c \<Longrightarrow> cache_ok q (AList.delete d c)"
  using set_delete_subset [of d c]
  by (fastforce simp: cache_ok_def distinct_delete intro: le_trans [OF AList.length_delete_le])

lemma cache_ok_probe: "cache_ok q c \<Longrightarrow> cache_ok q (snd (ProbeCache c d now))"
  by (auto simp: ProbeCache_def cache_ok_delete split: option.splits)

lemma cache_ok_Nil: "cache_ok q []"
  by (simp add: cache_ok_def)

lemma cache_ok_store:
  assumes "cache_ok q c" "normal_domain d" "d \<noteq> []" "walk_answer q d org"
  shows "cache_ok q (StoreCache c d org now)"
proof -
  let ?c = "if length c \<ge> max_cache_entries then [] else c"
  let ?e = "\<lparr> organizational_domain = org, expires = now + cache_seconds \<rparr>"
  have c: "cache_ok q ?c" "length ?c + 1 \<le> max_cache_entries"
    using assms(1) cache_ok_Nil by (auto simp: max_cache_entries_def)
  have "normal_domain d' \<and> d' \<noteq> [] \<and> walk_answer q d' (organizational_domain e')"
    if "(d', e') \<in> set (AList.update d ?e ?c)" for d' e'
  proof -
    from that set_update_subset have "(d', e') = (d, ?e) \<or> (d', e') \<in> set ?c" by fastforce
    then show ?thesis using assms(2-4) c(1) by (auto simp: cache_ok_def)
  qed
  moreover have "length (AList.update d ?e ?c) \<le> max_cache_entries"
    using update_length [of d ?e ?c] c(2) by linarith
  moreover have "distinct (map fst (AList.update d ?e ?c))"
    using c(1) by (simp add: cache_ok_def distinct_update)
  ultimately show ?thesis unfolding cache_ok_def StoreCache_def Let_def by blast
qed

lemma cache_reachable_ok: "cache_reachable q c \<Longrightarrow> cache_ok q c"
  by (induction rule: cache_reachable.induct)
    (simp_all add: cache_ok_Nil cache_ok_probe cache_ok_store ClearCache_def)

lemma ProbeCache_hit:
  assumes "cache_ok q c" "ProbeCache c d now = (Some org, c')"
  shows "walk_answer q d org"
proof -
  from assms(2) obtain e where "map_of c d = Some e" "organizational_domain e = org"
    by (auto simp: ProbeCache_def split: option.splits if_splits)
  with assms(1) show ?thesis by (auto simp: cache_ok_def dest!: map_of_SomeD)
qed

lemma walk_answer_suffix:
  assumes "walk_answer q d org" "normal_domain d" "d \<noteq> []"
  shows "dot_suffix org d \<and> org \<noteq> []"
proof -
  from assms(1) obtain w rs w' where "Walk q d w = (rs, False, w')" "org = SelectOrganizationalDomain d rs"
    by (auto simp: walk_answer_def)
  moreover from Walk_records [OF this(1)] have "dot_suffix (walk_domain r) d \<and> walk_domain r \<noteq> []" if "r \<in> set rs" for r
    using that assms(2) by (simp add: NormalizeDomain_id)
  ultimately show ?thesis using Select_suffix [of d rs] assms(2,3) by (simp add: NormalizeDomain_id)
qed

lemma WalkGetOrganizationalDomain_answer:
  assumes "cache_reachable q c" "WalkGetOrganizationalDomain q now d (c, w) = (org, e, c', w')"
    "NormalizeDomain d \<noteq> []"
  shows "cache_reachable q c' \<and> (if e then org = NormalizeDomain d else walk_answer q (NormalizeDomain d) org)"
proof -
  let ?d = "NormalizeDomain d"
  obtain hit c1 where p: "ProbeCache c ?d now = (hit, c1)" by fastforce
  from reach_probe [OF assms(1), of ?d now] p have c1: "cache_reachable q c1" by simp
  obtain rs er w1 where k: "Walk q ?d w = (rs, er, w1)" by (metis surj_pair)
  show ?thesis
  proof (cases hit)
    case (Some a)
    with assms p c1 ProbeCache_hit [OF cache_reachable_ok [OF assms(1)], of ?d now a c1] show ?thesis
      by (auto simp: WalkGetOrganizationalDomain_def Let_def)
  next
    case None
    have "walk_answer q ?d (SelectOrganizationalDomain ?d rs)" if "\<not> er"
      using k that unfolding walk_answer_def by auto
    with None assms p k c1 show ?thesis
      by (auto simp: WalkGetOrganizationalDomain_def Let_def normal_NormalizeDomain intro: reach_store split: if_splits)
  qed
qed

section \<open>Properties\<close>

text \<open>
  Finding an organizational domain makes at most eight lookups of text records, however many labels
  the domain has and whatever is published at any of them.
\<close>

theorem walk_query_bound:
  "WalkGetOrganizationalDomain (MeteredQuery q) now d (c, w) = (org, e, c', w') \<Longrightarrow> snd w' \<le> snd w + 8"
  by (rule metered_text.WalkGetOrganizationalDomain_cost)

theorem walk_query_bound_witness:
  "snd (snd (snd (snd (WalkGetOrganizationalDomain (MeteredQuery (\<lambda>w n. (Some [], w))) 0
     ''a.b.c.d.e.f.g.h.i.j.example.com'' ([], (), 0))))) \<le> 8"
proof -
  obtain org e c' w' where "WalkGetOrganizationalDomain (MeteredQuery (\<lambda>w n. (Some [], w))) 0
     ''a.b.c.d.e.f.g.h.i.j.example.com'' ([], (), 0) = (org, e, c', w')" by (metis surj_pair)
  with walk_query_bound [OF this] show ?thesis by simp
qed

text \<open>
  C13: Whatever other threads do with the cache between the steps of a call, it never holds more than
  its limit and never two answers for a name, and what it answers is the answer of a complete walk of
  that name; a failure of the resolver is never kept. So a call that reports no failure returns such
  an answer, and one that reports a failure returns the domain itself.
\<close>

theorem cache_is_sound_under_interleaving:
  assumes "cache_reachable q c" "WalkGetOrganizationalDomain q now d (c, w) = (org, e, c', w')" "NormalizeDomain d \<noteq> []"
  shows "distinct (map fst c') \<and> length c' \<le> max_cache_entries \<and>
    (if e then org = NormalizeDomain d else walk_answer q (NormalizeDomain d) org) \<and> cache_reachable q c'"
  using WalkGetOrganizationalDomain_answer [OF assms] cache_reachable_ok [of q c'] by (auto simp: cache_ok_def)

theorem cache_is_sound_under_interleaving_witness:
  "\<exists>c' w'. WalkGetOrganizationalDomain (\<lambda>w n. (Some [], w)) 7 ''Mail.Example.COM.'' ([], ()) = (''mail.example.com'', False, c', w') \<and>
     length c' \<le> max_cache_entries"
proof -
  let ?g = "WalkGetOrganizationalDomain (\<lambda>w n. (Some [], w)) 7 ''Mail.Example.COM.'' ([], ())"
  obtain org e c' w' where g: "?g = (org, e, c', w')" by (metis surj_pair)
  have "NormalizeDomain ''Mail.Example.COM.'' \<noteq> []" by code_simp
  with cache_is_sound_under_interleaving [OF reach_empty g] have "length c' \<le> max_cache_entries" by blast
  moreover have "fst ?g = ''mail.example.com''" "fst (snd ?g) = False" by code_simp+
  ultimately show ?thesis using g by fastforce
qed

text \<open>
  C31: The organizational domain is the domain itself or an ancestor of it: a suffix that begins
  after a dot, and never the empty name. No record, wherever it is published and whatever psd tags it
  has, can make a domain count as part of a name it does not sit under.
\<close>

theorem organizational_domain_is_ancestor:
  assumes "cache_reachable q c" "WalkGetOrganizationalDomain q now d (c, w) = (org, e, c', w')" "NormalizeDomain d \<noteq> []"
  shows "dot_suffix org (NormalizeDomain d) \<and> org \<noteq> []"
  using WalkGetOrganizationalDomain_answer [OF assms] walk_answer_suffix [OF _ normal_NormalizeDomain assms(3)] assms(3)
  by (auto split: if_splits)

theorem organizational_domain_is_ancestor_witness:
  "dot_suffix ''example.co.uk'' ''mail.example.co.uk'' \<and>
   fst (WalkGetOrganizationalDomain (\<lambda>w n. (Some (if n = ''_dmarc.co.uk'' then [''v=DMARC1; p=none; psd=y''] else []), w)) 0
     ''mail.example.co.uk'' ([], ())) = ''example.co.uk''"
proof -
  let ?g = "WalkGetOrganizationalDomain (\<lambda>w n. (Some (if n = ''_dmarc.co.uk'' then [''v=DMARC1; p=none; psd=y''] else []), w)) 0
     ''mail.example.co.uk'' ([], ())"
  obtain org e c' w' where g: "?g = (org, e, c', w')" by (metis surj_pair)
  have n: "NormalizeDomain ''mail.example.co.uk'' = ''mail.example.co.uk''" by code_simp
  have "fst ?g = ''example.co.uk''" by code_simp
  with organizational_domain_is_ancestor [OF reach_empty g] n g show ?thesis by simp
qed

text \<open>
  The rules of section 4.10.2 in their order: a record with psd=n is the organizational domain; else
  the first record with psd=y at another name than the start gives the name one label below it; else
  the name with the fewest labels among the records; else the start.
\<close>

theorem selection_rules:
  "SelectOrganizationalDomain s rs =
     (let start = SplitString (NormalizeDomain s) CHR ''.'';
          no = filter psd_no rs;
          below = filter (\<lambda>r. psd_yes r \<and> walk_domain r \<noteq> NormalizeDomain s \<and> labels_of r < length start) rs;
          fewest = filter (\<lambda>r. list_all (\<lambda>r'. labels_of r \<le> labels_of r') rs) rs
      in if no \<noteq> [] then walk_domain (hd no)
         else if below \<noteq> [] then JoinLabels (drop (length start - (labels_of (hd below) + 1)) start)
         else if rs \<noteq> [] then walk_domain (hd fewest)
         else NormalizeDomain s)"
  using FewestLabels_eq [of rs]
  by (simp add: SelectOrganizationalDomain_def SelectBelowSuffix_eq find_hd Let_def list_all_iff)

end
