(* ===== verification/PublicSuffixList.thy ===== *)
theory PublicSuffixList
  imports StringParser
begin

text \<open>
  Common/AntiSpam/DMARC/PublicSuffixList.cpp: how many labels of a domain are its public suffix. The
  rule tables are generated data and are the argument \<open>data\<close>; what the generator promises of them
  is the predicate \<open>well_generated\<close>. Texts are compared as C strings.
\<close>

section \<open>The tables\<close>

record PublicSuffixListData =
  NormalRules :: "AnsiString list"
  WildcardRules :: "AnsiString list"
  ExceptionRules :: "AnsiString list"
  MaxRuleLabels :: nat

definition cstr :: "AnsiString \<Rightarrow> AnsiString" where
  "cstr s = takeWhile (\<lambda>c. c \<noteq> CHR 0x00) s"

fun text_less :: "AnsiString \<Rightarrow> AnsiString \<Rightarrow> bool" where
  "text_less [] ys \<longleftrightarrow> ys \<noteq> []"
| "text_less (x # xs) [] \<longleftrightarrow> False"
| "text_less (x # xs) (y # ys) \<longleftrightarrow> x < y \<or> x = y \<and> text_less xs ys"

definition wcscmp_less :: "AnsiString \<Rightarrow> AnsiString \<Rightarrow> bool" where
  "wcscmp_less left0 right0 = text_less (cstr left0) (cstr right0)"

text \<open>\<^verbatim>\<open>std::binary_search\<close>: the lower bound of the value, and whether it is the value.\<close>

function LowerBound :: "AnsiString list \<Rightarrow> AnsiString \<Rightarrow> nat \<Rightarrow> nat \<Rightarrow> nat" where
  "LowerBound rules candidate first0 count =
     (if count = 0 then first0
      else
        let step = count div 2;
            it = first0 + step
        in if wcscmp_less (rules ! it) candidate then LowerBound rules candidate (it + 1) (count - (step + 1))
           else LowerBound rules candidate first0 step)"
  by pat_completeness auto
termination
  by (relation "measure (\<lambda>(r, c, f, n). n)") auto

declare LowerBound.simps [simp del]

definition ContainsRule :: "AnsiString list \<Rightarrow> AnsiString \<Rightarrow> bool" where
  "ContainsRule rules candidate =
     (let first0 = LowerBound rules candidate 0 (length rules)
      in first0 < length rules \<and> \<not> wcscmp_less candidate (rules ! first0))"

section \<open>The prevailing rule\<close>

text \<open>The loop over the candidates: the counter, the last candidate and the two longest matches.\<close>

function SuffixLoop ::
  "PublicSuffixListData \<Rightarrow> AnsiString list \<Rightarrow> nat \<Rightarrow> nat \<Rightarrow> AnsiString \<Rightarrow> nat \<Rightarrow> nat \<Rightarrow> nat \<times> nat" where
  "SuffixLoop data labels maxCandidateLabels count candidate longestExceptionMatch longestListMatch =
     (if count > maxCandidateLabels then (longestExceptionMatch, longestListMatch)
      else
        let previousCandidate = candidate;
            labelCount = length labels;
            candidate = (if count = 1 then labels ! (labelCount - 1)
                         else labels ! (labelCount - count) @ ''.'' @ candidate);
            longestExceptionMatch =
              (if ContainsRule (ExceptionRules data) candidate then count else longestExceptionMatch);
            longestListMatch =
              (if ContainsRule (NormalRules data) candidate then count else longestListMatch);
            longestListMatch =
              (if count \<ge> 2 \<and> ContainsRule (WildcardRules data) previousCandidate then count else longestListMatch)
        in SuffixLoop data labels maxCandidateLabels (count + 1) candidate longestExceptionMatch longestListMatch)"
  by pat_completeness auto
termination
  by (relation "measure (\<lambda>(d, ls, m, c, r). m + 1 - c)") auto

declare SuffixLoop.simps [simp del]

definition GetPublicSuffixLabelCount :: "PublicSuffixListData \<Rightarrow> AnsiString list \<Rightarrow> nat" where
  "GetPublicSuffixLabelCount data labels =
     (if length (NormalRules data) = 0 then 0
      else
        let labelCount = length labels;
            maxCandidateLabels = min labelCount (MaxRuleLabels data);
            (longestExceptionMatch, longestListMatch) = SuffixLoop data labels maxCandidateLabels 1 [] 0 0
        in if longestExceptionMatch > 1 then longestExceptionMatch - 1
           else if longestListMatch > 0 then longestListMatch
           else 1)"

section \<open>The search finds what is there\<close>

definition well_generated :: "AnsiString list \<Rightarrow> bool" where
  "well_generated rules \<longleftrightarrow>
     sorted_wrt text_less rules \<and> list_all (\<lambda>r. CHR 0x00 \<notin> set r) rules"

lemma text_less_irrefl [simp]: "\<not> text_less s s"
  by (induction s) auto

lemma text_less_trans: "text_less a b \<Longrightarrow> text_less b c \<Longrightarrow> text_less a c"
proof (induction a b arbitrary: c rule: text_less.induct)
  case (1 ys)
  then show ?case by (cases c; cases ys) auto
next
  case (3 x xs y ys)
  then show ?case by (cases c) auto
qed simp

lemma text_less_linear: "text_less a b \<or> a = b \<or> text_less b a"
proof (induction a b rule: text_less.induct)
  case (1 ys)
  then show ?case by (cases ys) auto
qed auto

lemma cstr_id: "CHR 0x00 \<notin> set r \<Longrightarrow> cstr r = r"
  by (auto simp: cstr_def takeWhile_eq_all_conv)

lemma LowerBound_spec:
  assumes "well_generated rules" "f + n \<le> length rules"
    and "\<And>i. i < f \<Longrightarrow> text_less (rules ! i) (cstr c)"
    and "\<And>i. f + n \<le> i \<Longrightarrow> i < length rules \<Longrightarrow> \<not> text_less (rules ! i) (cstr c)"
  shows "LowerBound rules c f n \<le> length rules \<and>
    (\<forall>i < LowerBound rules c f n. text_less (rules ! i) (cstr c)) \<and>
    (\<forall>i < length rules. LowerBound rules c f n \<le> i \<longrightarrow> \<not> text_less (rules ! i) (cstr c))"
  using assms
proof (induction rules c f n rule: LowerBound.induct)
  case (1 rules c f n)
  show ?case
  proof (cases "n = 0")
    case True
    then have "LowerBound rules c f n = f" by (subst LowerBound.simps) simp
    with "1.prems" True show ?thesis by auto
  next
    case False
    define it where "it = f + n div 2"
    have it: "it < length rules" "it < f + n" "f \<le> it" using "1.prems"(2) False by (auto simp: it_def)
    have wg: "sorted_wrt text_less rules" "CHR 0x00 \<notin> set (rules ! it)"
      using "1.prems"(1) it unfolding well_generated_def list_all_length by auto
    have cmp: "wcscmp_less (rules ! it) c = text_less (rules ! it) (cstr c)"
      using wg(2) by (simp add: wcscmp_less_def cstr_id)
    have order: "text_less (rules ! i) (rules ! j)" if "i < j" "j < length rules" for i j
      using wg(1) that by (simp add: sorted_wrt_iff_nth_less)
    show ?thesis
    proof (cases "text_less (rules ! it) (cstr c)")
      case True
      have eq: "LowerBound rules c f n = LowerBound rules c (it + 1) (n - (n div 2 + 1))"
        using False True cmp by (subst LowerBound.simps) (simp add: it_def Let_def)
      have "f + n div 2 + 1 + (n - (n div 2 + 1)) = f + n" using False by auto
      then have end_eq: "it + 1 + (n - (n div 2 + 1)) = f + n" by (simp add: it_def)
      show ?thesis
        unfolding eq
      proof (rule "1.IH"(1) [OF False refl it_def])
        show "text_less (rules ! i) (cstr c)" if "i < it + 1" for i
          using that True order [of i it] it(1) text_less_trans by (cases "i = it") auto
      qed (use True cmp "1.prems" end_eq in \<open>simp_all only: not_False_eq_True\<close>)
    next
      case no: False
      have eq: "LowerBound rules c f n = LowerBound rules c f (n div 2)"
        using False no cmp by (subst LowerBound.simps) (simp add: it_def Let_def)
      show ?thesis
        unfolding eq
      proof (rule "1.IH"(2) [OF False refl it_def])
        show "f + n div 2 \<le> length rules" using it(1) by (simp add: it_def)
        show "\<not> text_less (rules ! i) (cstr c)" if "f + n div 2 \<le> i" "i < length rules" for i
          using that no order [of it i] text_less_trans by (cases "i = it") (auto simp: it_def)
      qed (use no cmp "1.prems" in \<open>simp_all only:\<close>, blast)
    qed
  qed
qed

lemma ContainsRule_iff:
  assumes "well_generated rules"
  shows "ContainsRule rules c \<longleftrightarrow> cstr c \<in> set rules"
proof -
  define k where "k = LowerBound rules c 0 (length rules)"
  have k: "k \<le> length rules" "\<forall>i < k. text_less (rules ! i) (cstr c)"
    "\<forall>i < length rules. k \<le> i \<longrightarrow> \<not> text_less (rules ! i) (cstr c)"
    using LowerBound_spec [OF assms, of 0 "length rules" c] by (auto simp: k_def)
  have nul: "cstr (rules ! i) = rules ! i" if "i < length rules" for i
    using assms that by (auto simp: well_generated_def list_all_length cstr_id)
  have contains: "ContainsRule rules c \<longleftrightarrow> k < length rules \<and> \<not> text_less (cstr c) (rules ! k)"
    unfolding ContainsRule_def Let_def k_def [symmetric] by (auto simp: wcscmp_less_def nul)
  show ?thesis
  proof
    assume "ContainsRule rules c"
    with contains k(3) text_less_linear [of "rules ! k" "cstr c"] have "k < length rules" "rules ! k = cstr c" by auto
    then show "cstr c \<in> set rules" by (metis nth_mem)
  next
    assume "cstr c \<in> set rules"
    then obtain i where i: "i < length rules" "rules ! i = cstr c" by (auto simp: in_set_conv_nth)
    with k(2) have "k \<le> i" by (metis not_le text_less_irrefl)
    moreover have "\<not> text_less (cstr c) (rules ! k)"
    proof (cases "k = i")
      case False
      with \<open>k \<le> i\<close> have "k < i" by simp
      with i assms have "text_less (rules ! k) (rules ! i)"
        unfolding well_generated_def sorted_wrt_iff_nth_less by blast
      with i k(3) \<open>k \<le> i\<close> show ?thesis by auto
    qed (use i in simp)
    ultimately show "ContainsRule rules c" using contains i by simp
  qed
qed

section \<open>The loop keeps the longest matches\<close>

definition suffix_text :: "AnsiString list \<Rightarrow> nat \<Rightarrow> AnsiString" where
  "suffix_text labels k = join ''.'' (drop (length labels - k) labels)"

definition label_count :: "AnsiString \<Rightarrow> nat" where
  "label_count s = length (Split s CHR ''.'')"

definition exception_match :: "PublicSuffixListData \<Rightarrow> AnsiString list \<Rightarrow> nat \<Rightarrow> bool" where
  "exception_match data labels k \<longleftrightarrow> suffix_text labels k \<in> set (ExceptionRules data)"

definition list_match :: "PublicSuffixListData \<Rightarrow> AnsiString list \<Rightarrow> nat \<Rightarrow> bool" where
  "list_match data labels k \<longleftrightarrow>
     suffix_text labels k \<in> set (NormalRules data) \<or>
     k \<ge> 2 \<and> suffix_text labels (k - 1) \<in> set (WildcardRules data)"

text \<open>What the generator of the tables promises, and what the labels of a domain are.\<close>

definition generated :: "PublicSuffixListData \<Rightarrow> bool" where
  "generated data \<longleftrightarrow>
     well_generated (NormalRules data) \<and> well_generated (WildcardRules data) \<and> well_generated (ExceptionRules data) \<and>
     NormalRules data \<noteq> [] \<and>
     list_all (\<lambda>r. label_count r \<le> MaxRuleLabels data) (NormalRules data) \<and>
     list_all (\<lambda>r. label_count r + 1 \<le> MaxRuleLabels data) (WildcardRules data) \<and>
     list_all (\<lambda>r. 2 \<le> label_count r \<and> label_count r \<le> MaxRuleLabels data) (ExceptionRules data)"

definition proper_labels :: "AnsiString list \<Rightarrow> bool" where
  "proper_labels labels \<longleftrightarrow> labels \<noteq> [] \<and> list_all (\<lambda>l. CHR ''.'' \<notin> set l \<and> CHR 0x00 \<notin> set l) labels"

fun longest :: "(nat \<Rightarrow> bool) \<Rightarrow> nat \<Rightarrow> nat" where
  "longest P 0 = 0"
| "longest P (Suc n) = (if P (Suc n) then Suc n else longest P n)"

lemma longest_Max:
  "longest P n = (let K = {k. 1 \<le> k \<and> k \<le> n \<and> P k} in if K = {} then 0 else Max K)"
proof (induction n)
  case 0
  then show ?case by simp
next
  case (Suc n)
  let ?K = "\<lambda>n. {k. 1 \<le> k \<and> k \<le> n \<and> P k}"
  show ?case
  proof (cases "P (Suc n)")
    case True
    then have "?K (Suc n) \<noteq> {}" "Max (?K (Suc n)) = Suc n" by (auto intro!: Max_eqI)
    with True show ?thesis by (simp add: Let_def)
  next
    case False
    then have "?K (Suc n) = ?K n" using le_Suc_eq by auto
    with Suc False show ?thesis by simp
  qed
qed

lemma longest_cut: "m \<le> n \<Longrightarrow> (\<And>k. m < k \<Longrightarrow> k \<le> n \<Longrightarrow> \<not> P k) \<Longrightarrow> longest P n = longest P m"
proof (induction n)
  case (Suc n)
  then show ?case by (cases "m = Suc n") auto
qed simp

lemma suffix_text_Suc:
  assumes "k < length labels"
  shows "suffix_text labels (Suc k) =
    (if k = 0 then labels ! (length labels - 1) else labels ! (length labels - Suc k) @ ''.'' @ suffix_text labels k)"
proof -
  let ?i = "length labels - Suc k"
  have d: "drop ?i labels = labels ! ?i # drop (Suc ?i) labels" "Suc ?i = length labels - k"
    using assms by (auto intro: drop_eq_Cons_nth)
  show ?thesis
  proof (cases "k = 0")
    case True
    then show ?thesis using d by (simp add: suffix_text_def)
  next
    case False
    with assms have "drop (length labels - k) labels \<noteq> []" by simp
    with False d show ?thesis by (simp add: suffix_text_def join_Cons)
  qed
qed

lemma SuffixLoop_longest:
  assumes "generated data" "list_all (\<lambda>l. CHR 0x00 \<notin> set l) labels" "m \<le> length labels" "count \<le> m"
  shows "SuffixLoop data labels m (Suc count) (suffix_text labels count)
      (longest (exception_match data labels) count) (longest (list_match data labels) count) =
    (longest (exception_match data labels) m, longest (list_match data labels) m)"
  using assms(4)
proof (induction "m - count" arbitrary: count)
  case 0
  then show ?case by (subst SuffixLoop.simps) simp
next
  case (Suc n)
  have nul: "CHR 0x00 \<notin> set (suffix_text labels k)" for k
  proof -
    have "set (suffix_text labels k) \<subseteq> set ''.'' \<union> \<Union> (set ` set labels)"
      unfolding suffix_text_def using set_join_subset [of "''.''" "drop (length labels - k) labels"] set_drop_subset by fastforce
    with assms(2) show ?thesis by (auto simp: list_all_iff)
  qed
  have search: "ContainsRule (ExceptionRules data) (suffix_text labels k) = exception_match data labels k"
    "ContainsRule (NormalRules data) (suffix_text labels k) = (suffix_text labels k \<in> set (NormalRules data))"
    "ContainsRule (WildcardRules data) (suffix_text labels k) = (suffix_text labels k \<in> set (WildcardRules data))" for k
    using assms(1) nul by (simp_all add: generated_def ContainsRule_iff cstr_id exception_match_def)
  from Suc have c: "count < m" "n = m - Suc count" "Suc count \<le> m" by auto
  let ?cand = "if Suc count = 1 then labels ! (length labels - 1) else labels ! (length labels - Suc count) @ ''.'' @ suffix_text labels count"
  have cand: "?cand = suffix_text labels (Suc count)"
    using suffix_text_Suc [of count labels] c assms(3) by simp
  have "SuffixLoop data labels m (Suc count) (suffix_text labels count)
      (longest (exception_match data labels) count) (longest (list_match data labels) count) =
    SuffixLoop data labels m (Suc (Suc count)) (suffix_text labels (Suc count))
      (longest (exception_match data labels) (Suc count)) (longest (list_match data labels) (Suc count))"
    using c unfolding SuffixLoop.simps [of data labels m "Suc count"] Let_def cand search
    by (auto simp: list_match_def)
  with Suc(1) [OF c(2,3)] show ?case by simp
qed

lemma GetPublicSuffixLabelCount_eq:
  assumes "generated data" "proper_labels labels"
  shows "GetPublicSuffixLabelCount data labels =
    (let e = longest (exception_match data labels) (length labels); l = longest (list_match data labels) (length labels)
     in if e > 1 then e - 1 else if l > 0 then l else 1)"
proof -
  let ?n = "length labels" and ?m = "min (length labels) (MaxRuleLabels data)"
  have labels: "label_count (suffix_text labels k) = k" if "1 \<le> k" "k \<le> ?n" for k
  proof -
    have "Split (join ''.'' (drop (?n - k) labels)) CHR ''.'' = drop (?n - k) labels"
      using assms(2) that by (intro Split_join) (auto simp: proper_labels_def list_all_iff dest: in_set_dropD)
    with that show ?thesis by (simp add: label_count_def suffix_text_def)
  qed
  have far: "\<not> exception_match data labels k" "\<not> list_match data labels k" if "?m < k" "k \<le> ?n" for k
    using that labels [of k] labels [of "k - 1"] assms(1)
    by (auto simp: exception_match_def list_match_def generated_def list_all_iff)
  have "longest P ?n = longest P ?m" if "P = exception_match data labels \<or> P = list_match data labels" for P
    using that far by (intro longest_cut) auto
  moreover have "SuffixLoop data labels ?m 1 [] 0 0 =
      (longest (exception_match data labels) ?m, longest (list_match data labels) ?m)"
    using SuffixLoop_longest [OF assms(1), of labels ?m 0] assms(2)
    by (simp add: proper_labels_def list_all_iff suffix_text_def)
  ultimately show ?thesis using assms(1) by (simp add: GetPublicSuffixLabelCount_def generated_def Let_def)
qed

section \<open>Properties\<close>

text \<open>
  C30: The public suffix is the one of the prevailing rule: the longest exception that matches, less its
  first label, or else the longest rule that matches, a wildcard matching with one more label than it
  is written with, or else the last label. The binary search, the bound on the candidates and the order of the
  probes do not show, on tables that are sorted, hold no NUL and are within their bound.
\<close>

theorem public_suffix_of_prevailing_rule:
  assumes "generated data" "proper_labels labels"
  shows "GetPublicSuffixLabelCount data labels =
    (let E = {k. 1 \<le> k \<and> k \<le> length labels \<and> exception_match data labels k};
         L = {k. 1 \<le> k \<and> k \<le> length labels \<and> list_match data labels k}
     in if E \<noteq> {} then Max E - 1 else if L \<noteq> {} then Max L else 1)"
proof -
  define E where "E = {k. 1 \<le> k \<and> k \<le> length labels \<and> exception_match data labels k}"
  define L where "L = {k. 1 \<le> k \<and> k \<le> length labels \<and> list_match data labels k}"
  have two: "2 \<le> k" if "k \<in> E" for k
  proof -
    have "suffix_text labels 1 = last labels"
      using assms(2) by (cases labels rule: rev_cases) (auto simp: suffix_text_def proper_labels_def)
    moreover have "CHR ''.'' \<notin> set (last labels)" using assms(2) by (auto simp: proper_labels_def list_all_iff)
    ultimately have "label_count (suffix_text labels 1) = 1" by (simp add: label_count_def)
    with that assms(1) show ?thesis
      by (cases "k = 1") (auto simp: E_def exception_match_def generated_def list_all_iff)
  qed
  have fin: "finite E" "finite L" by (simp_all add: E_def L_def)
  have "E \<noteq> {} \<Longrightarrow> 1 < Max E" using Max_in [OF fin(1)] two by force
  moreover have "L \<noteq> {} \<Longrightarrow> 0 < Max L" using Max_in [OF fin(2)] by (force simp: L_def)
  moreover have "longest (exception_match data labels) (length labels) = (if E = {} then 0 else Max E)"
    "longest (list_match data labels) (length labels) = (if L = {} then 0 else Max L)"
    unfolding longest_Max Let_def E_def L_def by (rule refl)+
  ultimately show ?thesis
    unfolding GetPublicSuffixLabelCount_eq [OF assms] E_def [symmetric] L_def [symmetric] Let_def
    by (cases "E = {}"; cases "L = {}") simp_all
qed

theorem public_suffix_of_prevailing_rule_witness:
  "GetPublicSuffixLabelCount
     \<lparr> NormalRules = [''com'', ''jp'', ''uk''], WildcardRules = [''kobe.jp''], ExceptionRules = [''city.kobe.jp''], MaxRuleLabels = 3 \<rparr>
     [''www'', ''city'', ''kobe'', ''jp''] = 2 \<and>
   generated
     \<lparr> NormalRules = [''com'', ''jp'', ''uk''], WildcardRules = [''kobe.jp''], ExceptionRules = [''city.kobe.jp''], MaxRuleLabels = 3 \<rparr>"
  (is "GetPublicSuffixLabelCount ?d ?l = 2 \<and> _")
proof -
  have g: "generated ?d" "proper_labels ?l" by code_simp+
  have e: "{k. 1 \<le> k \<and> k \<le> length ?l \<and> exception_match ?d ?l k} = {3}"
  proof -
    have "exception_match ?d ?l k \<longleftrightarrow> k = 3" if "k \<in> {1, 2, 3, 4}" for k
      using that by (auto simp: exception_match_def suffix_text_def numeral_eq_Suc)
    moreover have "{k. 1 \<le> k \<and> k \<le> length ?l} = {1, 2, 3, 4}" by auto
    ultimately show ?thesis by (auto simp: set_eq_iff)
  qed
  from public_suffix_of_prevailing_rule [OF g] show ?thesis unfolding e Let_def using g by simp
qed

end
