(* ===== verification/AddresslistParser.thy ===== *)
theory AddresslistParser
  imports StringParser
begin

text \<open>
  Common/Util/Parsing/AddresslistParser.cpp: reading the addresses of a header field. Two helpers of
  other parts are arguments: \<open>encode\<close> is \<^verbatim>\<open>Charset::Encode\<close>, and \<open>valid\<close> is
  \<^verbatim>\<open>StringParser::IsValidEmailAddress\<close>, a regular expression. The loops run over positions, as they do
  in the source; a backslash makes them skip the next character.
\<close>

section \<open>The parser\<close>

record Address =
  sPersonalName :: AnsiString
  sMailboxName :: AnsiString
  sDomainName :: AnsiString

abbreviation BACKSLASH :: char where "BACKSLASH \<equiv> CHR 0x5C"
abbreviation QUOTE :: char where "QUOTE \<equiv> CHR 0x22"

text \<open>The loop over the list: the position, the start of the word, whether a quote is open.\<close>

function CompoundLoop ::
  "AnsiString \<Rightarrow> nat \<Rightarrow> nat \<Rightarrow> bool \<Rightarrow> int \<Rightarrow> AnsiString list \<Rightarrow> nat \<times> AnsiString list" where
  "CompoundLoop sList i iCurWordStartPos bIsInsideQuote maxIterations vecCompounds =
     (if i < length sList \<and> maxIterations > 0 then
        let c = sList ! i
        in if c = BACKSLASH then
             CompoundLoop sList (i + 2) iCurWordStartPos bIsInsideQuote (maxIterations - 1) vecCompounds
           else if c = QUOTE then
             CompoundLoop sList (i + 1) iCurWordStartPos (\<not> bIsInsideQuote) (maxIterations - 1) vecCompounds
           else if \<not> bIsInsideQuote \<and> c = CHR '','' then
             CompoundLoop sList (i + 1) (i + 1) bIsInsideQuote (maxIterations - 1)
               (vecCompounds @ [Trim (Mid_count sList iCurWordStartPos (i - iCurWordStartPos))])
           else CompoundLoop sList (i + 1) iCurWordStartPos bIsInsideQuote (maxIterations - 1) vecCompounds
      else (iCurWordStartPos, vecCompounds))"
  by pat_completeness auto
termination
  by (relation "measure (\<lambda>(s, i, r). length s - i)") auto

declare CompoundLoop.simps [simp del]

text \<open>The position of the opening and of the closing quote, once both are found.\<close>

function QuoteLoop :: "AnsiString \<Rightarrow> nat \<Rightarrow> nat option \<Rightarrow> (nat \<times> nat) option" where
  "QuoteLoop sData i iQuoteStart =
     (if i < length sData then
        let c = sData ! i
        in if c = BACKSLASH then QuoteLoop sData (i + 2) iQuoteStart
           else if c = QUOTE then
             (case iQuoteStart of
                Some start \<Rightarrow> Some (start, i)
              | None \<Rightarrow> QuoteLoop sData (i + 1) (Some i))
           else QuoteLoop sData (i + 1) iQuoteStart
      else None)"
  by pat_completeness auto
termination
  by (relation "measure (\<lambda>(s, i, r). length s - i)") auto

declare QuoteLoop.simps [simp del]

definition ExtractQuotedString :: "AnsiString \<Rightarrow> AnsiString" where
  "ExtractQuotedString sData =
     (case QuoteLoop sData 0 None of
        None \<Rightarrow> []
      | Some (iQuoteStart, iQuoteEnd) \<Rightarrow> Mid_count sData (iQuoteStart + 1) (iQuoteEnd - (iQuoteStart + 1)))"

text \<open>
  The last opening bracket before the first closing one, outside quotes. (The source also keeps
  a flag for being inside brackets, which it never sets.)
\<close>

function BracketLoop :: "AnsiString \<Rightarrow> nat \<Rightarrow> bool \<Rightarrow> nat option \<Rightarrow> (nat \<times> nat) option" where
  "BracketLoop sData i bInsideQuote iGTPos =
     (if i < length sData then
        let c = sData ! i
        in if c = BACKSLASH then BracketLoop sData (i + 2) bInsideQuote iGTPos
           else if c = QUOTE then BracketLoop sData (i + 1) (\<not> bInsideQuote) iGTPos
           else if \<not> bInsideQuote \<and> c = CHR ''<'' then BracketLoop sData (i + 1) bInsideQuote (Some i)
           else if \<not> bInsideQuote \<and> c = CHR ''>'' then map_option (\<lambda>p. (p, i)) iGTPos
           else BracketLoop sData (i + 1) bInsideQuote iGTPos
      else None)"
  by pat_completeness auto
termination
  by (relation "measure (\<lambda>(s, i, r). length s - i)") auto

declare BracketLoop.simps [simp del]

definition ExtractWithinGTLT :: "AnsiString \<Rightarrow> AnsiString" where
  "ExtractWithinGTLT sData =
     (case BracketLoop sData 0 False None of
        None \<Rightarrow> []
      | Some (iGTPos, iLTPos) \<Rightarrow> Mid_count sData (iGTPos + 1) (iLTPos - iGTPos - 1))"

definition UnescapeString :: "AnsiString \<Rightarrow> AnsiString" where
  "UnescapeString s = Replace (Replace s [BACKSLASH, QUOTE] [QUOTE]) [BACKSLASH, BACKSLASH] [BACKSLASH]"

text \<open>The full name, the mailbox and the domain.\<close>

definition ExtractParts :: "(AnsiString \<Rightarrow> bool) \<Rightarrow> AnsiString \<Rightarrow> AnsiString \<times> AnsiString \<times> AnsiString" where
  "ExtractParts valid sCompound =
     (let sFullName = UnescapeString (ExtractQuotedString sCompound);
          sEmailAddress = UnescapeString (ExtractWithinGTLT sCompound);
          sFullName =
            (if sFullName = [] then
               (case Find_str sCompound ''<'' of
                  None \<Rightarrow> sFullName
                | Some iGTPos \<Rightarrow> if iGTPos > 0 then TrimRight (Mid_count sCompound 0 iGTPos) else sFullName)
             else sFullName);
          sFullName = (if sFullName = [] then sEmailAddress else sFullName);
          sFullName = (if sFullName = [] \<and> sEmailAddress = [] then sCompound else sFullName);
          sEmailAddress = (if sEmailAddress = [] \<and> valid sFullName then sFullName else sEmailAddress)
      in (sFullName, ExtractAddress sEmailAddress, ExtractDomain sEmailAddress))"

definition MakeAddress :: "(AnsiString \<Rightarrow> AnsiString) \<Rightarrow> (AnsiString \<Rightarrow> bool) \<Rightarrow> AnsiString \<Rightarrow> Address" where
  "MakeAddress encode valid compound =
     (case ExtractParts valid compound of
        (sFullName, sMailbox, sDomain) \<Rightarrow>
          \<lparr> sPersonalName = encode sFullName, sMailboxName = encode (Replace sMailbox ''<'' []),
            sDomainName = encode (Replace sDomain ''>'' []) \<rparr>)"

definition Compounds :: "AnsiString \<Rightarrow> AnsiString list" where
  "Compounds sList =
     (let (iCurWordStartPos, vecCompounds) = CompoundLoop sList 0 0 False 1000000 []
      in if iCurWordStartPos < length sList then vecCompounds @ [Trim (Mid sList iCurWordStartPos)]
         else vecCompounds)"

definition ParseList :: "(AnsiString \<Rightarrow> AnsiString) \<Rightarrow> (AnsiString \<Rightarrow> bool) \<Rightarrow> AnsiString \<Rightarrow> Address list" where
  "ParseList encode valid sList = map (MakeAddress encode valid) (Compounds sList)"

section \<open>Scanning texts without special characters\<close>

definition plain_char :: "char \<Rightarrow> bool" where
  "plain_char c \<longleftrightarrow> c \<noteq> BACKSLASH \<and> c \<noteq> QUOTE \<and> c \<noteq> CHR '','' \<and> c \<noteq> CHR ''<'' \<and> c \<noteq> CHR ''>'' \<and> c \<noteq> CHR ''('' \<and> c \<noteq> CHR '')''"

text \<open>
  A display name: plain characters and quoted strings in any order. Within the quotes stands any text, with a backslash before each quote and
  each backslash, and possibly before others.
\<close>

inductive quoted_text :: "AnsiString \<Rightarrow> bool" where
  quoted_end: "quoted_text []"
| quoted_char: "c \<noteq> QUOTE \<Longrightarrow> c \<noteq> BACKSLASH \<Longrightarrow> quoted_text t \<Longrightarrow> quoted_text (c # t)"
| quoted_pair: "quoted_text t \<Longrightarrow> quoted_text (BACKSLASH # c # t)"

inductive display_name :: "AnsiString \<Rightarrow> bool" where
  name_end: "display_name []"
| name_char: "plain_char c \<Longrightarrow> display_name n \<Longrightarrow> display_name (c # n)"
| name_quoted: "quoted_text q \<Longrightarrow> display_name n \<Longrightarrow> display_name (QUOTE # q @ QUOTE # n)"

lemma CompoundLoop_skip:
  assumes "s = a @ b @ t" "length a = i" "list_all (\<lambda>c. c \<noteq> BACKSLASH \<and> c \<noteq> QUOTE \<and> (q \<or> c \<noteq> CHR '','')) b"
    "int (length b) \<le> n"
  shows "CompoundLoop s i st q n v = CompoundLoop s (i + length b) st q (n - int (length b)) v"
  using assms
proof (induction b arbitrary: a i n)
  case (Cons c b)
  have "s ! i = c" "i < length s" using Cons.prems(1,2) by (auto simp: nth_append)
  then have "CompoundLoop s i st q n v = CompoundLoop s (i + 1) st q (n - 1) v"
    using Cons.prems by (subst CompoundLoop.simps) (auto simp: Let_def)
  with Cons.IH [of "a @ [c]" "i + 1" "n - 1"] Cons.prems show ?case by (simp add: algebra_simps)
qed simp

lemma BracketLoop_skip:
  assumes "s = a @ b @ t" "length a = i" "list_all (\<lambda>c. c \<noteq> BACKSLASH \<and> c \<noteq> QUOTE \<and> (q \<or> c \<noteq> CHR ''<'' \<and> c \<noteq> CHR ''>'')) b"
  shows "BracketLoop s i q g = BracketLoop s (i + length b) q g"
  using assms
proof (induction b arbitrary: a i)
  case (Cons c b)
  have "s ! i = c" "i < length s" using Cons.prems(1,2) by (auto simp: nth_append)
  then have "BracketLoop s i q g = BracketLoop s (i + 1) q g"
    using Cons.prems by (subst BracketLoop.simps) (auto simp: Let_def)
  with Cons.IH [of "a @ [c]" "i + 1"] Cons.prems show ?case by simp
qed simp

lemma BracketLoop_at:
  assumes "s = a @ c # t" "length a = i"
  shows "BracketLoop s i q g =
    (if c = BACKSLASH then BracketLoop s (i + 2) q g
     else if c = QUOTE then BracketLoop s (i + 1) (\<not> q) g
     else if \<not> q \<and> c = CHR ''<'' then BracketLoop s (i + 1) q (Some i)
     else if \<not> q \<and> c = CHR ''>'' then map_option (\<lambda>p. (p, i)) g
     else BracketLoop s (i + 1) q g)"
  using assms by (subst BracketLoop.simps) (auto simp: Let_def nth_append)

lemma CompoundLoop_at:
  assumes "s = a @ c # t" "length a = i" "n > 0" "\<not> (\<not> q \<and> c = CHR '','')"
  shows "CompoundLoop s i st q n v =
    (if c = BACKSLASH then CompoundLoop s (i + 2) st q (n - 1) v
     else if c = QUOTE then CompoundLoop s (i + 1) st (\<not> q) (n - 1) v else CompoundLoop s (i + 1) st q (n - 1) v)"
  using assms by (subst CompoundLoop.simps) (auto simp: Let_def nth_append)

lemma CompoundLoop_end: "length s \<le> i \<Longrightarrow> CompoundLoop s i st q n v = (st, v)"
  by (subst CompoundLoop.simps) simp

text \<open>After a display name both loops stand outside quotes, with nothing found.\<close>

lemma quoted_text_brackets:
  "quoted_text q \<Longrightarrow> s = a @ q @ t \<Longrightarrow> length a = i \<Longrightarrow> BracketLoop s i True g = BracketLoop s (i + length q) True g"
proof (induction q arbitrary: a i rule: quoted_text.induct)
  case (quoted_char c q)
  with BracketLoop_at [of s a c "q @ t" i True g] quoted_char.IH [of "a @ [c]" "i + 1"] show ?case by simp
next
  case (quoted_pair q c)
  with BracketLoop_at [of s a BACKSLASH "c # q @ t" i True g] quoted_pair.IH [of "a @ [BACKSLASH, c]" "i + 2"] show ?case by simp
qed simp

lemma display_name_brackets_from:
  "display_name n \<Longrightarrow> s = a @ n @ t \<Longrightarrow> length a = i \<Longrightarrow> BracketLoop s i False g = BracketLoop s (i + length n) False g"
proof (induction n arbitrary: a i rule: display_name.induct)
  case (name_char c n)
  with BracketLoop_at [of s a c "n @ t" i False g] name_char.IH [of "a @ [c]" "i + 1"] show ?case by (simp add: plain_char_def)
next
  case (name_quoted q n)
  let ?j = "i + 1 + length q"
  have "BracketLoop s i False g = BracketLoop s (i + 1) True g"
    using BracketLoop_at [of s a QUOTE "q @ QUOTE # n @ t" i False g] name_quoted.prems by simp
  also have "\<dots> = BracketLoop s ?j True g"
    by (rule quoted_text_brackets [OF name_quoted.hyps(1), of s "a @ [QUOTE]" "QUOTE # n @ t"]) (use name_quoted.prems in simp_all)
  also have "\<dots> = BracketLoop s (?j + 1) False g"
    using BracketLoop_at [of s "a @ QUOTE # q" QUOTE "n @ t" ?j True g] name_quoted.prems by simp
  also have "\<dots> = BracketLoop s (?j + 1 + length n) False g"
    by (rule name_quoted.IH [of "a @ QUOTE # q @ [QUOTE]"]) (use name_quoted.prems in simp_all)
  finally show ?case by (simp add: add.assoc)
qed simp

lemma display_name_brackets: "display_name n \<Longrightarrow> BracketLoop (n @ t) 0 False None = BracketLoop (n @ t) (length n) False None"
  using display_name_brackets_from [of n "n @ t" "[]" t 0 None] by simp

text \<open>A pair takes one step of the loop over the list, so that at most as many steps are used as there are characters.\<close>

lemma quoted_text_compounds:
  "quoted_text q \<Longrightarrow> s = a @ q @ t \<Longrightarrow> length a = i \<Longrightarrow> int (length q) \<le> k \<Longrightarrow>
   \<exists>k'. k - int (length q) \<le> k' \<and> CompoundLoop s i st True k v = CompoundLoop s (i + length q) st True k' v"
proof (induction q arbitrary: a i k rule: quoted_text.induct)
  case (quoted_char c q)
  from quoted_char.IH [of "a @ [c]" "i + 1" "k - 1"] quoted_char.prems obtain k' where
    "k - 1 - int (length q) \<le> k'" "CompoundLoop s (i + 1) st True (k - 1) v = CompoundLoop s (i + 1 + length q) st True k' v" by auto
  with CompoundLoop_at [of s a c "q @ t" i k True st v] quoted_char show ?case by (intro exI [of _ k']) simp
next
  case (quoted_pair q c)
  from quoted_pair.IH [of "a @ [BACKSLASH, c]" "i + 2" "k - 1"] quoted_pair.prems obtain k' where
    "k - 1 - int (length q) \<le> k'" "CompoundLoop s (i + 2) st True (k - 1) v = CompoundLoop s (i + 2 + length q) st True k' v" by auto
  with CompoundLoop_at [of s a BACKSLASH "c # q @ t" i k True st v] quoted_pair show ?case by (intro exI [of _ k']) simp
qed auto

lemma display_name_compounds_from:
  "display_name n \<Longrightarrow> s = a @ n @ t \<Longrightarrow> length a = i \<Longrightarrow> int (length n) \<le> k \<Longrightarrow>
   \<exists>k'. k - int (length n) \<le> k' \<and> CompoundLoop s i st False k v = CompoundLoop s (i + length n) st False k' v"
proof (induction n arbitrary: a i k rule: display_name.induct)
  case (name_char c n)
  from name_char.IH [of "a @ [c]" "i + 1" "k - 1"] name_char.prems obtain k' where
    "k - 1 - int (length n) \<le> k'" "CompoundLoop s (i + 1) st False (k - 1) v = CompoundLoop s (i + 1 + length n) st False k' v" by auto
  with CompoundLoop_at [of s a c "n @ t" i k False st v] name_char show ?case by (intro exI [of _ k']) (simp add: plain_char_def)
next
  case (name_quoted q n)
  let ?j = "i + 1 + length q"
  have "CompoundLoop s i st False k v = CompoundLoop s (i + 1) st True (k - 1) v"
    using CompoundLoop_at [of s a QUOTE "q @ QUOTE # n @ t" i k False st v] name_quoted.prems by simp
  moreover obtain k1 where k1: "k - 1 - int (length q) \<le> k1" "CompoundLoop s (i + 1) st True (k - 1) v = CompoundLoop s ?j st True k1 v"
    using quoted_text_compounds [OF name_quoted.hyps(1), of s "a @ [QUOTE]" "QUOTE # n @ t" "i + 1" "k - 1" st v] name_quoted.prems by auto
  moreover have "CompoundLoop s ?j st True k1 v = CompoundLoop s (?j + 1) st False (k1 - 1) v"
    using CompoundLoop_at [of s "a @ QUOTE # q" QUOTE "n @ t" ?j k1 True st v] name_quoted.prems k1(1) by simp
  moreover obtain k2 where "k1 - 1 - int (length n) \<le> k2" "CompoundLoop s (?j + 1) st False (k1 - 1) v = CompoundLoop s (?j + 1 + length n) st False k2 v"
    using name_quoted.IH [of "a @ QUOTE # q @ [QUOTE]" "?j + 1" "k1 - 1"] name_quoted.prems k1(1) by auto
  ultimately show ?case by (intro exI [of _ k2]) (simp add: add.assoc)
qed auto

lemma display_name_compounds:
  assumes "display_name n" "list_all plain_char' t" "int (length (n @ t)) \<le> k"
    "\<And>c. plain_char' c \<Longrightarrow> c \<noteq> BACKSLASH \<and> c \<noteq> QUOTE \<and> c \<noteq> CHR '',''"
  shows "CompoundLoop (n @ t) 0 st False k v = (st, v)"
proof -
  obtain k' where k': "k - int (length n) \<le> k'" "CompoundLoop (n @ t) 0 st False k v = CompoundLoop (n @ t) (length n) st False k' v"
    using display_name_compounds_from [OF assms(1), of "n @ t" "[]" t 0 k st v] assms(3) by auto
  note k'(2)
  also have "CompoundLoop (n @ t) (length n) st False k' v = CompoundLoop (n @ t) (length n + length t) st False (k' - int (length t)) v"
    using assms(2-4) k'(1) by (intro CompoundLoop_skip [where a = n and t = "[]"]) (auto simp: list_all_iff)
  finally show ?thesis by (simp add: CompoundLoop_end)
qed

lemma ExtractWithinGTLT_bracketed:
  assumes "display_name n" "list_all plain_char a"
  shows "ExtractWithinGTLT (n @ CHR ''<'' # a @ CHR ''>'' # t) = a"
proof -
  let ?s = "n @ CHR ''<'' # a @ CHR ''>'' # t" and ?i = "length n"
  have "BracketLoop ?s 0 False None = BracketLoop ?s ?i False None" by (rule display_name_brackets [OF assms(1)])
  also have "\<dots> = BracketLoop ?s (?i + 1) False (Some ?i)"
    using BracketLoop_at [of ?s n "CHR ''<''" "a @ CHR ''>'' # t" ?i] by simp
  also have "\<dots> = BracketLoop ?s (?i + 1 + length a) False (Some ?i)"
    using assms(2)
    by (intro BracketLoop_skip [where a = "n @ ''<''" and t = "CHR ''>'' # t"]) (auto simp: list_all_iff plain_char_def)
  also have "\<dots> = Some (?i, ?i + 1 + length a)"
    using BracketLoop_at [of ?s "n @ CHR ''<'' # a" "CHR ''>''" t "?i + 1 + length a"] by simp
  finally show ?thesis by (simp add: ExtractWithinGTLT_def)
qed

lemma UnescapeString_plain: "BACKSLASH \<notin> set s \<Longrightarrow> UnescapeString s = s"
  by (simp add: UnescapeString_def Replace_absent)

lemma plain_no_special:
  "list_all plain_char a \<Longrightarrow> BACKSLASH \<notin> set a \<and> CHR ''<'' \<notin> set a \<and> CHR ''>'' \<notin> set a"
  by (auto simp: list_all_iff plain_char_def)

lemma MakeAddress_bracketed:
  assumes "display_name n" "list_all plain_char m" "list_all plain_char d" "CHR ''@'' \<notin> set d"
  shows "sMailboxName (MakeAddress encode valid (n @ CHR ''<'' # m @ CHR ''@'' # d @ ''>'')) = encode m"
    "sDomainName (MakeAddress encode valid (n @ CHR ''<'' # m @ CHR ''@'' # d @ ''>'')) = encode d"
proof -
  let ?a = "m @ CHR ''@'' # d" and ?s = "n @ CHR ''<'' # m @ CHR ''@'' # d @ ''>''"
  have a: "list_all plain_char ?a" using assms by (auto simp: plain_char_def)
  have "ExtractWithinGTLT ?s = ?a" using ExtractWithinGTLT_bracketed [OF assms(1) a, of "[]"] by simp
  moreover have "UnescapeString ?a = ?a" using plain_no_special [OF a] by (intro UnescapeString_plain) blast
  moreover have "ExtractAddress ?a = m" "ExtractDomain ?a = d"
    using assms(4) by (simp_all add: ExtractAddress_def ExtractDomain_def ReverseFind_append_hit)
  ultimately have "snd (ExtractParts valid ?s) = (m, d)" by (simp add: ExtractParts_def Let_def)
  moreover have "Replace m ''<'' [] = m" "Replace d ''>'' [] = d"
    using plain_no_special assms(2,3) by (auto intro: Replace_absent)
  ultimately show "sMailboxName (MakeAddress encode valid ?s) = encode m" "sDomainName (MakeAddress encode valid ?s) = encode d"
    by (auto simp: MakeAddress_def split: prod.splits)
qed

lemma display_name_TrimLeft: "display_name n \<Longrightarrow> display_name (TrimLeft n)"
proof (induction rule: display_name.induct)
  case (name_char c n)
  then show ?case by (auto simp: TrimLeft_def intro: display_name.name_char)
next
  case (name_quoted q n)
  have "TrimLeft (QUOTE # q @ QUOTE # n) = QUOTE # q @ QUOTE # n"
    by (simp add: TrimLeft_def isspace_classic_def char_ranges)
  with name_quoted show ?case by (simp add: display_name.name_quoted)
qed (simp add: TrimLeft_def display_name.name_end)

lemma Trim_bracketed:
  assumes "list_all isspace_classic u"
  shows "Trim (n @ CHR ''<'' # x @ CHR ''>'' # u) = TrimLeft n @ CHR ''<'' # x @ ''>''"
proof -
  have sp: "\<not> isspace_classic CHR ''<''" "\<not> isspace_classic CHR ''>''" by (simp_all add: isspace_classic_def char_ranges)
  then have "TrimLeft (n @ CHR ''<'' # y) = TrimLeft n @ CHR ''<'' # y" for y
    by (induction n) (auto simp: TrimLeft_def)
  moreover have "dropWhile isspace_classic (rev u @ z) = dropWhile isspace_classic z" for z
    using assms by (intro dropWhile_append2) (simp add: list_all_iff)
  then have "TrimRight (y @ CHR ''>'' # u) = y @ ''>''" for y using sp by (simp add: TrimRight_def)
  from this [of "TrimLeft n @ CHR ''<'' # x"]
  have "TrimRight (TrimLeft n @ CHR ''<'' # x @ CHR ''>'' # u) = TrimLeft n @ CHR ''<'' # x @ ''>''" by simp
  ultimately show ?thesis by (simp add: Trim_def)
qed

lemma ParseList_bracketed:
  assumes "display_name n" "list_all plain_char m" "list_all plain_char d" "CHR ''@'' \<notin> set d" "list_all isspace_classic u"
    and "length (n @ CHR ''<'' # m @ CHR ''@'' # d @ CHR ''>'' # u) \<le> 1000000"
  shows "\<exists>a. ParseList encode valid (n @ CHR ''<'' # m @ CHR ''@'' # d @ CHR ''>'' # u) = [a] \<and>
    sMailboxName a = encode m \<and> sDomainName a = encode d"
proof -
  let ?t = "CHR ''<'' # m @ CHR ''@'' # d @ CHR ''>'' # u" and ?b = "CHR ''<'' # m @ CHR ''@'' # d @ ''>''"
  have "isspace_classic c \<Longrightarrow> plain_char c" for c by (auto simp: isspace_classic_def plain_char_def char_ranges)
  then have u: "list_all plain_char u" using assms(5) by (simp add: list_all_iff)
  define ok where "ok c \<longleftrightarrow> plain_char c \<or> c = CHR ''<'' \<or> c = CHR ''>''" for c
  have lift: "list_all plain_char x \<Longrightarrow> list_all ok x" for x by (auto simp: ok_def list_all_iff)
  have "plain_char CHR ''@''" by (simp add: plain_char_def)
  with lift assms(2,3) u have t: "list_all ok ?t" by (simp add: ok_def)
  have sep: "ok c \<Longrightarrow> c \<noteq> BACKSLASH \<and> c \<noteq> QUOTE \<and> c \<noteq> CHR '',''" for c by (auto simp: ok_def plain_char_def)
  have "int (length (n @ ?t)) \<le> 1000000" using assms(6) by linarith
  from display_name_compounds [OF assms(1) t this sep]
  have "CompoundLoop (n @ ?t) 0 0 False 1000000 [] = (0, [])" by blast
  moreover have "Trim (n @ ?t) = TrimLeft n @ ?b" using Trim_bracketed [of u n "m @ CHR ''@'' # d"] assms(5) by simp
  ultimately have "ParseList encode valid (n @ ?t) = [MakeAddress encode valid (TrimLeft n @ ?b)]"
    by (simp add: ParseList_def Compounds_def)
  then show ?thesis using MakeAddress_bracketed [OF display_name_TrimLeft [OF assms(1)] assms(2-4)] by blast
qed

end
