(* ===== verification/DMARC.thy ===== *)
theory DMARC
  imports DmarcTreeWalk PublicSuffixList AddresslistParser
begin

text \<open>
  Common/AntiSpam/DMARC/DMARC.cpp: the address of a From header, the organizational domain by tree walk
  or by public suffix, the published policy, alignment, and the verdict. What the class reads
  from elsewhere is the record \<open>DmarcEnv\<close>: the resolver's queries, the settings, the clock and the
  random source, all of which read and may change the world \<open>'w\<close>. The state beside it is the
  cache of the tree walk.
\<close>

section \<open>The From header\<close>

fun StripCommentsLoop :: "AnsiString \<Rightarrow> nat \<Rightarrow> bool \<Rightarrow> AnsiString \<Rightarrow> AnsiString" where
  "StripCommentsLoop [] commentDepth insideQuotedString result = result"
| "StripCommentsLoop (c # cs) commentDepth insideQuotedString result =
     (if c = BACKSLASH then
        (case cs of
           [] \<Rightarrow> if commentDepth = 0 then result @ [c] else result
         | d # ds \<Rightarrow>
             StripCommentsLoop ds commentDepth insideQuotedString
               (if commentDepth = 0 then result @ [c, d] else result))
      else if insideQuotedString then
        StripCommentsLoop cs commentDepth (c \<noteq> QUOTE) (result @ [c])
      else if commentDepth > 0 then
        StripCommentsLoop cs
          (if c = CHR ''('' then commentDepth + 1 else if c = CHR '')'' then commentDepth - 1 else commentDepth)
          insideQuotedString result
      else if c = QUOTE then StripCommentsLoop cs commentDepth True (result @ [c])
      else if c = CHR ''('' then StripCommentsLoop cs (commentDepth + 1) insideQuotedString result
      else StripCommentsLoop cs commentDepth insideQuotedString (result @ [c]))"

definition StripComments :: "AnsiString \<Rightarrow> AnsiString" where
  "StripComments s = StripCommentsLoop s 0 False []"

definition ExtractAddressFromHeaderValue ::
  "(AnsiString \<Rightarrow> AnsiString) \<Rightarrow> (AnsiString \<Rightarrow> bool) \<Rightarrow> AnsiString \<Rightarrow> AnsiString" where
  "ExtractAddressFromHeaderValue encode valid headerValue =
     (let v = Trim headerValue
      in case ParseList encode valid (StripComments v) of
           [] \<Rightarrow> v
         | a # _ \<Rightarrow> if sDomainName a \<noteq> [] then sMailboxName a @ ''@'' @ sDomainName a else v)"

section \<open>The environment\<close>

record 'w DmarcEnv =
  dmarc_txt :: "'w query"
  DomainExists :: "'w \<Rightarrow> AnsiString \<Rightarrow> (bool \<times> bool) \<times> 'w"  \<comment> \<open>exists, and whether the resolver failed\<close>
  DmarcTreeWalkEnabled :: bool
  suffix_data :: PublicSuffixListData
  clock :: "'w \<Rightarrow> int"
  random_number :: "'w \<Rightarrow> nat option \<times> 'w"  \<comment> \<open>rand_s\<close>

type_synonym 'w dmarc_state = "walk_cache \<times> 'w"

datatype DiscoveryMethod = DiscoveryPublicSuffixList | DiscoveryTreeWalk

section \<open>Organizational domain\<close>

definition SuffixOrganizationalDomain :: "PublicSuffixListData \<Rightarrow> AnsiString \<Rightarrow> AnsiString list \<Rightarrow> AnsiString" where
  "SuffixOrganizationalDomain data lowerDomain labels =
     (let suffixLabels = GetPublicSuffixLabelCount data labels;
          suffixLabels = (if suffixLabels = 0 then 1 else suffixLabels);
          organizationalLabels = suffixLabels + 1
      in if length labels \<le> organizationalLabels then lowerDomain
         else JoinLabels (drop (length labels - organizationalLabels) labels))"

definition GetOrganizationalDomain ::
  "'w DmarcEnv \<Rightarrow> AnsiString \<Rightarrow> 'w dmarc_state \<Rightarrow> AnsiString \<times> DiscoveryMethod \<times> 'w dmarc_state" where
  "GetOrganizationalDomain env domain st =
     (let lowerDomain = NormalizeDomain domain;
          labels = SplitString lowerDomain CHR ''.''
      in if length labels \<le> 1 then
           (lowerDomain, if DmarcTreeWalkEnabled env then DiscoveryTreeWalk else DiscoveryPublicSuffixList, st)
         else if DmarcTreeWalkEnabled env then
           (case WalkGetOrganizationalDomain (dmarc_txt env) (clock env (snd st)) lowerDomain st of
              (walked, treeWalkDnsError, st) \<Rightarrow>
                if \<not> treeWalkDnsError then (walked, DiscoveryTreeWalk, st)
                else (SuffixOrganizationalDomain (suffix_data env) lowerDomain labels, DiscoveryPublicSuffixList, st))
         else (SuffixOrganizationalDomain (suffix_data env) lowerDomain labels, DiscoveryPublicSuffixList, st))"

section \<open>The policy record\<close>

text \<open>The record found, if any, and whether the resolver failed.\<close>

definition RetrievePolicy ::
  "'w DmarcEnv \<Rightarrow> AnsiString \<Rightarrow> 'w dmarc_state \<Rightarrow> AnsiString option \<times> bool \<times> 'w dmarc_state" where
  "RetrievePolicy env domain st =
     (case st of (cache, w) \<Rightarrow>
        case dmarc_txt env w (''_dmarc.'' @ domain) of
          (None, w) \<Rightarrow> (None, True, (cache, w))
        | (Some txtRecords, w) \<Rightarrow>
            (List.find (\<lambda>trimmed. StartsWith trimmed ''v=DMARC1'') (map Trim txtRecords), False, (cache, w)))"

fun ParseTagFrom :: "AnsiString list \<Rightarrow> AnsiString \<Rightarrow> AnsiString option" where
  "ParseTagFrom [] tag = None"
| "ParseTagFrom (part # parts) tag =
     (let part = Trim part
      in case Find_str part ''='' of
           None \<Rightarrow> ParseTagFrom parts tag
         | Some equalsPos \<Rightarrow>
             if equalsPos = 0 then ParseTagFrom parts tag
             else if CompareNoCase (Trim (Mid_count part 0 equalsPos)) tag = 0
             then Some (Trim (Mid part (equalsPos + 1)))
             else ParseTagFrom parts tag)"

definition ParseTagValue :: "AnsiString \<Rightarrow> AnsiString \<Rightarrow> AnsiString option" where
  "ParseTagValue rec tag = ParseTagFrom (SplitString rec CHR '';'') tag"

text \<open>The tag's text, which stays empty where the record has no such tag.\<close>

definition TagText :: "AnsiString \<Rightarrow> AnsiString \<Rightarrow> AnsiString" where
  "TagText rec tag = (case ParseTagValue rec tag of None \<Rightarrow> [] | Some v \<Rightarrow> v)"

definition PctOf :: "AnsiString \<Rightarrow> int" where
  "PctOf rec =
     (case ParseTagValue rec ''pct'' of
        None \<Rightarrow> 100
      | Some tagValue \<Rightarrow>
          if IsNumeric tagValue then
            let pct = ttoi tagValue;
                pct = (if pct < 0 then 0 else pct)
            in if pct > 100 then 100 else pct
          else 100)"

section \<open>Alignment\<close>

datatype AlignmentMode = Relaxed | Strict

definition DomainsAligned ::
  "'w DmarcEnv \<Rightarrow> AnsiString \<Rightarrow> AnsiString \<Rightarrow> AlignmentMode \<Rightarrow> 'w dmarc_state \<Rightarrow> bool \<times> 'w dmarc_state" where
  "DomainsAligned env authenticatedDomain fromDomain mode st =
     (if authenticatedDomain = [] \<or> fromDomain = [] then (False, st)
      else
        let authLower = NormalizeDomain authenticatedDomain;
            fromLower = NormalizeDomain fromDomain
        in if mode = Strict then (authLower = fromLower, st)
           else
             case GetOrganizationalDomain env authLower st of
               (authOrg, _, st) \<Rightarrow>
                 (case GetOrganizationalDomain env fromLower st of
                    (fromOrg, _, st) \<Rightarrow> (authOrg = fromOrg, st)))"

fun DkimAligned ::
  "'w DmarcEnv \<Rightarrow> AnsiString list \<Rightarrow> AnsiString \<Rightarrow> AlignmentMode \<Rightarrow> 'w dmarc_state \<Rightarrow> bool \<times> 'w dmarc_state" where
  "DkimAligned env [] fromDomain mode st = (False, st)"
| "DkimAligned env (dkimDomain # dkimDomains) fromDomain mode st =
     (case DomainsAligned env dkimDomain fromDomain mode st of
        (True, st) \<Rightarrow> (True, st)
      | (False, st) \<Rightarrow> DkimAligned env dkimDomains fromDomain mode st)"

definition SubdomainIsNonExistent :: "'w DmarcEnv \<Rightarrow> AnsiString \<Rightarrow> 'w dmarc_state \<Rightarrow> bool \<times> 'w dmarc_state" where
  "SubdomainIsNonExistent env domain st =
     (case st of (cache, w) \<Rightarrow>
        case DomainExists env w domain of
          ((exists0, dnsError), w) \<Rightarrow> (if dnsError then False else \<not> exists0, (cache, w)))"

section \<open>The verdict\<close>

datatype DmarcResult = NoPolicy | DmarcPass | FailNone | FailQuarantine | FailReject | DmarcTempError | DmarcPermError

record Evaluation =
  policy_found :: bool
  policy_domain :: AnsiString
  eval_adkim :: AnsiString
  eval_aspf :: AnsiString
  eval_p :: AnsiString
  eval_sp :: AnsiString
  eval_np :: AnsiString
  eval_t :: AnsiString
  eval_pct :: int
  discovery_method :: DiscoveryMethod
  spf_aligned :: bool
  dkim_aligned :: bool

definition Evaluation_init :: Evaluation where
  "Evaluation_init =
     \<lparr> policy_found = False, policy_domain = [], eval_adkim = [], eval_aspf = [], eval_p = [], eval_sp = [],
       eval_np = [], eval_t = [], eval_pct = 100, discovery_method = DiscoveryPublicSuffixList,
       spf_aligned = False, dkim_aligned = False \<rparr>"

text \<open>
  Policy discovery: the record, whether it is a subdomain's, the domain it was found at and how,
  or the verdict that ends the evaluation.
\<close>

definition DiscoverPolicy ::
  "'w DmarcEnv \<Rightarrow> AnsiString \<Rightarrow> 'w dmarc_state \<Rightarrow>
   (DmarcResult + AnsiString \<times> bool \<times> AnsiString \<times> DiscoveryMethod) \<times> 'w dmarc_state" where
  "DiscoverPolicy env fromDomain st =
     (case RetrievePolicy env fromDomain st of
        (Some policyRecord, _, st) \<Rightarrow>
          (Inr (policyRecord, False, fromDomain,
                if DmarcTreeWalkEnabled env then DiscoveryTreeWalk else DiscoveryPublicSuffixList), st)
      | (None, dnsError, st) \<Rightarrow>
          if dnsError then (Inl DmarcTempError, st)
          else
            (case GetOrganizationalDomain env fromDomain st of
               (organizationalDomain, discoveryMethod, st) \<Rightarrow>
                 if organizationalDomain = fromDomain then (Inl NoPolicy, st)
                 else
                   (case RetrievePolicy env organizationalDomain st of
                      (None, dnsError, st) \<Rightarrow> (Inl (if dnsError then DmarcTempError else NoPolicy), st)
                    | (Some policyRecord, _, st) \<Rightarrow>
                        (Inr (policyRecord, True, organizationalDomain, discoveryMethod), st))))"

definition AlignmentOf :: "AnsiString \<Rightarrow> AlignmentMode" where
  "AlignmentOf tag = (if CompareNoCase tag ''s'' = 0 then Strict else Relaxed)"

definition SelectPolicy ::
  "'w DmarcEnv \<Rightarrow> AnsiString \<Rightarrow> bool \<Rightarrow> AnsiString \<Rightarrow> 'w dmarc_state \<Rightarrow> AnsiString \<times> 'w dmarc_state" where
  "SelectPolicy env rec isSubdomainPolicy fromDomain st =
     (let pTag = TagText rec ''p''; spTag = TagText rec ''sp''; npTag = TagText rec ''np''
      in if isSubdomainPolicy then
           (if npTag \<noteq> [] then
              (case SubdomainIsNonExistent env fromDomain st of
                 (True, st) \<Rightarrow> (npTag, st)
               | (False, st) \<Rightarrow> (if spTag \<noteq> [] then spTag else pTag, st))
            else (if spTag \<noteq> [] then spTag else pTag, st))
         else (pTag, st))"

definition InSample :: "'w DmarcEnv \<Rightarrow> int \<Rightarrow> 'w dmarc_state \<Rightarrow> bool \<times> 'w dmarc_state" where
  "InSample env pct st =
     (if pct < 100 then
        (case random_number env (snd st) of
           (Some randomValue, w) \<Rightarrow> (int (randomValue mod 100) < pct, (fst st, w))
         | (None, w) \<Rightarrow> (True, (fst st, w)))
      else (True, st))"

definition Disposition :: "AnsiString \<Rightarrow> bool \<Rightarrow> DmarcResult" where
  "Disposition policy inSample =
     (if CompareNoCase policy ''reject'' = 0 then (if inSample then FailReject else FailQuarantine)
      else if CompareNoCase policy ''quarantine'' = 0 then (if inSample then FailQuarantine else FailNone)
      else if CompareNoCase policy ''none'' = 0 then FailNone
      else DmarcPermError)"

definition Verify ::
  "'w DmarcEnv \<Rightarrow> AnsiString \<Rightarrow> AnsiString \<Rightarrow> bool \<Rightarrow> AnsiString list \<Rightarrow> Evaluation \<Rightarrow> 'w dmarc_state \<Rightarrow>
   DmarcResult \<times> Evaluation \<times> 'w dmarc_state" where
  "Verify env fromHeaderDomain envelopeFromDomain spfPassed dkimPassingDomains evaluation st =
     (if fromHeaderDomain = [] then (DmarcPermError, evaluation, st)
      else
        let fromDomain = MakeLower fromHeaderDomain
        in case DiscoverPolicy env fromDomain st of
             (Inl verdict, st) \<Rightarrow> (verdict, evaluation, st)
           | (Inr (policyRecord, isSubdomainPolicy, policyDomain, discoveryMethod), st) \<Rightarrow>
               let aspfTag = TagText policyRecord ''aspf'';
                   adkimTag = TagText policyRecord ''adkim'';
                   pct = PctOf policyRecord;
                   (spfAligned, st) =
                     (if spfPassed then DomainsAligned env envelopeFromDomain fromDomain (AlignmentOf aspfTag) st
                      else (False, st));
                   (dkimAligned, st) = DkimAligned env dkimPassingDomains fromDomain (AlignmentOf adkimTag) st;
                   evaluation =
                     \<lparr> policy_found = True, policy_domain = policyDomain, eval_adkim = adkimTag, eval_aspf = aspfTag,
                       eval_p = TagText policyRecord ''p'', eval_sp = TagText policyRecord ''sp'',
                       eval_np = TagText policyRecord ''np'', eval_t = TagText policyRecord ''t'', eval_pct = pct,
                       discovery_method = discoveryMethod, spf_aligned = spfAligned, dkim_aligned = dkimAligned \<rparr>
               in if spfAligned \<or> dkimAligned then (DmarcPass, evaluation, st)
                  else
                    case SelectPolicy env policyRecord isSubdomainPolicy fromDomain st of
                      (policy, st) \<Rightarrow>
                        if policy = [] then (DmarcPermError, evaluation, st)
                        else
                          (case InSample env pct st of
                             (inSample, st) \<Rightarrow> (Disposition policy inSample, evaluation, st)))"

section \<open>Organizational domains are ancestors\<close>

abbreviation state_ok :: "'w DmarcEnv \<Rightarrow> 'w dmarc_state \<Rightarrow> bool" where
  "state_ok env st \<equiv> cache_reachable (dmarc_txt env) (fst st)"

lemma SuffixOrganizationalDomain_suffix:
  assumes "d \<noteq> []" "last d \<noteq> CHR ''.''"
  shows "dot_suffix (SuffixOrganizationalDomain data d (SplitString d CHR ''.'')) d \<and>
    SuffixOrganizationalDomain data d (SplitString d CHR ''.'') \<noteq> []"
  using assms(1) JoinLabels_dot_suffix [OF assms] by (auto simp: SuffixOrganizationalDomain_def Let_def)

lemma GetOrganizationalDomain_suffix:
  assumes "state_ok env st" "GetOrganizationalDomain env d st = (org, m, st')"
  shows "state_ok env st' \<and> dot_suffix org (NormalizeDomain d) \<and> (org = [] \<longleftrightarrow> NormalizeDomain d = [])"
proof (cases "NormalizeDomain d = []")
  case True
  with assms show ?thesis by (auto simp: GetOrganizationalDomain_def Let_def)
next
  case False
  let ?d = "NormalizeDomain d"
  have "last ?d \<noteq> CHR ''.''" using False normal_NormalizeDomain [of d] by (simp add: normal_domain_def)
  note psl = SuffixOrganizationalDomain_suffix [OF False this, of "suffix_data env"]
  obtain o2 e2 c2 w2 where k: "WalkGetOrganizationalDomain (dmarc_txt env) (clock env (snd st)) ?d st = (o2, e2, c2, w2)"
    by (metis surj_pair)
  then have k': "WalkGetOrganizationalDomain (dmarc_txt env) (clock env (snd st)) ?d (fst st, snd st) = (o2, e2, c2, w2)" by simp
  from WalkGetOrganizationalDomain_answer [OF assms(1) k'] False
  have walk: "cache_reachable (dmarc_txt env) c2" "\<not> e2 \<Longrightarrow> walk_answer (dmarc_txt env) ?d o2" by (auto split: if_splits)
  have "dot_suffix o2 ?d \<and> o2 \<noteq> []" if "\<not> e2"
    using walk_answer_suffix [OF walk(2) [OF that] normal_NormalizeDomain False] .
  with assms psl k walk False show ?thesis
    by (auto simp: GetOrganizationalDomain_def Let_def split: if_splits)
qed

text \<open>Two domains that are equal, or under a common name that is not the root.\<close>

definition common_ancestor :: "AnsiString \<Rightarrow> AnsiString \<Rightarrow> bool" where
  "common_ancestor a f \<longleftrightarrow>
     NormalizeDomain a = NormalizeDomain f \<or>
     (\<exists>name. name \<noteq> [] \<and> dot_suffix name (NormalizeDomain a) \<and> dot_suffix name (NormalizeDomain f))"

lemma DomainsAligned_ancestor:
  assumes "state_ok env st" "DomainsAligned env a f mode st = (ok, st')"
  shows "state_ok env st' \<and> (ok \<longrightarrow> common_ancestor a f)"
proof -
  obtain o1 m1 st1 where g1: "GetOrganizationalDomain env (NormalizeDomain a) st = (o1, m1, st1)" by (metis surj_pair)
  obtain o2 m2 st2 where g2: "GetOrganizationalDomain env (NormalizeDomain f) st1 = (o2, m2, st2)" by (metis surj_pair)
  note s1 = GetOrganizationalDomain_suffix [OF assms(1) g1]
  then have "state_ok env st1" by blast
  note s2 = GetOrganizationalDomain_suffix [OF this g2]
  show ?thesis
    using assms g1 g2 s1 s2
    by (auto simp: DomainsAligned_def Let_def common_ancestor_def split: if_splits)
qed

lemma DkimAligned_ancestor:
  "state_ok env st \<Longrightarrow> DkimAligned env ds f mode st = (ok, st') \<Longrightarrow>
   state_ok env st' \<and> (ok \<longrightarrow> (\<exists>d \<in> set ds. common_ancestor d f))"
proof (induction ds arbitrary: st)
  case (Cons d ds)
  obtain b st1 where b: "DomainsAligned env d f mode st = (b, st1)" by (cases "DomainsAligned env d f mode st") auto
  from DomainsAligned_ancestor [OF Cons.prems(1) b] Cons.IH [of st1] Cons.prems(2) b show ?case
    by (cases b) auto
qed auto

lemma RetrievePolicy_state: "RetrievePolicy env d st = (r, e, st') \<Longrightarrow> fst st' = fst st"
  by (auto simp: RetrievePolicy_def split: prod.splits option.splits)

lemma DiscoverPolicy_state:
  assumes "state_ok env st" "DiscoverPolicy env f st = (r, st')"
  shows "state_ok env st'"
proof -
  obtain p1 e1 st1 where r1: "RetrievePolicy env f st = (p1, e1, st1)" by (metis surj_pair)
  then have ok1: "state_ok env st1" using assms(1) RetrievePolicy_state by metis
  obtain o1 m1 st2 where g: "GetOrganizationalDomain env f st1 = (o1, m1, st2)" by (metis surj_pair)
  from GetOrganizationalDomain_suffix [OF ok1 g] have ok2: "state_ok env st2" by blast
  obtain p2 e2 st3 where r2: "RetrievePolicy env o1 st2 = (p2, e2, st3)" by (metis surj_pair)
  then have "state_ok env st3" using ok2 RetrievePolicy_state by metis
  with ok1 ok2 r1 g r2 assms(2) show ?thesis
    by (auto simp: DiscoverPolicy_def split: option.splits if_splits)
qed

lemma NormalizeDomain_MakeLower [simp]: "NormalizeDomain (MakeLower d) = NormalizeDomain d"
  by (simp add: NormalizeDomain_def)

lemma Verify_empty: "Verify env [] envl spf dkims ev st = (DmarcPermError, ev, st)"
  by (simp add: Verify_def)

lemma Verify_undiscovered:
  "f \<noteq> [] \<Longrightarrow> DiscoverPolicy env (MakeLower f) st = (Inl r, st1) \<Longrightarrow>
   Verify env f envl spf dkims ev st = (r, ev, st1)"
  by (simp add: Verify_def)

lemma Verify_found:
  assumes "f \<noteq> []" "DiscoverPolicy env (MakeLower f) st = (Inr (rec, sub, pd, m), st1)"
    "(if spf then DomainsAligned env envl (MakeLower f) (AlignmentOf (TagText rec ''aspf'')) st1 else (False, st1)) = (sa, st2)"
    "DkimAligned env dkims (MakeLower f) (AlignmentOf (TagText rec ''adkim'')) st2 = (da, st3)"
    "SelectPolicy env rec sub (MakeLower f) st3 = (policy, st4)"
    "InSample env (PctOf rec) st4 = (sampled, st5)"
  shows "fst (Verify env f envl spf dkims ev st) =
    (if sa \<or> da then DmarcPass else if policy = [] then DmarcPermError else Disposition policy sampled)"
  using assms(1) unfolding Verify_def Let_def
  by (simp only: assms(2-6) prod.case sum.case if_False) (simp only: fst_conv if_distrib [of fst])

lemma common_ancestor_MakeLower [simp]: "common_ancestor a (MakeLower f) = common_ancestor a f"
  by (simp add: common_ancestor_def)

lemma DiscoverPolicy_no_pass: "DiscoverPolicy env f st \<noteq> (Inl DmarcPass, st')"
  by (auto simp: DiscoverPolicy_def split: prod.splits option.splits if_splits)

lemma Disposition_no_pass: "Disposition p s \<noteq> DmarcPass"
  by (simp add: Disposition_def)

lemma Verify_pass:
  assumes ok: "state_ok env st" and pass: "fst (Verify env f envl spf dkims ev st) = DmarcPass"
  shows "spf \<and> common_ancestor envl f \<or> (\<exists>d \<in> set dkims. common_ancestor d f)"
proof -
  from pass have "f \<noteq> []" by (cases f) (simp_all add: Verify_empty)
  obtain disc st1 where d: "DiscoverPolicy env (MakeLower f) st = (disc, st1)" by (metis surj_pair)
  from DiscoverPolicy_state [OF ok d] have ok1: "state_ok env st1" .
  show ?thesis
  proof (cases disc)
    case (Inl r)
    with pass d Verify_undiscovered [OF \<open>f \<noteq> []\<close>, of env st r st1] have "r = DmarcPass" by simp
    with d Inl DiscoverPolicy_no_pass show ?thesis by metis
  next
    case (Inr found)
    then obtain rec sub pd m where disc: "disc = Inr (rec, sub, pd, m)" by (metis surj_pair)
    obtain sa st2 where sa: "(if spf then DomainsAligned env envl (MakeLower f) (AlignmentOf (TagText rec ''aspf'')) st1 else (False, st1)) = (sa, st2)"
      by (metis surj_pair)
    obtain da st3 where da: "DkimAligned env dkims (MakeLower f) (AlignmentOf (TagText rec ''adkim'')) st2 = (da, st3)" by (metis surj_pair)
    obtain policy st4 where sp: "SelectPolicy env rec sub (MakeLower f) st3 = (policy, st4)" by (metis surj_pair)
    obtain sampled st5 where ns: "InSample env (PctOf rec) st4 = (sampled, st5)" by (metis surj_pair)
    from pass Verify_found [OF \<open>f \<noteq> []\<close> d [unfolded disc] sa da sp ns, of ev] have "sa \<or> da"
      by (auto simp: Disposition_no_pass split: if_splits)
    moreover have "state_ok env st2 \<and> (sa \<longrightarrow> spf \<and> common_ancestor envl f)"
      using sa DomainsAligned_ancestor [OF ok1, of envl "MakeLower f"] ok1 by (cases spf) auto
    ultimately show ?thesis using DkimAligned_ancestor [OF _ da] by auto
  qed
qed

section \<open>The verdict as rules over what is published\<close>

text \<open>
  What a zone publishes: the TXT records at a name (\<open>None\<close> where the resolver cannot answer), and
  whether a name exists. The rules below speak of these alone: of no cache, no clock and no order of
  queries.
\<close>

definition policy_records :: "(AnsiString \<Rightarrow> AnsiString list option) \<Rightarrow> AnsiString \<Rightarrow> AnsiString list option" where
  "policy_records T d = map_option (\<lambda>recs. filter (\<lambda>t. StartsWith t ''v=DMARC1'') (map Trim recs)) (T (''_dmarc.'' @ d))"

text \<open>Two records at one name are as none (RFC 9989 section 4.10, steps 2 and 6).\<close>

definition policy_view :: "(AnsiString \<Rightarrow> AnsiString list option) \<Rightarrow> AnsiString \<Rightarrow> AnsiString option option" where
  "policy_view T d = map_option (\<lambda>rs. if length rs = 1 then Some (hd rs) else None) (policy_records T d)"

definition single_record :: "(AnsiString \<Rightarrow> AnsiString list option) \<Rightarrow> AnsiString \<Rightarrow> bool" where
  "single_record T d = (case policy_records T d of None \<Rightarrow> True | Some rs \<Rightarrow> length rs \<le> 1)"

text \<open>
  The tree walk: the name itself, then its ancestors of at most seven labels, the longest first, until a record says that its name is or is
  not a public suffix; \<open>None\<close> when a query fails.
\<close>

definition walk_names :: "AnsiString \<Rightarrow> AnsiString list" where
  "walk_names d =
     (let ls = SplitString d CHR ''.''
      in d # map (\<lambda>k. join ''.'' (dropWhile (\<lambda>l. l = []) (drop (length ls - k) ls))) (rev [1..<min 8 (length ls)]))"

fun tree_walk :: "(AnsiString \<Rightarrow> AnsiString list option) \<Rightarrow> AnsiString list \<Rightarrow> (AnsiString \<times> AnsiString) list option" where
  "tree_walk T [] = Some []"
| "tree_walk T (n # ns) =
     (case policy_view T n of
        None \<Rightarrow> None
      | Some None \<Rightarrow> tree_walk T ns
      | Some (Some rec) \<Rightarrow>
          if GetTag rec ''psd'' \<in> {Some ''y'', Some ''n''} then Some [(n, rec)] else map_option ((#) (n, rec)) (tree_walk T ns))"

text \<open>
  Which name is the organizational domain (section 4.10.2): the one whose record says that it is no public suffix; else the name one label below one whose record says
  that it is, unless that is the starting name; else the name with the fewest labels that has a record; else the starting name.
\<close>

definition label_count :: "AnsiString \<Rightarrow> nat" where
  "label_count n = length (SplitString n CHR ''.'')"

definition selected_domain :: "AnsiString \<Rightarrow> (AnsiString \<times> AnsiString) list \<Rightarrow> AnsiString" where
  "selected_domain d found =
     (let ls = SplitString d CHR ''.'';
          no = filter (\<lambda>(n, rec). GetTag rec ''psd'' = Some ''n'') found;
          below = filter (\<lambda>(n, rec). GetTag rec ''psd'' = Some ''y'' \<and> n \<noteq> d \<and> label_count n < length ls) found;
          fewest = filter (\<lambda>(n, rec). \<forall>(m, _) \<in> set found. label_count n \<le> label_count m) found
      in if no \<noteq> [] then fst (hd no)
         else if below \<noteq> [] then join ''.'' (dropWhile (\<lambda>l. l = []) (drop (length ls - (label_count (fst (hd below)) + 1)) ls))
         else if found \<noteq> [] then fst (hd fewest)
         else d)"

definition walk_view :: "(AnsiString \<Rightarrow> AnsiString list option) \<Rightarrow> AnsiString \<Rightarrow> AnsiString option" where
  "walk_view T d = map_option (selected_domain d) (tree_walk T (walk_names d))"

definition org_view :: "'w DmarcEnv \<Rightarrow> (AnsiString \<Rightarrow> AnsiString list option) \<Rightarrow> AnsiString \<Rightarrow> AnsiString" where
  "org_view env T d =
     (let l = NormalizeDomain d; labels = SplitString l CHR ''.''
      in if length labels \<le> 1 then l
         else case (if DmarcTreeWalkEnabled env then walk_view T l else None) of
                Some org \<Rightarrow> org
              | None \<Rightarrow> SuffixOrganizationalDomain (suffix_data env) l labels)"

definition aligned :: "'w DmarcEnv \<Rightarrow> (AnsiString \<Rightarrow> AnsiString list option) \<Rightarrow> AlignmentMode \<Rightarrow> AnsiString \<Rightarrow> AnsiString \<Rightarrow> bool" where
  "aligned env T mode a f \<longleftrightarrow> a \<noteq> [] \<and> f \<noteq> [] \<and>
     (if mode = Strict then NormalizeDomain a = NormalizeDomain f else org_view env T a = org_view env T f)"

inductive publishes :: "'w DmarcEnv \<Rightarrow> (AnsiString \<Rightarrow> AnsiString list option) \<Rightarrow> AnsiString \<Rightarrow> AnsiString \<Rightarrow> bool \<Rightarrow> bool"
  for env T where
  own_record: "policy_view T f = Some (Some rec) \<Longrightarrow> publishes env T f rec False"
| inherited_record: "policy_view T f = Some None \<Longrightarrow> org_view env T f \<noteq> f \<Longrightarrow>
    policy_view T (org_view env T f) = Some (Some rec) \<Longrightarrow> publishes env T f rec True"

inductive undiscovered :: "'w DmarcEnv \<Rightarrow> (AnsiString \<Rightarrow> AnsiString list option) \<Rightarrow> AnsiString \<Rightarrow> DmarcResult \<Rightarrow> bool"
  for env T where
  own_failure: "policy_view T f = None \<Longrightarrow> undiscovered env T f DmarcTempError"
| own_ancestor: "policy_view T f = Some None \<Longrightarrow> org_view env T f = f \<Longrightarrow> undiscovered env T f NoPolicy"
| ancestor_failure: "policy_view T f = Some None \<Longrightarrow> org_view env T f \<noteq> f \<Longrightarrow>
    policy_view T (org_view env T f) = None \<Longrightarrow> undiscovered env T f DmarcTempError"
| ancestor_silent: "policy_view T f = Some None \<Longrightarrow> org_view env T f \<noteq> f \<Longrightarrow>
    policy_view T (org_view env T f) = Some None \<Longrightarrow> undiscovered env T f NoPolicy"

definition authenticated ::
  "'w DmarcEnv \<Rightarrow> (AnsiString \<Rightarrow> AnsiString list option) \<Rightarrow> AnsiString \<Rightarrow> AnsiString \<Rightarrow> AnsiString \<Rightarrow> bool \<Rightarrow> AnsiString list \<Rightarrow> bool" where
  "authenticated env T rec f envl spf dkims \<longleftrightarrow>
     spf \<and> aligned env T (AlignmentOf (TagText rec ''aspf'')) envl f \<or>
     (\<exists>d \<in> set dkims. aligned env T (AlignmentOf (TagText rec ''adkim'')) d f)"

definition requested :: "(AnsiString \<Rightarrow> bool \<times> bool) \<Rightarrow> AnsiString \<Rightarrow> bool \<Rightarrow> AnsiString \<Rightarrow> AnsiString" where
  "requested X rec sub f =
     (if sub \<and> TagText rec ''np'' \<noteq> [] \<and> X f = (False, False) then TagText rec ''np''
      else if sub \<and> TagText rec ''sp'' \<noteq> [] then TagText rec ''sp''
      else TagText rec ''p'')"

text \<open>
  The sample and the disposition: a record with a pct tag below 100 may leave a message outside the sample, and outside the sample the next milder policy is
  applied.
\<close>

definition may_skip :: "AnsiString \<Rightarrow> bool" where
  "may_skip rec \<longleftrightarrow> (\<exists>v. ParseTagValue rec ''pct'' = Some v \<and> IsNumeric v \<and> ttoi v < 100)"

inductive disposition_rule :: "AnsiString \<Rightarrow> bool \<Rightarrow> DmarcResult \<Rightarrow> bool" where
  reject_sampled: "CompareNoCase p ''reject'' = 0 \<Longrightarrow> disposition_rule p True FailReject"
| reject_skipped: "CompareNoCase p ''reject'' = 0 \<Longrightarrow> disposition_rule p False FailQuarantine"
| quarantine_sampled: "CompareNoCase p ''quarantine'' = 0 \<Longrightarrow> disposition_rule p True FailQuarantine"
| quarantine_skipped: "CompareNoCase p ''quarantine'' = 0 \<Longrightarrow> disposition_rule p False FailNone"
| none_asked: "CompareNoCase p ''none'' = 0 \<Longrightarrow> disposition_rule p sampled FailNone"
| unknown_asked: "\<forall>w \<in> {''reject'', ''quarantine'', ''none''}. CompareNoCase p w \<noteq> 0 \<Longrightarrow> disposition_rule p sampled DmarcPermError"

inductive dmarc_rules ::
  "'w DmarcEnv \<Rightarrow> (AnsiString \<Rightarrow> AnsiString list option) \<Rightarrow> (AnsiString \<Rightarrow> bool \<times> bool) \<Rightarrow>
   AnsiString \<Rightarrow> bool \<Rightarrow> AnsiString list \<Rightarrow> AnsiString \<Rightarrow> DmarcResult \<Rightarrow> bool"
  for env T X envl spf dkims where
  rule_undiscovered: "undiscovered env T f r \<Longrightarrow> dmarc_rules env T X envl spf dkims f r"
| rule_pass: "publishes env T f rec sub \<Longrightarrow> authenticated env T rec f envl spf dkims \<Longrightarrow>
    dmarc_rules env T X envl spf dkims f DmarcPass"
| rule_fail: "publishes env T f rec sub \<Longrightarrow> \<not> authenticated env T rec f envl spf dkims \<Longrightarrow>
    requested X rec sub f \<noteq> [] \<Longrightarrow> sampled \<or> may_skip rec \<Longrightarrow> disposition_rule (requested X rec sub f) sampled r \<Longrightarrow>
    dmarc_rules env T X envl spf dkims f r"
| rule_unusable: "publishes env T f rec sub \<Longrightarrow> \<not> authenticated env T rec f envl spf dkims \<Longrightarrow>
    requested X rec sub f = [] \<Longrightarrow> dmarc_rules env T X envl spf dkims f DmarcPermError"

section \<open>The code follows the rules\<close>

lemma SelectLoop_records:
  "SelectLoop recs out =
     (let rs = filter (\<lambda>t. StartsWith t ''v=DMARC1'') (map Trim recs)
      in if out = None then (if length rs = 1 then Some (hd rs) else None) else if rs = [] then out else None)"
  by (induction recs arbitrary: out) (auto simp: Let_def filter_map comp_def)

lemma find_single: "length (filter P xs) \<le> 1 \<Longrightarrow> List.find P xs = (if length (filter P xs) = 1 then Some (hd (filter P xs)) else None)"
  by (cases "filter P xs") (auto simp: find_hd)

lemma policy_view_single: "policy_view T n = map_option SelectSingleRecord (T (''_dmarc.'' @ n))"
  by (cases "T (''_dmarc.'' @ n)") (simp_all add: policy_view_def policy_records_def SelectSingleRecord_def SelectLoop_records Let_def)

abbreviation found_at :: "DmarcTreeWalkRecord \<Rightarrow> AnsiString \<times> AnsiString" where
  "found_at r \<equiv> (walk_domain r, walk_record r)"

lemma WalkLoop_view:
  assumes "\<And>w n. fst (q w n) = T n"
  shows "WalkLoop q ts rs w = (rs', e, w') \<Longrightarrow>
    \<exists>new. rs' = rs @ new \<and> list_all (\<lambda>r. r = MakeWalkRecord (walk_domain r) (walk_record r)) new \<and>
      tree_walk T ts = (if e then None else Some (map found_at new))"
proof (induction ts arbitrary: rs w)
  case (Cons t ts)
  obtain ans w1 where q: "q w (''_dmarc.'' @ t) = (ans, w1)" by fastforce
  with assms [of w "''_dmarc.'' @ t"] have ans: "policy_view T t = map_option SelectSingleRecord ans" by (simp add: policy_view_single)
  show ?case
  proof (cases "policy_view T t")
    case None
    with q ans Cons.prems show ?thesis by auto
  next
    case (Some r)
    then obtain recs where recs: "ans = Some recs" "SelectSingleRecord recs = r" using ans by auto
    show ?thesis
    proof (cases r)
      case None
      with Cons q Some recs show ?thesis by simp
    next
      case rec: (Some rec)
      let ?f = "MakeWalkRecord t rec"
      have f: "found_at ?f = (t, rec)" "?f = MakeWalkRecord (walk_domain ?f) (walk_record ?f)" by (simp_all add: MakeWalkRecord_def)
      have stop: "psd_yes ?f \<or> psd_no ?f \<longleftrightarrow> GetTag rec ''psd'' \<in> {Some ''y'', Some ''n''}" by (simp add: MakeWalkRecord_def)
      show ?thesis
      proof (cases "psd_yes ?f \<or> psd_no ?f")
        case True
        with Cons.prems q recs rec f stop Some show ?thesis by (intro exI [of _ "[?f]"]) auto
      next
        case False
        with Cons.prems q recs rec have "WalkLoop q ts (rs @ [?f]) w1 = (rs', e, w')" by simp
        from Cons.IH [OF this] obtain new where "rs' = rs @ [?f] @ new" "list_all (\<lambda>r. r = MakeWalkRecord (walk_domain r) (walk_record r)) new"
          "tree_walk T ts = (if e then None else Some (map found_at new))" by auto
        with False stop Some rec f show ?thesis by (intro exI [of _ "?f # new"]) auto
      qed
    qed
  qed
qed simp

lemma walk_names_eq:
  assumes "d \<noteq> []" "last d \<noteq> CHR ''.''"
  shows "walk_names d = WalkTargets d (SplitString d CHR ''.'')"
proof -
  let ?ls = "SplitString d CHR ''.''"
  have ls: "length ?ls \<ge> 1" using SplitString_domain(3) [OF assms] by (cases ?ls) simp_all
  define start where "start = (if length ?ls \<ge> 8 then length ?ls - 7 else 1)"
  have "map (\<lambda>k. length ?ls - k) (rev [1..<min 8 (length ?ls)]) = [start..<length ?ls]"
    by (rule nth_equalityI) (use ls in \<open>auto simp: start_def rev_nth\<close>)
  then have "map (\<lambda>k. f (length ?ls - k)) (rev [1..<min 8 (length ?ls)]) = map f [start..<length ?ls]" for f :: "nat \<Rightarrow> AnsiString"
    using map_map [of f "\<lambda>k. length ?ls - k" "rev [1..<min 8 (length ?ls)]"] by (simp add: comp_def)
  from this [of "\<lambda>i. join ''.'' (dropWhile (\<lambda>l. l = []) (drop i ?ls))"]
  show ?thesis unfolding walk_names_def WalkTargets_def Let_def JoinLabels_eq max_labels_walked_def start_def by (rule arg_cong)
qed

lemma selected_domain_eq:
  assumes "normal_domain d" "list_all (\<lambda>r. r = MakeWalkRecord (walk_domain r) (walk_record r)) rs"
  shows "selected_domain d (map found_at rs) = SelectOrganizationalDomain d rs"
proof -
  have psd: "psd_yes r \<longleftrightarrow> GetTag (walk_record r) ''psd'' = Some ''y''" "psd_no r \<longleftrightarrow> GetTag (walk_record r) ''psd'' = Some ''n''" if "r \<in> set rs" for r
  proof -
    have r: "r = MakeWalkRecord (walk_domain r) (walk_record r)" using assms(2) that unfolding list_all_iff by blast
    show "psd_yes r \<longleftrightarrow> GetTag (walk_record r) ''psd'' = Some ''y''" by (subst r) (simp add: MakeWalkRecord_def)
    show "psd_no r \<longleftrightarrow> GetTag (walk_record r) ''psd'' = Some ''n''" by (subst r) (simp add: MakeWalkRecord_def)
  qed
  have count: "labels_of r = label_count (walk_domain r)" for r by (simp add: labels_of_def label_count_def)
  have no: "filter psd_no rs = filter (\<lambda>r. GetTag (walk_record r) ''psd'' = Some ''n'') rs" by (rule filter_cong) (simp_all add: psd)
  have below: "filter (\<lambda>r. psd_yes r \<and> walk_domain r \<noteq> d \<and> label_count (walk_domain r) < n) rs =
    filter (\<lambda>r. GetTag (walk_record r) ''psd'' = Some ''y'' \<and> walk_domain r \<noteq> d \<and> label_count (walk_domain r) < n) rs" for n
    by (rule filter_cong) (simp_all add: psd)
  have fewest: "\<exists>r \<in> set rs. list_all (\<lambda>r'. labels_of r \<le> labels_of r') rs" if "rs \<noteq> []"
  proof -
    have "Min (labels_of ` set rs) \<in> labels_of ` set rs" using that by (intro Min_in) auto
    then obtain r where "r \<in> set rs" "labels_of r = Min (labels_of ` set rs)" by auto
    then show ?thesis by (intro bexI [of _ r]) (simp_all add: list_all_iff)
  qed
  have hd_map: "xs \<noteq> [] \<Longrightarrow> fst (hd (map found_at xs)) = walk_domain (hd xs)" for xs by (cases xs) simp_all
  have "filter (\<lambda>r. list_all (\<lambda>r'. labels_of r \<le> labels_of r') rs) rs \<noteq> []" if "rs \<noteq> []"
    using fewest [OF that] by (auto simp: filter_empty_conv)
  then show ?thesis
    unfolding selection_rules NormalizeDomain_id [OF assms(1)] selected_domain_def Let_def filter_map comp_def case_prod_conv
    by (simp add: no below count hd_map list_all_iff JoinLabels_eq)
qed

lemma Walk_view:
  assumes "\<And>w n. fst (q w n) = T n" "normal_domain d" "d \<noteq> []" "Walk q d w = (rs, e, w')"
  shows "walk_view T d = (if e then None else Some (SelectOrganizationalDomain d rs))"
proof -
  have last: "last d \<noteq> CHR ''.''" using assms(2,3) by (simp add: normal_domain_def)
  have "WalkLoop q (walk_names d) [] w = (rs, e, w')"
    using assms(3,4) SplitString_domain(3) [OF assms(3) last] by (simp add: Walk_def Let_def NormalizeDomain_id [OF assms(2)] walk_names_eq [OF assms(3) last])
  from WalkLoop_view [of q T, OF assms(1) this] selected_domain_eq [OF assms(2)] show ?thesis by (auto simp: walk_view_def)
qed

lemma Disposition_rule: "disposition_rule p sampled (Disposition p sampled)"
  by (cases sampled) (auto simp: Disposition_def intro: disposition_rule.intros)

text \<open>
  The contract of a resolver over a zone that does not change during the evaluation: every
  query is answered from the published records, whatever has been asked before.
\<close>

locale stable_dmarc =
  fixes env :: "'w DmarcEnv" and T :: "AnsiString \<Rightarrow> AnsiString list option" and X :: "AnsiString \<Rightarrow> bool \<times> bool"
  assumes stable_txt: "fst (dmarc_txt env w n) = T n"
    and stable_exists: "fst (DomainExists env w n) = X n"
begin

lemma walk_answer_view: "walk_answer (dmarc_txt env) d org \<Longrightarrow> normal_domain d \<Longrightarrow> d \<noteq> [] \<Longrightarrow> walk_view T d = Some org"
  using Walk_view [of "dmarc_txt env" T, OF stable_txt] by (fastforce simp: walk_answer_def)

lemma Walked_view:
  assumes "state_ok env st" "WalkGetOrganizationalDomain (dmarc_txt env) now d st = (org, e, st')" "normal_domain d" "d \<noteq> []"
  shows "walk_view T d = (if e then None else Some org)"
proof (cases e)
  case True
  have "\<exists>c w rs w'. st = (c, w) \<and> Walk (dmarc_txt env) d w = (rs, True, w')"
    using assms(2-4) True
    by (auto simp: WalkGetOrganizationalDomain_def Let_def NormalizeDomain_id split: prod.splits option.splits if_splits)
  with Walk_view [of "dmarc_txt env" T d, OF stable_txt assms(3,4)] True show ?thesis by auto
next
  case False
  obtain c w c' w' where st: "st = (c, w)" "st' = (c', w')" by (metis surj_pair)
  with WalkGetOrganizationalDomain_answer [of "dmarc_txt env" c now d w org e c' w'] assms False
  have "walk_answer (dmarc_txt env) d org" by (simp add: NormalizeDomain_id)
  with walk_answer_view [OF _ assms(3,4)] False show ?thesis by simp
qed

lemma GetOrganizationalDomain_view:
  assumes "state_ok env st" "GetOrganizationalDomain env d st = (org, m, st')"
  shows "org = org_view env T d"
proof (cases "NormalizeDomain d = []")
  case True
  then show ?thesis using assms(2) by (simp add: GetOrganizationalDomain_def org_view_def Let_def)
next
  case False
  obtain o2 e2 st2 where k: "WalkGetOrganizationalDomain (dmarc_txt env) (clock env (snd st)) (NormalizeDomain d) st = (o2, e2, st2)"
    by (metis surj_pair)
  from Walked_view [OF assms(1) k normal_NormalizeDomain False] k assms(2) show ?thesis
    by (auto simp: GetOrganizationalDomain_def org_view_def Let_def split: if_splits)
qed

lemma RetrievePolicy_view:
  "RetrievePolicy env d st = (r, e, st') \<Longrightarrow> single_record T d \<Longrightarrow> policy_view T d = (if e then None else Some r) \<and> (e \<longrightarrow> r = None)"
proof -
  assume r: "RetrievePolicy env d st = (r, e, st')" and one: "single_record T d"
  obtain c w where st: "st = (c, w)" by fastforce
  obtain ans w' where q: "dmarc_txt env w (''_dmarc.'' @ d) = (ans, w')" by fastforce
  with stable_txt [of w "''_dmarc.'' @ d"] have ans: "T (''_dmarc.'' @ d) = ans" by simp
  show ?thesis
  proof (cases ans)
    case None
    with r st q ans show ?thesis by (auto simp: RetrievePolicy_def policy_view_def policy_records_def)
  next
    case (Some recs)
    with one ans have "length (filter (\<lambda>t. StartsWith t ''v=DMARC1'') (map Trim recs)) \<le> 1" by (simp add: single_record_def policy_records_def)
    from find_single [OF this] Some r st q ans show ?thesis by (auto simp: RetrievePolicy_def policy_view_def policy_records_def)
  qed
qed

lemma DiscoverPolicy_view:
  assumes "state_ok env st" "DiscoverPolicy env f st = (r, st')" "single_record T f" "single_record T (org_view env T f)"
  shows "case r of Inl v \<Rightarrow> undiscovered env T f v | Inr (rec, sub, _) \<Rightarrow> publishes env T f rec sub"
proof -
  obtain p1 e1 st1 where r1: "RetrievePolicy env f st = (p1, e1, st1)" by (metis surj_pair)
  then have ok1: "state_ok env st1" using assms(1) RetrievePolicy_state by metis
  obtain o1 m1 st2 where g: "GetOrganizationalDomain env f st1 = (o1, m1, st2)" by (metis surj_pair)
  obtain p2 e2 st3 where r2: "RetrievePolicy env o1 st2 = (p2, e2, st3)" by (metis surj_pair)
  note org = GetOrganizationalDomain_view [OF ok1 g]
  note v = RetrievePolicy_view [OF r1 assms(3)] org RetrievePolicy_view [OF r2 assms(4) [folded org]]
  show ?thesis
  proof (cases p1)
    case (Some rec)
    then show ?thesis using assms(2) r1 v by (auto simp: DiscoverPolicy_def publishes.simps)
  next
    case None
    then show ?thesis using assms(2) r1 g r2 v
      by (cases p2; cases e1; cases e2; cases "o1 = f") (auto simp: DiscoverPolicy_def undiscovered.simps publishes.simps)
  qed
qed

lemma DomainsAligned_view:
  assumes "state_ok env st" "DomainsAligned env a f mode st = (ok, st')"
  shows "ok = aligned env T mode a f"
proof -
  obtain o1 m1 st1 where g1: "GetOrganizationalDomain env (NormalizeDomain a) st = (o1, m1, st1)" by (metis surj_pair)
  obtain o2 m2 st2 where g2: "GetOrganizationalDomain env (NormalizeDomain f) st1 = (o2, m2, st2)" by (metis surj_pair)
  from GetOrganizationalDomain_suffix [OF assms(1) g1] have ok1: "state_ok env st1" by blast
  have "org_view env T (NormalizeDomain x) = org_view env T x" for x
    by (simp add: org_view_def NormalizeDomain_id normal_NormalizeDomain)
  with GetOrganizationalDomain_view [OF assms(1) g1] GetOrganizationalDomain_view [OF ok1 g2] g1 g2 assms(2)
  show ?thesis by (cases mode; cases "a = [] \<or> f = []") (auto simp: DomainsAligned_def aligned_def Let_def)
qed

lemma DkimAligned_view:
  "state_ok env st \<Longrightarrow> DkimAligned env ds f mode st = (ok, st') \<Longrightarrow> ok = (\<exists>d \<in> set ds. aligned env T mode d f)"
proof (induction ds arbitrary: st)
  case (Cons d ds)
  obtain b st1 where b: "DomainsAligned env d f mode st = (b, st1)" by (cases "DomainsAligned env d f mode st") auto
  from DomainsAligned_view [OF Cons.prems(1) b] DomainsAligned_ancestor [OF Cons.prems(1) b] Cons.IH [of st1] Cons.prems(2) b
  show ?case by (cases b) auto
qed auto

lemma SelectPolicy_view:
  "SelectPolicy env rec sub f st = (policy, st') \<Longrightarrow> policy = requested X rec sub f"
  using stable_exists [of "snd st" f]
  by (cases "X f") (auto simp: SelectPolicy_def SubdomainIsNonExistent_def requested_def Let_def split: prod.splits if_splits bool.splits)

lemma Verify_rules:
  assumes ok: "state_ok env st" and "f \<noteq> []" and one: "single_record T (MakeLower f)" "single_record T (org_view env T (MakeLower f))"
  shows "dmarc_rules env T X envl spf dkims (MakeLower f) (fst (Verify env f envl spf dkims ev st))"
proof -
  let ?f = "MakeLower f"
  obtain disc st1 where d: "DiscoverPolicy env ?f st = (disc, st1)" by (metis surj_pair)
  note ok1 = DiscoverPolicy_state [OF ok d] and view = DiscoverPolicy_view [OF ok d one]
  show ?thesis
  proof (cases disc)
    case (Inl r)
    with Verify_undiscovered [OF assms(2), of env st r st1] d view show ?thesis by (auto intro: rule_undiscovered)
  next
    case (Inr found)
    then obtain rec sub pd m where disc: "disc = Inr (rec, sub, pd, m)" by (metis surj_pair)
    with view have pub: "publishes env T ?f rec sub" by simp
    obtain sa st2 where sa: "(if spf then DomainsAligned env envl ?f (AlignmentOf (TagText rec ''aspf'')) st1 else (False, st1)) = (sa, st2)"
      by (metis surj_pair)
    obtain da st3 where da: "DkimAligned env dkims ?f (AlignmentOf (TagText rec ''adkim'')) st2 = (da, st3)" by (metis surj_pair)
    obtain policy st4 where sp: "SelectPolicy env rec sub ?f st3 = (policy, st4)" by (metis surj_pair)
    obtain sampled st5 where ns: "InSample env (PctOf rec) st4 = (sampled, st5)" by (metis surj_pair)
    have s2: "state_ok env st2 \<and> sa = (spf \<and> aligned env T (AlignmentOf (TagText rec ''aspf'')) envl ?f)"
      using sa DomainsAligned_ancestor [OF ok1] DomainsAligned_view [OF ok1] ok1 by (cases spf) auto
    then have auth: "(sa \<or> da) = authenticated env T rec ?f envl spf dkims"
      using DkimAligned_view [OF _ da] by (simp add: authenticated_def)
    have "PctOf rec < 100 \<Longrightarrow> may_skip rec" by (auto simp: PctOf_def may_skip_def Let_def split: option.splits if_splits)
    then have draw: "sampled \<or> may_skip rec" using ns by (auto simp: InSample_def split: if_splits)
    note v = Verify_found [OF assms(2) d [unfolded disc] sa da sp ns, of ev]
    show ?thesis
      unfolding v SelectPolicy_view [OF sp] auth
      using pub draw Disposition_rule by (auto intro: rule_pass rule_fail rule_unusable)
  qed
qed

end

text \<open>The server's resolver over a table of records meets the contract.\<close>

definition TableDmarcEnv ::
  "(nat \<Rightarrow> AnsiString \<Rightarrow> AnsiString list option) \<Rightarrow> (AnsiString \<Rightarrow> bool \<times> bool) \<Rightarrow> bool \<Rightarrow> PublicSuffixListData \<Rightarrow>
   ('w \<Rightarrow> int) \<Rightarrow> ('w \<Rightarrow> nat option \<times> 'w) \<Rightarrow> 'w DmarcEnv" where
  "TableDmarcEnv table X walk suffixes now draw =
     \<lparr> dmarc_txt = ResolverQuery (TableQuery table) RESOURCE_TYPE_TEXT, DomainExists = (\<lambda>w n. (X n, w)),
       DmarcTreeWalkEnabled = walk, suffix_data = suffixes, clock = now, random_number = draw \<rparr>"

interpretation table_dmarc: stable_dmarc "TableDmarcEnv table X walk suffixes now draw" "ask table RESOURCE_TYPE_TEXT" X
  for table X walk suffixes now draw
  by unfold_locales (auto simp: TableDmarcEnv_def ResolverQuery_def TableQuery_def ask_def)

section \<open>Comments\<close>

text \<open>
  The comments of RFC 5322 section 3.2.2: text without parentheses and backslashes, quoted pairs, and
  comments within comments.
\<close>

inductive ctext :: "AnsiString \<Rightarrow> bool" where
  ctext_end: "ctext []"
| ctext_char: "c \<noteq> BACKSLASH \<Longrightarrow> c \<noteq> CHR ''('' \<Longrightarrow> c \<noteq> CHR '')'' \<Longrightarrow> ctext t \<Longrightarrow> ctext (c # t)"
| ctext_pair: "ctext t \<Longrightarrow> ctext (BACKSLASH # c # t)"
| ctext_nested: "ctext t \<Longrightarrow> ctext u \<Longrightarrow> ctext (CHR ''('' # t @ CHR '')'' # u)"

inductive comments :: "AnsiString \<Rightarrow> bool" where
  comments_none: "comments []"
| comments_more: "ctext t \<Longrightarrow> comments k \<Longrightarrow> comments (CHR ''('' # t @ CHR '')'' # k)"

lemma StripCommentsLoop_ctext:
  "ctext t \<Longrightarrow> StripCommentsLoop (t @ rest) (Suc n) False acc = StripCommentsLoop rest (Suc n) False acc"
  by (induction t arbitrary: rest n rule: ctext.induct) simp_all

lemma StripCommentsLoop_comments:
  "comments k \<Longrightarrow> StripCommentsLoop (k @ rest) 0 False acc = StripCommentsLoop rest 0 False acc"
  by (induction k rule: comments.induct) (simp_all add: StripCommentsLoop_ctext)

lemma StripCommentsLoop_plain:
  "list_all (\<lambda>c. c \<noteq> BACKSLASH \<and> c \<noteq> QUOTE \<and> c \<noteq> CHR ''('') t \<Longrightarrow>
   StripCommentsLoop (t @ rest) 0 False acc = StripCommentsLoop rest 0 False (acc @ t)"
  by (induction t arbitrary: acc) simp_all

lemma StripCommentsLoop_quoted:
  "quoted_text t \<Longrightarrow> StripCommentsLoop (t @ QUOTE # rest) 0 True acc = StripCommentsLoop rest 0 False (acc @ t @ [QUOTE])"
  by (induction t arbitrary: acc rule: quoted_text.induct) simp_all

lemma plain_no_comment: "list_all plain_char t \<Longrightarrow> list_all (\<lambda>c. c \<noteq> BACKSLASH \<and> c \<noteq> QUOTE \<and> c \<noteq> CHR ''('') t"
  by (auto simp: list_all_iff plain_char_def)

lemma StripCommentsLoop_display:
  "display_name n \<Longrightarrow> StripCommentsLoop (n @ rest) 0 False acc = StripCommentsLoop rest 0 False (acc @ n)"
  by (induction n arbitrary: acc rule: display_name.induct) (simp_all add: StripCommentsLoop_quoted plain_char_def)

lemma spaces_no_comment: "list_all isspace_classic u \<Longrightarrow> list_all (\<lambda>c. c \<noteq> BACKSLASH \<and> c \<noteq> QUOTE \<and> c \<noteq> CHR ''('') u"
proof (rule list.pred_mono_strong)
  show "isspace_classic c \<Longrightarrow> c \<noteq> BACKSLASH \<and> c \<noteq> QUOTE \<and> c \<noteq> CHR ''(''" for c
    by (auto simp: isspace_classic_def char_ranges)
qed

section \<open>Properties\<close>

text \<open>A zone and a suffix list to run the evaluation on.\<close>

definition sample_zone :: "nat \<Rightarrow> AnsiString \<Rightarrow> AnsiString list option" where
  "sample_zone t n = Some (if n = ''_dmarc.bank.example'' then [''v=DMARC1; p=reject''] else [])"

definition sample_suffixes :: PublicSuffixListData where
  "sample_suffixes = \<lparr> NormalRules = [], WildcardRules = [], ExceptionRules = [], MaxRuleLabels = 0 \<rparr>"

text \<open>
  C8: The verdict is the one the rules of RFC 9989 give over what the zone publishes, where the From domain and its organizational domain carry one policy record at
  most: the record at the From domain, else at its organizational domain, which the tree walk over the published records or the public suffix list determines; the
  alignment of the SPF and the DKIM domains in the mode the record asks for; and on failure the requested policy, softened one step only for a message
  outside the sample. The cache, the clock and the order of the queries do not show in it. With two records at a name the rules take none and the code
  takes the first, see \<open>first_of_two_records\<close>.
\<close>

theorem verify_follows_rules:
  assumes "cache_reachable (dmarc_txt (TableDmarcEnv table X walk suffixes now draw)) c" "f \<noteq> []"
    and "single_record (ask table RESOURCE_TYPE_TEXT) (MakeLower f)"
    and "single_record (ask table RESOURCE_TYPE_TEXT) (org_view (TableDmarcEnv table X walk suffixes now draw) (ask table RESOURCE_TYPE_TEXT) (MakeLower f))"
  shows "dmarc_rules (TableDmarcEnv table X walk suffixes now draw) (ask table RESOURCE_TYPE_TEXT) X envl spf dkims (MakeLower f)
    (fst (Verify (TableDmarcEnv table X walk suffixes now draw) f envl spf dkims ev (c, w)))"
  by (rule table_dmarc.Verify_rules) (simp_all only: fst_conv assms not_False_eq_True)

theorem verify_follows_rules_witness:
  "dmarc_rules (TableDmarcEnv sample_zone (\<lambda>n. (True, False)) True sample_suffixes (\<lambda>w::unit. 0) (\<lambda>w. (Some 7, w)))
     (ask sample_zone RESOURCE_TYPE_TEXT) (\<lambda>n. (True, False)) ''evil.example'' True [] ''news.bank.example'' FailReject"
proof -
  let ?env = "TableDmarcEnv sample_zone (\<lambda>n. (True, False)) True sample_suffixes (\<lambda>w::unit. 0) (\<lambda>w. (Some 7, w))"
  let ?v = "Verify ?env ''News.bank.example'' ''evil.example'' True [] Evaluation_init ([], ())"
  have "single_record (ask sample_zone RESOURCE_TYPE_TEXT) n" for n
    by (simp add: single_record_def policy_records_def ask_def sample_zone_def)
  moreover have "MakeLower ''News.bank.example'' = ''news.bank.example''" "fst ?v = FailReject" by code_simp+
  ultimately show ?thesis
    using verify_follows_rules [OF reach_empty, of "''News.bank.example''" sample_zone "\<lambda>n. (True, False)" True sample_suffixes
      "\<lambda>w::unit. 0" "\<lambda>w. (Some 7, w)" "''evil.example''" True "[]" Evaluation_init "()"] by simp
qed

text \<open>
  C9: DMARC passes only for a message of which an authenticated identity, the SPF domain or one of the
  domains with a good DKIM signature, is the From domain or shares with it a non-empty ancestor name that
  begins at a label. This needs nothing of the DNS: the zone may change during the evaluation and the cache may
  hold whatever calls on other threads have left in it.
\<close>

theorem pass_needs_common_ancestor:
  assumes "cache_reachable (dmarc_txt env) c" "fst (Verify env f envl spf dkims ev (c, w)) = DmarcPass"
  shows "spf \<and> common_ancestor envl f \<or> (\<exists>d \<in> set dkims. common_ancestor d f)"
  using Verify_pass [of env "(c, w)"] assms by simp

theorem pass_needs_common_ancestor_witness:
  "common_ancestor ''mail.bank.example'' ''News.Bank.example''"
proof -
  let ?env = "TableDmarcEnv sample_zone (\<lambda>n. (True, False)) True sample_suffixes (\<lambda>w::unit. 0) (\<lambda>w. (Some 7, w))"
  have "fst (Verify ?env ''News.Bank.example'' [] False [''mail.bank.example''] Evaluation_init ([], ())) = DmarcPass" by code_simp
  from pass_needs_common_ancestor [OF reach_empty this] show ?thesis by simp
qed



text \<open>
  Where a name carries two policy records, the evaluation takes the first, while the tree walk's
  \<open>SelectSingleRecord\<close> takes none, as section 4.7 of RFC 9989 asks for.
\<close>

theorem first_of_two_records:
  "fst (RetrievePolicy
     (TableDmarcEnv (\<lambda>t n. Some [''v=DMARC1; p=none'', ''v=DMARC1; p=reject'']) X walk suffixes now draw) d (c, w)) = Some ''v=DMARC1; p=none'' \<and>
   SelectSingleRecord [''v=DMARC1; p=none'', ''v=DMARC1; p=reject''] = None"
proof -
  have "SelectSingleRecord [''v=DMARC1; p=none'', ''v=DMARC1; p=reject''] = None" by code_simp
  moreover have "Trim ''v=DMARC1; p=none'' = ''v=DMARC1; p=none''" "StartsWith ''v=DMARC1; p=none'' ''v=DMARC1''" by code_simp+
  ultimately show ?thesis by (simp add: RetrievePolicy_def TableDmarcEnv_def ResolverQuery_def TableQuery_def)
qed

end
