(* ===== verification/SPF_Service.thy ===== *)
theory SPF_Service
  imports SPF_Semantics StringParser
begin

text \<open>
  The entry points of the SPF module: \<^verbatim>\<open>SPF::GetCheckedDomain\<close> and \<^verbatim>\<open>SPF::Test\<close> of SMTP/SPF/SPF.cpp, over
  the server's resolver. What \<^verbatim>\<open>Test\<close> reads from outside the module is an argument: the host name of
  the server's configuration, the clock, and the void lookup limit of its ini file. The wide strings
  of its interface are converted to bytes before anything is done with them, and are bytes here.
\<close>

section \<open>The entry points\<close>

definition GetCheckedDomain :: "AnsiString \<Rightarrow> AnsiString \<Rightarrow> AnsiString" where
  "GetCheckedDomain senderEmail heloHost =
     (let domain = ExtractDomain senderEmail in if domain = [] then heloHost else domain)"

definition SPF_Test ::
  "'w record_query \<Rightarrow> AnsiString \<Rightarrow> int \<Rightarrow> int \<Rightarrow> AnsiString \<Rightarrow> AnsiString \<Rightarrow> AnsiString \<Rightarrow> 'w \<Rightarrow>
   SPFResult \<times> AnsiString \<times> 'w" where
  "SPF_Test grot hostName now voidLookupLimit sSenderIP sSenderEmail sHeloHost w =
     (case TryParse sSenderIP of
        None \<Rightarrow> (ResultNone, [], w)
      | Some clientAddress \<Rightarrow>
          let evaluator = SetVoidTermLimit voidLookupLimit
                            (EvaluatorSetTimestamp now
                               (EvaluatorSetReceivingHost hostName (SPFEvaluator_init w)));
              (result, explanation, evaluator) =
                Check (SPFDnsResolver grot) clientAddress (GetCheckedDomain sSenderEmail sHeloHost)
                  sSenderEmail sHeloHost evaluator
          in (result, explanation, lookup_world (counting_lookup evaluator)))"

section \<open>Facts\<close>

text \<open>The state a check starts in.\<close>

definition check_start :: "SPFAddress \<Rightarrow> AnsiString \<Rightarrow> AnsiString \<Rightarrow> 'w SPFEvaluator \<Rightarrow> 'w SPFEvaluator" where
  "check_start clientAddress sender0 heloHost st =
     st\<lparr> terms := 0, void_terms := 0, error_result := PermError, evaluator_client := clientAddress,
         counting_lookup := CountingLookup_init (lookup_world (counting_lookup st)),
         expander := SetTimestamp (evaluator_timestamp st)
                       (SetReceivingHost (evaluator_host st) (SPFMacroExpander_init clientAddress sender0 heloHost)) \<rparr>"

definition subject_of :: "SPFAddress \<Rightarrow> AnsiString \<Rightarrow> AnsiString \<Rightarrow> 'w SPFEvaluator \<Rightarrow> SPFMacroExpander" where
  "subject_of clientAddress sender0 heloHost st = expander (check_start clientAddress sender0 heloHost st)"

lemma Check_start: "Check L c d s h st = CheckDomain L 0 d True (check_start c s h st)"
  by (simp add: Check_def check_start_def)

lemma init_memo:
  "validated_names_known (SPFMacroExpander_init c s h) = False" "validated_names (SPFMacroExpander_init c s h) = []"
  "client_address (SPFMacroExpander_init c s h) = c"
  by (auto simp: SPFMacroExpander_init_def Let_def split: option.splits)

lemma start_within: "within_limits (check_start c s h st)"
  by (simp add: within_limits_def check_start_def GetHasTooManyVoidTerms_def)

lemma start_terms [simp]: "terms (check_start c s h st) = 0" "void_terms (check_start c s h st) = 0"
  by (simp_all add: check_start_def)

lemma start_about: "about Z (subject_of c s h st) (check_start c s h st)"
  by (simp add: about_def memo_of_def subject_of_def check_start_def SetTimestamp_def SetReceivingHost_def init_memo)

context query_meter
begin

lemma start_potential:
  "potential (check_start c s h st) =
     cost (lookup_world (counting_lookup st)) + (1 + MaximumPtrNames) + (1 + MaximumMxNames) * MaximumTerms"
  by (simp add: potential_def reserve_def expander_potential_def spent_def check_start_def CountingLookup_init_def
      SetTimestamp_def SetReceivingHost_def init_memo)

lemma spent_le_potential: "cost (lookup_world (counting_lookup st)) \<le> potential st"
  by (simp add: potential_def reserve_def expander_potential_def spent_def)

lemma Check_cost:
  assumes "Check L c d s h st = (r, e, st')"
  shows "cost (lookup_world (counting_lookup st')) \<le> cost (lookup_world (counting_lookup st)) + 123"
proof -
  have "metered_checker L cost (CheckDomain L 0)" unfolding CheckDomain_eq by (rule metered_CheckDomainUpTo)
  from metered_checker.self_potential [OF this] assms
  have "potential st' \<le> potential (check_start c s h st) + 1 + 1" by (fastforce simp: Check_start)
  then show ?thesis
    using spent_le_potential [of st'] start_potential [of c s h st]
    by (simp add: MaximumPtrNames_def MaximumMxNames_def MaximumTerms_def)
qed

lemma SPF_Test_cost:
  assumes "L = SPFDnsResolver grot" "SPF_Test grot hostName now limit ip sender0 helo w = (r, e, w')"
  shows "cost w' \<le> cost w + 123"
  using assms Check_cost
  by (fastforce simp: SPF_Test_def Let_def SetVoidTermLimit_def EvaluatorSetTimestamp_def EvaluatorSetReceivingHost_def
      SPFEvaluator_init_def CountingLookup_init_def split: option.splits prod.splits)

end

text \<open>
  A check calls the record query of the server at most 123 times: the policy, eleven for each of ten
  terms, eleven for the validated names and one for the explanation.
\<close>

lemma record_query_calls_bound:
  "SPF_Test (MeteredRecordQuery grot) hostName now limit ip sender0 helo w = (r, e, w') \<Longrightarrow> snd w' \<le> snd w + 123"
  by (rule resolver.SPF_Test_cost [OF refl])

context stable_lookup
begin

lemma Check_refines:
  assumes "Check L c d s h st = (r, e, st')"
  shows "check_host Z (subject_of c s h st) d r \<or> r = PermError \<and> exceeded st'"
proof -
  have "faithful Z (subject_of c s h st) 0 (CheckDomain L 0)"
    unfolding CheckDomain_eq by (rule CheckDomainUpTo_faithful) (simp add: MAXIMUM_DEPTH_def)
  with assms start_within start_about show ?thesis
    unfolding faithful_def Check_start by fastforce
qed

end

lemma Check_outcome:
  assumes "Check L c d s h st = (r, e, st')"
  shows "level_outcome r e True st'"
  using limited.self_outcome [OF start_within] assms by (simp add: Check_start)

lemma GetCheckedDomain_sender_domain:
  assumes "s \<noteq> []" "last s \<noteq> CHR ''@''"
  shows "GetCheckedDomain s h = sender_domain (SPFMacroExpander_init a s h)"
proof (cases "ReverseFind s CHR ''@''")
  case None
  with assms show ?thesis by (simp add: GetCheckedDomain_def ExtractDomain_def SPFMacroExpander_init_def)
next
  case (Some p)
  from ReverseFind_SomeD [OF Some] have p: "p < length s" "s ! p = CHR ''@''" by auto
  then have "Suc p < length s" using assms by (metis Suc_lessI diff_Suc_1 last_conv_nth)
  with Some assms show ?thesis
    by (simp add: GetCheckedDomain_def ExtractDomain_def SPFMacroExpander_init_def Let_def)
qed

section \<open>Properties\<close>

text \<open>
  C1: the evaluator implements the rules of RFC 7208: over a DNS that answers from a table, what a check
  returns is what the rules of sections 4 to 6 give for the client, the sender and the domain, unless it
  is a permerror with more than ten terms or more void terms than the limit counted.
\<close>

theorem check_implements_rules:
  "Check (SPFDnsResolver (TableQuery table)) c d s h st = (r, e, st') \<Longrightarrow>
   check_host (TableView table) (subject_of c s h st) d r \<or> r = PermError \<and> exceeded st'"
  by (rule table.Check_refines)

theorem check_implements_rules_witness:
  "check_host (TableView (\<lambda>ty n. Some (if ty = RESOURCE_TYPE_TEXT then [''v=spf1 ip4:192.0.2.0/24 -all''] else [])))
     (subject_of (the (TryParse ''198.51.100.1'')) ''bob@example.com'' ''mail.example.com'' (SPFEvaluator_init ())) ''example.com'' Fail"
proof -
  let ?table = "\<lambda>ty (n :: AnsiString). Some (if ty = RESOURCE_TYPE_TEXT then [''v=spf1 ip4:192.0.2.0/24 -all''] else [])"
  let ?c = "Check (SPFDnsResolver (TableQuery ?table)) (the (TryParse ''198.51.100.1'')) ''example.com'' ''bob@example.com''
    ''mail.example.com'' (SPFEvaluator_init ())"
  have "fst ?c = Fail" by code_simp
  moreover obtain r e st' where "?c = (r, e, st')" by (metis surj_pair)
  ultimately show ?thesis using check_implements_rules by fastforce
qed

text \<open>
  C16: the limits of section 4.6.4 hold: a check counts at most ten terms that query, one more being
  counted only to end it in a permerror, and where the void limit is on, a check that ends in anything
  but a permerror has counted no more void terms than the limit.
\<close>

theorem processing_limits_hold:
  "Check L c d s h st = (r, e, st') \<Longrightarrow>
   terms st' \<le> MaximumTerms + 1 \<and>
   (r \<noteq> PermError \<longrightarrow>
      terms st' \<le> MaximumTerms \<and> (void_term_limit st > 0 \<longrightarrow> int (void_terms st') \<le> void_term_limit st))"
proof -
  assume c: "Check L c d s h st = (r, e, st')"
  note out = Check_outcome [OF c]
  have "evolves (check_start c s h st) st'" using check.self_evolves c by (simp add: Check_start)
  then have limit: "void_term_limit st' = void_term_limit st" by (simp add: evolves_def check_start_def)
  have "void_terms st' \<le> 1" if "r = ResultNone"
    using limited.CheckDomainBody_none [OF start_within, of L L 1 d True c s h st e st'] that c
    by (simp add: Check_start CheckDomain_eq CheckDomainUpTo_body)
  with out limit show ?thesis
    by (cases "r = ResultNone") (auto simp: level_outcome_def over_by_one_def GetHasTooManyVoidTerms_def)
qed

theorem processing_limits_hold_witness:
  "terms (snd (snd (Check (SPFDnsResolver (TableQuery (\<lambda>ty n. Some [''v=spf1 include:a.example'']))) (the (TryParse ''192.0.2.1''))
     ''a.example'' ''bob@a.example'' ''h'' (SPFEvaluator_init ())))) \<le> 11"
proof -
  obtain r e st' where "Check (SPFDnsResolver (TableQuery (\<lambda>ty n. Some [''v=spf1 include:a.example'']))) (the (TryParse ''192.0.2.1''))
     ''a.example'' ''bob@a.example'' ''h'' (SPFEvaluator_init ()) = (r, e, st')" by (metis surj_pair)
  with processing_limits_hold [OF this] show ?thesis by (simp add: MaximumTerms_def)
qed

text \<open>
  only a fail is explained: a check that ends in anything else leaves the explanation empty, also
  where the record that decided it has an exp modifier.
\<close>

theorem only_a_fail_is_explained:
  "Check L c d s h st = (r, e, st') \<Longrightarrow> e \<noteq> [] \<Longrightarrow> r = Fail"
  using Check_outcome [of L c d s h st r e st'] by (simp add: level_outcome_def)

theorem only_a_fail_is_explained_witness:
  "\<exists>e st'. Check (SPFDnsResolver (TableQuery (\<lambda>ty n. Some [if n = ''a.example'' then ''v=spf1 -all exp=why.example'' else ''no %{s}''])))
     (the (TryParse ''192.0.2.1'')) ''a.example'' ''bob@a.example'' ''h'' (SPFEvaluator_init ()) = (Fail, e, st') \<and> e = ''no bob@a.example''"
proof -
  let ?c = "Check (SPFDnsResolver (TableQuery (\<lambda>ty n. Some [if n = ''a.example'' then ''v=spf1 -all exp=why.example'' else ''no %{s}''])))
     (the (TryParse ''192.0.2.1'')) ''a.example'' ''bob@a.example'' ''h'' (SPFEvaluator_init ())"
  have e: "fst (snd ?c) = ''no bob@a.example''" by code_simp
  obtain r e' st' where c: "?c = (r, e', st')" by (metis surj_pair)
  with e only_a_fail_is_explained [OF c] show ?thesis by fastforce
qed

text \<open>
  the domain a check is made for is the domain the o macro stands for, so the policy and its macros
  speak of one domain: for every sender that is not empty and does not end in an at sign, also one that
  is no address at all and is then its own domain.
\<close>

theorem checked_domain_is_sender_domain:
  "s \<noteq> [] \<Longrightarrow> last s \<noteq> CHR ''@'' \<Longrightarrow>
   GetCheckedDomain s h = sender_domain (SPFMacroExpander_init a s h)"
  by (rule GetCheckedDomain_sender_domain)

theorem checked_domain_is_sender_domain_witness:
  "GetCheckedDomain ''example.com'' ''helo.example'' = ''example.com'' \<and>
   sender_domain (SPFMacroExpander_init SPFAddress_init ''example.com'' ''helo.example'') = ''example.com''"
proof -
  have "GetCheckedDomain ''example.com'' ''helo.example'' = ''example.com''" by code_simp
  with checked_domain_is_sender_domain [of "''example.com''" "''helo.example''" SPFAddress_init] show ?thesis by simp
qed

end
