(* ===== verification/Formatter.thy ===== *)
theory Formatter
  imports AnsiStrings
begin

text \<open>
  Common/Util/Strings/Formatter.cpp and FormatArgument.cpp: the substitution of numbered
  placeholders. The wide strings of the source are lists of 8-bit characters here; converting
  between the two is the identity on ASCII, which is all that the modelled callers pass.
  \<^verbatim>\<open>_DEBUG\<close> is the argument \<open>debug\<close>: a debug build refuses a text whose placeholders do not
  match the number of arguments, a release build does not look.
\<close>

section \<open>Arguments\<close>

datatype FormatArgument =
  TypeUnicodeString AnsiString
| TypeAnsiString AnsiString
| TypeNumber "64 word"
| TypeUnsignedNumber "64 word"
| TypeBoolean bool

definition GetValue :: "FormatArgument \<Rightarrow> AnsiString" where
  "GetValue argument =
     (case argument of
        TypeUnicodeString s \<Rightarrow> s
      | TypeAnsiString s \<Rightarrow> s
      | TypeNumber n \<Rightarrow> print_signed (sint n)
      | TypeUnsignedNumber n \<Rightarrow> print_unsigned (unat n)
      | TypeBoolean b \<Rightarrow> if b then ''True'' else ''False'')"

section \<open>Placeholders\<close>

text \<open>
  The scan keeps the position of the last opening brace; an unmatched brace makes the whole set
  empty. The set is the list of the numbers read, without repetition.
\<close>

fun PlaceholderScan :: "AnsiString \<Rightarrow> nat \<Rightarrow> nat option \<Rightarrow> int list \<Rightarrow> AnsiString \<Rightarrow> int list" where
  "PlaceholderScan [] pos start result format = (if start \<noteq> None then [] else result)"
| "PlaceholderScan (c # cs) pos start result format =
     (if c = CHR 0x7B then PlaceholderScan cs (pos + 1) (Some pos) result format
      else if c = CHR 0x7D then
        (case start of
           None \<Rightarrow> []
         | Some p \<Rightarrow>
             PlaceholderScan cs (pos + 1) None
               (List.insert (ttoi (Mid_count format (p + 1) (pos - p - 1))) result) format)
      else PlaceholderScan cs (pos + 1) start result format)"

definition GetPlaceholders :: "AnsiString \<Rightarrow> int list" where
  "GetPlaceholders format = PlaceholderScan format 0 None [] format"

section \<open>Formatting\<close>

definition placeholder :: "nat \<Rightarrow> AnsiString" where
  "placeholder i = CHR 0x7B # print_unsigned i @ [CHR 0x7D]"

fun FormatLoop :: "AnsiString \<Rightarrow> nat \<Rightarrow> FormatArgument list \<Rightarrow> AnsiString" where
  "FormatLoop result placeholderIndex [] = result"
| "FormatLoop result placeholderIndex (argument # arguments) =
     FormatLoop (Replace result (placeholder placeholderIndex) (GetValue argument))
       (placeholderIndex + 1) arguments"

definition FormatList :: "bool \<Rightarrow> AnsiString \<Rightarrow> FormatArgument list \<Rightarrow> AnsiString" where
  "FormatList debug fmt arguments =
     (if debug \<and> length arguments \<noteq> length (GetPlaceholders fmt) then []
      else FormatLoop fmt 0 arguments)"

definition FormatAsAnsi1 :: "bool \<Rightarrow> AnsiString \<Rightarrow> FormatArgument \<Rightarrow> AnsiString" where
  "FormatAsAnsi1 debug fmt argument1 = FormatList debug fmt [argument1]"

definition FormatAsAnsi2 :: "bool \<Rightarrow> AnsiString \<Rightarrow> FormatArgument \<Rightarrow> FormatArgument \<Rightarrow> AnsiString" where
  "FormatAsAnsi2 debug fmt argument1 argument2 = FormatList debug fmt [argument1, argument2]"

definition FormatAsAnsi3 ::
  "bool \<Rightarrow> AnsiString \<Rightarrow> FormatArgument \<Rightarrow> FormatArgument \<Rightarrow> FormatArgument \<Rightarrow> AnsiString" where
  "FormatAsAnsi3 debug fmt argument1 argument2 argument3 =
     FormatList debug fmt [argument1, argument2, argument3]"

definition FormatAsAnsi4 ::
  "bool \<Rightarrow> AnsiString \<Rightarrow> FormatArgument \<Rightarrow> FormatArgument \<Rightarrow> FormatArgument \<Rightarrow> FormatArgument \<Rightarrow> AnsiString" where
  "FormatAsAnsi4 debug fmt argument1 argument2 argument3 argument4 =
     FormatList debug fmt [argument1, argument2, argument3, argument4]"

text \<open>The version with five arguments passes on the first, the second and the fifth.\<close>

definition FormatAsAnsi5 ::
  "bool \<Rightarrow> AnsiString \<Rightarrow> FormatArgument \<Rightarrow> FormatArgument \<Rightarrow> FormatArgument \<Rightarrow> FormatArgument \<Rightarrow>
   FormatArgument \<Rightarrow> AnsiString" where
  "FormatAsAnsi5 debug fmt argument1 argument2 argument3 argument4 argument5 =
     FormatList debug fmt [argument1, argument2, argument5]"

section \<open>What a format text means\<close>

text \<open>
  A format text is a list of literal pieces and holes. Filling the holes at once, each from its own
  argument, is what a caller expects; the source replaces one placeholder after another in the text
  it has already written into. The two agree when no value put in holds an opening brace.
\<close>

datatype piece = Literal AnsiString | Hole nat

fun piece_text :: "piece \<Rightarrow> AnsiString" where
  "piece_text (Literal s) = s"
| "piece_text (Hole i) = placeholder i"

definition format_text :: "piece list \<Rightarrow> AnsiString" where
  "format_text ps = concat (map piece_text ps)"

fun fill :: "nat \<Rightarrow> AnsiString list \<Rightarrow> piece \<Rightarrow> piece" where
  "fill k vs (Literal s) = Literal s"
| "fill k vs (Hole i) = (if k \<le> i \<and> i < k + length vs then Literal (vs ! (i - k)) else Hole i)"

fun open_free :: "piece \<Rightarrow> bool" where
  "open_free (Literal s) \<longleftrightarrow> CHR 0x7B \<notin> set s"
| "open_free (Hole i) \<longleftrightarrow> True"

section \<open>Facts\<close>

lemma print_unsigned_digits: "c \<in> set (print_unsigned n) \<Longrightarrow> isdigit_classic c"
proof (induction n rule: print_unsigned.induct)
  case (1 n)
  have digit: "isdigit_classic (char_of (48 + m))" if "m < 10" for m :: nat
    using that by (simp add: isdigit_classic_def char_ranges)
  show ?case
  proof (cases "n < 10")
    case True
    with 1(2) digit [of n] show ?thesis by (simp add: print_unsigned.simps)
  next
    case False
    with 1(2) have "c \<in> set (print_unsigned (n div 10)) \<or> c = char_of (48 + n mod 10)"
      by (subst (asm) print_unsigned.simps) auto
    with 1(1) False digit [of "n mod 10"] show ?thesis by auto
  qed
qed

lemma print_unsigned_no_brace: "CHR 0x7B \<notin> set (print_unsigned n)" "CHR 0x7D \<notin> set (print_unsigned n)"
  using print_unsigned_digits [of "CHR 0x7B" n] print_unsigned_digits [of "CHR 0x7D" n]
  by (auto simp: isdigit_classic_def char_ranges)

lemma digits_value_print_unsigned: "digits_value (print_unsigned n) = int n"
proof (induction n rule: print_unsigned.induct)
  case (1 n)
  have last: "int (ord (char_of (48 + m) :: char)) - 48 = int m" if "m < 10" for m
    using that by (simp add: of_char_of)
  show ?case
  proof (cases "n < 10")
    case True
    then show ?thesis using last [of n] by (simp add: print_unsigned.simps digits_value_def)
  next
    case False
    have "int (n div 10) * 10 + int (n mod 10) = int n"
      by (metis div_mult_mod_eq of_nat_add of_nat_mult of_nat_numeral)
    moreover have "print_unsigned n = print_unsigned (n div 10) @ [char_of (48 + n mod 10)]"
      using False by (simp add: print_unsigned.simps [of n])
    ultimately show ?thesis
      using 1 False last [of "n mod 10"] by (simp add: digits_value_snoc)
  qed
qed

lemma print_unsigned_inject: "print_unsigned m = print_unsigned n \<longleftrightarrow> m = n"
  by (metis digits_value_print_unsigned of_nat_eq_iff)

lemma append_sep_inject:
  assumes "xs @ (c :: char) # t = ys @ c # u" "c \<notin> set xs" "c \<notin> set ys"
  shows "xs = ys"
proof -
  have "length xs = length ys"
    using Find_append_hit [OF assms(2), of t] Find_append_hit [OF assms(3), of u] assms(1) by simp
  with assms(1) show ?thesis by simp
qed

lemma placeholder_prefix:
  assumes "take (length (placeholder k)) (placeholder i @ rest) = placeholder k"
  shows "i = k"
proof -
  let ?p = "print_unsigned i" and ?q = "print_unsigned k" and ?c = "CHR 0x7D"
  obtain t where "?q @ ?c # t = ?p @ ?c # rest"
    using assms append_take_drop_id [of "length (placeholder k)" "placeholder i @ rest"]
    unfolding placeholder_def by auto
  then have "?q = ?p"
    by (rule append_sep_inject) (rule print_unsigned_no_brace)+
  then show ?thesis by (simp add: print_unsigned_inject)
qed

lemma Replace_other_hole:
  assumes "i \<noteq> k"
  shows "Replace (placeholder i @ rest) (placeholder k) v = placeholder i @ Replace rest (placeholder k) v"
proof -
  have "take (length (placeholder k)) (placeholder i @ rest) \<noteq> placeholder k"
    using assms placeholder_prefix by blast
  then have "Replace (placeholder i @ rest) (placeholder k) v =
      CHR 0x7B # Replace ((print_unsigned i @ [CHR 0x7D]) @ rest) (placeholder k) v"
    unfolding placeholder_def [of i] by (simp add: Replace_Cons placeholder_def [of k])
  also have "\<dots> = CHR 0x7B # (print_unsigned i @ [CHR 0x7D]) @ Replace rest (placeholder k) v"
    using Replace_skip [of "CHR 0x7B" "print_unsigned i @ [CHR 0x7D]" rest] print_unsigned_no_brace
    by (simp add: placeholder_def)
  finally show ?thesis by (simp add: placeholder_def)
qed

lemma Replace_format_text:
  "list_all open_free ps \<Longrightarrow> Replace (format_text ps) (placeholder k) v = format_text (map (fill k [v]) ps)"
proof (induction ps)
  case Nil
  then show ?case by (simp add: format_text_def)
next
  case (Cons p ps)
  then have IH: "Replace (format_text ps) (placeholder k) v = format_text (map (fill k [v]) ps)" by simp
  show ?case
  proof (cases p)
    case (Literal s)
    with Cons.prems IH show ?thesis
      by (simp add: format_text_def placeholder_def Replace_skip)
  next
    case (Hole i)
    show ?thesis
    proof (cases "i = k")
      case True
      with Hole IH Replace_hit [of "placeholder k" "format_text ps" v] show ?thesis
        by (simp add: format_text_def) (simp add: placeholder_def)
    next
      case False
      with Hole IH show ?thesis by (auto simp: format_text_def Replace_other_hole)
    qed
  qed
qed

lemma fill_step:
  "fill (Suc k) vs (fill k [v] p) = fill k (v # vs) p"
proof (cases p)
  case (Hole i)
  show ?thesis
  proof (cases "k < i")
    case True
    then have "i - k = Suc (i - Suc k)" by simp
    with Hole True show ?thesis by simp
  qed (use Hole in auto)
qed simp

lemma fill_open_free: "open_free p \<Longrightarrow> CHR 0x7B \<notin> set v \<Longrightarrow> open_free (fill k [v] p)"
  by (cases p) auto

lemma FormatLoop_format_text:
  assumes "list_all open_free ps" "list_all (\<lambda>a. CHR 0x7B \<notin> set (GetValue a)) arguments"
  shows "FormatLoop (format_text ps) k arguments = format_text (map (fill k (map GetValue arguments)) ps)"
  using assms
proof (induction arguments arbitrary: ps k)
  case Nil
  have "fill k [] p = p" for p by (cases p) auto
  then show ?case by simp
next
  case (Cons a as)
  have "list_all open_free (map (fill k [GetValue a]) ps)"
    using Cons.prems by (auto simp: list_all_iff intro: fill_open_free)
  with Cons show ?case
    by (simp add: Replace_format_text o_def fill_step del: fill.simps)
qed

section \<open>Properties\<close>

text \<open>
  Formatting is filling. On a format text of literal pieces and numbered placeholders, the
  sequential replacement of the source gives every placeholder the value of its own argument,
  whatever order the placeholders are in and however often one is repeated, as long as no literal
  and no value contains an opening brace; a placeholder without an argument stays as it is.
\<close>

theorem formatting_fills_placeholders:
  assumes "list_all open_free ps" "list_all (\<lambda>a. CHR 0x7B \<notin> set (GetValue a)) arguments"
  shows "FormatList False (format_text ps) arguments = format_text (map (fill 0 (map GetValue arguments)) ps)"
  using FormatLoop_format_text [OF assms] by (simp add: FormatList_def)

theorem formatting_fills_placeholders_witness:
  "FormatList False (format_text [Hole 1, Literal '' '', Hole 0]) [TypeNumber 25, TypeNumber (- 100)] = ''-100 25''"
proof -
  have "GetValue (TypeNumber 25) = ''25''" "GetValue (TypeNumber (- 100)) = ''-100''" by code_simp+
  moreover have "FormatList False (format_text [Hole 1, Literal '' '', Hole 0]) [TypeNumber 25, TypeNumber (- 100)] =
      format_text (map (fill 0 (map GetValue [TypeNumber 25, TypeNumber (- 100)])) [Hole 1, Literal '' '', Hole 0])"
    by (rule formatting_fills_placeholders) (simp_all add: calculation)
  ultimately show ?thesis by (simp add: format_text_def)
qed

text \<open>
  The version with five arguments is not the formatting of its five arguments: it puts the fifth
  in the place of the third and leaves the last two placeholders in the text; a debug build gives
  the empty text.
\<close>

theorem five_arguments_are_dropped:
  "FormatAsAnsi5 False (format_text [Hole 2, Hole 3, Hole 4])
     (TypeBoolean True) (TypeBoolean True) (TypeAnsiString ''c'') (TypeAnsiString ''d'') (TypeAnsiString ''e'')
     = ''e'' @ placeholder 3 @ placeholder 4 \<and>
   FormatAsAnsi5 True (format_text [Hole 0, Hole 1, Hole 2, Hole 3, Hole 4])
     (TypeBoolean True) (TypeBoolean True) (TypeAnsiString ''c'') (TypeAnsiString ''d'') (TypeAnsiString ''e'') = []"
  by code_simp

end
