(* ===== verification/Authentication_Results.thy ===== *)
theory Authentication_Results
  imports StringParser Formatter
begin

text \<open>
  Common/AntiSpam/AuthenticationResults.cpp: the verdicts collected for a message, the header fields
  written from them, and the removal of fields that claim this server's own identity. The
  configured identity and the name of the computer, which the source reads from its settings and
  from the system, are arguments. \<open>conv\<close> is the conversion that \<^verbatim>\<open>SplitString\<close> applies to the lines
  of a byte string (theory StringParser).
\<close>

section \<open>The verdicts\<close>

datatype MethodResult =
  MethodNotEvaluated | MethodNone | MethodPass | MethodFail | MethodSoftFail | MethodNeutral
| MethodTempError | MethodPermError

record DkimEntry =
  dkim_result :: MethodResult
  dkim_domain :: AnsiString

record AuthenticationResults =
  spf_result :: MethodResult
  spf_identity_type :: AnsiString
  spf_identity_value :: AnsiString
  spf_client_ip :: AnsiString
  spf_helo_host :: AnsiString
  dkim_entries :: "DkimEntry list"
  dmarc_result :: MethodResult
  dmarc_from_domain :: AnsiString
  dmarc_policy :: AnsiString

definition AuthenticationResults_init :: AuthenticationResults where
  "AuthenticationResults_init =
     \<lparr> spf_result = MethodNotEvaluated, spf_identity_type = [], spf_identity_value = [], spf_client_ip = [],
       spf_helo_host = [], dkim_entries = [], dmarc_result = MethodNotEvaluated, dmarc_from_domain = [],
       dmarc_policy = [] \<rparr>"

definition SetSpf ::
  "MethodResult \<Rightarrow> AnsiString \<Rightarrow> AnsiString \<Rightarrow> AnsiString \<Rightarrow> AnsiString \<Rightarrow>
   AuthenticationResults \<Rightarrow> AuthenticationResults" where
  "SetSpf result identityType identityValue clientIp heloHost r =
     r\<lparr> spf_result := result, spf_identity_type := identityType, spf_identity_value := identityValue,
        spf_client_ip := clientIp, spf_helo_host := heloHost \<rparr>"

definition AddDkim :: "MethodResult \<Rightarrow> AnsiString \<Rightarrow> AuthenticationResults \<Rightarrow> AuthenticationResults" where
  "AddDkim result signingDomain r =
     r\<lparr> dkim_entries := dkim_entries r @ [\<lparr> dkim_result = result, dkim_domain = signingDomain \<rparr>] \<rparr>"

definition SetDmarc ::
  "MethodResult \<Rightarrow> AnsiString \<Rightarrow> AnsiString \<Rightarrow> AuthenticationResults \<Rightarrow> AuthenticationResults" where
  "SetDmarc result headerFromDomain policyText r =
     r\<lparr> dmarc_result := result, dmarc_from_domain := headerFromDomain, dmarc_policy := policyText \<rparr>"

definition IsEmpty :: "AuthenticationResults \<Rightarrow> bool" where
  "IsEmpty r \<longleftrightarrow> spf_result r = MethodNotEvaluated \<and> dkim_entries r = [] \<and> dmarc_result r = MethodNotEvaluated"

definition HasSpfResult :: "AuthenticationResults \<Rightarrow> bool" where
  "HasSpfResult r \<longleftrightarrow> spf_result r \<noteq> MethodNotEvaluated"

definition ResultKeyword :: "MethodResult \<Rightarrow> AnsiString" where
  "ResultKeyword result =
     (case result of
        MethodNone \<Rightarrow> ''none''
      | MethodPass \<Rightarrow> ''pass''
      | MethodFail \<Rightarrow> ''fail''
      | MethodSoftFail \<Rightarrow> ''softfail''
      | MethodNeutral \<Rightarrow> ''neutral''
      | MethodTempError \<Rightarrow> ''temperror''
      | MethodPermError \<Rightarrow> ''permerror''
      | MethodNotEvaluated \<Rightarrow> ''none'')"

section \<open>Values from the message\<close>

definition MaxLineLength :: nat where "MaxLineLength = 76"
definition MaxValueLength :: nat where "MaxValueLength = 255"

definition IsSafeChar :: "char \<Rightarrow> bool" where
  "IsSafeChar c \<longleftrightarrow>
     (CHR ''A'' \<le> c \<and> c \<le> CHR ''Z'') \<or> (CHR ''a'' \<le> c \<and> c \<le> CHR ''z'') \<or> (CHR ''0'' \<le> c \<and> c \<le> CHR ''9'') \<or>
     c = CHR ''@'' \<or> c = CHR ''.'' \<or> c = CHR ''-'' \<or> c = CHR ''_'' \<or>
     c = CHR ''+'' \<or> c = CHR ''='' \<or> c = CHR ''/'' \<or> c = CHR '':'' \<or>
     c = CHR ''['' \<or> c = CHR '']''"

fun SanitizeLoop :: "AnsiString \<Rightarrow> AnsiString \<Rightarrow> AnsiString" where
  "SanitizeLoop [] result = result"
| "SanitizeLoop (c # cs) result =
     (let result = (if IsSafeChar c then result @ [c] else result)
      in if length result \<ge> MaxValueLength then result else SanitizeLoop cs result)"

definition SanitizeValue :: "AnsiString \<Rightarrow> AnsiString" where
  "SanitizeValue s = SanitizeLoop s []"

definition GetAuthservId :: "AnsiString \<Rightarrow> AnsiString \<Rightarrow> AnsiString" where
  "GetAuthservId configured computerName =
     (let identity = (if configured = [] then computerName else configured);
          identity = MakeLower identity;
          identity = SanitizeValue identity
      in if identity = [] then ''localhost'' else identity)"

section \<open>The fields\<close>

abbreviation CRLF_TAB :: AnsiString where
  "CRLF_TAB \<equiv> [CHR 0x0D, CHR 0x0A, CHR 0x09]"

definition AppendMethod :: "AnsiString \<Rightarrow> AnsiString \<Rightarrow> AnsiString" where
  "AppendMethod target clause =
     (let currentLineLength =
            length target - (case ReverseFind target CHR 0x0A of None \<Rightarrow> 0 | Some lastBreak \<Rightarrow> lastBreak + 1);
          target = target @ '';'';
          target = (if currentLineLength + length clause + 2 > MaxLineLength then target @ CRLF_TAB
                    else target @ '' '')
      in target @ clause)"

text \<open>The format texts, with \<^verbatim>\<open>{n}\<close> written as \<open>Hole n\<close>; the release build's formatter fills them.\<close>

definition SpfClause :: "AuthenticationResults \<Rightarrow> AnsiString" where
  "SpfClause r =
     (let clause = FormatAsAnsi1 False ''spf={0}'' (TypeAnsiString (ResultKeyword (spf_result r)));
          identity = SanitizeValue (spf_identity_value r)
      in if identity \<noteq> [] then
           clause @ FormatAsAnsi2 False '' {0}={1}'' (TypeAnsiString (spf_identity_type r)) (TypeAnsiString identity)
         else clause)"

definition DkimClause :: "DkimEntry \<Rightarrow> AnsiString" where
  "DkimClause entry =
     (let clause = FormatAsAnsi1 False ''dkim={0}'' (TypeAnsiString (ResultKeyword (dkim_result entry)));
          domain = SanitizeValue (dkim_domain entry)
      in if domain \<noteq> [] then clause @ FormatAsAnsi1 False '' header.d={0}'' (TypeAnsiString domain) else clause)"

definition DmarcClause :: "AuthenticationResults \<Rightarrow> AnsiString" where
  "DmarcClause r =
     (let clause = FormatAsAnsi1 False ''dmarc={0}'' (TypeAnsiString (ResultKeyword (dmarc_result r)));
          policy = SanitizeValue (dmarc_policy r);
          clause = (if policy \<noteq> [] then clause @ FormatAsAnsi1 False '' (p={0})'' (TypeAnsiString policy) else clause);
          fromDomain = SanitizeValue (dmarc_from_domain r)
      in if fromDomain \<noteq> [] then clause @ FormatAsAnsi1 False '' header.from={0}'' (TypeAnsiString fromDomain)
         else clause)"

definition BuildAuthenticationResultsValue ::
  "AnsiString \<Rightarrow> AnsiString \<Rightarrow> AuthenticationResults \<Rightarrow> AnsiString" where
  "BuildAuthenticationResultsValue configured computerName r =
     (if IsEmpty r then []
      else
        let value0 = GetAuthservId configured computerName;
            value0 = (if spf_result r \<noteq> MethodNotEvaluated then AppendMethod value0 (SpfClause r) else value0);
            value0 = foldl (\<lambda>v entry. AppendMethod v (DkimClause entry)) value0 (dkim_entries r)
        in if dmarc_result r \<noteq> MethodNotEvaluated then AppendMethod value0 (DmarcClause r) else value0)"

definition SpfExplanation :: "MethodResult \<Rightarrow> AnsiString \<Rightarrow> AnsiString \<Rightarrow> AnsiString \<Rightarrow> AnsiString" where
  "SpfExplanation result authservId identity clientIp =
     (case result of
        MethodPass \<Rightarrow>
          FormatAsAnsi3 False ''{0}: domain of {1} designates {2} as permitted sender''
            (TypeAnsiString authservId) (TypeAnsiString identity) (TypeAnsiString clientIp)
      | MethodFail \<Rightarrow>
          FormatAsAnsi3 False ''{0}: domain of {1} does not designate {2} as permitted sender''
            (TypeAnsiString authservId) (TypeAnsiString identity) (TypeAnsiString clientIp)
      | MethodSoftFail \<Rightarrow>
          FormatAsAnsi3 False ''{0}: domain of {1} does not designate {2} as permitted sender''
            (TypeAnsiString authservId) (TypeAnsiString identity) (TypeAnsiString clientIp)
      | MethodNone \<Rightarrow>
          FormatAsAnsi2 False ''{0}: {1} does not publish an SPF policy''
            (TypeAnsiString authservId) (TypeAnsiString identity)
      | _ \<Rightarrow>
          FormatAsAnsi2 False ''{0}: the SPF policy of {1} could not be evaluated''
            (TypeAnsiString authservId) (TypeAnsiString identity))"

definition BuildReceivedSpfValue :: "AnsiString \<Rightarrow> AnsiString \<Rightarrow> AuthenticationResults \<Rightarrow> AnsiString" where
  "BuildReceivedSpfValue configured computerName r =
     (if spf_result r = MethodNotEvaluated then []
      else
        let authservId = GetAuthservId configured computerName;
            identity = SanitizeValue (spf_identity_value r);
            clientIp = SanitizeValue (spf_client_ip r);
            helo = SanitizeValue (spf_helo_host r);
            explanation = SpfExplanation (spf_result r) authservId identity clientIp;
            value0 = FormatAsAnsi2 False ''{0} ({1})'' (TypeAnsiString (ResultKeyword (spf_result r)))
                       (TypeAnsiString explanation);
            value0 = value0 @ CRLF_TAB;
            value0 = value0 @ FormatAsAnsi2 False ''client-ip={0}; envelope-from=<{1}>;'' (TypeAnsiString clientIp)
                       (TypeAnsiString identity);
            value0 = (if helo \<noteq> [] then value0 @ FormatAsAnsi1 False '' helo={0};'' (TypeAnsiString helo) else value0)
        in value0 @ FormatAsAnsi2 False '' receiver={0}; identity={1}'' (TypeAnsiString authservId)
             (TypeAnsiString (if spf_identity_type r = ''smtp.helo'' then ''helo'' else ''mailfrom'')))"

section \<open>Removing forged fields\<close>

text \<open>The identity that the value of a field names: the unfolded text up to the first semicolon, its
  first token or quoted string.\<close>

definition FieldIdentity :: "AnsiString \<Rightarrow> AnsiString" where
  "FieldIdentity v =
     (let v = Replace v [CHR 0x0D] [];
          v = Replace v [CHR 0x0A] '' '';
          v = (case Find_str v '';'' of None \<Rightarrow> v | Some semicolonPosition \<Rightarrow> Mid_count v 0 semicolonPosition);
          v = Trim v;
          v = (if length v \<ge> 2 \<and> v ! 0 = CHR 0x22 then
                 (case Find_from v [CHR 0x22] 1 of
                    Some closingQuote \<Rightarrow> Mid_count v 1 (closingQuote - 1)
                  | None \<Rightarrow> Mid v 1)
               else
                 (case Find_str v '' '' of
                    None \<Rightarrow> v
                  | Some spacePosition \<Rightarrow> if spacePosition > 0 then Mid_count v 0 spacePosition else v));
          v = Trim v
      in MakeLower v)"

definition FieldCarriesAuthservId :: "AnsiString \<Rightarrow> AnsiString \<Rightarrow> bool" where
  "FieldCarriesAuthservId field wantedLowerCase =
     (case Find_str field '':'' of
        None \<Rightarrow> False
      | Some colonPosition \<Rightarrow>
          if colonPosition = 0 then False
          else if CompareNoCase (Trim (Mid_count field 0 colonPosition)) ''Authentication-Results'' \<noteq> 0 then False
          else FieldIdentity (Mid field (colonPosition + 1)) = wantedLowerCase)"

definition IsContinuation :: "AnsiString \<Rightarrow> bool" where
  "IsContinuation line \<longleftrightarrow> line \<noteq> [] \<and> (hd line = CHR '' '' \<or> hd line = CHR 0x09)"

text \<open>Settling the pending field: what it adds to the result and to the count of removed fields.\<close>

definition SettleField :: "AnsiString \<Rightarrow> AnsiString \<Rightarrow> AnsiString \<times> nat \<Rightarrow> AnsiString \<times> nat" where
  "SettleField wanted pendingField acc =
     (case acc of (result, removedCount) \<Rightarrow>
        if FieldCarriesAuthservId pendingField wanted then (result, removedCount + 1)
        else (result @ pendingField, removedCount))"

fun StripLoop :: "AnsiString \<Rightarrow> bool \<Rightarrow> AnsiString list \<Rightarrow> AnsiString \<Rightarrow> AnsiString \<times> nat \<Rightarrow> AnsiString \<times> nat" where
  "StripLoop wanted inputEndsWithNewline [] pendingField acc =
     (if pendingField \<noteq> [] then SettleField wanted pendingField acc else acc)"
| "StripLoop wanted inputEndsWithNewline (line # lines) pendingField acc =
     (let settled = (\<not> IsContinuation line \<and> pendingField \<noteq> []);
          acc = (if settled then SettleField wanted pendingField acc else acc);
          pendingField = (if settled then [] else pendingField);
          pendingField = pendingField @ line;
          pendingField = (if lines \<noteq> [] \<or> inputEndsWithNewline then pendingField @ [CHR 0x0A] else pendingField)
      in StripLoop wanted inputEndsWithNewline lines pendingField acc)"

definition StripResultsForAuthservId ::
  "(AnsiString \<Rightarrow> AnsiString) \<Rightarrow> AnsiString \<Rightarrow> AnsiString \<Rightarrow> AnsiString \<times> nat" where
  "StripResultsForAuthservId conv headerBlock authservId =
     StripLoop (MakeLower authservId) (headerBlock \<noteq> [] \<and> last headerBlock = CHR 0x0A)
       (SplitStringAnsi conv headerBlock CHR 0x0A) [] ([], 0)"

definition ContainsResultsForAuthservId :: "(AnsiString \<Rightarrow> AnsiString) \<Rightarrow> AnsiString \<Rightarrow> AnsiString \<Rightarrow> bool" where
  "ContainsResultsForAuthservId conv headerBlock authservId \<longleftrightarrow>
     snd (StripResultsForAuthservId conv headerBlock authservId) > 0"

section \<open>Facts\<close>

lemma SanitizeLoop_eq:
  "length acc < MaxValueLength \<Longrightarrow> SanitizeLoop s acc = take MaxValueLength (acc @ filter IsSafeChar s)"
  by (induction s arbitrary: acc) (auto simp: Let_def take_Cons')

lemma SanitizeValue_eq: "SanitizeValue s = take 255 (filter IsSafeChar s)"
  by (simp add: SanitizeValue_def SanitizeLoop_eq MaxValueLength_def)

subsection \<open>The fields of a header block\<close>

text \<open>
  The reading of RFC 5322: a block is lines with their line ends, and a field is a line with the
  continuation lines that follow it.
\<close>

fun keep_lines :: "AnsiString \<Rightarrow> AnsiString list" where
  "keep_lines [] = []"
| "keep_lines (c # cs) =
     (if c = CHR 0x0A then [c] # keep_lines cs
      else case keep_lines cs of [] \<Rightarrow> [[c]] | l # ls \<Rightarrow> (c # l) # ls)"

definition continues :: "AnsiString \<Rightarrow> bool" where
  "continues line = (case line of [] \<Rightarrow> False | c # cs \<Rightarrow> c \<in> {CHR '' '', CHR 0x09})"

function group_fields :: "AnsiString list \<Rightarrow> AnsiString list" where
  "group_fields [] = []"
| "group_fields (l # ls) =
     concat (l # takeWhile continues ls) # group_fields (dropWhile continues ls)"
  by pat_completeness auto
termination
  by (relation "measure length") (auto simp: le_imp_less_Suc length_dropWhile_le)

definition header_fields :: "AnsiString \<Rightarrow> AnsiString list" where
  "header_fields block = group_fields (keep_lines block)"

lemma continues_hd: "continues l \<longleftrightarrow> l \<noteq> [] \<and> (hd l = CHR '' '' \<or> hd l = CHR 0x09)"
  by (cases l) (simp_all add: continues_def)

lemma IsContinuation_continues [simp]: "IsContinuation l = continues l"
  by (simp add: IsContinuation_def continues_hd)

lemma concat_keep_lines [simp]: "concat (keep_lines b) = b"
  by (induction b) (auto split: list.splits)

lemma keep_lines_not_Nil: "l \<in> set (keep_lines b) \<Longrightarrow> l \<noteq> []"
  by (induction b arbitrary: l) (auto split: list.splits if_splits)

lemma concat_group_fields [simp]: "concat (group_fields ls) = concat ls"
  by (induction ls rule: group_fields.induct) (auto simp flip: concat_append)

lemma concat_header_fields: "concat (header_fields b) = b"
  by (simp add: header_fields_def)

lemma hd_keep_lines: "keep_lines b = l # ls \<Longrightarrow> hd l = hd b \<and> b \<noteq> []"
  by (cases b) (auto split: list.splits if_splits)

definition ends_line :: "AnsiString \<Rightarrow> bool" where
  "ends_line f \<longleftrightarrow> f \<noteq> [] \<and> last f = CHR 0x0A"

lemma keep_lines_append: "ends_line f \<Longrightarrow> keep_lines (f @ g) = keep_lines f @ keep_lines g"
proof (induction f)
  case Nil
  then show ?case by (simp add: ends_line_def)
next
  case (Cons c cs)
  show ?case
  proof (cases "cs = []")
    case True
    with Cons.prems show ?thesis by (simp add: ends_line_def)
  next
    case False
    with Cons have IH: "keep_lines (cs @ g) = keep_lines cs @ keep_lines g" by (simp add: ends_line_def)
    moreover have "keep_lines cs \<noteq> []" using False by (metis concat.simps(1) concat_keep_lines)
    ultimately show ?thesis by (cases "keep_lines cs") auto
  qed
qed

text \<open>A line is a text that is one line; a field is a line and continuations of it.\<close>

fun wf_lines :: "AnsiString list \<Rightarrow> bool" where
  "wf_lines [] \<longleftrightarrow> True"
| "wf_lines (l # ls) \<longleftrightarrow> keep_lines l = [l] \<and> (ls = [] \<or> ends_line l) \<and> wf_lines ls"

lemma wf_keep_lines: "wf_lines (keep_lines b)"
proof (induction b)
  case Nil
  then show ?case by simp
next
  case (Cons c cs)
  then show ?case by (cases "keep_lines cs") (auto simp: ends_line_def)
qed

lemma keep_lines_concat: "wf_lines ls \<Longrightarrow> keep_lines (concat ls) = ls"
  by (induction ls) (auto simp: keep_lines_append)

lemma wf_lines_takeWhile: "wf_lines ls \<Longrightarrow> wf_lines (takeWhile P ls)"
  by (induction ls) auto

lemma wf_lines_dropWhile: "wf_lines ls \<Longrightarrow> wf_lines (dropWhile P ls)"
  by (induction ls) auto

fun wf_fields :: "AnsiString list \<Rightarrow> bool" where
  "wf_fields [] \<longleftrightarrow> True"
| "wf_fields (f # fs) \<longleftrightarrow>
     (\<exists>l ls. keep_lines f = l # ls \<and> list_all continues ls) \<and> (fs = [] \<or> ends_line f) \<and>
     list_all (\<lambda>g. \<not> continues g) fs \<and> wf_fields fs"

lemma ends_line_concat: "wf_lines (ls @ ms) \<Longrightarrow> ls \<noteq> [] \<Longrightarrow> ms \<noteq> [] \<Longrightarrow> ends_line (concat ls)"
proof (induction ls)
  case Nil
  then show ?case by simp
next
  case (Cons l ls)
  then show ?case by (cases "ls = []") (auto simp: ends_line_def last_append)
qed

lemma group_fields_eq_Nil [simp]: "group_fields ls = [] \<longleftrightarrow> ls = []"
  by (cases ls) auto

lemma continues_append: "l \<noteq> [] \<Longrightarrow> continues (l @ m) = continues l"
  by (simp add: continues_hd)

lemma group_fields_later:
  "wf_lines ls \<Longrightarrow> ls = [] \<or> \<not> continues (hd ls) \<Longrightarrow> list_all (\<lambda>g. \<not> continues g) (group_fields ls)"
proof (induction ls rule: group_fields.induct)
  case 1
  then show ?case by simp
next
  case (2 l ls)
  have "l \<noteq> []" using 2(2) by auto
  moreover have "dropWhile continues ls = [] \<or> \<not> continues (hd (dropWhile continues ls))"
    using hd_dropWhile by blast
  ultimately show ?case using 2 by (simp add: continues_append wf_lines_dropWhile)
qed

lemma wf_group_fields: "wf_lines ls \<Longrightarrow> wf_fields (group_fields ls)"
proof (induction ls rule: group_fields.induct)
  case 1
  then show ?case by simp
next
  case (2 l ls)
  let ?t = "takeWhile continues ls" and ?d = "dropWhile continues ls"
  have wf: "wf_lines ls" "wf_lines ?t" "wf_lines ?d"
    using 2(2) by (auto intro: wf_lines_takeWhile wf_lines_dropWhile)
  have "wf_lines (l # ?t)" using 2(2) wf by (cases ls) auto
  then have "keep_lines (concat (l # ?t)) = l # ?t" by (rule keep_lines_concat)
  moreover have "list_all continues ?t" by (simp add: list_all_iff) (meson set_takeWhileD)
  moreover have "?d = [] \<or> ends_line (concat (l # ?t))"
    using ends_line_concat [of "l # ?t" ?d] 2(2) by auto
  moreover have "?d = [] \<or> \<not> continues (hd ?d)" using hd_dropWhile by blast
  ultimately show ?case using 2(1) wf group_fields_later by auto
qed

lemma wf_header_fields: "wf_fields (header_fields b)"
  unfolding header_fields_def by (rule wf_group_fields) (rule wf_keep_lines)

lemma wf_fields_filter: "wf_fields fs \<Longrightarrow> wf_fields (filter P fs)"
  by (induction fs) (auto simp: list_all_iff)

lemma header_fields_concat: "wf_fields fs \<Longrightarrow> header_fields (concat fs) = fs"
proof (induction fs)
  case Nil
  then show ?case by (simp add: header_fields_def)
next
  case (Cons f fs)
  then obtain l ls where f: "keep_lines f = l # ls" "list_all continues ls" by auto
  have split: "keep_lines (f @ concat fs) = (l # ls) @ keep_lines (concat fs)"
    using Cons.prems f keep_lines_append by (cases "fs = []") auto
  have "keep_lines (concat fs) = [] \<or> \<not> continues (hd (keep_lines (concat fs)))"
  proof (cases "keep_lines (concat fs)")
    case (Cons m ms)
    from hd_keep_lines [OF Cons] have hd: "hd m = hd (concat fs)" "concat fs \<noteq> []" by auto
    then obtain g gs where g: "fs = g # gs" by (cases fs) auto
    with Cons.prems have "g \<noteq> []" "\<not> continues g" by auto
    with g hd have "\<not> continues m" by (simp add: continues_hd)
    with Cons show ?thesis by simp
  qed simp
  then have "takeWhile continues (ls @ keep_lines (concat fs)) = ls"
    "dropWhile continues (ls @ keep_lines (concat fs)) = keep_lines (concat fs)"
    using f(2) by (auto simp: list_all_iff takeWhile_append dropWhile_append takeWhile_eq_Nil_iff
        dropWhile_eq_self_iff dropWhile_eq_Nil_conv)
  moreover have "concat (l # ls) = f" using f(1) by (metis concat_keep_lines)
  ultimately show ?case using Cons split by (simp add: header_fields_def)
qed

subsection \<open>The loop of the removal\<close>

fun terminate_lines :: "bool \<Rightarrow> AnsiString list \<Rightarrow> AnsiString list" where
  "terminate_lines nl [] = []"
| "terminate_lines nl (l # ls) = (if ls \<noteq> [] \<or> nl then l @ [CHR 0x0A] else l) # terminate_lines nl ls"

lemma keep_lines_SplitString:
  "keep_lines b = terminate_lines (b \<noteq> [] \<and> last b = CHR 0x0A) (SplitString b CHR 0x0A)"
proof (induction b)
  case Nil
  then show ?case by simp
next
  case (Cons c cs)
  show ?case
  proof (cases cs)
    case Nil
    then show ?thesis by (simp add: SplitString_Cons)
  next
    case (Cons d ds)
    then have "keep_lines cs \<noteq> []" by (metis concat.simps(1) concat_keep_lines list.distinct(1))
    then obtain p ps where "SplitString cs CHR 0x0A = p # ps"
      using Cons.IH by (cases "SplitString cs CHR 0x0A") auto
    with Cons.IH Cons show ?thesis by (auto simp: SplitString_Cons)
  qed
qed

definition kept :: "AnsiString \<Rightarrow> AnsiString list \<Rightarrow> AnsiString list" where
  "kept wanted fs = filter (\<lambda>f. \<not> FieldCarriesAuthservId f wanted) fs"

definition carried :: "AnsiString \<Rightarrow> AnsiString list \<Rightarrow> AnsiString list" where
  "carried wanted fs = filter (\<lambda>f. FieldCarriesAuthservId f wanted) fs"

lemma SettleField_eq:
  "SettleField w f (r, n) = (r @ concat (kept w [f]), n + length (carried w [f]))"
  by (simp add: SettleField_def kept_def carried_def)

lemma continues_terminated: "continues (l @ [CHR 0x0A]) = continues l"
  by (cases l) (auto simp: continues_hd)

lemma StripLoop_spec:
  assumes "list_all (\<lambda>l. l \<noteq> []) (terminate_lines nl ls)"
  shows "StripLoop w nl ls pending (r, n) =
    (let T = terminate_lines nl ls;
         fs = (if pending = [] then group_fields T
               else (pending @ concat (takeWhile continues T)) # group_fields (dropWhile continues T))
     in (r @ concat (kept w fs), n + length (carried w fs)))"
  using assms
proof (induction ls arbitrary: pending r n)
  case Nil
  then show ?case by (simp add: SettleField_eq kept_def carried_def)
next
  case (Cons l ls)
  define t where "t = (if ls \<noteq> [] \<or> nl then l @ [CHR 0x0A] else l)"
  have t: "t \<noteq> []" "continues t = continues l"
    using Cons.prems continues_terminated [of l] by (auto simp: t_def)
  have IH: "StripLoop w nl ls p (r', n') =
    (let T = terminate_lines nl ls; fs = (p @ concat (takeWhile continues T)) # group_fields (dropWhile continues T)
     in (r' @ concat (kept w fs), n' + length (carried w fs)))" if "p \<noteq> []" for p r' n'
    using Cons.IH [of p r' n'] Cons.prems that by simp
  have step: "StripLoop w nl (l # ls) pending (r, n) =
      (if \<not> continues l \<and> pending \<noteq> [] then StripLoop w nl ls t (SettleField w pending (r, n))
       else StripLoop w nl ls (pending @ t) (r, n))"
    by (simp add: t_def Let_def)
  have T: "terminate_lines nl (l # ls) = t # terminate_lines nl ls" by (simp add: t_def)
  note [simp del] = StripLoop.simps terminate_lines.simps
  consider "pending = []" | "pending \<noteq> []" "continues l" | "pending \<noteq> []" "\<not> continues l" by blast
  then show ?case
  proof cases
    case 1
    with step t T IH [of t] show ?thesis by (simp add: Let_def)
  next
    case 2
    with step t T IH [of "pending @ t"] show ?thesis by (simp add: Let_def)
  next
    case 3
    with step t T IH [of t] show ?thesis by (simp add: Let_def SettleField_eq kept_def carried_def)
  qed
qed

lemma StripLoop_header_fields:
  "StripLoop w (b \<noteq> [] \<and> last b = CHR 0x0A) (SplitString b CHR 0x0A) [] ([], 0) =
     (concat (kept w (header_fields b)), length (carried w (header_fields b)))"
  using StripLoop_spec [of "b \<noteq> [] \<and> last b = CHR 0x0A" "SplitString b CHR 0x0A" w "[]" "[]" 0] keep_lines_not_Nil [of _ b]
  unfolding keep_lines_SplitString [symmetric] by (simp add: list_all_iff header_fields_def Let_def)

lemma Strip_header_fields:
  assumes "\<And>p. set p \<subseteq> set b \<Longrightarrow> conv p = p"
  shows "StripResultsForAuthservId conv b a =
     (concat (kept (MakeLower a) (header_fields b)), length (carried (MakeLower a) (header_fields b)))"
  by (simp add: StripResultsForAuthservId_def SplitStringAnsi_conv [OF assms] StripLoop_header_fields)

lemma set_kept_subset: "set (concat (kept w (header_fields b))) \<subseteq> set b"
proof -
  have "set (concat (kept w fs)) \<subseteq> set (concat fs)" for fs by (auto simp: kept_def)
  from this [of "header_fields b"] show ?thesis by (simp only: concat_header_fields)
qed

lemma header_fields_kept: "header_fields (concat (kept w (header_fields b))) = kept w (header_fields b)"
  unfolding kept_def by (rule header_fields_concat) (rule wf_fields_filter, rule wf_header_fields)

lemma kept_kept [simp]: "kept w (kept w fs) = kept w fs" "carried w (kept w fs) = []"
  by (simp_all add: kept_def carried_def filter_empty_conv)

subsection \<open>Recognising a field\<close>

lemma IsSafeChar_not:
  "IsSafeChar c \<Longrightarrow> c \<noteq> CHR 0x00 \<and> c \<noteq> CHR 0x0D \<and> c \<noteq> CHR 0x0A \<and> c \<noteq> CHR 0x09 \<and> c \<noteq> CHR '' '' \<and> c \<noteq> CHR '';'' \<and>
     c \<noteq> CHR 0x22 \<and> c \<noteq> CHR 0x7B \<and> \<not> isspace_classic c"
  by (auto simp: IsSafeChar_def isspace_classic_def char_ranges)

text \<open>Cutting a text before the first occurrence of a character.\<close>

lemma cut_before:
  "(case Find_str s [c] of None \<Rightarrow> s | Some i \<Rightarrow> Mid_count s 0 i) = takeWhile (\<lambda>x. x \<noteq> c) s"
  by (induction s) (auto split: option.splits)

lemma cut_before_later:
  "s = [] \<or> hd s \<noteq> c \<Longrightarrow>
   (case Find_str s [c] of None \<Rightarrow> s | Some i \<Rightarrow> if i > 0 then Mid_count s 0 i else s) = takeWhile (\<lambda>x. x \<noteq> c) s"
  unfolding cut_before [symmetric] by (cases s) (auto split: option.splits)

definition unfolded :: "AnsiString \<Rightarrow> AnsiString" where
  "unfolded v = Replace (Replace v [CHR 0x0D] []) [CHR 0x0A] '' ''"

lemma unfolded_append [simp]: "unfolded (a @ b) = unfolded a @ unfolded b"
  by (simp add: unfolded_def Replace_single)

lemma unfolded_Nil [simp]: "unfolded [] = []"
  by (simp add: unfolded_def)

lemma unfolded_Cons:
  "unfolded (c # s) = (if c = CHR 0x0D then [] else if c = CHR 0x0A then '' '' else [c]) @ unfolded s"
  by (simp add: unfolded_def Replace_single)

lemma unfolded_id: "CHR 0x0D \<notin> set s \<Longrightarrow> CHR 0x0A \<notin> set s \<Longrightarrow> unfolded s = s"
  by (induction s) (auto simp: unfolded_Cons)

definition is_fws :: "char \<Rightarrow> bool" where
  "is_fws c \<longleftrightarrow> c = CHR '' '' \<or> c = CHR 0x09 \<or> c = CHR 0x0D \<or> c = CHR 0x0A"

lemma unfolded_fws: "list_all is_fws ws \<Longrightarrow> list_all isspace_classic (unfolded ws) \<and> CHR '';'' \<notin> set (unfolded ws)"
  by (induction ws) (auto simp: unfolded_Cons is_fws_def isspace_classic_def char_ranges)

lemma TrimLeft_append: "list_all isspace_classic ws \<Longrightarrow> TrimLeft (ws @ s) = TrimLeft s"
  by (induction ws) (auto simp: TrimLeft_def)

lemma TrimRight_append:
  assumes "xs \<noteq> []" "\<not> isspace_classic (last xs)"
  shows "TrimRight (xs @ ys) = xs @ TrimRight ys"
proof -
  have "dropWhile isspace_classic (rev xs) = rev xs"
    using assms by (cases xs rule: rev_cases) auto
  then show ?thesis by (simp add: TrimRight_def dropWhile_append)
qed

lemma TrimRight_hd: "TrimRight ys = [] \<or> hd (TrimRight ys) = hd ys"
proof -
  have "ys = TrimRight ys @ rev (takeWhile isspace_classic (rev ys))"
    by (metis TrimRight_def rev_append rev_rev_ident takeWhile_dropWhile_id)
  then show ?thesis by (metis hd_append2)
qed

lemma Trim_padded:
  assumes "list_all isspace_classic ws" "xs \<noteq> []" "\<not> isspace_classic (hd xs)" "\<not> isspace_classic (last xs)"
  shows "Trim (ws @ xs @ ys) = xs @ TrimRight ys"
proof -
  have "TrimLeft (xs @ ys) = xs @ ys" using assms(2,3) by (cases xs) (auto simp: TrimLeft_def)
  then show ?thesis using assms by (simp add: Trim_def TrimLeft_append TrimRight_append)
qed

lemma MakeLower_eq: "CHR 0x00 \<notin> set s \<Longrightarrow> MakeLower s = map tolower_classic s"
  by (auto simp: MakeLower_def takeWhile_eq_all_conv)

lemma field_name_facts:
  assumes "map tolower_classic name = ''authentication-results''"
  shows "Find_str (name @ CHR '':'' # v) '':'' = Some (length name)" "name \<noteq> []" "Trim name = name"
    "CompareNoCase name ''Authentication-Results'' = 0"
proof -
  have keep: "c \<notin> set name" if "tolower_classic c = c" "c \<notin> set ''authentication-results''" for c
    using that assms by (metis image_eqI list.set_map)
  have same: "tolower_classic c = c" if "\<not> (CHR ''A'' \<le> c \<and> c \<le> CHR ''Z'')" for c
    unfolding tolower_classic_def using that by (simp only: if_False)
  show "name \<noteq> []" using assms by auto
  have "CHR '':'' \<notin> set name" "CHR 0x00 \<notin> set name"
    by (rule keep; simp add: tolower_classic_def char_ranges)+
  then show "Find_str (name @ CHR '':'' # v) '':'' = Some (length name)"
    by (simp add: Find_str_single Find_append_hit)
  have "\<not> isspace_classic c" if "c \<in> set name" for c
  proof
    assume sp: "isspace_classic c"
    then have "tolower_classic c = c" by (intro same) (auto simp: isspace_classic_def char_ranges)
    moreover have "c \<notin> set ''authentication-results''" using sp by (auto simp: isspace_classic_def char_ranges)
    ultimately show False using keep that by blast
  qed
  then show "Trim name = name" using \<open>name \<noteq> []\<close> by (intro Trim_unspaced) auto
  show "CompareNoCase name ''Authentication-Results'' = 0"
  proof -
    have "map tolower_classic ''Authentication-Results'' = ''authentication-results''" by code_simp
    with assms \<open>CHR 0x00 \<notin> set name\<close> show ?thesis by (simp add: CompareNoCase_zero_iff)
  qed
qed

definition identity_of :: "AnsiString \<Rightarrow> AnsiString" where
  "identity_of v =
     (let v = Trim (takeWhile (\<lambda>c. c \<noteq> CHR '';'') (unfolded v));
          v = (if length v \<ge> 2 \<and> v ! 0 = CHR 0x22 then takeWhile (\<lambda>c. c \<noteq> CHR 0x22) (tl v)
               else takeWhile (\<lambda>c. c \<noteq> CHR '' '') v)
      in MakeLower (Trim v))"

lemma quoted_part:
  assumes "length v \<ge> 2"
  shows "(case Find_from v [q] 1 of Some i \<Rightarrow> Mid_count v 1 (i - 1) | None \<Rightarrow> Mid v 1) = takeWhile (\<lambda>c. c \<noteq> q) (tl v)"
proof -
  have "Find_from v [q] 1 = map_option Suc (Find_str (tl v) [q])"
    using assms by (simp add: Find_from_def drop_Suc plus_1_eq_Suc [abs_def])
  then show ?thesis using cut_before [of "tl v" q] by (auto simp: drop_Suc split: option.splits)
qed

lemma Trim_hd: "Trim v = [] \<or> hd (Trim v) \<noteq> CHR '' ''"
proof -
  have "Trim v \<noteq> [] \<Longrightarrow> \<not> isspace_classic (hd (Trim v))"
  proof -
    assume ne: "Trim v \<noteq> []"
    then have "hd (Trim v) = hd (TrimLeft v)" "TrimLeft v \<noteq> []"
      using TrimRight_hd [of "TrimLeft v"] by (auto simp: Trim_def TrimRight_def)
    then show ?thesis using hd_dropWhile [of isspace_classic v] by (simp add: TrimLeft_def)
  qed
  then show ?thesis by (auto simp: isspace_classic_def)
qed

text \<open>What the recognition computes, once the name of the field is the right one.\<close>

lemma FieldIdentity_eq: "FieldIdentity v = identity_of v"
proof -
  define u where "u = Trim (takeWhile (\<lambda>c. c \<noteq> CHR '';'') (unfolded v))"
  have "(if length u \<ge> 2 \<and> u ! 0 = CHR 0x22 then
           (case Find_from u [CHR 0x22] 1 of Some i \<Rightarrow> Mid_count u 1 (i - 1) | None \<Rightarrow> Mid u 1)
         else (case Find_str u '' '' of None \<Rightarrow> u | Some i \<Rightarrow> if i > 0 then Mid_count u 0 i else u)) =
      (if length u \<ge> 2 \<and> u ! 0 = CHR 0x22 then takeWhile (\<lambda>c. c \<noteq> CHR 0x22) (tl u)
       else takeWhile (\<lambda>c. c \<noteq> CHR '' '') u)"
    using quoted_part [of u "CHR 0x22"] cut_before_later [of u "CHR '' ''"] Trim_hd unfolding u_def by simp
  then show ?thesis
    unfolding FieldIdentity_def identity_of_def Let_def cut_before unfolded_def [symmetric] u_def [symmetric]
    by (simp only:)
qed

lemma FieldCarries_identity:
  assumes "map tolower_classic name = ''authentication-results''"
  shows "FieldCarriesAuthservId (name @ CHR '':'' # v) w \<longleftrightarrow> identity_of v = w"
  using field_name_facts [OF assms] by (simp add: FieldCarriesAuthservId_def FieldIdentity_eq)

lemma safe_text:
  assumes "list_all IsSafeChar s"
  shows "CHR 0x00 \<notin> set s" "CHR '';'' \<notin> set s" "CHR '' '' \<notin> set s" "CHR 0x22 \<notin> set s" "CHR 0x7B \<notin> set s"
    "unfolded s = s" "MakeLower s = map tolower_classic s"
    "s \<noteq> [] \<Longrightarrow> \<not> isspace_classic (hd s) \<and> \<not> isspace_classic (last s)" "Trim s = s"
proof -
  note sc = IsSafeChar_not
  show nul: "CHR 0x00 \<notin> set s" and "CHR '';'' \<notin> set s" "CHR '' '' \<notin> set s" "CHR 0x22 \<notin> set s" "CHR 0x7B \<notin> set s"
    using assms sc by (auto simp: list_all_iff)
  show "unfolded s = s" using assms sc by (intro unfolded_id) (auto simp: list_all_iff)
  show "MakeLower s = map tolower_classic s" using nul by (rule MakeLower_eq)
  show ends: "\<not> isspace_classic (hd s) \<and> \<not> isspace_classic (last s)" if "s \<noteq> []"
    using that assms sc by (simp add: list_all_iff)
  show "Trim s = s" using ends by (intro Trim_unspaced) blast
qed

lemma identity_of_token:
  assumes "list_all is_fws ws" "ident \<noteq> []" "list_all IsSafeChar ident"
    "unfolded rest = [] \<or> hd (unfolded rest) = CHR '';'' \<or> hd (unfolded rest) = CHR '' ''"
  shows "identity_of (ws @ ident @ rest) = map tolower_classic ident"
proof -
  note ws = unfolded_fws [OF assms(1)]
  note id = safe_text [OF assms(3)]
  define r where "r = takeWhile (\<lambda>c. c \<noteq> CHR '';'') (unfolded rest)"
  have r: "r = [] \<or> hd r = CHR '' ''"
    using assms(4) unfolding r_def by (cases "unfolded rest") auto
  have "takeWhile (\<lambda>c. c \<noteq> CHR '';'') (unfolded (ws @ ident @ rest)) = unfolded ws @ ident @ r"
    using ws id by (auto simp: r_def takeWhile_append)
  moreover have "Trim (unfolded ws @ ident @ r) = ident @ TrimRight r"
    using ws id(8) assms(2) by (intro Trim_padded) auto
  moreover have "(ident @ TrimRight r) ! 0 \<noteq> CHR 0x22"
    using assms(2) id(4) by (cases ident) auto
  moreover have "takeWhile (\<lambda>c. c \<noteq> CHR '' '') (ident @ TrimRight r) = ident"
  proof -
    have "TrimRight [] = []" by (simp add: TrimRight_def)
    with r TrimRight_hd [of r] have "takeWhile (\<lambda>c. c \<noteq> CHR '' '') (TrimRight r) = []"
      by (cases "TrimRight r") auto
    moreover have "c \<in> set ident \<Longrightarrow> c \<noteq> CHR '' ''" for c using id(3) by blast
    ultimately show ?thesis by (simp add: takeWhile_append2)
  qed
  ultimately show ?thesis using id by (simp add: identity_of_def)
qed

lemma identity_of_quoted:
  assumes "list_all is_fws ws" "list_all IsSafeChar ident"
  shows "identity_of (ws @ CHR 0x22 # ident @ CHR 0x22 # rest) = map tolower_classic ident"
proof -
  note ws = unfolded_fws [OF assms(1)]
  note id = safe_text [OF assms(2)]
  define r where "r = takeWhile (\<lambda>c. c \<noteq> CHR '';'') (unfolded rest)"
  let ?q = "CHR 0x22 # ident @ [CHR 0x22]"
  have "takeWhile (\<lambda>c. c \<noteq> CHR '';'') (unfolded (ws @ CHR 0x22 # ident @ CHR 0x22 # rest)) = unfolded ws @ ?q @ r"
    using ws id by (auto simp: r_def takeWhile_append unfolded_Cons)
  moreover have "Trim (unfolded ws @ ?q @ r) = ?q @ TrimRight r"
    using ws by (intro Trim_padded) (auto simp: isspace_classic_def char_ranges)
  moreover have "takeWhile (\<lambda>c. c \<noteq> CHR 0x22) (ident @ CHR 0x22 # TrimRight r) = ident"
    using id(4) by (auto simp: takeWhile_append)
  ultimately show ?thesis using id by (simp add: identity_of_def)
qed

subsection \<open>The text of a field\<close>

definition printable :: "AnsiString \<Rightarrow> bool" where
  "printable s \<longleftrightarrow> list_all (\<lambda>c. CHR '' '' \<le> c \<and> c \<le> CHR ''~'') s"

lemma printable_append [simp]: "printable (a @ b) \<longleftrightarrow> printable a \<and> printable b"
  by (simp add: printable_def)

lemma printable_Cons: "printable (c # s) \<longleftrightarrow> CHR '' '' \<le> c \<and> c \<le> CHR ''~'' \<and> printable s"
  by (simp add: printable_def)

lemma printable_Nil [simp]: "printable []"
  by (simp add: printable_def)

lemma printable_no_break: "printable s \<Longrightarrow> CHR 0x0A \<notin> set s"
  by (auto simp: printable_def list_all_iff char_ranges)

text \<open>
  A folded text: lines of printable characters, none longer than \<open>n\<close>, each but the first after a
  line break and a tab.
\<close>

definition folded :: "nat \<Rightarrow> AnsiString \<Rightarrow> bool" where
  "folded n v \<longleftrightarrow> (\<exists>ps. v = join CRLF_TAB ps \<and> list_all (\<lambda>p. printable p \<and> length p \<le> n) ps)"

text \<open>The shape a value has while methods are appended to it: room for one more semicolon.\<close>

definition open_value :: "nat \<Rightarrow> AnsiString list \<Rightarrow> AnsiString \<Rightarrow> bool" where
  "open_value n ps p \<longleftrightarrow> list_all (\<lambda>p. printable p \<and> length p \<le> n) ps \<and> printable p \<and> length p < n"

definition open_text :: "AnsiString list \<Rightarrow> AnsiString \<Rightarrow> AnsiString" where
  "open_text ps p = join CRLF_TAB (ps @ [p])"

lemma open_text_snoc: "ps \<noteq> [] \<Longrightarrow> open_text ps p = join CRLF_TAB ps @ CRLF_TAB @ p"
  by (simp add: open_text_def join_append)

lemma open_text_line:
  assumes "printable p"
  shows "length p \<le> length (open_text ps p) -
    (case ReverseFind (open_text ps p) CHR 0x0A of None \<Rightarrow> 0 | Some i \<Rightarrow> i + 1)"
proof (cases "ps = []")
  case True
  then show ?thesis using printable_no_break [OF assms] by (simp add: open_text_def)
next
  case False
  have "ReverseFind ((join CRLF_TAB ps @ [CHR 0x0D]) @ CHR 0x0A # CHR 0x09 # p) CHR 0x0A =
      Some (length (join CRLF_TAB ps @ [CHR 0x0D]))"
    using printable_no_break [OF assms] by (intro ReverseFind_append_hit) simp
  then show ?thesis by (simp add: open_text_snoc [OF False])
qed

lemma AppendMethod_open:
  assumes "open_value n ps p" "printable clause" "length clause < n" "MaxLineLength < n"
  shows "\<exists>ps' p'. AppendMethod (open_text ps p) clause = open_text ps' p' \<and> open_value n ps' p' \<and>
    (\<exists>t. AppendMethod (open_text ps p) clause = open_text ps p @ CHR '';'' # t)"
proof -
  let ?len = "length (open_text ps p) - (case ReverseFind (open_text ps p) CHR 0x0A of None \<Rightarrow> 0 | Some i \<Rightarrow> i + 1)"
  have p: "printable p" "length p < n" using assms(1) by (auto simp: open_value_def)
  have len: "length p \<le> ?len" by (rule open_text_line [OF p(1)])
  have app: "open_text ps p @ x = open_text ps (p @ x)" for x
    by (cases "ps = []") (simp_all add: open_text_def join_append)
  show ?thesis
  proof (cases "?len + length clause + 2 > MaxLineLength")
    case True
    have "AppendMethod (open_text ps p) clause = open_text ps p @ '';'' @ CRLF_TAB @ clause"
      using True by (simp add: AppendMethod_def Let_def)
    also have "\<dots> = open_text (ps @ [p @ '';'']) clause"
      using app [of "'';''"] by (simp add: open_text_snoc) (simp add: open_text_def)
    finally have "AppendMethod (open_text ps p) clause = open_text (ps @ [p @ '';'']) clause" .
    moreover have "open_value n (ps @ [p @ '';'']) clause"
      using assms by (auto simp: open_value_def printable_Cons char_ranges)
    moreover have "AppendMethod (open_text ps p) clause = open_text ps p @ CHR '';'' # (CRLF_TAB @ clause)"
      using True by (simp add: AppendMethod_def Let_def)
    ultimately show ?thesis by blast
  next
    case False
    have eq: "AppendMethod (open_text ps p) clause = open_text ps p @ CHR '';'' # ('' '' @ clause)"
      using False by (simp add: AppendMethod_def Let_def)
    moreover have "\<dots> = open_text ps (p @ ''; '' @ clause)" using app [of "''; '' @ clause"] by simp
    moreover have "open_value n ps (p @ ''; '' @ clause)"
      using assms False len by (auto simp: open_value_def printable_Cons char_ranges)
    ultimately show ?thesis by metis
  qed
qed

subsection \<open>The clauses\<close>

lemma placeholders: "placeholder 0 = ''{0}''" "placeholder (Suc 0) = ''{1}''" "placeholder 2 = ''{2}''"
  by code_simp+

lemma format1:
  "CHR 0x7B \<notin> set v \<Longrightarrow> CHR 0x7B \<notin> set (a @ b) \<Longrightarrow>
   FormatAsAnsi1 False (a @ ''{0}'' @ b) (TypeAnsiString v) = a @ v @ b"
  using FormatLoop_format_text [of "[Literal a, Hole 0, Literal b]" "[TypeAnsiString v]" 0]
  by (simp add: FormatAsAnsi1_def FormatList_def GetValue_def format_text_def placeholders)

lemma format2:
  "CHR 0x7B \<notin> set (v @ w) \<Longrightarrow> CHR 0x7B \<notin> set (a @ b @ c) \<Longrightarrow>
   FormatAsAnsi2 False (a @ ''{0}'' @ b @ ''{1}'' @ c) (TypeAnsiString v) (TypeAnsiString w) = a @ v @ b @ w @ c"
  using FormatLoop_format_text [of "[Literal a, Hole 0, Literal b, Hole 1, Literal c]" "[TypeAnsiString v, TypeAnsiString w]" 0]
  by (simp add: FormatAsAnsi2_def FormatList_def GetValue_def format_text_def placeholders)

lemma format3:
  "CHR 0x7B \<notin> set (v @ w @ x) \<Longrightarrow> CHR 0x7B \<notin> set (a @ b @ c @ d) \<Longrightarrow>
   FormatAsAnsi3 False (a @ ''{0}'' @ b @ ''{1}'' @ c @ ''{2}'' @ d) (TypeAnsiString v) (TypeAnsiString w) (TypeAnsiString x) =
     a @ v @ b @ w @ c @ x @ d"
  using FormatLoop_format_text [of "[Literal a, Hole 0, Literal b, Hole 1, Literal c, Hole 2, Literal d]"
      "[TypeAnsiString v, TypeAnsiString w, TypeAnsiString x]" 0]
  by (simp add: FormatAsAnsi3_def FormatList_def GetValue_def format_text_def placeholders)

lemma IsSafeChar_printable: "IsSafeChar c \<Longrightarrow> CHR '' '' \<le> c \<and> c \<le> CHR ''~''"
  by (auto simp: IsSafeChar_def char_ranges)

lemma safe_printable: "list_all IsSafeChar s \<Longrightarrow> printable s"
  using IsSafeChar_printable by (auto simp: printable_def list_all_iff)

lemma SanitizeValue_safe: "list_all IsSafeChar (SanitizeValue s)" "length (SanitizeValue s) \<le> 255"
  by (auto simp: SanitizeValue_eq list_all_iff dest: in_set_takeD)

lemmas SanitizeValue_text [simp] =
  safe_printable [OF SanitizeValue_safe(1)] safe_text(5) [OF SanitizeValue_safe(1)]

lemma ResultKeyword_text [simp]: "CHR 0x7B \<notin> set (ResultKeyword m)" "printable (ResultKeyword m)"
  by (cases m; simp add: ResultKeyword_def printable_Cons char_ranges)+

lemma ResultKeyword_length: "length (ResultKeyword m) \<le> 9"
  by (cases m) (simp_all add: ResultKeyword_def)

definition known_identity_type :: "AnsiString \<Rightarrow> bool" where
  "known_identity_type t \<longleftrightarrow> t = ''smtp.mailfrom'' \<or> t = ''smtp.helo''"

lemma known_identity_type_text:
  "known_identity_type t \<Longrightarrow> CHR 0x7B \<notin> set t \<and> printable t \<and> length t \<le> 13"
  by (auto simp: known_identity_type_def printable_Cons char_ranges)

definition clause_ok :: "AnsiString \<Rightarrow> bool" where
  "clause_ok c \<longleftrightarrow> printable c \<and> length c < 600"

lemma SpfClause_eq:
  assumes "known_identity_type (spf_identity_type r)"
  shows "SpfClause r = ''spf='' @ ResultKeyword (spf_result r) @
    (if SanitizeValue (spf_identity_value r) = [] then []
     else '' '' @ spf_identity_type r @ ''='' @ SanitizeValue (spf_identity_value r))"
  using format1 [of "ResultKeyword (spf_result r)" "''spf=''" "[]"]
    format2 [of "spf_identity_type r" "SanitizeValue (spf_identity_value r)" "'' ''" "''=''" "[]"]
    known_identity_type_text [OF assms]
  by (simp add: SpfClause_def Let_def)

lemma SpfClause_ok: "known_identity_type (spf_identity_type r) \<Longrightarrow> clause_ok (SpfClause r)"
  using known_identity_type_text [of "spf_identity_type r"] SanitizeValue_safe(2) [of "spf_identity_value r"]
    ResultKeyword_length [of "spf_result r"]
  by (auto simp: SpfClause_eq clause_ok_def printable_Cons char_ranges)

lemma DkimClause_ok: "clause_ok (DkimClause e)"
  using format1 [of "ResultKeyword (dkim_result e)" "''dkim=''" "[]"]
    format1 [of "SanitizeValue (dkim_domain e)" "'' header.d=''" "[]"] SanitizeValue_safe(2) [of "dkim_domain e"]
    ResultKeyword_length [of "dkim_result e"]
  by (auto simp: DkimClause_def Let_def clause_ok_def printable_Cons char_ranges)

lemma DmarcClause_ok: "clause_ok (DmarcClause r)"
  using format1 [of "ResultKeyword (dmarc_result r)" "''dmarc=''" "[]"]
    format1 [of "SanitizeValue (dmarc_policy r)" "'' (p=''" "'')''"]
    format1 [of "SanitizeValue (dmarc_from_domain r)" "'' header.from=''" "[]"]
    SanitizeValue_safe(2) [of "dmarc_policy r"] SanitizeValue_safe(2) [of "dmarc_from_domain r"]
    ResultKeyword_length [of "dmarc_result r"]
  by (auto simp: DmarcClause_def Let_def clause_ok_def printable_Cons char_ranges)

subsection \<open>The built values\<close>

lemma GetAuthservId_text:
  "list_all IsSafeChar (GetAuthservId a b)" "GetAuthservId a b \<noteq> []" "length (GetAuthservId a b) \<le> 255"
  using SanitizeValue_safe [of "MakeLower (if a = [] then b else a)"]
  by (auto simp: GetAuthservId_def Let_def IsSafeChar_def char_ranges)

definition grown :: "AnsiString \<Rightarrow> AnsiString \<Rightarrow> bool" where
  "grown ident v \<longleftrightarrow> (\<exists>ps p. v = open_text ps p \<and> open_value 600 ps p) \<and>
     (\<exists>t. v = ident @ t \<and> (t = [] \<or> hd t = CHR '';''))"

lemma grown_start: "list_all IsSafeChar ident \<Longrightarrow> length ident \<le> 255 \<Longrightarrow> grown ident ident"
  unfolding grown_def open_text_def open_value_def
  by (intro conjI exI [of _ "[]"] exI [of _ ident]) (auto simp: safe_printable)

lemma grown_AppendMethod:
  assumes "grown ident v" "clause_ok c"
  shows "grown ident (AppendMethod v c)"
proof -
  from assms(1) obtain ps p t where v: "v = open_text ps p" "open_value 600 ps p"
    "v = ident @ t" "t = [] \<or> hd t = CHR '';''" by (auto simp: grown_def)
  from assms(2) have "printable c" "length c < 600" "MaxLineLength < 600"
    by (simp_all add: clause_ok_def MaxLineLength_def)
  from AppendMethod_open [OF v(2) this] obtain ps' p' u where
    "AppendMethod v c = open_text ps' p'" "open_value 600 ps' p'" "AppendMethod v c = v @ CHR '';'' # u"
    unfolding v(1) [symmetric] by blast
  moreover have "v @ CHR '';'' # u = ident @ (t @ CHR '';'' # u)" "hd (t @ CHR '';'' # u) = CHR '';''"
    using v(3,4) by (auto simp: hd_append)
  ultimately show ?thesis unfolding grown_def by metis
qed

lemma grown_value:
  assumes "known_identity_type (spf_identity_type r)" "\<not> IsEmpty r"
  shows "grown (GetAuthservId a b) (BuildAuthenticationResultsValue a b r)"
proof -
  let ?id = "GetAuthservId a b"
  have fold: "grown ?id v \<Longrightarrow> grown ?id (foldl (\<lambda>v e. AppendMethod v (DkimClause e)) v es)" for v es
    by (induction es arbitrary: v) (simp_all add: grown_AppendMethod DkimClause_ok)
  have "grown ?id ?id" using GetAuthservId_text by (intro grown_start) auto
  then show ?thesis
    using assms fold by (simp add: BuildAuthenticationResultsValue_def Let_def grown_AppendMethod SpfClause_ok DmarcClause_ok)
qed

lemma grown_folded: "grown ident v \<Longrightarrow> folded 600 v"
  by (fastforce simp: grown_def folded_def open_text_def open_value_def)

text \<open>A text of at most \<open>n\<close> printable characters that holds no opening brace.\<close>

definition plain :: "nat \<Rightarrow> AnsiString \<Rightarrow> bool" where
  "plain n s \<longleftrightarrow> printable s \<and> CHR 0x7B \<notin> set s \<and> length s \<le> n"

lemma plain_append: "plain m a \<Longrightarrow> plain n b \<Longrightarrow> m + n \<le> k \<Longrightarrow> plain k (a @ b)"
  by (auto simp: plain_def)

lemma plain_no_brace: "plain n s \<Longrightarrow> CHR 0x7B \<notin> set s"
  by (simp add: plain_def)

lemma plain_safe: "list_all IsSafeChar s \<Longrightarrow> length s \<le> n \<Longrightarrow> plain n s"
  by (simp add: plain_def safe_printable safe_text(5))

lemma explanation_words:
  "plain 12 '': domain of ''" "plain 20 '' designates ''" "plain 20 '' as permitted sender''"
  "plain 20 '' does not designate ''" "plain 2 '': ''" "plain 33 '' does not publish an SPF policy''"
  "plain 20 '': the SPF policy of ''" "plain 30 '' could not be evaluated''"
  by (simp_all add: plain_def printable_Cons char_ranges)

lemma SpfExplanation_plain:
  assumes id: "plain 255 ident" and who: "plain 255 who" and ip: "plain 45 ip"
  shows "plain 620 (SpfExplanation m ident who ip)"
proof -
  note nb = plain_no_brace [OF id] plain_no_brace [OF who] plain_no_brace [OF ip]
  have "SpfExplanation m ident who ip = ident @ '': domain of '' @ who @ '' designates '' @ ip @ '' as permitted sender'' \<or>
     SpfExplanation m ident who ip = ident @ '': domain of '' @ who @ '' does not designate '' @ ip @ '' as permitted sender'' \<or>
     SpfExplanation m ident who ip = ident @ '': '' @ who @ '' does not publish an SPF policy'' \<or>
     SpfExplanation m ident who ip = ident @ '': the SPF policy of '' @ who @ '' could not be evaluated''"
    using nb format3 [of ident who ip "[]" "'': domain of ''" "'' designates ''" "'' as permitted sender''"]
      format3 [of ident who ip "[]" "'': domain of ''" "'' does not designate ''" "'' as permitted sender''"]
      format2 [of ident who "[]" "'': ''" "'' does not publish an SPF policy''"]
      format2 [of ident who "[]" "'': the SPF policy of ''" "'' could not be evaluated''"]
    by (cases m) (simp_all add: SpfExplanation_def)
  then show ?thesis
    using id who ip explanation_words unfolding plain_def by (elim disjE) (simp_all only: length_append printable_append set_append, auto)
qed

lemma received_words:
  "plain 2 '' (''" "plain 1 '')''" "plain 10 ''client-ip=''" "plain 17 ''; envelope-from=<''" "plain 2 ''>;''"
  "plain 6 '' helo=''" "plain 1 '';''" "plain 10 '' receiver=''" "plain 11 ''; identity=''" "plain 8 ''helo''" "plain 8 ''mailfrom''"
  by (simp_all add: plain_def printable_Cons char_ranges)

lemma BuildReceivedSpfValue_parts:
  assumes "spf_result r \<noteq> MethodNotEvaluated" "length (spf_client_ip r) \<le> 45"
  shows "folded 900 (BuildReceivedSpfValue a b r)"
proof -
  define ident where "ident = GetAuthservId a b"
  define who where "who = SanitizeValue (spf_identity_value r)"
  define ip where "ip = SanitizeValue (spf_client_ip r)"
  define helo where "helo = SanitizeValue (spf_helo_host r)"
  define ex where "ex = SpfExplanation (spf_result r) ident who ip"
  define idt where "idt = (if spf_identity_type r = ''smtp.helo'' then ''helo'' else ''mailfrom'')"
  define kw where "kw = ResultKeyword (spf_result r)"
  have "length ip \<le> 45"
    using assms(2) by (simp add: ip_def SanitizeValue_eq) (meson le_trans length_filter_le min.coboundedI1)
  then have pl: "plain 255 ident" "plain 255 who" "plain 45 ip" "plain 255 helo" "plain 8 idt" "plain 9 kw"
    using SanitizeValue_safe GetAuthservId_text received_words ResultKeyword_length
    by (auto simp: ident_def who_def ip_def helo_def idt_def kw_def plain_def[of 9] intro: plain_safe)
  then have ex: "plain 620 ex" unfolding ex_def by (intro SpfExplanation_plain)
  note nb = pl [THEN plain_no_brace] plain_no_brace [OF ex]
  define p1 where "p1 = kw @ '' ('' @ ex @ '')''"
  define h where "h = (if helo = [] then [] else '' helo='' @ helo @ '';'')"
  define p2 where "p2 = ''client-ip='' @ ip @ ''; envelope-from=<'' @ who @ ''>;'' @ h @ '' receiver='' @ ident @ ''; identity='' @ idt"
  have "BuildReceivedSpfValue a b r = p1 @ CRLF_TAB @ p2"
    unfolding BuildReceivedSpfValue_def Let_def ident_def [symmetric] who_def [symmetric] ip_def [symmetric]
      helo_def [symmetric] ex_def [symmetric] idt_def [symmetric] kw_def [symmetric]
    using assms(1) nb format2 [of kw ex "[]" "'' (''" "'')''"]
      format2 [of ip who "''client-ip=''" "''; envelope-from=<''" "''>;''"]
      format1 [of helo "'' helo=''" "'';''"] format2 [of ident idt "'' receiver=''" "''; identity=''" "[]"]
    by (simp add: p1_def p2_def h_def)
  moreover have "plain 900 p1"
    using pl ex received_words unfolding plain_def p1_def by (simp only: length_append printable_append set_append) auto
  moreover have "plain 262 h" using pl received_words unfolding plain_def h_def
    by (simp only: length_append printable_append set_append split: if_split) auto
  then have "plain 900 p2"
    using pl received_words unfolding plain_def p2_def by (simp only: length_append printable_append set_append) auto
  ultimately show ?thesis unfolding folded_def plain_def by (intro exI [of _ "[p1, p2]"]) simp
qed

lemma GetAuthservId_lower: "map tolower_classic (GetAuthservId a b) = GetAuthservId a b"
proof -
  have low: "tolower_classic c = c" if "c \<in> set (MakeLower s)" for c s
    using MakeLower_chars [OF that] by blast
  have "map tolower_classic (SanitizeValue (MakeLower s)) = SanitizeValue (MakeLower s)" for s
    by (intro map_idI low) (auto simp: SanitizeValue_eq dest: in_set_takeD)
  moreover have "map tolower_classic ''localhost'' = ''localhost''" by code_simp
  ultimately show ?thesis by (simp add: GetAuthservId_def Let_def)
qed

section \<open>Properties\<close>

text \<open>
  C32: Removing the fields that claim an identity keeps every other field byte for byte and in
  order, and counts what it removed. The fields of a block are those of RFC 5322, a line with its
  continuations, and together they are the block. The conversion of the lines has to give every text
  made of the block's bytes back, as it does for ASCII.
\<close>

theorem strip_keeps_other_fields:
  assumes "\<And>p. set p \<subseteq> set b \<Longrightarrow> conv p = p"
  shows "StripResultsForAuthservId conv b a =
      (concat (filter (\<lambda>f. \<not> FieldCarriesAuthservId f (MakeLower a)) (header_fields b)),
       length (filter (\<lambda>f. FieldCarriesAuthservId f (MakeLower a)) (header_fields b))) \<and>
    concat (header_fields b) = b"
  using Strip_header_fields [OF assms] by (simp add: kept_def carried_def concat_header_fields)

theorem strip_keeps_other_fields_witness:
  "StripResultsForAuthservId (\<lambda>p. p)
     (''A: 1'' @ [CHR 0x0D, CHR 0x0A] @ ''Authentication-Results:'' @ CRLF_TAB @ ''Mail; spf=pass'' @ [CHR 0x0D, CHR 0x0A] @
      ''B: 2'' @ [CHR 0x0D, CHR 0x0A]) ''mail'' =
     (''A: 1'' @ [CHR 0x0D, CHR 0x0A] @ ''B: 2'' @ [CHR 0x0D, CHR 0x0A], 1)"
  (is "StripResultsForAuthservId _ ?b _ = ?r")
proof -
  have "StripResultsForAuthservId (\<lambda>p. p) ?b ''mail'' =
      (concat (filter (\<lambda>f. \<not> FieldCarriesAuthservId f (MakeLower ''mail'')) (header_fields ?b)),
       length (filter (\<lambda>f. FieldCarriesAuthservId f (MakeLower ''mail'')) (header_fields ?b)))"
    using strip_keeps_other_fields [of ?b "\<lambda>p. p" "''mail''"] by blast
  also have "\<dots> = ?r" by code_simp
  finally show ?thesis .
qed

text \<open>
  A field that claims an identity: the name in any upper and lower case, any run of blanks, tabs and line breaks, the identity in any upper and
  lower case as a token that ends the value or stands before a semicolon, a blank or a line break, or as a quoted string.
\<close>

definition claims_identity :: "AnsiString \<Rightarrow> AnsiString \<Rightarrow> bool" where
  "claims_identity f a \<longleftrightarrow>
     (\<exists>name ws ident tok rest. f = name @ CHR '':'' # ws @ tok \<and> map tolower_classic name = ''authentication-results'' \<and> list_all is_fws ws \<and>
        map tolower_classic ident = map tolower_classic a \<and>
        (tok = CHR 0x22 # ident @ CHR 0x22 # rest \<or>
         tok = ident @ rest \<and> (rest = [] \<or> hd rest = CHR '';'' \<or> hd rest = CHR '' '' \<or> hd rest = CHR 0x0A \<or>
           take 2 rest = [CHR 0x0D, CHR 0x0A])))"

lemma tolower_safe: "IsSafeChar (tolower_classic c) \<longleftrightarrow> IsSafeChar c"
proof (cases "CHR ''A'' \<le> c \<and> c \<le> CHR ''Z''")
  case True
  then have "65 \<le> ord c" "ord c \<le> 90" by (simp_all add: less_eq_char_def)
  then have "CHR ''a'' \<le> tolower_classic c" "tolower_classic c \<le> CHR ''z''" using True by (simp_all add: tolower_classic_def less_eq_char_def)
  with True show ?thesis by (simp add: IsSafeChar_def)
qed (auto simp: tolower_classic_def)

lemma claimed_identity_recognised:
  assumes "map tolower_classic name = ''authentication-results''" "list_all is_fws ws"
    "ident \<noteq> []" "list_all IsSafeChar ident"
    "tok = CHR 0x22 # ident @ CHR 0x22 # rest \<or>
     tok = ident @ rest \<and> (rest = [] \<or> hd rest = CHR '';'' \<or> hd rest = CHR '' '' \<or> hd rest = CHR 0x0A \<or>
       take 2 rest = [CHR 0x0D, CHR 0x0A])"
  shows "FieldCarriesAuthservId (name @ CHR '':'' # ws @ tok) (map tolower_classic ident)"
proof -
  have "unfolded rest = [] \<or> hd (unfolded rest) = CHR '';'' \<or> hd (unfolded rest) = CHR '' ''"
    if "rest = [] \<or> hd rest = CHR '';'' \<or> hd rest = CHR '' '' \<or> hd rest = CHR 0x0A \<or> take 2 rest = [CHR 0x0D, CHR 0x0A]"
    using that by (cases rest; cases "tl rest") (auto simp: unfolded_Cons)
  with assms identity_of_token [OF assms(2-4), of rest] identity_of_quoted [OF assms(2,4), of rest]
  show ?thesis by (auto simp: FieldCarries_identity)
qed

text \<open>
  C12: No forged result is left after the removal: whatever the block holds, none of the fields of the stripped block claims the server's identity, in any case,
  folding or quoting of name and identity; the fields are those of RFC 5322, a line with its continuations. The block
  is recognised as free of the identity, and stripping it again changes nothing.
\<close>

theorem no_forged_field_is_left:
  assumes "\<And>p. set p \<subseteq> set b \<Longrightarrow> conv p = p" "a \<noteq> []" "list_all IsSafeChar a"
  shows "list_all (\<lambda>f. \<not> claims_identity f a) (header_fields (fst (StripResultsForAuthservId conv b a))) \<and>
    \<not> ContainsResultsForAuthservId conv (fst (StripResultsForAuthservId conv b a)) a \<and>
    StripResultsForAuthservId conv (fst (StripResultsForAuthservId conv b a)) a = (fst (StripResultsForAuthservId conv b a), 0)"
proof -
  let ?s = "concat (kept (MakeLower a) (header_fields b))"
  have lower: "MakeLower a = map tolower_classic a" using safe_text(7) [OF assms(3)] by (simp add: MakeLower_eq)
  have "FieldCarriesAuthservId f (MakeLower a)" if "claims_identity f a" for f
  proof -
    from that obtain name ws ident tok rest where f: "f = name @ CHR '':'' # ws @ tok" "map tolower_classic name = ''authentication-results''" "list_all is_fws ws"
      "map tolower_classic ident = map tolower_classic a"
      "tok = CHR 0x22 # ident @ CHR 0x22 # rest \<or>
       tok = ident @ rest \<and> (rest = [] \<or> hd rest = CHR '';'' \<or> hd rest = CHR '' '' \<or> hd rest = CHR 0x0A \<or> take 2 rest = [CHR 0x0D, CHR 0x0A])"
      unfolding claims_identity_def by (elim exE conjE) (rule that)
    have safe: "list_all IsSafeChar (map tolower_classic x) = list_all IsSafeChar x" for x by (simp add: list_all_iff tolower_safe)
    have "list_all IsSafeChar ident" using safe [of ident] safe [of a] assms(3) unfolding f(4) by blast
    moreover have "ident \<noteq> []" using f(4) assms(2) by auto
    ultimately show ?thesis using claimed_identity_recognised [OF f(2,3) _ _ f(5)] unfolding lower f(1) f(4) [symmetric] by simp
  qed
  then have none: "list_all (\<lambda>f. \<not> claims_identity f a) (kept (MakeLower a) (header_fields b))" by (auto simp: kept_def list_all_iff)
  have "conv p = p" if "set p \<subseteq> set ?s" for p
    using that set_kept_subset [of "MakeLower a" b] assms(1) by blast
  from Strip_header_fields [of ?s conv a, OF this]
  have "StripResultsForAuthservId conv ?s a = (?s, 0)" by (simp add: header_fields_kept)
  moreover have "fst (StripResultsForAuthservId conv b a) = ?s" by (simp add: Strip_header_fields [OF assms(1)])
  ultimately show ?thesis using none by (simp add: ContainsResultsForAuthservId_def header_fields_kept)
qed

theorem no_forged_field_is_left_witness:
  "list_all (\<lambda>f. \<not> claims_identity f ''mail'')
     (header_fields (fst (StripResultsForAuthservId (\<lambda>p. p) (''A: b'' @ [CHR 0x0D, CHR 0x0A] @ ''AUTHENTICATION-results:'' @ CRLF_TAB @ ''Mail; dkim=pass'') ''mail'')))"
proof -
  have "list_all IsSafeChar ''mail''" by code_simp
  with no_forged_field_is_left [of "''A: b'' @ [CHR 0x0D, CHR 0x0A] @ ''AUTHENTICATION-results:'' @ CRLF_TAB @ ''Mail; dkim=pass''" "\<lambda>p. p" "''mail''"]
  show ?thesis by blast
qed

text \<open>
  C33: A forged field is recognised in every case, folding and quoting: any upper and lower case of the
  name and of the identity, any run of blanks, tabs and line breaks before it, the identity as a token that
  ends the value or stands before a semicolon, a blank or a line break, or as a quoted string.
\<close>

theorem forged_field_is_recognised:
  assumes "map tolower_classic name = ''authentication-results''" "list_all is_fws ws"
    "ident \<noteq> []" "list_all IsSafeChar ident"
    "tok = CHR 0x22 # ident @ CHR 0x22 # rest \<or>
     tok = ident @ rest \<and> (rest = [] \<or> hd rest = CHR '';'' \<or> hd rest = CHR '' '' \<or> hd rest = CHR 0x0A \<or>
       take 2 rest = [CHR 0x0D, CHR 0x0A])"
  shows "FieldCarriesAuthservId (name @ CHR '':'' # ws @ tok) (map tolower_classic ident)"
  using assms by (rule claimed_identity_recognised)

theorem forged_field_is_recognised_witness:
  "FieldCarriesAuthservId (''AUTHENTICATION-Results'' @ CHR '':'' # CRLF_TAB @ ''MX.example; spf=pass'') ''mx.example''"
proof -
  have "FieldCarriesAuthservId (''AUTHENTICATION-Results'' @ CHR '':'' # CRLF_TAB @ ''MX.example; spf=pass'')
      (map tolower_classic ''MX.example'')"
    by (rule forged_field_is_recognised [where rest = "''; spf=pass''" and ident = "''MX.example''"]) code_simp+
  moreover have "map tolower_classic ''MX.example'' = ''mx.example''" by code_simp
  ultimately show ?thesis by simp
qed

text \<open>
  The field this server writes is one it recognises: whatever the verdicts are, the field
  built from them carries the identity that the removal looks for, so a copy of it that comes
  back from outside is removed.
\<close>

theorem own_field_is_recognised:
  assumes "known_identity_type (spf_identity_type r)" "\<not> IsEmpty r"
  shows "FieldCarriesAuthservId (''Authentication-Results: '' @ BuildAuthenticationResultsValue c n r @ [CHR 0x0D, CHR 0x0A])
    (MakeLower (GetAuthservId c n))"
proof -
  let ?id = "GetAuthservId c n"
  obtain t where v: "BuildAuthenticationResultsValue c n r = ?id @ t" "t = [] \<or> hd t = CHR '';''"
    using grown_value [OF assms, of c n] by (auto simp: grown_def)
  have "identity_of ('' '' @ ?id @ (t @ [CHR 0x0D, CHR 0x0A])) = map tolower_classic ?id"
  proof (rule identity_of_token)
    let ?u = "unfolded (t @ [CHR 0x0D, CHR 0x0A])"
    show "?u = [] \<or> hd ?u = CHR '';'' \<or> hd ?u = CHR '' ''"
      using v(2) by (cases t) (auto simp: unfolded_Cons)
  qed (simp_all add: is_fws_def GetAuthservId_text)
  moreover have "map tolower_classic ''Authentication-Results'' = ''authentication-results''" by code_simp
  ultimately show ?thesis
    using FieldCarries_identity [of "''Authentication-Results''" "'' '' @ ?id @ t @ [CHR 0x0D, CHR 0x0A]"] v(1)
      safe_text(7) [OF GetAuthservId_text(1) [of c n]]
    by simp
qed

theorem own_field_is_recognised_witness:
  "FieldCarriesAuthservId
     (''Authentication-Results: '' @ BuildAuthenticationResultsValue ''mx'' [] (AddDkim MethodPass ''a.example''
        (AuthenticationResults_init\<lparr> spf_identity_type := ''smtp.helo'' \<rparr>)) @ [CHR 0x0D, CHR 0x0A])
     (MakeLower (GetAuthservId ''mx'' []))"
  by (rule own_field_is_recognised) code_simp+

text \<open>
  C34: No value from a message can add a header field or break a line. Both built values are lines
  of printable characters, joined by line breaks that are followed by a tab, whatever bytes the
  sender, the signing domains, the policy and the host name hold; no line is longer than 600 characters
  in the one field and 900 in the other, where RFC 5322 allows 998.
\<close>

theorem built_values_cannot_inject:
  assumes "known_identity_type (spf_identity_type r)" "length (spf_client_ip r) \<le> 45"
  shows "folded 600 (BuildAuthenticationResultsValue c n r) \<and> folded 900 (BuildReceivedSpfValue c n r)"
proof
  have empty: "folded k []" for k unfolding folded_def by (intro exI [of _ "[]"]) simp
  show "folded 600 (BuildAuthenticationResultsValue c n r)"
  proof (cases "IsEmpty r")
    case True
    with empty show ?thesis by (simp add: BuildAuthenticationResultsValue_def)
  next
    case False
    from grown_folded [OF grown_value [OF assms(1) False]] show ?thesis .
  qed
  show "folded 900 (BuildReceivedSpfValue c n r)"
    using BuildReceivedSpfValue_parts [OF _ assms(2)] empty
    by (cases "spf_result r = MethodNotEvaluated") (simp_all add: BuildReceivedSpfValue_def)
qed

theorem built_values_cannot_inject_witness:
  "folded 600 (BuildAuthenticationResultsValue ''mx'' [] (SetSpf MethodPass ''smtp.mailfrom''
     (''a@b'' @ [CHR 0x0D, CHR 0x0A] @ ''Bcc: x'') ''192.0.2.1'' ''h'' AuthenticationResults_init))"
proof -
  define r where "r = SetSpf MethodPass ''smtp.mailfrom''
     (''a@b'' @ [CHR 0x0D, CHR 0x0A] @ ''Bcc: x'') ''192.0.2.1'' ''h'' AuthenticationResults_init"
  have "known_identity_type (spf_identity_type r)" "length (spf_client_ip r) \<le> 45"
    by (simp_all add: r_def SetSpf_def known_identity_type_def)
  from built_values_cannot_inject [OF this, of "''mx''" "[]"] show ?thesis by (simp add: r_def)
qed

text \<open>
  Two legal ways of writing a forged field are not recognised: a tab between the identity and
  the version, and a comment before the identity, both of which RFC 8601 allows there. The
  stripped block still holds the field.
\<close>

theorem forged_field_survives:
  "StripResultsForAuthservId (\<lambda>p. p) (''Authentication-Results: mail'' @ [CHR 0x09] @ ''1; dkim=pass'') ''mail'' =
     (''Authentication-Results: mail'' @ [CHR 0x09] @ ''1; dkim=pass'', 0) \<and>
   StripResultsForAuthservId (\<lambda>p. p) ''Authentication-Results: (x) mail; dkim=pass'' ''mail'' =
     (''Authentication-Results: (x) mail; dkim=pass'', 0)"
  by code_simp

end
