(* ===== verification/IPAddress.thy ===== *)
theory IPAddress
  imports AnsiStrings "HOL-Library.Word"
begin

text \<open>
  Common/TCPIP/IPAddress.cpp: the server's address value over the bytes that the socket library keeps,
  the two 64-bit halves it is stored and compared by, and the range test that the white list and the
  security ranges use. Reading and writing the text form is the socket library's and is left out, apart from
  \<^verbatim>\<open>ToLongString\<close>, which is written here. \<^verbatim>\<open>LocalIPAddresses::IsWithinLoopbackRange\<close> is the loopback test.
\<close>

unbundle bit_operations_syntax

section \<open>Addresses\<close>

text \<open>The bytes of an address, most significant first: four of them, or sixteen.\<close>

datatype IPAddress = V4 (address_bytes: "8 word list") | V6 (address_bytes: "8 word list")

fun wf_address :: "IPAddress \<Rightarrow> bool" where
  "wf_address (V4 bs) \<longleftrightarrow> length bs = 4"
| "wf_address (V6 bs) \<longleftrightarrow> length bs = 16"

definition byte_at :: "nat \<Rightarrow> 64 word \<Rightarrow> 8 word" where
  "byte_at k a = ucast (drop_bit k a AND 0xFF)"

definition SetIPV4Address :: "64 word \<Rightarrow> IPAddress" where
  "SetIPV4Address address1 = V4 (map (\<lambda>k. byte_at k address1) [24, 16, 8, 0])"

definition SetIPV6Address :: "64 word \<Rightarrow> 64 word \<Rightarrow> IPAddress" where
  "SetIPV6Address address1 address2 =
     V6 (map (\<lambda>k. byte_at k address1) [56, 48, 40, 32, 24, 16, 8, 0] @
         map (\<lambda>k. byte_at k address2) [56, 48, 40, 32, 24, 16, 8, 0])"

text \<open>The first four bytes of a list in an \<open>int\<close>, masked, and the eight from a position in 64 bits.\<close>

definition word_of_4 :: "8 word list \<Rightarrow> 64 word" where
  "word_of_4 bs =
     ucast ((0xFFFFFFFF :: 32 word) AND
       (push_bit 24 (ucast (bs ! 0)) OR push_bit 16 (ucast (bs ! 1)) OR push_bit 8 (ucast (bs ! 2)) OR ucast (bs ! 3)))"

definition word_of_8 :: "8 word list \<Rightarrow> nat \<Rightarrow> 64 word" where
  "word_of_8 bs i =
     push_bit 56 (ucast (bs ! i)) OR push_bit 48 (ucast (bs ! (i + 1))) OR push_bit 40 (ucast (bs ! (i + 2))) OR
     push_bit 32 (ucast (bs ! (i + 3))) OR push_bit 24 (ucast (bs ! (i + 4))) OR push_bit 16 (ucast (bs ! (i + 5))) OR
     push_bit 8 (ucast (bs ! (i + 6))) OR ucast (bs ! (i + 7))"

fun GetAddress1 :: "IPAddress \<Rightarrow> 64 word" where
  "GetAddress1 (V4 bs) = word_of_4 bs"
| "GetAddress1 (V6 bs) = word_of_8 bs 0"

fun GetAddress2 :: "IPAddress \<Rightarrow> 64 word" where
  "GetAddress2 (V4 bs) = 0"
| "GetAddress2 (V6 bs) = word_of_8 bs 8"

definition EqualTo :: "IPAddress \<Rightarrow> IPAddress \<Rightarrow> bool" where
  "EqualTo a b \<longleftrightarrow> GetAddress1 b = GetAddress1 a \<and> GetAddress2 b = GetAddress2 a"

definition GreaterThan :: "IPAddress \<Rightarrow> IPAddress \<Rightarrow> bool" where
  "GreaterThan a b \<longleftrightarrow>
     GetAddress1 a > GetAddress1 b \<or> GetAddress1 b = GetAddress1 a \<and> GetAddress2 a > GetAddress2 b"

definition LessThan :: "IPAddress \<Rightarrow> IPAddress \<Rightarrow> bool" where
  "LessThan a b \<longleftrightarrow>
     GetAddress1 b > GetAddress1 a \<or> GetAddress1 b = GetAddress1 a \<and> GetAddress2 b > GetAddress2 a"

fun IsAny :: "IPAddress \<Rightarrow> bool" where
  "IsAny (V4 bs) \<longleftrightarrow> bs = replicate 4 0"
| "IsAny (V6 bs) \<longleftrightarrow> bs = replicate 16 0"

definition WithinRange :: "IPAddress \<Rightarrow> IPAddress \<Rightarrow> IPAddress \<Rightarrow> bool" where
  "WithinRange a lower upper =
     (let addressToCheck1 = GetAddress1 a; addressToCheck2 = GetAddress2 a
      in case a of
           V4 _ \<Rightarrow> addressToCheck1 \<ge> GetAddress1 lower \<and> addressToCheck1 \<le> GetAddress1 upper
         | V6 _ \<Rightarrow>
             (addressToCheck1 > GetAddress1 lower \<or>
                addressToCheck1 = GetAddress1 lower \<and> addressToCheck2 \<ge> GetAddress2 lower) \<and>
             (addressToCheck1 < GetAddress1 upper \<or>
                addressToCheck1 = GetAddress1 upper \<and> addressToCheck2 \<le> GetAddress2 upper))"

fun IsWithinLoopbackRange :: "IPAddress \<Rightarrow> bool" where
  "IsWithinLoopbackRange (V4 bs) \<longleftrightarrow> GetAddress1 (V4 bs) \<ge> 2130706433 \<and> GetAddress1 (V4 bs) \<le> 2147483647"
| "IsWithinLoopbackRange (V6 bs) \<longleftrightarrow> GetAddress1 (V6 bs) = 0 \<and> GetAddress2 (V6 bs) = 1"

section \<open>The long text form\<close>

definition hex_digit :: "nat \<Rightarrow> char" where
  "hex_digit d = (if d < 10 then char_of (48 + d) else char_of (87 + d))"

definition hex2 :: "8 word \<Rightarrow> AnsiString" where
  "hex2 b = [hex_digit (unat b div 16), hex_digit (unat b mod 16)]"

text \<open>
  The loop over the bytes: two digits each, a colon after every second byte but the last. Every print is limited to
  what remains of the buffer of forty, the terminating zero included, which is then cut off.
\<close>

definition limited_print :: "nat \<Rightarrow> AnsiString \<Rightarrow> AnsiString \<Rightarrow> AnsiString" where
  "limited_print buffer_length result t = result @ take (buffer_length - length result - 1) t"

fun LongStringLoop :: "nat \<Rightarrow> 8 word list \<Rightarrow> AnsiString \<Rightarrow> AnsiString" where
  "LongStringLoop source_position [] result = result"
| "LongStringLoop source_position (b # bs) result =
     (let result = limited_print 40 result (hex2 b);
          result = (if source_position mod 2 = 0 \<and> bs \<noteq> [] then limited_print 40 result '':'' else result)
      in LongStringLoop (source_position + 1) bs result)"

definition ToLongString :: "(IPAddress \<Rightarrow> AnsiString) \<Rightarrow> IPAddress \<Rightarrow> AnsiString" where
  "ToLongString to_string a =
     (case a of V4 _ \<Rightarrow> to_string a | V6 bs \<Rightarrow> LongStringLoop 1 bs [])"

section \<open>Facts\<close>

lemma bit_byte_at: "bit (byte_at k a) n \<longleftrightarrow> n < 8 \<and> bit a (k + n)"
proof -
  have "(0xFF :: 64 word) = mask 8" by (simp add: mask_eq_exp_minus_1)
  then show ?thesis unfolding byte_at_def by (simp only: bit_simps) (auto simp: add.commute)
qed

text \<open>A byte at a place of a longer word has bits at that place only.\<close>

lemma bit_placed:
  "bit (push_bit k (ucast (b :: 8 word)) :: 64 word) n \<longleftrightarrow> n < 64 \<and> k \<le> n \<and> n < k + 8 \<and> bit b (n - k)"
  "bit (push_bit k (ucast (b :: 8 word)) :: 32 word) n \<longleftrightarrow> n < 32 \<and> k \<le> n \<and> n < k + 8 \<and> bit b (n - k)"
  "bit (ucast (b :: 8 word) :: 64 word) n \<longleftrightarrow> n < 8 \<and> bit b n"
  "bit (ucast (b :: 8 word) :: 32 word) n \<longleftrightarrow> n < 8 \<and> bit b n"
  "bit (ucast (w :: 32 word) :: 64 word) n \<longleftrightarrow> n < 32 \<and> bit w n"
  using bit_imp_le_length [of b "n - k"] bit_imp_le_length [of b n] bit_imp_le_length [of w n] by (auto simp: bit_simps)

lemma word_of_8_bytes: "word_of_8 (map (\<lambda>k. byte_at k a) [56, 48, 40, 32, 24, 16, 8, 0] @ t) 0 = a"
proof (rule bit_word_eqI)
  fix n assume n: "n < LENGTH(64)"
  then consider "n < 8" | "8 \<le> n" "n < 16" | "16 \<le> n" "n < 24" | "24 \<le> n" "n < 32" | "32 \<le> n" "n < 40"
    | "40 \<le> n" "n < 48" | "48 \<le> n" "n < 56" | "56 \<le> n" "n < 64" by fastforce
  then show "bit (word_of_8 (map (\<lambda>k. byte_at k a) [56, 48, 40, 32, 24, 16, 8, 0] @ t) 0) n \<longleftrightarrow> bit a n"
    by cases (auto simp: word_of_8_def bit_or_iff bit_placed bit_byte_at)
qed

lemma word_of_8_shift: "length p = 8 \<Longrightarrow> length bs = 8 \<Longrightarrow> word_of_8 (p @ bs) 8 = word_of_8 bs 0"
  by (simp add: word_of_8_def nth_append numeral_2_eq_2)

lemma word_of_4_bytes: "word_of_4 (map (\<lambda>k. byte_at k a) [24, 16, 8, 0]) = a AND 0xFFFFFFFF"
proof (rule bit_word_eqI)
  fix n assume n: "n < LENGTH(64)"
  have m: "(0xFFFFFFFF :: 32 word) = mask 32" "(0xFFFFFFFF :: 64 word) = mask 32" by (simp_all add: mask_eq_exp_minus_1)
  from n consider "n < 8" | "8 \<le> n" "n < 16" | "16 \<le> n" "n < 24" | "24 \<le> n" "n < 32" | "32 \<le> n" by fastforce
  then show "bit (word_of_4 (map (\<lambda>k. byte_at k a) [24, 16, 8, 0])) n \<longleftrightarrow> bit (a AND 0xFFFFFFFF) n"
    by cases (auto simp: word_of_4_def m bit_placed(5) bit_and_iff bit_or_iff bit_mask_iff bit_placed bit_byte_at)
qed

lemma byte_of_word_of_8:
  assumes "length bs = 8"
  shows "map (\<lambda>k. byte_at k (word_of_8 bs 0)) [56, 48, 40, 32, 24, 16, 8, 0] = bs"
proof (rule nth_equalityI)
  fix i assume "i < length (map (\<lambda>k. byte_at k (word_of_8 bs 0)) [56, 48, 40, 32, 24, 16, 8, 0])"
  then consider "i = 0" | "i = 1" | "i = 2" | "i = 3" | "i = 4" | "i = 5" | "i = 6" | "i = 7" by fastforce
  then show "map (\<lambda>k. byte_at k (word_of_8 bs 0)) [56, 48, 40, 32, 24, 16, 8, 0] ! i = bs ! i"
  proof cases
  qed (rule bit_word_eqI, simp add: bit_byte_at word_of_8_def bit_or_iff bit_placed numeral_2_eq_2)+
qed (simp add: assms)

lemma byte_of_word_of_4:
  assumes "length bs = 4"
  shows "map (\<lambda>k. byte_at k (word_of_4 bs)) [24, 16, 8, 0] = bs"
proof (rule nth_equalityI)
  have m: "(0xFFFFFFFF :: 32 word) = mask 32" by (simp add: mask_eq_exp_minus_1)
  fix i assume "i < length (map (\<lambda>k. byte_at k (word_of_4 bs)) [24, 16, 8, 0])"
  then consider "i = 0" | "i = 1" | "i = 2" | "i = 3" by fastforce
  then show "map (\<lambda>k. byte_at k (word_of_4 bs)) [24, 16, 8, 0] ! i = bs ! i"
  proof cases
  qed (rule bit_word_eqI, simp add: bit_byte_at word_of_4_def m bit_placed(5) bit_and_iff bit_or_iff bit_mask_iff bit_placed numeral_2_eq_2)+
qed (simp add: assms)

lemma split_bytes: "wf_address (V6 bs) \<Longrightarrow> \<exists>p q. bs = p @ q \<and> length p = 8 \<and> length q = 8"
  by (rule exI [of _ "take 8 bs"], rule exI [of _ "drop 8 bs"]) simp

lemma word_of_8_append: "length p = 8 \<Longrightarrow> word_of_8 (p @ q) 0 = word_of_8 p 0"
  by (simp add: word_of_8_def nth_append)

text \<open>The number an address stands for among those of its family.\<close>

fun address_number :: "IPAddress \<Rightarrow> nat" where
  "address_number (V4 bs) = unat (GetAddress1 (V4 bs))"
| "address_number (V6 bs) = unat (GetAddress1 (V6 bs)) * 2 ^ 64 + unat (GetAddress2 (V6 bs))"

definition same_family :: "IPAddress \<Rightarrow> IPAddress \<Rightarrow> bool" where
  "same_family a b \<longleftrightarrow> is_V4 a = is_V4 b"

lemma lex_number:
  fixes a b c d :: "64 word"
  shows "unat a * 2 ^ 64 + unat b \<le> unat c * 2 ^ 64 + unat d \<longleftrightarrow> a < c \<or> a = c \<and> b \<le> d"
proof -
  have bound: "unat b < 2 ^ 64" "unat d < 2 ^ 64" using unsigned_less [of b] unsigned_less [of d] by simp_all
  consider "a < c" | "a = c" | "c < a" by fastforce
  then show ?thesis
  proof cases
    case 1
    then have "unat a + 1 \<le> unat c" by (simp add: word_less_nat_alt)
    then have "(unat a + 1) * 2 ^ 64 \<le> unat c * 2 ^ 64" by (rule mult_le_mono1)
    with bound 1 show ?thesis by simp
  next
    case 2
    then show ?thesis by (simp add: word_le_nat_alt)
  next
    case 3
    then have "unat c + 1 \<le> unat a" by (simp add: word_less_nat_alt)
    then have "(unat c + 1) * 2 ^ 64 \<le> unat a * 2 ^ 64" by (rule mult_le_mono1)
    with bound 3 show ?thesis by auto
  qed
qed

lemma limited_print_fits: "length r + length t < 40 \<Longrightarrow> limited_print 40 r t = r @ t"
  by (simp add: limited_print_def)

lemma length_hex2 [simp]: "length (hex2 b) = 2"
  by (simp add: hex2_def)

lemma range_V4:
  "WithinRange (V4 a) (V4 l) (V4 u) \<longleftrightarrow> address_number (V4 l) \<le> address_number (V4 a) \<and> address_number (V4 a) \<le> address_number (V4 u)"
  by (simp add: WithinRange_def Let_def word_le_nat_alt)

lemma range_V6:
  "WithinRange (V6 a) (V6 l) (V6 u) \<longleftrightarrow> address_number (V6 l) \<le> address_number (V6 a) \<and> address_number (V6 a) \<le> address_number (V6 u)"
  unfolding address_number.simps lex_number WithinRange_def Let_def IPAddress.case by auto

text \<open>The text of pairs of bytes, joined by colons.\<close>

fun hex_groups :: "8 word list \<Rightarrow> AnsiString" where
  "hex_groups (b # c # bs) = hex2 b @ hex2 c @ (if bs = [] then [] else CHR '':'' # hex_groups bs)"
| "hex_groups bs = []"

lemma hex_groups_length: "even (length bs) \<Longrightarrow> bs \<noteq> [] \<Longrightarrow> length (hex_groups bs) + 1 = 5 * (length bs div 2)"
  by (induction bs rule: hex_groups.induct) auto

lemma LongStringLoop_groups:
  "even (length bs) \<Longrightarrow> odd k \<Longrightarrow> length acc + length (hex_groups bs) < 40 \<Longrightarrow>
   LongStringLoop k bs acc = acc @ hex_groups bs"
proof (induction bs arbitrary: k acc rule: hex_groups.induct)
  case (1 b c bs)
  have "k mod 2 = 1" "(k + 1) mod 2 = 0" using 1(3) by presburger+
  with 1 show ?case by (cases "bs = []") (auto simp: Let_def limited_print_fits)
qed auto

section \<open>Properties\<close>

text \<open>
  The two halves an address is stored by give the address back: the constructors and the readers of the
  halves are inverse to each other, on addresses and on numbers, of which the constructor of an
  IPv4 address reads 32 bits.
\<close>

theorem halves_round_trip:
  "(wf_address a \<longrightarrow> (case a of V4 _ \<Rightarrow> SetIPV4Address (GetAddress1 a) | V6 _ \<Rightarrow> SetIPV6Address (GetAddress1 a) (GetAddress2 a)) = a) \<and>
   GetAddress1 (SetIPV4Address x) = x AND 0xFFFFFFFF \<and>
   GetAddress1 (SetIPV6Address x y) = x \<and> GetAddress2 (SetIPV6Address x y) = y"
proof (intro conjI impI)
  assume wf: "wf_address a"
  show "(case a of V4 _ \<Rightarrow> SetIPV4Address (GetAddress1 a) | V6 _ \<Rightarrow> SetIPV6Address (GetAddress1 a) (GetAddress2 a)) = a"
  proof (cases a)
    case (V4 bs)
    with wf show ?thesis by (simp add: SetIPV4Address_def byte_of_word_of_4 [simplified])
  next
    case (V6 bs)
    with wf split_bytes obtain p q where "bs = p @ q" "length p = 8" "length q = 8" by blast
    with V6 show ?thesis
      by (simp add: SetIPV6Address_def word_of_8_append word_of_8_shift byte_of_word_of_8 [simplified] flip: append_Cons)
  qed
qed (simp_all only: SetIPV4Address_def SetIPV6Address_def GetAddress1.simps GetAddress2.simps word_of_4_bytes word_of_8_bytes
    word_of_8_bytes [of _ "[]", unfolded append_Nil2]
    word_of_8_shift [OF _ _ , of "map (\<lambda>k. byte_at k x) [56, 48, 40, 32, 24, 16, 8, 0]"] length_map list.size)

theorem halves_round_trip_witness:
  "SetIPV4Address (GetAddress1 (V4 [192, 0, 2, 1])) = V4 [192, 0, 2, 1]"
  using halves_round_trip [of "V4 [192, 0, 2, 1]" 0 0] by simp

text \<open>
  The range test on a range of the address's own family is the test of numbers: an address is within it
  exactly when its number is between the numbers of the ends.
\<close>

theorem range_is_interval:
  assumes "same_family a lower" "same_family a upper"
  shows "WithinRange a lower upper \<longleftrightarrow> address_number lower \<le> address_number a \<and> address_number a \<le> address_number upper"
  using assms range_V4 range_V6 by (cases a; cases lower; cases upper) (simp_all only: same_family_def IPAddress.disc, simp_all)

theorem range_is_interval_witness:
  "WithinRange (V4 [10, 1, 2, 3]) (V4 [10, 0, 0, 0]) (V4 [10, 255, 255, 255])"
proof -
  have "address_number (V4 [10, 0, 0, 0]) \<le> address_number (V4 [10, 1, 2, 3])"
    "address_number (V4 [10, 1, 2, 3]) \<le> address_number (V4 [10, 255, 255, 255])" by (simp_all add: word_of_4_def)
  then show ?thesis
    using range_is_interval [of "V4 [10, 1, 2, 3]" "V4 [10, 0, 0, 0]" "V4 [10, 255, 255, 255]"] by (simp add: same_family_def)
qed

text \<open>
  The test does not look at the family of the range: every IPv4 address is within the range of
  all IPv6 addresses, and the IPv6 loopback address within the range of all IPv4 addresses.
\<close>

theorem range_ignores_family:
  "WithinRange (V4 bs) (V6 (replicate 16 0)) (V6 (replicate 16 0xFF)) \<and>
   WithinRange (V6 (replicate 15 0 @ [1])) (V4 (replicate 4 0)) (V4 (replicate 4 0xFF))"
proof
  have "GetAddress1 (V6 (replicate 16 0)) = 0" "GetAddress1 (V6 (replicate 16 0xFF)) = - 1"
    by code_simp+
  then show "WithinRange (V4 bs) (V6 (replicate 16 0)) (V6 (replicate 16 0xFF))" by (simp add: WithinRange_def)
  show "WithinRange (V6 (replicate 15 0 @ [1])) (V4 (replicate 4 0)) (V4 (replicate 4 0xFF))" by code_simp
qed

text \<open>
  The long text form of an IPv6 address never runs into the limit of its buffer: it is the eight groups of
  four hexadecimal digits, joined by colons.
\<close>

theorem long_form_is_complete:
  assumes "wf_address (V6 bs)"
  shows "ToLongString to_string (V6 bs) = hex_groups bs \<and> length (hex_groups bs) = 39"
proof -
  from assms have "even (length bs)" "bs \<noteq> []" "length bs div 2 = 8" by auto
  with hex_groups_length have "length (hex_groups bs) = 39" by fastforce
  with LongStringLoop_groups [of bs 1 "[]"] \<open>even (length bs)\<close> show ?thesis by (simp add: ToLongString_def)
qed

theorem long_form_is_complete_witness:
  "ToLongString (\<lambda>a. []) (V6 (0x20 # 1 # 0xd # 0xb8 # replicate 11 0 @ [1])) = ''2001:0db8:0000:0000:0000:0000:0000:0001''"
proof -
  have "wf_address (V6 (0x20 # 1 # 0xd # 0xb8 # replicate 11 0 @ [1]))" by simp
  from long_form_is_complete [OF this, of "\<lambda>a. []"]
  have "ToLongString (\<lambda>a. []) (V6 (0x20 # 1 # 0xd # 0xb8 # replicate 11 0 @ [1])) = hex_groups (0x20 # 1 # 0xd # 0xb8 # replicate 11 0 @ [1])" ..
  also have "\<dots> = ''2001:0db8:0000:0000:0000:0000:0000:0001''" by code_simp
  finally show ?thesis .
qed

end
