(* ===== verification/SpamTests.thy ===== *)
theory SpamTests
  imports DMARC SPF_Service Authentication_Results IPAddress
begin

text \<open>
  The spam tests of Common/AntiSpam that rest on the DNS and on the modelled checks, and the runner that
  calls them: SpamTestSPF, SpamTestDMARC, SpamTestHeloHost, SpamTestPTR, SpamTestMXRecords and SpamTestRunner.
  What a test reads from elsewhere is the record \<open>SpamEnv\<close>: scores, the resolver, the DKIM verifier and the helpers of
  other parts. A set of results is a list: its order has no meaning, since the source orders it by the
  addresses of its objects. Logging and the diagnostics counter are left out.
\<close>

section \<open>Data\<close>

datatype TestOutcome = OutcomeNeutral | OutcomeFail | OutcomePass

record SpamTestResult =
  test_name :: AnsiString
  test_outcome :: TestOutcome
  spam_score :: int
  test_message :: AnsiString

text \<open>The parsed header of a message: the names and the decoded values of its fields.\<close>

record MessageData =
  mime_fields :: "(AnsiString \<times> AnsiString) list"
  stored_message :: bool  \<comment> \<open>whether GetMessage answers a message\<close>

record SpamTestData =
  EnvelopeFrom :: AnsiString
  HeloHost :: AnsiString
  OriginatingIP :: IPAddress
  message_data :: "MessageData option"

text \<open>One record of the store of the aggregate reports.\<close>

record DmarcReport =
  rpt_policy :: Evaluation
  rpt_source_ip :: AnsiString
  rpt_disposition :: AnsiString
  rpt_from_domain :: AnsiString
  rpt_envelope_domain :: AnsiString
  rpt_spf_passed :: bool
  rpt_dkim_domains :: "AnsiString list"
  rpt_dkim_selectors :: "AnsiString list"

text \<open>What the tests change: the verdicts for the header, the reports, the tree walk's cache, the world.\<close>

record 'w TestState =
  authentication_results :: "AuthenticationResults option"
  dmarc_reports :: "DmarcReport list"
  tree_walk_cache :: walk_cache
  dns_world :: 'w

record 'w SpamEnv =
  UseSPFScore :: int
  DMARCFailureScore :: int
  CheckHostInHeloScore :: int
  CheckPTRScore :: int
  UseMXChecksScore :: int
  address_text :: "IPAddress \<Rightarrow> AnsiString"   \<comment> \<open>IPAddress::ToString\<close>
  record_query :: "'w record_query"
  host_name :: AnsiString
  unix_time :: int
  void_lookup_limit :: int
  dmarc_env :: "'w DmarcEnv"
  charset_encode :: "AnsiString \<Rightarrow> AnsiString"
  is_valid_address :: "AnsiString \<Rightarrow> bool"
  dkim_verify :: "'w \<Rightarrow> (AnsiString list \<times> AnsiString list) \<times> 'w"  \<comment> \<open>DKIM::Verify: domains and selectors\<close>
  ip_addresses :: "'w query"           \<comment> \<open>DNSResolver::GetIpAddresses\<close>
  ptr_records :: "'w query"
  mx_records :: "'w query"
  registered_domain :: "AnsiString \<Rightarrow> (AnsiString \<times> bool) option"  \<comment> \<open>TLD::GetDomainNameFromHost\<close>

definition GetFieldValue :: "AnsiString \<Rightarrow> MessageData \<Rightarrow> AnsiString" where
  "GetFieldValue sName m =
     (case List.find (\<lambda>(n, v). CompareNoCase n sName = 0) (mime_fields m) of None \<Rightarrow> [] | Some (n, v) \<Rightarrow> v)"

definition GetFieldOccurrenceCount :: "AnsiString \<Rightarrow> MessageData \<Rightarrow> nat" where
  "GetFieldOccurrenceCount sName m = length (filter (\<lambda>(n, v). CompareNoCase n sName = 0) (mime_fields m))"

definition GetFrom :: "MessageData \<Rightarrow> AnsiString" where
  "GetFrom m = GetFieldValue ''From'' m"

section \<open>SPF\<close>

definition SpfMethodResult :: "SPFResult \<Rightarrow> MethodResult" where
  "SpfMethodResult result =
     (case result of
        Pass \<Rightarrow> MethodPass | Fail \<Rightarrow> MethodFail | SoftFail \<Rightarrow> MethodSoftFail | ResultNone \<Rightarrow> MethodNone
      | TempError \<Rightarrow> MethodTempError | PermError \<Rightarrow> MethodPermError | Neutral \<Rightarrow> MethodNeutral)"

definition RunSPF :: "'w SpamEnv \<Rightarrow> SpamTestData \<Rightarrow> 'w \<Rightarrow> SPFResult \<times> AnsiString \<times> 'w" where
  "RunSPF env pTestData w =
     SPF_Test (record_query env) (host_name env) (unix_time env) (void_lookup_limit env)
       (address_text env (OriginatingIP pTestData)) (EnvelopeFrom pTestData) (HeloHost pTestData) w"

definition SpamTestSPF_RunTest :: "'w SpamEnv \<Rightarrow> SpamTestData \<Rightarrow> 'w TestState \<Rightarrow> SpamTestResult list \<times> 'w TestState" where
  "SpamTestSPF_RunTest env pTestData st =
     (if IsAny (OriginatingIP pTestData) then ([], st)
      else
        case RunSPF env pTestData (dns_world st) of
          (result, sExplanation, w) \<Rightarrow>
            let st = st\<lparr> dns_world := w,
                         authentication_results :=
                           map_option (SetSpf (SpfMethodResult result) ''smtp.mailfrom'' (EnvelopeFrom pTestData)
                             (address_text env (OriginatingIP pTestData)) (HeloHost pTestData)) (authentication_results st) \<rparr>
            in if result = Fail then
                 ([\<lparr> test_name = ''SpamTestSPF'', test_outcome = OutcomeFail, spam_score = UseSPFScore env,
                     test_message = (if sExplanation \<noteq> [] then ''Blocked by SPF. ('' @ sExplanation @ '')''
                                     else ''Blocked by SPF.'') \<rparr>], st)
               else if result = Pass then
                 ([\<lparr> test_name = ''SpamTestSPF'', test_outcome = OutcomePass, spam_score = 0, test_message = [] \<rparr>], st)
               else ([], st))"

section \<open>DMARC\<close>

definition DmarcMethod :: "DmarcResult \<Rightarrow> MethodResult \<times> AnsiString" where
  "DmarcMethod result =
     (case result of
        DmarcPass \<Rightarrow> (MethodPass, [])
      | FailReject \<Rightarrow> (MethodFail, ''reject'')
      | FailQuarantine \<Rightarrow> (MethodFail, ''quarantine'')
      | FailNone \<Rightarrow> (MethodFail, ''none'')
      | DmarcTempError \<Rightarrow> (MethodTempError, [])
      | DmarcPermError \<Rightarrow> (MethodPermError, [])
      | NoPolicy \<Rightarrow> (MethodNone, []))"

definition ReportDisposition :: "DmarcResult \<Rightarrow> AnsiString" where
  "ReportDisposition result =
     (case result of FailReject \<Rightarrow> ''reject'' | FailQuarantine \<Rightarrow> ''quarantine'' | _ \<Rightarrow> ''none'')"

text \<open>SPF for the envelope sender, which the test evaluates on its own.\<close>

definition DmarcSpfPassed :: "'w SpamEnv \<Rightarrow> SpamTestData \<Rightarrow> 'w \<Rightarrow> bool \<times> 'w" where
  "DmarcSpfPassed env pTestData w =
     (if \<not> IsAny (OriginatingIP pTestData) \<and> EnvelopeFrom pTestData \<noteq> [] then
        (case RunSPF env pTestData w of (spfResult, _, w) \<Rightarrow> (spfResult = Pass, w))
      else (False, w))"

definition DmarcResults :: "'w SpamEnv \<Rightarrow> AnsiString \<Rightarrow> DmarcResult \<Rightarrow> SpamTestResult list" where
  "DmarcResults env fromDomain result =
     (case result of
        DmarcPass \<Rightarrow>
          [\<lparr> test_name = ''SpamTestDMARC'', test_outcome = OutcomePass, spam_score = 0, test_message = [] \<rparr>]
      | FailReject \<Rightarrow>
          [\<lparr> test_name = ''SpamTestDMARC'', test_outcome = OutcomeFail, spam_score = DMARCFailureScore env,
             test_message = ''Blocked by DMARC policy of '' @ fromDomain @ ''.'' \<rparr>]
      | FailQuarantine \<Rightarrow>
          [\<lparr> test_name = ''SpamTestDMARC'', test_outcome = OutcomeFail, spam_score = DMARCFailureScore env,
             test_message = ''Blocked by DMARC policy of '' @ fromDomain @ ''.'' \<rparr>]
      | _ \<Rightarrow> [])"

definition EvaluateDMARC ::
  "'w SpamEnv \<Rightarrow> SpamTestData \<Rightarrow> MessageData \<Rightarrow> AnsiString \<Rightarrow> 'w TestState \<Rightarrow> SpamTestResult list \<times> 'w TestState" where
  "EvaluateDMARC env pTestData m fromDomain st =
     (let envelopeFromDomain = ExtractDomain (EnvelopeFrom pTestData);
          (spfPassed, w) = DmarcSpfPassed env pTestData (dns_world st);
          ((dkimPassingDomains, dkimPassingSelectors), w) = (if stored_message m then dkim_verify env w else (([], []), w));
          (result, evaluation, cache, w) =
            Verify (dmarc_env env) fromDomain envelopeFromDomain spfPassed dkimPassingDomains Evaluation_init
              (tree_walk_cache st, w);
          report = \<lparr> rpt_policy = evaluation,
                     rpt_source_ip = (if IsAny (OriginatingIP pTestData) then ''0.0.0.0''
                                      else address_text env (OriginatingIP pTestData)),
                     rpt_disposition = ReportDisposition result, rpt_from_domain = fromDomain,
                     rpt_envelope_domain = envelopeFromDomain, rpt_spf_passed = spfPassed,
                     rpt_dkim_domains = dkimPassingDomains, rpt_dkim_selectors = dkimPassingSelectors \<rparr>;
          reported = policy_found evaluation \<and> result \<in> {DmarcPass, FailNone, FailQuarantine, FailReject};
          (methodResult, policyText) = DmarcMethod result
      in (DmarcResults env fromDomain result,
          st\<lparr> dns_world := w, tree_walk_cache := cache,
              dmarc_reports := (if reported then dmarc_reports st @ [report] else dmarc_reports st),
              authentication_results := map_option (SetDmarc methodResult fromDomain policyText) (authentication_results st) \<rparr>))"

definition SpamTestDMARC_RunTest :: "'w SpamEnv \<Rightarrow> SpamTestData \<Rightarrow> 'w TestState \<Rightarrow> SpamTestResult list \<times> 'w TestState" where
  "SpamTestDMARC_RunTest env pTestData st =
     (case message_data pTestData of
        None \<Rightarrow> ([], st)
      | Some m \<Rightarrow>
          let fromHeader = GetFrom m
          in if fromHeader = [] then ([], st)
             else
               let fromAddress = ExtractAddressFromHeaderValue (charset_encode env) (is_valid_address env) fromHeader;
                   fromDomain = ExtractDomain fromAddress
               in if fromDomain = [] then ([], st)
                  else
                    let fromFieldCount = GetFieldOccurrenceCount ''From'' m
                    in if fromFieldCount > 1 then
                         ([\<lparr> test_name = ''SpamTestDMARC'', test_outcome = OutcomeFail,
                             spam_score = DMARCFailureScore env,
                             test_message = ''Blocked by DMARC: the message carries '' @ print_signed (int fromFieldCount) @
                               '' From header fields; RFC 5322 permits one.'' \<rparr>], st)
                       else EvaluateDMARC env pTestData m fromDomain st)"

section \<open>HELO, PTR and MX\<close>

definition iequals :: "AnsiString \<Rightarrow> AnsiString \<Rightarrow> bool" where
  "iequals a b \<longleftrightarrow> map tolower_classic a = map tolower_classic b"

text \<open>The host between the brackets of an address literal.\<close>

definition LiteralHost :: "AnsiString \<Rightarrow> AnsiString" where
  "LiteralHost sHeloHost =
     (let sTempHost = TrimLeft_chars sHeloHost ''['';
          sTempHost = (if Left sTempHost 5 = ''IPv6:'' then TrimLeft_chars sTempHost ''IPv6:'' else sTempHost)
      in TrimRight_chars sTempHost '']'')"

definition CheckHostInHelo :: "'w SpamEnv \<Rightarrow> AnsiString \<Rightarrow> IPAddress \<Rightarrow> 'w \<Rightarrow> bool \<times> 'w" where
  "CheckHostInHelo env sHeloHost a w =
     (let sIPAddress = address_text env a
      in if Left sHeloHost 1 = ''['' then (iequals (LiteralHost sHeloHost) sIPAddress, w)
         else
           case ip_addresses env w sHeloHost of
             (None, w) \<Rightarrow> (True, w)
           | (Some saFoundNames, w) \<Rightarrow> (list_ex (\<lambda>n. iequals n sIPAddress) saFoundNames, w))"

definition SpamTestHeloHost_RunTest :: "'w SpamEnv \<Rightarrow> SpamTestData \<Rightarrow> 'w TestState \<Rightarrow> SpamTestResult list \<times> 'w TestState" where
  "SpamTestHeloHost_RunTest env pTestData st =
     (if HeloHost pTestData = [] then ([], st)
      else if IsWithinLoopbackRange (OriginatingIP pTestData) then ([], st)
      else
        case CheckHostInHelo env (HeloHost pTestData) (OriginatingIP pTestData) (dns_world st) of
          (ok, w) \<Rightarrow>
            (if ok then []
             else [\<lparr> test_name = ''SpamTestHeloHost'', test_outcome = OutcomeFail, spam_score = CheckHostInHeloScore env,
                     test_message = ''The host name specified in HELO does not match IP address.'' \<rparr>],
             st\<lparr> dns_world := w \<rparr>))"

definition CheckPTR :: "'w SpamEnv \<Rightarrow> IPAddress \<Rightarrow> 'w \<Rightarrow> bool \<times> 'w" where
  "CheckPTR env a w =
     (let sIPAddress = address_text env a
      in case ptr_records env w sIPAddress of
           (None, w) \<Rightarrow> (True, w)
         | (Some [], w) \<Rightarrow> (False, w)
         | (Some (ptrresult # _), w) \<Rightarrow>
             (case ip_addresses env w ptrresult of
                (None, w) \<Rightarrow> (False, w)
              | (Some ipresults, w) \<Rightarrow> (list_ex (\<lambda>n. iequals n sIPAddress) ipresults, w)))"

definition SpamTestPTR_RunTest :: "'w SpamEnv \<Rightarrow> SpamTestData \<Rightarrow> 'w TestState \<Rightarrow> SpamTestResult list \<times> 'w TestState" where
  "SpamTestPTR_RunTest env pTestData st =
     (case CheckPTR env (OriginatingIP pTestData) (dns_world st) of
        (ok, w) \<Rightarrow>
          (if ok then []
           else [\<lparr> test_name = ''SpamTestPTR'', test_outcome = OutcomeFail, spam_score = CheckPTRScore env,
                   test_message = ''No valid rDNS/PTR record found.'' \<rparr>],
           st\<lparr> dns_world := w \<rparr>))"

definition HasAnyMXRecords :: "'w SpamEnv \<Rightarrow> AnsiString \<Rightarrow> 'w \<Rightarrow> bool \<times> 'w" where
  "HasAnyMXRecords env sSenderEMail w =
     (let sHostName = ExtractDomain sSenderEMail
      in case mx_records env w sHostName of
           (None, w) \<Rightarrow> (True, w)
         | (Some vecFoundNames, w) \<Rightarrow>
             if length vecFoundNames > 0 then (True, w)
             else
               (case registered_domain env sHostName of
                  None \<Rightarrow> (True, w)
                | Some (domainName, bIsIPAddress) \<Rightarrow>
                    if bIsIPAddress then (True, w)
                    else if domainName = sHostName then (False, w)
                    else
                      (case mx_records env w domainName of
                         (None, w) \<Rightarrow> (True, w)
                       | (Some domainNames, w) \<Rightarrow> (length (vecFoundNames @ domainNames) > 0, w))))"

definition SpamTestMXRecords_RunTest :: "'w SpamEnv \<Rightarrow> SpamTestData \<Rightarrow> 'w TestState \<Rightarrow> SpamTestResult list \<times> 'w TestState" where
  "SpamTestMXRecords_RunTest env pTestData st =
     (if EnvelopeFrom pTestData = [] then ([], st)
      else
        case HasAnyMXRecords env (EnvelopeFrom pTestData) (dns_world st) of
          (ok, w) \<Rightarrow>
            (if ok then []
             else [\<lparr> test_name = ''SpamTestMXRecords'', test_outcome = OutcomeFail, spam_score = UseMXChecksScore env,
                     test_message = ''Sender domain does not have any MX records.'' \<rparr>],
             st\<lparr> dns_world := w \<rparr>))"

section \<open>The runner\<close>

datatype SpamTestType = PreTransmission | PostTransmission

record 's SpamTest =
  GetIsEnabled :: bool
  GetTestType :: SpamTestType
  RunTest :: "SpamTestData \<Rightarrow> 's \<Rightarrow> SpamTestResult list \<times> 's"

definition CalculateTotalSpamScore :: "SpamTestResult list \<Rightarrow> int" where
  "CalculateTotalSpamScore result = sum_list (map spam_score result)"

fun RunSpamTestLoop ::
  "'s SpamTest list \<Rightarrow> SpamTestData \<Rightarrow> SpamTestType \<Rightarrow> int \<Rightarrow> int \<Rightarrow> SpamTestResult list \<Rightarrow> 's \<Rightarrow>
   SpamTestResult list \<times> 's" where
  "RunSpamTestLoop [] pInputData iType iMaxScore iTotalScore setTotalResult st = (setTotalResult, st)"
| "RunSpamTestLoop (pSpamTest # tests) pInputData iType iMaxScore iTotalScore setTotalResult st =
     (if \<not> GetIsEnabled pSpamTest \<or> GetTestType pSpamTest \<noteq> iType then
        RunSpamTestLoop tests pInputData iType iMaxScore iTotalScore setTotalResult st
      else
        case RunTest pSpamTest pInputData st of
          (setResult, st) \<Rightarrow>
            let setTotalResult = setTotalResult @ setResult;
                iTotalScore = iTotalScore + sum_list (map spam_score setResult)
            in if iMaxScore > 0 \<and> iTotalScore \<ge> iMaxScore then (setTotalResult, st)
               else RunSpamTestLoop tests pInputData iType iMaxScore iTotalScore setTotalResult st)"

definition RunSpamTest ::
  "'s SpamTest list \<Rightarrow> SpamTestData \<Rightarrow> SpamTestType \<Rightarrow> int \<Rightarrow> 's \<Rightarrow> SpamTestResult list \<times> 's" where
  "RunSpamTest tests pInputData iType iMaxScore st = RunSpamTestLoop tests pInputData iType iMaxScore 0 [] st"

section \<open>Facts\<close>

lemma RunSpamTestLoop_grows: "\<exists>rest. fst (RunSpamTestLoop tests d ty m sum0 acc st) = acc @ rest"
proof (induction tests arbitrary: sum0 acc st)
  case (Cons test tests)
  obtain rs st1 where r: "RunTest test d st = (rs, st1)" by fastforce
  from Cons [of "sum0 + sum_list (map spam_score rs)" "acc @ rs" st1] Cons [of sum0 acc st] r show ?case
    by (auto simp: Let_def)
qed simp

text \<open>A run with a threshold is the run without one, stopped as soon as the threshold is reached.\<close>

lemma RunSpamTestLoop_stop:
  assumes "sum0 = CalculateTotalSpamScore acc" "iMaxScore > 0"
  shows "\<exists>rest. fst (RunSpamTestLoop tests d ty 0 sum0 acc st) = fst (RunSpamTestLoop tests d ty iMaxScore sum0 acc st) @ rest \<and>
    (CalculateTotalSpamScore (fst (RunSpamTestLoop tests d ty iMaxScore sum0 acc st)) \<ge> iMaxScore \<or>
     RunSpamTestLoop tests d ty 0 sum0 acc st = RunSpamTestLoop tests d ty iMaxScore sum0 acc st)"
  using assms(1)
proof (induction tests arbitrary: sum0 acc st)
  case (Cons test tests)
  obtain rs st1 where r: "RunTest test d st = (rs, st1)" by fastforce
  let ?acc = "acc @ rs" and ?total = "sum0 + sum_list (map spam_score rs)"
  have total: "?total = CalculateTotalSpamScore ?acc" using Cons.prems by (simp add: CalculateTotalSpamScore_def)
  show ?case
  proof (cases "GetIsEnabled test \<and> GetTestType test = ty")
    case True
    show ?thesis
    proof (cases "?total \<ge> iMaxScore")
      case reached: True
      with True r assms(2) total RunSpamTestLoop_grows [of tests d ty 0 ?total ?acc st1] show ?thesis by (auto simp: Let_def)
    next
      case False
      with True r Cons.IH [OF total, of st1] assms(2) show ?thesis by (simp add: Let_def)
    qed
  qed (use Cons in simp)
qed simp

lemma total_Nil [simp]: "CalculateTotalSpamScore [] = 0"
  by (simp add: CalculateTotalSpamScore_def)

lemma total_append: "CalculateTotalSpamScore (xs @ ys) = CalculateTotalSpamScore xs + CalculateTotalSpamScore ys"
  by (simp add: CalculateTotalSpamScore_def)

lemma total_nonneg: "list_all (\<lambda>r. 0 \<le> spam_score r) xs \<Longrightarrow> 0 \<le> CalculateTotalSpamScore xs"
  by (induction xs) (simp_all add: CalculateTotalSpamScore_def)

text \<open>What a pass of the DMARC test rests on.\<close>

definition FromDomain :: "'w SpamEnv \<Rightarrow> MessageData \<Rightarrow> AnsiString" where
  "FromDomain env m = ExtractDomain (ExtractAddressFromHeaderValue (charset_encode env) (is_valid_address env) (GetFrom m))"

lemma DmarcResults_pass: "r \<in> set (DmarcResults env f v) \<Longrightarrow> test_outcome r = OutcomePass \<Longrightarrow> v = DmarcPass"
  by (cases v) (auto simp: DmarcResults_def)

lemma EvaluateDMARC_pass:
  assumes ok: "cache_reachable (dmarc_txt (dmarc_env env)) (tree_walk_cache st)"
    and r: "r \<in> set (fst (EvaluateDMARC env d m f st))" "test_outcome r = OutcomePass"
  shows "fst (DmarcSpfPassed env d (dns_world st)) \<and> common_ancestor (ExtractDomain (EnvelopeFrom d)) f \<or>
    (\<exists>w. \<exists>dom \<in> set (fst (fst (dkim_verify env w))). common_ancestor dom f)"
proof -
  obtain spf w1 where spf: "DmarcSpfPassed env d (dns_world st) = (spf, w1)" by fastforce
  obtain doms sels w2 where dk: "(if stored_message m then dkim_verify env w1 else (([], []), w1)) = ((doms, sels), w2)"
    by (metis surj_pair)
  obtain v ev c w3 where v: "Verify (dmarc_env env) f (ExtractDomain (EnvelopeFrom d)) spf doms Evaluation_init (tree_walk_cache st, w2) = (v, ev, c, w3)"
    by (metis surj_pair)
  have "fst (EvaluateDMARC env d m f st) = DmarcResults env f v"
    by (simp add: EvaluateDMARC_def Let_def spf dk v split: prod.split)
  with r DmarcResults_pass have "v = DmarcPass" by metis
  with v Verify_pass [of "dmarc_env env" "(tree_walk_cache st, w2)" f "ExtractDomain (EnvelopeFrom d)" spf doms Evaluation_init] ok
  have "spf \<and> common_ancestor (ExtractDomain (EnvelopeFrom d)) f \<or> (\<exists>dom \<in> set doms. common_ancestor dom f)" by simp
  moreover have "doms = [] \<or> doms = fst (fst (dkim_verify env w1))" using dk by (auto split: if_splits)
  ultimately show ?thesis using spf by auto
qed

lemma SpamTestDMARC_pass:
  assumes ok: "cache_reachable (dmarc_txt (dmarc_env env)) (tree_walk_cache st)"
    and r: "r \<in> set (fst (SpamTestDMARC_RunTest env d st))" "test_outcome r = OutcomePass"
  shows "\<exists>m. message_data d = Some m \<and> GetFieldOccurrenceCount ''From'' m \<le> 1 \<and> FromDomain env m \<noteq> [] \<and>
    (fst (DmarcSpfPassed env d (dns_world st)) \<and> common_ancestor (ExtractDomain (EnvelopeFrom d)) (FromDomain env m) \<or>
     (\<exists>w. \<exists>dom \<in> set (fst (fst (dkim_verify env w))). common_ancestor dom (FromDomain env m)))"
proof -
  from r obtain m where m: "message_data d = Some m" "GetFrom m \<noteq> []" "FromDomain env m \<noteq> []"
    by (auto simp: SpamTestDMARC_RunTest_def FromDomain_def Let_def split: option.splits if_splits)
  with r have c: "GetFieldOccurrenceCount ''From'' m \<le> 1"
    and "r \<in> set (fst (EvaluateDMARC env d m (FromDomain env m) st))"
    by (auto simp: SpamTestDMARC_RunTest_def FromDomain_def Let_def split: if_splits)
  from EvaluateDMARC_pass [OF ok this(2) r(2)] m c show ?thesis by blast
qed

definition spf_subject :: "AnsiString \<Rightarrow> int \<Rightarrow> SPFAddress \<Rightarrow> AnsiString \<Rightarrow> AnsiString \<Rightarrow> SPFMacroExpander" where
  "spf_subject host now c s h = SetTimestamp now (SetReceivingHost host (SPFMacroExpander_init c s h))"

lemma SPF_Test_pass:
  assumes "SPF_Test (TableQuery table) host now lim ip s h w = (Pass, e, w')"
  shows "\<exists>c. TryParse ip = Some c \<and> check_host (TableView table) (spf_subject host now c s h) (GetCheckedDomain s h) Pass"
proof -
  from assms obtain c where c: "TryParse ip = Some c" by (auto simp: SPF_Test_def split: option.splits)
  let ?x = "SetVoidTermLimit lim (EvaluatorSetTimestamp now (EvaluatorSetReceivingHost host (SPFEvaluator_init w)))"
  obtain r e1 st' where k: "Check (SPFDnsResolver (TableQuery table)) c (GetCheckedDomain s h) s h ?x = (r, e1, st')"
    by (metis surj_pair)
  with assms c have "r = Pass" by (auto simp: SPF_Test_def Let_def)
  moreover have "subject_of c s h ?x = spf_subject host now c s h"
    by (simp add: subject_of_def check_start_def spf_subject_def SetVoidTermLimit_def EvaluatorSetTimestamp_def EvaluatorSetReceivingHost_def)
  ultimately show ?thesis using table.Check_refines [OF k] c by auto
qed

section \<open>Properties\<close>

text \<open>
  C36: Stopping at the threshold does not change how a message is classified: where no test gives a
  negative score, the total of the results of the stopped run reaches the threshold exactly when the total of a
  run of all the tests does.
\<close>

theorem early_stop_keeps_classification:
  assumes "iMaxScore > 0" "list_all (\<lambda>r. 0 \<le> spam_score r) (fst (RunSpamTest tests d ty 0 st))"
  shows "iMaxScore \<le> CalculateTotalSpamScore (fst (RunSpamTest tests d ty iMaxScore st)) \<longleftrightarrow>
    iMaxScore \<le> CalculateTotalSpamScore (fst (RunSpamTest tests d ty 0 st))"
proof -
  obtain rest where r: "fst (RunSpamTest tests d ty 0 st) = fst (RunSpamTest tests d ty iMaxScore st) @ rest"
    and stop: "CalculateTotalSpamScore (fst (RunSpamTest tests d ty iMaxScore st)) \<ge> iMaxScore \<or>
      RunSpamTest tests d ty 0 st = RunSpamTest tests d ty iMaxScore st"
    using RunSpamTestLoop_stop [OF _ assms(1), of 0 "[]" tests d ty st]
    unfolding RunSpamTest_def by (auto simp: CalculateTotalSpamScore_def)
  from assms(2) r have "0 \<le> CalculateTotalSpamScore rest" by (simp add: total_nonneg)
  with r stop show ?thesis by (auto simp: total_append)
qed

definition flat_test :: "int \<Rightarrow> unit SpamTest" where
  "flat_test score = \<lparr> GetIsEnabled = True, GetTestType = PreTransmission,
     RunTest = (\<lambda>d st. ([\<lparr> test_name = ''flat'', test_outcome = OutcomeFail, spam_score = score, test_message = [] \<rparr>], st)) \<rparr>"

definition sample_data :: SpamTestData where
  "sample_data = \<lparr> EnvelopeFrom = ''bob@bank.example'', HeloHost = ''mx.bank.example'', OriginatingIP = V4 [192, 0, 2, 1], message_data = None \<rparr>"

theorem early_stop_keeps_classification_witness:
  "length (fst (RunSpamTest [flat_test 3, flat_test 4, flat_test 5] sample_data PreTransmission 7 ())) = 2 \<and>
   7 \<le> CalculateTotalSpamScore (fst (RunSpamTest [flat_test 3, flat_test 4, flat_test 5] sample_data PreTransmission 7 ()))"
proof -
  let ?tests = "[flat_test 3, flat_test 4, flat_test 5]"
  have "list_all (\<lambda>r. 0 \<le> spam_score r) (fst (RunSpamTest ?tests sample_data PreTransmission 0 ()))" by code_simp
  with early_stop_keeps_classification [of 7 ?tests sample_data PreTransmission "()"]
  have "7 \<le> CalculateTotalSpamScore (fst (RunSpamTest ?tests sample_data PreTransmission 7 ())) \<longleftrightarrow>
    7 \<le> CalculateTotalSpamScore (fst (RunSpamTest ?tests sample_data PreTransmission 0 ()))" by simp
  moreover have "7 \<le> CalculateTotalSpamScore (fst (RunSpamTest ?tests sample_data PreTransmission 0 ()))"
    "length (fst (RunSpamTest ?tests sample_data PreTransmission 7 ())) = 2" by code_simp+
  ultimately show ?thesis by simp
qed

text \<open>
  A message with more than one From field, the first of which names a domain, is refused whatever is
  published and whatever SPF and DKIM say: no alignment is computed, and nothing but the failure is recorded.
\<close>

theorem second_from_is_refused:
  assumes "message_data d = Some m" "GetFieldOccurrenceCount ''From'' m > 1" "GetFrom m \<noteq> []" "FromDomain env m \<noteq> []"
  shows "\<exists>r. SpamTestDMARC_RunTest env d st = ([r], st) \<and> test_outcome r = OutcomeFail \<and> spam_score r = DMARCFailureScore env"
  using assms by (auto simp: SpamTestDMARC_RunTest_def FromDomain_def Let_def)

definition sample_env :: "unit SpamEnv" where
  "sample_env =
     \<lparr> UseSPFScore = 3, DMARCFailureScore = 5, CheckHostInHeloScore = 2, CheckPTRScore = 1, UseMXChecksScore = 2,
       address_text = (\<lambda>a. ''192.0.2.1''), record_query = TableQuery sample_zone, host_name = ''mx.test'', unix_time = 0,
       void_lookup_limit = 2, dmarc_env = TableDmarcEnv sample_zone (\<lambda>n. (True, False)) True sample_suffixes (\<lambda>w. 0) (\<lambda>w. (Some 7, w)),
       charset_encode = id, is_valid_address = (\<lambda>a. True), dkim_verify = (\<lambda>w. (([''mail.bank.example''], [''s1'']), w)),
       ip_addresses = (\<lambda>w n. (Some [], w)), ptr_records = (\<lambda>w n. (Some [], w)), mx_records = (\<lambda>w n. (Some [], w)),
       registered_domain = (\<lambda>h. None) \<rparr>"

definition sample_message :: "(AnsiString \<times> AnsiString) list \<Rightarrow> SpamTestData" where
  "sample_message others = sample_data\<lparr> message_data := Some \<lparr> mime_fields = others, stored_message = True \<rparr> \<rparr>"

definition sample_state :: "unit TestState" where
  "sample_state = \<lparr> authentication_results = Some AuthenticationResults_init, dmarc_reports = [], tree_walk_cache = [], dns_world = () \<rparr>"

theorem second_from_is_refused_witness:
  "\<exists>r. SpamTestDMARC_RunTest sample_env (sample_message [(''From'', ''<a@evil.example>''), (''from'', ''<ceo@bank.example>'')]) sample_state = ([r], sample_state) \<and>
     test_outcome r = OutcomeFail \<and> spam_score r = 5"
proof -
  let ?d = "sample_message [(''From'', ''<a@evil.example>''), (''from'', ''<ceo@bank.example>'')]"
  let ?m = "\<lparr> mime_fields = [(''From'', ''<a@evil.example>''), (''from'', ''<ceo@bank.example>'')], stored_message = True \<rparr>"
  have "message_data ?d = Some ?m" by (simp add: sample_message_def)
  moreover have "GetFieldOccurrenceCount ''From'' ?m = 2" "GetFrom ?m \<noteq> []" "FromDomain sample_env ?m \<noteq> []" by code_simp+
  moreover have "DMARCFailureScore sample_env = 5" by (simp add: sample_env_def)
  ultimately show ?thesis using second_from_is_refused [of ?d ?m sample_env sample_state] by simp
qed

text \<open>
  The test returns before it counts the From fields where the first of them is empty: a second one, which is what
  a reader shows, is neither refused nor evaluated.
\<close>

theorem empty_first_from_escapes:
  assumes "message_data d = Some \<lparr> mime_fields = (''From'', []) # others, stored_message = b \<rparr>"
  shows "SpamTestDMARC_RunTest env d st = ([], st)"
proof -
  have "CompareNoCase ''From'' ''From'' = 0" by code_simp
  with assms show ?thesis by (simp add: SpamTestDMARC_RunTest_def GetFrom_def GetFieldValue_def)
qed

text \<open>
  An address literal in HELO is compared with the client's address without regard to case, for an IPv6 literal
  whose first character is none of the letters of its tag.
\<close>

theorem address_literal_is_compared:
  assumes "a \<noteq> []" "hd a \<notin> set ''IPv6:''" "CHR '']'' \<notin> set a"
  shows "CheckHostInHelo env (''[IPv6:'' @ a @ '']'') ip w = (iequals a (address_text env ip), w)"
proof -
  have "dropWhile (\<lambda>c. c = CHR ''I'' \<or> c = CHR ''P'' \<or> c = CHR ''v'' \<or> c = CHR ''6'' \<or> c = CHR '':'') (a @ '']'') = a @ '']''"
    using assms(1,2) by (cases a) auto
  moreover have "dropWhile (\<lambda>c. c = CHR '']'') (rev a) = rev a"
    using assms(1,3) by (cases a rule: rev_cases) auto
  ultimately have "LiteralHost (''[IPv6:'' @ a @ '']'') = a"
    by (simp add: LiteralHost_def Let_def TrimLeft_chars_def TrimRight_chars_def Left_def)
  then show ?thesis by (simp add: CheckHostInHelo_def Let_def Left_def)
qed

text \<open>The tag is removed as a set of characters: a literal that begins with one of them loses it too.\<close>

theorem literal_loses_its_first_group:
  "LiteralHost ''[IPv6:64:ff9b::1]'' = ''4:ff9b::1''"
  by code_simp

end
