(* ===== verification/GreyListing.thy ===== *)
theory GreyListing
  imports IPAddress
begin

text \<open>
  SMTP/GreyListing.cpp over Common/Persistence/PersistentGreyList.cpp: a first delivery attempt of a sender,
  recipient and address is turned away, a retry after the delay is let through. The table of triplets is a list of rows in
  the order of their insertion, and a query without an order answers the first match. The database's text
  comparison, which depends on its collation, the faults of its statements and the numbers its identity column hands
  out are arguments. Times are whole
  seconds, which is what the clock gives and what the stored timestamps keep.
\<close>

section \<open>The table\<close>

record GreyListTriplet =
  glid :: int
  glcreatetime :: int
  glblockendtime :: int
  gldeletetime :: int
  glipaddress1 :: "64 word"
  glipaddress2 :: "64 word option"
  glsenderaddress :: AnsiString
  glrecipientaddress :: AnsiString
  glpassedcount :: int
  glblockedcount :: int

record GreyTable =
  triplets :: "GreyListTriplet list"

record GreyConfig =
  same_text :: "AnsiString \<Rightarrow> AnsiString \<Rightarrow> bool"   \<comment> \<open>the database's =\<close>
  address_white_listed :: "IPAddress \<Rightarrow> bool"              \<comment> \<open>PersistentGreyListingWhiteAddress\<close>
  GreyListingInitialDelay :: int                            \<comment> \<open>minutes\<close>
  GreyListingInitialDelete :: int                           \<comment> \<open>hours\<close>
  GreyListingFinalDelete :: int                             \<comment> \<open>hours\<close>

record GreyFaults =
  select_answers :: bool
  insert_answers :: bool
  update_answers :: bool
  identity_glid :: int   \<comment> \<open>what the identity column gives to a row that is inserted\<close>

section \<open>Statements\<close>

text \<open>The second column of an IPv4 address is NULL.\<close>

definition Address2Column :: "IPAddress \<Rightarrow> 64 word option" where
  "Address2Column a = (case a of V4 _ \<Rightarrow> None | V6 _ \<Rightarrow> Some (GetAddress2 a))"

definition TripletMatches ::
  "GreyConfig \<Rightarrow> AnsiString \<Rightarrow> AnsiString \<Rightarrow> IPAddress \<Rightarrow> GreyListTriplet \<Rightarrow> bool" where
  "TripletMatches cfg sSenderAddress sRecipientAddress remoteIP row \<longleftrightarrow>
     glipaddress1 row = GetAddress1 remoteIP \<and> glipaddress2 row = Address2Column remoteIP \<and>
     same_text cfg (glsenderaddress row) sSenderAddress \<and> same_text cfg (glrecipientaddress row) sRecipientAddress"

definition GetRecord ::
  "GreyConfig \<Rightarrow> GreyFaults \<Rightarrow> AnsiString \<Rightarrow> AnsiString \<Rightarrow> IPAddress \<Rightarrow> GreyTable \<Rightarrow> GreyListTriplet option" where
  "GetRecord cfg fl sSenderAddress sRecipientAddress remoteIP t =
     (if select_answers fl then List.find (TripletMatches cfg sSenderAddress sRecipientAddress remoteIP) (triplets t)
      else None)"

definition AddObject :: "GreyFaults \<Rightarrow> GreyListTriplet \<Rightarrow> GreyTable \<Rightarrow> bool \<times> GreyTable" where
  "AddObject fl triplet t =
     (if insert_answers fl then
        (True, t\<lparr> triplets := triplets t @ [triplet\<lparr> glid := identity_glid fl,
                    glsenderaddress := Left (glsenderaddress triplet) 200,
                    glrecipientaddress := Left (glrecipientaddress triplet) 200,
                    glpassedcount := 0, glblockedcount := 0 \<rparr>] \<rparr>)
      else (False, t))"

definition ResetDeletionTime :: "GreyFaults \<Rightarrow> GreyListTriplet \<Rightarrow> GreyTable \<Rightarrow> bool \<times> GreyTable" where
  "ResetDeletionTime fl triplet t =
     (if update_answers fl then
        (True, t\<lparr> triplets := map (\<lambda>row. if glid row = glid triplet
                    then row\<lparr> gldeletetime := gldeletetime triplet, glpassedcount := glpassedcount row + 1 \<rparr>
                    else row) (triplets t) \<rparr>)
      else (False, t))"

definition IncreaseBlocked :: "GreyFaults \<Rightarrow> int \<Rightarrow> GreyTable \<Rightarrow> GreyTable" where
  "IncreaseBlocked fl iTripletID t =
     (if update_answers fl then
        t\<lparr> triplets := map (\<lambda>row. if glid row = iTripletID
             then row\<lparr> glblockedcount := glblockedcount row + 1 \<rparr> else row) (triplets t) \<rparr>
      else t)"

definition ClearExpiredRecords :: "int \<Rightarrow> GreyTable \<Rightarrow> GreyTable" where
  "ClearExpiredRecords now t = t\<lparr> triplets := filter (\<lambda>row. \<not> gldeletetime row < now) (triplets t) \<rparr>"

definition ClearAllRecords :: "GreyTable \<Rightarrow> GreyTable" where
  "ClearAllRecords t = t\<lparr> triplets := [] \<rparr>"

section \<open>The decision\<close>

definition NewTriplet :: "GreyConfig \<Rightarrow> int \<Rightarrow> AnsiString \<Rightarrow> AnsiString \<Rightarrow> IPAddress \<Rightarrow> GreyListTriplet" where
  "NewTriplet cfg dtNow sSenderAddress sRecipientAddress remoteIP =
     \<lparr> glid = 0, glcreatetime = dtNow,
       glblockendtime = dtNow + 60 * GreyListingInitialDelay cfg,
       gldeletetime = dtNow + 3600 * GreyListingInitialDelete cfg,
       glipaddress1 = GetAddress1 remoteIP, glipaddress2 = Address2Column remoteIP,
       glsenderaddress = sSenderAddress, glrecipientaddress = sRecipientAddress,
       glpassedcount = 0, glblockedcount = 0 \<rparr>"

definition GetAllowSend ::
  "GreyConfig \<Rightarrow> GreyFaults \<Rightarrow> int \<Rightarrow> AnsiString \<Rightarrow> AnsiString \<Rightarrow> IPAddress \<Rightarrow> GreyTable \<Rightarrow> bool \<times> GreyTable" where
  "GetAllowSend cfg fl dtNow sSenderAddress sRecipientAddress remoteIP t =
     (if address_white_listed cfg remoteIP then (True, t)
      else
        case GetRecord cfg fl sSenderAddress sRecipientAddress remoteIP t of
          Some pTriplet \<Rightarrow>
            if dtNow > glblockendtime pTriplet then
              (True, snd (ResetDeletionTime fl
                       (pTriplet\<lparr> gldeletetime := dtNow + 3600 * GreyListingFinalDelete cfg \<rparr>) t))
            else (False, IncreaseBlocked fl (glid pTriplet) t)
        | None \<Rightarrow>
            (case AddObject fl (NewTriplet cfg dtNow sSenderAddress sRecipientAddress remoteIP) t of
               (True, t) \<Rightarrow> (False, t)
             | (False, t) \<Rightarrow> (True, t)))"

section \<open>Runs of the table\<close>

text \<open>
  What the server does with the table as time goes by: attempts of any senders, with statements that may fail, each insert with a
  number that no row has, which is what an identity column gives; the removal of expired rows; and, where
  \<open>clearing\<close> is set, an administrator who clears the table.
\<close>

inductive grey_run :: "GreyConfig \<Rightarrow> bool \<Rightarrow> GreyTable \<Rightarrow> int \<Rightarrow> GreyTable \<Rightarrow> int \<Rightarrow> bool" for cfg clearing t0 n0 where
  run_start: "grey_run cfg clearing t0 n0 t0 n0"
| run_attempt: "grey_run cfg clearing t0 n0 t n \<Longrightarrow> n \<le> now \<Longrightarrow> identity_glid fl \<notin> glid ` set (triplets t) \<Longrightarrow>
    grey_run cfg clearing t0 n0 (snd (GetAllowSend cfg fl now s r ip t)) now"
| run_expire: "grey_run cfg clearing t0 n0 t n \<Longrightarrow> n \<le> now \<Longrightarrow> grey_run cfg clearing t0 n0 (ClearExpiredRecords now t) now"
| run_clear: "grey_run cfg clearing t0 n0 t n \<Longrightarrow> clearing \<Longrightarrow> n \<le> now \<Longrightarrow> grey_run cfg clearing t0 n0 (ClearAllRecords t) now"

text \<open>The row an attempt meets, with the end of its block and a lower bound of its lifetime.\<close>

definition pending :: "GreyConfig \<Rightarrow> AnsiString \<Rightarrow> AnsiString \<Rightarrow> IPAddress \<Rightarrow> int \<Rightarrow> int \<Rightarrow> GreyTable \<Rightarrow> bool" where
  "pending cfg s r ip end life t \<longleftrightarrow>
     (\<exists>row. List.find (TripletMatches cfg s r ip) (triplets t) = Some row \<and> glblockendtime row = end \<and> life \<le> gldeletetime row)"

lemma find_append: "List.find P (xs @ ys) = (case List.find P xs of None \<Rightarrow> List.find P ys | Some x \<Rightarrow> Some x)"
  by (induction xs) auto

lemma find_filter: "List.find P xs = Some x \<Longrightarrow> Q x \<Longrightarrow> List.find P (filter Q xs) = Some x"
  by (induction xs) (auto split: if_splits)

lemma find_map_same: "(\<And>x. P (f x) = P x) \<Longrightarrow> List.find P (map f xs) = map_option f (List.find P xs)"
  by (induction xs) auto

text \<open>An update of a row that keeps what is matched and the end of the block.\<close>

lemma pending_map:
  assumes "pending cfg s r ip e life t"
    "\<And>row. TripletMatches cfg s r ip (f row) = TripletMatches cfg s r ip row"
    "\<And>row. glblockendtime (f row) = glblockendtime row" "\<And>row. life \<le> gldeletetime row \<Longrightarrow> life \<le> gldeletetime (f row)"
  shows "pending cfg s r ip e life (t\<lparr> triplets := map f (triplets t) \<rparr>)"
  using assms by (auto simp: pending_def find_map_same)

lemma pending_AddObject: "pending cfg s r ip e life t \<Longrightarrow> pending cfg s r ip e life (snd (AddObject fl row t))"
  by (auto simp: pending_def AddObject_def find_append)

lemma pending_IncreaseBlocked: "pending cfg s r ip e life t \<Longrightarrow> pending cfg s r ip e life (IncreaseBlocked fl k t)"
  by (auto simp: IncreaseBlocked_def TripletMatches_def intro!: pending_map split: if_splits)

lemma pending_ResetDeletionTime:
  "pending cfg s r ip e life t \<Longrightarrow> life \<le> gldeletetime row \<Longrightarrow>
   pending cfg s r ip e life (snd (ResetDeletionTime fl row t))"
  by (auto simp: ResetDeletionTime_def TripletMatches_def intro!: pending_map split: if_splits)

lemma pending_ClearExpired: "pending cfg s r ip e life t \<Longrightarrow> now \<le> life \<Longrightarrow> pending cfg s r ip e life (ClearExpiredRecords now t)"
  by (fastforce simp: pending_def ClearExpiredRecords_def intro: find_filter)

text \<open>What an attempt does to the table is nothing, or one of the three statements.\<close>

lemma attempt_statement:
  assumes "P t" "\<And>row. P (snd (AddObject fl row t))" "\<And>k. P (IncreaseBlocked fl k t)"
    and "\<And>row. gldeletetime row = now + 3600 * GreyListingFinalDelete cfg \<Longrightarrow> P (snd (ResetDeletionTime fl row t))"
  shows "P (snd (GetAllowSend cfg fl now s r ip t))"
proof (cases "GetRecord cfg fl s r ip t")
  case None
  obtain ok t' where "AddObject fl (NewTriplet cfg now s r ip) t = (ok, t')" by fastforce
  with None assms(1) assms(2) [of "NewTriplet cfg now s r ip"] show ?thesis by (cases ok) (simp_all add: GetAllowSend_def)
qed (use assms in \<open>simp add: GetAllowSend_def\<close>)

lemma pending_attempt:
  assumes "pending cfg s r ip e life t" "life \<le> now + 3600 * GreyListingFinalDelete cfg"
  shows "pending cfg s r ip e life (snd (GetAllowSend cfg fl now s' r' ip' t))"
  using assms
  by (intro attempt_statement [where P = "pending cfg s r ip e life"]) (auto simp: pending_AddObject pending_IncreaseBlocked pending_ResetDeletionTime)

lemma pending_run:
  assumes "grey_run cfg False t0 n0 t n" "pending cfg s r ip e life t0" "n \<le> life"
    and "life \<le> n0 + 3600 * GreyListingFinalDelete cfg"
  shows "n0 \<le> n \<and> pending cfg s r ip e life t"
  using assms
proof (induction rule: grey_run.induct)
  case (run_attempt t n now fl s' r' ip')
  then have "n0 \<le> n" "pending cfg s r ip e life t" by auto
  with run_attempt pending_attempt [of cfg s r ip e life t now fl s' r' ip'] show ?case by auto
qed (auto intro: pending_ClearExpired)

lemma pending_decides:
  assumes "pending cfg s r ip e life t" "select_answers fl" "\<not> address_white_listed cfg ip"
  shows "fst (GetAllowSend cfg fl now s r ip t) \<longleftrightarrow> e < now"
  using assms by (cases "e < now") (auto simp: pending_def GetAllowSend_def GetRecord_def)

text \<open>A first attempt leaves its triplet behind.\<close>

lemma first_attempt:
  assumes "GetRecord cfg fl s r ip t = None" "select_answers fl" "insert_answers fl" "\<not> address_white_listed cfg ip"
    and "length s \<le> 200" "length r \<le> 200" "same_text cfg s s" "same_text cfg r r"
  shows "pending cfg s r ip (now + 60 * GreyListingInitialDelay cfg) (now + 3600 * GreyListingInitialDelete cfg)
    (snd (GetAllowSend cfg fl now s r ip t)) \<and> \<not> fst (GetAllowSend cfg fl now s r ip t)"
  using assms
  by (auto simp: GetAllowSend_def AddObject_def pending_def find_append GetRecord_def NewTriplet_def TripletMatches_def Left_def)

text \<open>
  A row that is well formed at time \<open>n\<close>: it fits its columns, its block ends the initial delay after it was made, its
  counters have not gone below zero, and its lifetime is the initial one until a retry passed, and after that it was set by a retry that came
  after the end of the block.
\<close>

definition fits_columns :: "GreyListTriplet \<Rightarrow> bool" where
  "fits_columns row \<longleftrightarrow> length (glsenderaddress row) \<le> 200 \<and> length (glrecipientaddress row) \<le> 200"

definition row_ok :: "GreyConfig \<Rightarrow> int \<Rightarrow> GreyListTriplet \<Rightarrow> bool" where
  "row_ok cfg n row \<longleftrightarrow> fits_columns row \<and> glcreatetime row \<le> n \<and>
     glblockendtime row = glcreatetime row + 60 * GreyListingInitialDelay cfg \<and> 0 \<le> glpassedcount row \<and> 0 \<le> glblockedcount row \<and>
     (if glpassedcount row = 0 then gldeletetime row = glcreatetime row + 3600 * GreyListingInitialDelete cfg
      else glblockendtime row + 3600 * GreyListingFinalDelete cfg < gldeletetime row \<and> gldeletetime row \<le> n + 3600 * GreyListingFinalDelete cfg)"

definition table_ok :: "GreyConfig \<Rightarrow> int \<Rightarrow> GreyTable \<Rightarrow> bool" where
  "table_ok cfg n t \<longleftrightarrow> list_all (row_ok cfg n) (triplets t) \<and> distinct (map glid (triplets t))"

lemma table_ok_later: "table_ok cfg n t \<Longrightarrow> n \<le> now \<Longrightarrow> table_ok cfg now t"
  by (auto simp: table_ok_def list_all_iff row_ok_def split: if_splits)

lemma table_ok_map:
  assumes "table_ok cfg n t" "\<And>row. row \<in> set (triplets t) \<Longrightarrow> row_ok cfg n row \<Longrightarrow> row_ok cfg n (f row)" "\<And>row. glid (f row) = glid row"
  shows "table_ok cfg n (t\<lparr> triplets := map f (triplets t) \<rparr>)"
  using assms by (simp add: table_ok_def list_all_iff comp_def)

lemma table_ok_insert:
  assumes "table_ok cfg n t" "identity_glid fl \<notin> glid ` set (triplets t)"
  shows "table_ok cfg n (snd (AddObject fl (NewTriplet cfg n s r ip) t))"
  using assms by (auto simp: table_ok_def AddObject_def list_all_iff row_ok_def fits_columns_def NewTriplet_def Left_def)

lemma table_ok_IncreaseBlocked: "table_ok cfg n t \<Longrightarrow> table_ok cfg n (IncreaseBlocked fl k t)"
  by (auto simp: IncreaseBlocked_def row_ok_def fits_columns_def intro!: table_ok_map split: if_splits)

lemma table_ok_passed:
  assumes "table_ok cfg n t" "row \<in> set (triplets t)" "glblockendtime row < n"
  shows "table_ok cfg n (snd (ResetDeletionTime fl (row\<lparr> gldeletetime := n + 3600 * GreyListingFinalDelete cfg \<rparr>) t))"
proof (cases "update_answers fl")
  case True
  have "row' = row" if "row' \<in> set (triplets t)" "glid row' = glid row" for row'
    using assms(1,2) that by (auto simp: table_ok_def distinct_map inj_on_def)
  then have "glblockendtime row' < n" if "row' \<in> set (triplets t)" "glid row' = glid row" for row' using assms(3) that by blast
  then show ?thesis using assms True
    by (fastforce simp: ResetDeletionTime_def row_ok_def fits_columns_def intro!: table_ok_map)
qed (use assms in \<open>simp add: ResetDeletionTime_def\<close>)

lemma table_ok_attempt:
  assumes "table_ok cfg n t" "identity_glid fl \<notin> glid ` set (triplets t)"
  shows "table_ok cfg n (snd (GetAllowSend cfg fl n s r ip t))"
proof (cases "GetRecord cfg fl s r ip t")
  case None
  obtain ok t' where a: "AddObject fl (NewTriplet cfg n s r ip) t = (ok, t')" by fastforce
  with None assms table_ok_insert [OF assms, of s r ip] show ?thesis by (cases ok) (simp_all add: GetAllowSend_def)
next
  case (Some row)
  then have "row \<in> set (triplets t)" by (auto simp: GetRecord_def find_Some_iff split: if_splits)
  with Some assms(1) show ?thesis by (simp add: GetAllowSend_def table_ok_passed table_ok_IncreaseBlocked)
qed

lemma table_ok_ClearExpired: "table_ok cfg n t \<Longrightarrow> table_ok cfg n (ClearExpiredRecords now t)"
  by (auto simp: table_ok_def ClearExpiredRecords_def list_all_iff distinct_map_filter)

section \<open>Properties\<close>


definition sample_grey :: GreyConfig where
  "sample_grey = \<lparr> same_text = (\<lambda>a b. a = b), address_white_listed = (\<lambda>a. False), GreyListingInitialDelay = 30,
     GreyListingInitialDelete = 24, GreyListingFinalDelete = 864 \<rparr>"

definition no_faults :: GreyFaults where
  "no_faults = \<lparr> select_answers = True, insert_answers = True, update_answers = True, identity_glid = 1 \<rparr>"


text \<open>
  C39: Every row of the table is well formed at all times, whatever is attempted, however long the addresses of a message are, whichever statements
  fail and whenever the table is cleared: addresses fit their columns, a block ends the initial delay after the first
  attempt, and a row that counts a passed retry lives on from a time after the end of its block, a row that counts none from its first attempt.
\<close>

theorem table_stays_well_formed:
  assumes "table_ok cfg n0 t" "grey_run cfg True t n0 t' n"
  shows "table_ok cfg n t'"
  using assms(2,1)
proof (induction rule: grey_run.induct)
  case (run_attempt t' n now fl s r ip)
  then show ?case by (intro table_ok_attempt) (simp_all add: table_ok_later)
next
  case (run_expire t' n now)
  then show ?case by (intro table_ok_ClearExpired) (simp add: table_ok_later)
qed (auto simp: table_ok_def ClearAllRecords_def)

theorem table_stays_well_formed_witness:
  "table_ok sample_grey 5 (snd (GetAllowSend sample_grey no_faults 5 (replicate 300 CHR ''x'') ''d@e.f'' (V4 [192, 0, 2, 1]) \<lparr> triplets = [] \<rparr>))"
  by (rule table_stays_well_formed [of sample_grey 0 "\<lparr> triplets = [] \<rparr>", OF _ run_attempt [OF run_start, of 0]])
    (simp_all add: table_ok_def)

text \<open>
  A sender longer than the column is stored cut to 200 characters and looked up whole: it is turned away
  at every attempt, however long it keeps trying.
\<close>

theorem long_sender_never_accepted:
  assumes "list_all fits_columns (triplets t)" "length s > 200" "\<And>a b. same_text cfg a b \<Longrightarrow> length a = length b"
    and "insert_answers fl" "\<not> address_white_listed cfg ip"
  shows "\<not> fst (GetAllowSend cfg fl now s r ip t)"
proof -
  have "\<not> TripletMatches cfg s r ip row" if "row \<in> set (triplets t)" for row
    using assms(1-3) that by (fastforce simp: list_all_iff fits_columns_def TripletMatches_def)
  then have "GetRecord cfg fl s r ip t = None" by (auto simp: GetRecord_def find_None_iff)
  with assms(4,5) show ?thesis by (simp add: GetAllowSend_def AddObject_def)
qed

end
