(* ===== verification/SenderLists.thy ===== *)
theory SenderLists
  imports DmarcTreeWalk IPAddress
begin

text \<open>
  The lists of blocked and of trusted senders and their caches: Common/BO/BlockedSender.cpp,
  Common/AntiSpam/BlockedSenderCache.cpp and Common/AntiSpam/WhiteListCache.cpp. A cache is reloaded on the next lookup after
  an invalidation; \<open>load\<close> is what the database answers at that lookup, \<open>None\<close> where it cannot be
  read. A lookup holds the lock of its cache, so it is one step. The wildcard match of the white list is an argument.
\<close>

section \<open>A cache that is reloaded on demand\<close>

record 'a ListCache =
  cached_items :: "'a list"
  needRefresh :: bool

definition SetNeedRefresh :: "'a ListCache \<Rightarrow> 'a ListCache" where
  "SetNeedRefresh c = c\<lparr> needRefresh := True \<rparr>"

definition Refresh :: "'a list option \<Rightarrow> 'a ListCache \<Rightarrow> 'a ListCache" where
  "Refresh load c =
     (case load of None \<Rightarrow> c | Some items \<Rightarrow> \<lparr> cached_items = items, needRefresh = False \<rparr>)"

definition RefreshIfNeeded :: "'a list option \<Rightarrow> 'a ListCache \<Rightarrow> 'a ListCache" where
  "RefreshIfNeeded load c = (if needRefresh c then Refresh load c else c)"

section \<open>Blocked senders\<close>

record BlockedSender =
  blocked_address :: AnsiString
  blocked_score :: int

text \<open>The text an entry is compared by, and the test of a sender's domain against the entry of a domain.\<close>

definition EntryText :: "BlockedSender \<Rightarrow> AnsiString" where
  "EntryText b =
     (let e = MakeLower (Trim (blocked_address b)) in if Left e 1 = ''@'' then Mid e 1 else e)"

definition IsAtOrUnder :: "AnsiString \<Rightarrow> AnsiString \<Rightarrow> bool" where
  "IsAtOrUnder e fromDomain =
     (let dottedSuffix = CHR ''.'' # e
      in fromDomain = e \<or>
         length fromDomain > length dottedSuffix \<and> Right fromDomain (length dottedSuffix) = dottedSuffix)"

definition Matches :: "AnsiString \<Rightarrow> BlockedSender \<Rightarrow> bool" where
  "Matches sFromAddress b =
     (if sFromAddress = [] then False
      else
        let e = EntryText b
        in if e = [] then False
           else
             let from0 = MakeLower (Trim sFromAddress)
             in if Find_str e ''@'' \<noteq> None then from0 = e
                else
                  case ReverseFind from0 CHR ''@'' of
                    None \<Rightarrow> False
                  | Some atPos \<Rightarrow> IsAtOrUnder e (Mid from0 (atPos + 1)))"

fun BestMatch :: "AnsiString \<Rightarrow> BlockedSender list \<Rightarrow> BlockedSender option \<Rightarrow> BlockedSender option" where
  "BestMatch fromAddress [] bestMatch = bestMatch"
| "BestMatch fromAddress (b # bs) bestMatch =
     BestMatch fromAddress bs
       (if Matches fromAddress b then
          (case bestMatch of
             None \<Rightarrow> Some b
           | Some best \<Rightarrow> if blocked_score b > blocked_score best then Some b else bestMatch)
        else bestMatch)"

definition GetBlockingEntry ::
  "BlockedSender list option \<Rightarrow> AnsiString \<Rightarrow> BlockedSender ListCache \<Rightarrow> BlockedSender option \<times> BlockedSender ListCache" where
  "GetBlockingEntry load fromAddress c =
     (let c = RefreshIfNeeded load c in (BestMatch fromAddress (cached_items c) None, c))"

section \<open>Trusted senders\<close>

record WhiteListAddress =
  LowerIPAddress :: IPAddress
  UpperIPAddress :: IPAddress
  EmailAddress :: AnsiString

definition WhiteListed :: "(AnsiString \<Rightarrow> AnsiString \<Rightarrow> bool) \<Rightarrow> AnsiString \<Rightarrow> IPAddress \<Rightarrow> WhiteListAddress \<Rightarrow> bool" where
  "WhiteListed wildcard fromAddress ip a \<longleftrightarrow>
     WithinRange ip (LowerIPAddress a) (UpperIPAddress a) \<and>
     (EmailAddress a = [] \<or> EmailAddress a = ''*'' \<or> wildcard (EmailAddress a) fromAddress)"

definition IsWhitelisted ::
  "(AnsiString \<Rightarrow> AnsiString \<Rightarrow> bool) \<Rightarrow> WhiteListAddress list option \<Rightarrow> AnsiString \<Rightarrow> IPAddress \<Rightarrow>
   WhiteListAddress ListCache \<Rightarrow> bool \<times> WhiteListAddress ListCache" where
  "IsWhitelisted wildcard load fromAddress ip c =
     (let c = RefreshIfNeeded load c in (list_ex (WhiteListed wildcard fromAddress ip) (cached_items c), c))"

section \<open>What a cached list promises\<close>

text \<open>
  A lookup answers from the list that was loaded last: one that finds the cache invalidated and the
  database readable answers from the database, any other from what the cache holds.
\<close>

locale cached_list =
  fixes lookup :: "'a list option \<Rightarrow> 'q \<Rightarrow> 'a ListCache \<Rightarrow> 'r \<times> 'a ListCache"
    and answer :: "'q \<Rightarrow> 'a list \<Rightarrow> 'r"
  assumes lookup_answers: "lookup load q c = (answer q (cached_items (RefreshIfNeeded load c)), RefreshIfNeeded load c)"
begin

lemma lookup_reloads:
  "fst (lookup (Some items) q (SetNeedRefresh c)) = answer q items \<and>
   snd (lookup (Some items) q (SetNeedRefresh c)) = \<lparr> cached_items = items, needRefresh = False \<rparr>"
  by (simp add: lookup_answers RefreshIfNeeded_def Refresh_def SetNeedRefresh_def)

lemma lookup_unreadable: "lookup None q c = (answer q (cached_items c), c)"
  unfolding lookup_answers by (simp add: RefreshIfNeeded_def Refresh_def)

lemma lookup_cached: "\<not> needRefresh c \<Longrightarrow> fst (lookup load q c) = answer q (cached_items c) \<and> snd (lookup load q c) = c"
  by (simp add: lookup_answers RefreshIfNeeded_def)

text \<open>
  Any number of lookups while the database cannot be read: they answer from the old list, and the first
  readable one reloads.
\<close>

fun lookups :: "'q list \<Rightarrow> 'a ListCache \<Rightarrow> 'r list \<times> 'a ListCache" where
  "lookups [] c = ([], c)"
| "lookups (q # qs) c =
     (let (r, c) = lookup None q c; (rs, c) = lookups qs c in (r # rs, c))"

lemma lookups_outage: "lookups qs c = (map (\<lambda>q. answer q (cached_items c)) qs, c)"
  by (induction qs) (simp_all add: lookup_unreadable)

end

interpretation blocked: cached_list GetBlockingEntry "\<lambda>fromAddress items. BestMatch fromAddress items None"
  by unfold_locales (simp add: GetBlockingEntry_def Let_def)

interpretation trusted: cached_list "\<lambda>load q. IsWhitelisted wildcard load (fst q) (snd q)"
    "\<lambda>q items. list_ex (WhiteListed wildcard (fst q) (snd q)) items"
  for wildcard
  by unfold_locales (simp add: IsWhitelisted_def Let_def)

section \<open>Facts\<close>

lemma BestMatch_some:
  "BestMatch f bs (Some b0) = Some b \<Longrightarrow>
   (b = b0 \<or> b \<in> set bs \<and> Matches f b) \<and> blocked_score b0 \<le> blocked_score b \<and>
   (\<forall>b' \<in> set bs. Matches f b' \<longrightarrow> blocked_score b' \<le> blocked_score b)"
  by (induction bs arbitrary: b0) (fastforce split: if_splits)+

lemma BestMatch_stays: "BestMatch f bs (Some b0) \<noteq> None"
  by (induction bs arbitrary: b0) auto

lemma BestMatch_None: "BestMatch f bs None = None \<longleftrightarrow> list_all (\<lambda>b. \<not> Matches f b) bs"
  by (induction bs) (auto simp: BestMatch_stays)

lemma BestMatch_best:
  "BestMatch f bs None = Some b \<Longrightarrow>
   b \<in> set bs \<and> Matches f b \<and> list_all (\<lambda>b'. Matches f b' \<longrightarrow> blocked_score b' \<le> blocked_score b) bs"
proof (induction bs)
  case (Cons b' bs)
  then show ?case
    using BestMatch_some [of f bs b' b] by (auto simp: list_all_iff split: if_splits)
qed simp

lemma ReverseFind_split:
  "ReverseFind s c = Some i \<longleftrightarrow> (\<exists>l d. s = l @ c # d \<and> c \<notin> set d \<and> length l = i)"
proof
  assume "ReverseFind s c = Some i"
  then have "i < length s" "s ! i = c" "c \<notin> set (drop (Suc i) s)" using ReverseFind_SomeD by blast+
  then show "\<exists>l d. s = l @ c # d \<and> c \<notin> set d \<and> length l = i"
    using id_take_nth_drop [of i s] by fastforce
qed (auto simp: ReverseFind_append_hit)

lemma ReverseFind_rest:
  "(\<exists>i. ReverseFind t c = Some i \<and> P (Mid t (i + 1))) \<longleftrightarrow> (\<exists>l d. t = l @ c # d \<and> c \<notin> set d \<and> P d)"
proof -
  have "Mid (l @ c # d) (length l + 1) = d" for l d by simp
  then show ?thesis unfolding ReverseFind_split by metis
qed

lemma Right_suffix: "length d > length t \<and> Right d (length t) = t \<longleftrightarrow> (\<exists>p. p \<noteq> [] \<and> d = p @ t)"
proof
  assume *: "length d > length t \<and> Right d (length t) = t"
  then have "d = take (length d - length t) d @ t" by (metis Right_def append_take_drop_id min.absorb3)
  with * show "\<exists>p. p \<noteq> [] \<and> d = p @ t" by (metis length_append length_greater_0_conv less_add_same_cancel2)
qed (auto simp: Right_def)

lemma IsAtOrUnder_eq: "IsAtOrUnder e d \<longleftrightarrow> d = e \<or> (\<exists>p. p \<noteq> [] \<and> d = p @ CHR ''.'' # e)"
  unfolding IsAtOrUnder_def Let_def Right_suffix ..

section \<open>Properties\<close>

text \<open>
  An entry that is a domain blocks the senders whose domain is that domain or a name under it, beginning
  at a label: the text before it ends in a dot and is not the dot alone. No sender of another domain whose
  name merely ends in the same letters is blocked, nor one under a name that only begins with them.
\<close>

theorem blocked_domain_is_anchored:
  assumes "EntryText b \<noteq> []" "CHR ''@'' \<notin> set (EntryText b)" "s \<noteq> []"
  shows "Matches s b \<longleftrightarrow>
    (\<exists>l d. MakeLower (Trim s) = l @ CHR ''@'' # d \<and> CHR ''@'' \<notin> set d \<and>
       (d = EntryText b \<or> (\<exists>p. p \<noteq> [] \<and> d = p @ CHR ''.'' # EntryText b)))"
proof -
  have "Find (EntryText b) CHR ''@'' = None" using assms(2) by (simp add: Find_None_iff)
  with assms have "Matches s b \<longleftrightarrow>
      (\<exists>i. ReverseFind (MakeLower (Trim s)) CHR ''@'' = Some i \<and> IsAtOrUnder (EntryText b) (Mid (MakeLower (Trim s)) (i + 1)))"
    by (auto simp: Matches_def Let_def Find_str_single split: option.splits)
  also have "\<dots> \<longleftrightarrow> (\<exists>l d. MakeLower (Trim s) = l @ CHR ''@'' # d \<and> CHR ''@'' \<notin> set d \<and> IsAtOrUnder (EntryText b) d)"
    by (rule ReverseFind_rest)
  finally show ?thesis by (simp only: IsAtOrUnder_eq)
qed

theorem blocked_domain_is_anchored_witness:
  "Matches ''Spam@mail.example.com'' \<lparr> blocked_address = ''@Example.com'', blocked_score = 9 \<rparr> \<and>
   \<not> Matches ''bob@notexample.com'' \<lparr> blocked_address = ''@Example.com'', blocked_score = 9 \<rparr>"
proof -
  let ?b = "\<lparr> blocked_address = ''@Example.com'', blocked_score = 9 \<rparr>"
  have e: "EntryText ?b = ''example.com''" by code_simp
  have s: "MakeLower (Trim ''Spam@mail.example.com'') = ''spam'' @ CHR ''@'' # ''mail.example.com''" by code_simp
  have "''mail.example.com'' = ''mail'' @ CHR ''.'' # ''example.com''" by simp
  then have "Matches ''Spam@mail.example.com'' ?b"
    using blocked_domain_is_anchored [of ?b "''Spam@mail.example.com''"] e s by fastforce
  moreover have "\<not> Matches ''bob@notexample.com'' ?b" by code_simp
  ultimately show ?thesis by blast
qed

text \<open>
  C38: While the database cannot be read, lookups keep answering from the list that was loaded before: a sender that
  is blocked stays blocked by the matching entry with the highest score, whatever is asked in between; and the first
  lookup after the outage answers from the new list.
\<close>

theorem outage_keeps_list:
  assumes "blocked.lookups qs (SetNeedRefresh c) = (rs, c')" "BestMatch s (cached_items c) None = Some b"
  shows "fst (GetBlockingEntry None s c') = Some b \<and> Matches s b \<and> b \<in> set (cached_items c) \<and>
    list_all (\<lambda>b'. Matches s b' \<longrightarrow> blocked_score b' \<le> blocked_score b) (cached_items c) \<and>
    fst (GetBlockingEntry (Some items) s c') = BestMatch s items None"
proof -
  from assms(1) have c': "c' = SetNeedRefresh c" by (simp add: blocked.lookups_outage)
  have "cached_items (SetNeedRefresh c) = cached_items c" by (simp add: SetNeedRefresh_def)
  with BestMatch_best [OF assms(2)] assms(2) c' blocked.lookup_reloads [of items s c] show ?thesis
    by (simp add: blocked.lookup_unreadable)
qed

theorem outage_keeps_list_witness:
  "fst (GetBlockingEntry None ''spam@example.com''
     (SetNeedRefresh \<lparr> cached_items = [\<lparr> blocked_address = ''example.com'', blocked_score = 9 \<rparr>], needRefresh = False \<rparr>)) =
   Some \<lparr> blocked_address = ''example.com'', blocked_score = 9 \<rparr>"
proof -
  let ?b = "\<lparr> blocked_address = ''example.com'', blocked_score = 9 \<rparr>"
  let ?c = "\<lparr> cached_items = [?b], needRefresh = False \<rparr>"
  have "blocked.lookups [] (SetNeedRefresh ?c) = ([], SetNeedRefresh ?c)" by (simp add: blocked.lookups_outage)
  moreover have "BestMatch ''spam@example.com'' (cached_items ?c) None = Some ?b" by code_simp
  ultimately show ?thesis using outage_keeps_list [of "[]" ?c "[]" "SetNeedRefresh ?c" "''spam@example.com''" ?b "[]"] by blast
qed

end
