(* ===== verification/SpamProtection.thy ===== *)
theory SpamProtection
  imports SpamTests GreyListing SenderLists
begin

text \<open>
  Common/AntiSpam/SpamProtection.cpp: the two rounds of spam tests, before and after the message has been
  transferred, and the decision whether a recipient is greylisted. What it reads from configuration, cache and
  resolver is the record \<open>ProtectionEnv\<close>; the headers that it adds to a message are not modelled.
\<close>

section \<open>Rounds of tests\<close>

record 'w ProtectionEnv =
  SpamDeleteThreshold :: int
  SpamMarkThreshold :: int
  AntiSpamMaxSizeKB :: int
  UseGreyListing :: bool
  domain_grey_listing :: "AnsiString \<Rightarrow> bool option"   \<comment> \<open>the domain's ASUseGreyListing, where the domain is local\<close>
  BypassGreyListingOnSPFSuccess :: bool
  BypassGreyListingOnMailFromMX :: bool
  found_addresses :: "'w \<Rightarrow> AnsiString \<Rightarrow> AnsiString list \<times> 'w"  \<comment> \<open>GetIpAddresses\<close>
  mail_servers :: "'w \<Rightarrow> AnsiString \<Rightarrow> AnsiString list \<times> 'w"     \<comment> \<open>the addresses of GetEmailServers\<close>
  ip_text :: "IPAddress \<Rightarrow> AnsiString"
  wildcard_match :: "AnsiString \<Rightarrow> AnsiString \<Rightarrow> bool"
  white_list_load :: "WhiteListAddress list option"
  grey_config :: GreyConfig
  grey_faults :: GreyFaults
  current_time :: int

definition maxScore :: "'w ProtectionEnv \<Rightarrow> int" where
  "maxScore env = max (SpamDeleteThreshold env) (SpamMarkThreshold env)"

definition RunPreTransmissionTests ::
  "'w ProtectionEnv \<Rightarrow> 's SpamTest list \<Rightarrow> AnsiString \<Rightarrow> IPAddress \<Rightarrow> AnsiString \<Rightarrow> 's \<Rightarrow> SpamTestResult list \<times> 's" where
  "RunPreTransmissionTests env tests sFromAddress iOriginatingIP sHeloHost st =
     RunSpamTest tests
       \<lparr> EnvelopeFrom = sFromAddress, HeloHost = sHeloHost, OriginatingIP = iOriginatingIP, message_data = None \<rparr>
       PreTransmission (maxScore env) st"

definition maxSizeToScanKB :: "'w ProtectionEnv \<Rightarrow> int" where
  "maxSizeToScanKB env = (if AntiSpamMaxSizeKB env > 0 then min (AntiSpamMaxSizeKB env) (1024 * 80) else 1024 * 80)"

definition RunPostTransmissionTests ::
  "'w ProtectionEnv \<Rightarrow> 's SpamTest list \<Rightarrow> AnsiString \<Rightarrow> IPAddress \<Rightarrow> int \<Rightarrow> MessageData \<Rightarrow> 's \<Rightarrow>
   SpamTestResult list \<times> 's" where
  "RunPostTransmissionTests env tests sFromAddress iOriginatingIP fileSize m st =
     (if fileSize div 1024 > maxSizeToScanKB env then ([], st)
      else
        RunSpamTest tests
          \<lparr> EnvelopeFrom = sFromAddress, HeloHost = [], OriginatingIP = iOriginatingIP, message_data = Some m \<rparr>
          PostTransmission (maxScore env) st)"

section \<open>Greylisting\<close>

type_synonym grey_state = "WhiteListAddress ListCache \<times> GreyTable"

definition GreyListingAllowSend ::
  "'w ProtectionEnv \<Rightarrow> AnsiString \<Rightarrow> AnsiString \<Rightarrow> IPAddress \<Rightarrow> grey_state \<Rightarrow> bool \<times> grey_state" where
  "GreyListingAllowSend env sSenderAddress sRecipientAddress iRemoteIP st =
     (case st of (white, grey) \<Rightarrow>
        case IsWhitelisted (wildcard_match env) (white_list_load env) sSenderAddress iRemoteIP white of
          (True, white) \<Rightarrow> (True, (white, grey))
        | (False, white) \<Rightarrow>
            (case GetAllowSend (grey_config env) (grey_faults env) (current_time env)
                    sSenderAddress sRecipientAddress iRemoteIP grey of
               (allow, grey) \<Rightarrow> (allow, (white, grey))))"

definition SpfTestPassed :: "SpamTestResult list \<Rightarrow> bool" where
  "SpfTestPassed spamTestResults =
     list_ex (\<lambda>r. test_name r = ''SpamTestSPF'' \<and> test_outcome r = OutcomePass) spamTestResults"

definition FromMailServer :: "'w ProtectionEnv \<Rightarrow> AnsiString \<Rightarrow> IPAddress \<Rightarrow> 'w \<Rightarrow> bool \<times> 'w" where
  "FromMailServer env fromAddress ip w =
     (let senderDomain = ExtractDomain fromAddress
      in if senderDomain = [] then (False, w)
         else
           let (found_ip_addresses, w) = found_addresses env w senderDomain;
               (server_addresses, w) = mail_servers env w senderDomain
           in (list_ex (\<lambda>a. CompareNoCase a (ip_text env ip) = 0) (found_ip_addresses @ server_addresses), w))"

definition PerformGreyListing ::
  "'w ProtectionEnv \<Rightarrow> AnsiString \<Rightarrow> SpamTestResult list \<Rightarrow> AnsiString \<Rightarrow> IPAddress \<Rightarrow> grey_state \<times> 'w \<Rightarrow>
   bool \<times> grey_state \<times> 'w" where
  "PerformGreyListing env fromAddress spamTestResults toAddress ip st =
     (case st of (grey, w) \<Rightarrow>
        if \<not> UseGreyListing env then (True, grey, w)
        else if domain_grey_listing env (ExtractDomain toAddress) = Some False then (True, grey, w)
        else if BypassGreyListingOnSPFSuccess env \<and> SpfTestPassed spamTestResults then (True, grey, w)
        else
          case (if BypassGreyListingOnMailFromMX env then FromMailServer env fromAddress ip w else (False, w)) of
            (True, w) \<Rightarrow> (True, grey, w)
          | (False, w) \<Rightarrow>
              (case GreyListingAllowSend env fromAddress toAddress ip grey of (allow, grey) \<Rightarrow> (allow, grey, w)))"

section \<open>Facts\<close>

text \<open>The SPF test as the runner calls it.\<close>

definition SpamTestSPF :: "bool \<Rightarrow> 'w SpamEnv \<Rightarrow> 'w TestState SpamTest" where
  "SpamTestSPF useSPF env =
     \<lparr> GetIsEnabled = useSPF, GetTestType = PreTransmission, RunTest = SpamTestSPF_RunTest env \<rparr>"

definition SpamTestDMARC :: "bool \<Rightarrow> 'w SpamEnv \<Rightarrow> 'w TestState SpamTest" where
  "SpamTestDMARC useDMARC env =
     \<lparr> GetIsEnabled = useDMARC, GetTestType = PostTransmission, RunTest = SpamTestDMARC_RunTest env \<rparr>"

lemma RunSpamTestLoop_contains:
  "set acc \<subseteq> set (fst (RunSpamTestLoop tests d ty m sum0 acc st))"
  using RunSpamTestLoop_grows [of tests d ty m sum0 acc st] by auto

text \<open>Without a threshold, every enabled test of the round runs, in some state.\<close>

lemma RunSpamTestLoop_runs_all:
  assumes "m \<le> 0" "test \<in> set tests" "GetIsEnabled test" "GetTestType test = ty"
  shows "\<exists>s. set (fst (RunTest test d s)) \<subseteq> set (fst (RunSpamTestLoop tests d ty m sum0 acc st))"
  using assms(2)
proof (induction tests arbitrary: sum0 acc st)
  case (Cons t ts)
  obtain rs st1 where r: "RunTest t d st = (rs, st1)" by fastforce
  let ?run = "RunSpamTestLoop ts d ty m (sum0 + sum_list (map spam_score rs)) (acc @ rs) st1"
  show ?case
  proof (cases "t = test")
    case True
    have "set (acc @ rs) \<subseteq> set (fst ?run)" by (rule RunSpamTestLoop_contains)
    with True r assms(1,3,4) show ?thesis by (intro exI [of _ st]) (auto simp: Let_def)
  next
    case False
    with Cons r assms(1) show ?thesis by (auto simp: Let_def)
  qed
qed simp

lemma SpamTestSPF_passes:
  assumes "\<not> IsAny (OriginatingIP d)" "fst (RunSPF env d (dns_world st)) = Pass"
  shows "SpfTestPassed (fst (SpamTestSPF_RunTest env d st))"
  using assms by (auto simp: SpamTestSPF_RunTest_def SpfTestPassed_def Let_def split: prod.splits)

end
