(* ===== verification/AuthenticationResultsWriter.thy ===== *)
theory AuthenticationResultsWriter
  imports Authentication_Results
begin

text \<open>
  Common/AntiSpam/AuthenticationResultsWriter.cpp: putting the new header fields on an accepted
  message. The disk is the message file and the temporary file beside it. What the file system does is
  the argument \<open>env\<close>: which calls fail, how many bytes of each write and of the copy arrive, whether a
  read throws. Nothing is assumed of it, except that a rename puts the whole file in place or does
  nothing (the comment of \<^verbatim>\<open>FileUtilities::Move\<close> gives the reason). Reports to the log are left out.
\<close>

section \<open>The disk and its faults\<close>

record Disk =
  message_file :: AnsiString
  temporary_file :: "AnsiString option"

record WriterEnv =
  results_enabled :: bool          \<comment> \<open>AuthenticationResultsEnabled\<close>
  received_spf_enabled :: bool     \<comment> \<open>ReceivedSpfHeaderEnabled\<close>
  configured_identity :: AnsiString
  computer_name :: AnsiString
  code_page :: "AnsiString \<Rightarrow> AnsiString"
  header_opens :: bool
  header_read_throws :: bool
  size_measured :: bool
  temporary_opens :: bool
  fields_written :: nat
  header_written :: nat
  source_opens :: bool
  source_seeks :: bool
  copied :: nat
  copy_throws :: bool
  copy_answers :: bool
  flushes :: bool
  result_measured :: bool
  renames :: "nat \<Rightarrow> bool"
  deletes :: bool

definition DeleteTemporary :: "WriterEnv \<Rightarrow> Disk \<Rightarrow> Disk" where
  "DeleteTemporary env d = (if deletes env then d\<lparr> temporary_file := None \<rparr> else d)"

datatype WriteOutcome = Returned bool Disk "32 word option" | Threw Disk

section \<open>The writer\<close>

definition MaxRawHeaderBytes :: nat where "MaxRawHeaderBytes = 262144"

text \<open>\<open>None\<close> is the exception of \<^verbatim>\<open>ReadChunk\<close>, \<open>Some None\<close> the answer false.\<close>

definition ReadRawHeader :: "WriterEnv \<Rightarrow> AnsiString \<Rightarrow> AnsiString option option" where
  "ReadRawHeader env content =
     (if \<not> header_opens env then Some None
      else if header_read_throws env then None
      else
        let raw = take MaxRawHeaderBytes content
        in if raw = [] then Some None
           else case Find_str raw [CHR 0x0D, CHR 0x0A, CHR 0x0D, CHR 0x0A] of
                  None \<Rightarrow> Some None
                | Some terminator \<Rightarrow> Some (Some (Mid_count raw 0 (terminator + 2))))"

text \<open>\<^verbatim>\<open>FileUtilities::Move\<close>: five attempts at the rename.\<close>

fun MoveTries :: "nat \<Rightarrow> nat \<Rightarrow> (nat \<Rightarrow> bool) \<Rightarrow> bool" where
  "MoveTries i 0 rename_succeeds = False"
| "MoveTries i (Suc left) rename_succeeds = (rename_succeeds i \<or> MoveTries (i + 1) left rename_succeeds)"

definition Move :: "(nat \<Rightarrow> bool) \<Rightarrow> Disk \<Rightarrow> bool \<times> Disk" where
  "Move rename_succeeds d =
     (case temporary_file d of
        None \<Rightarrow> (False, d)
      | Some content \<Rightarrow>
          if MoveTries 1 5 rename_succeeds then (True, \<lparr> message_file = content, temporary_file = None \<rparr>)
          else (False, d))"

definition NewFields :: "WriterEnv \<Rightarrow> AuthenticationResults \<Rightarrow> AnsiString" where
  "NewFields env results =
     (let newFields = [];
          newFields =
            (if results_enabled env then
               let v = BuildAuthenticationResultsValue (configured_identity env) (computer_name env) results
               in if v \<noteq> [] then newFields @ ''Authentication-Results: '' @ v @ [CHR 0x0D, CHR 0x0A] else newFields
             else newFields)
      in if received_spf_enabled env \<and> HasSpfResult results then
           let v = BuildReceivedSpfValue (configured_identity env) (computer_name env) results
           in if v \<noteq> [] then newFields @ ''Received-SPF: '' @ v @ [CHR 0x0D, CHR 0x0A] else newFields
         else newFields)"

text \<open>One write to the temporary file: what arrives of the text, and whether all of it did.\<close>

definition WriteText :: "nat \<Rightarrow> AnsiString \<Rightarrow> bool \<times> AnsiString \<Rightarrow> bool \<times> AnsiString" where
  "WriteText n s f =
     (case f of (ok, content) \<Rightarrow>
        if ok then (length s \<le> n, content @ take n s) else (False, content))"

text \<open>
  The chain of conjunctions that fills the temporary file. An exception in the copy leaves what was
  copied before it and makes the whole chain false.
\<close>

definition CopyRest :: "WriterEnv \<Rightarrow> bool \<Rightarrow> AnsiString \<Rightarrow> bool \<times> AnsiString \<Rightarrow> bool \<times> AnsiString" where
  "CopyRest env seek rest f =
     (case f of (ok, content) \<Rightarrow>
        if \<not> ok \<or> \<not> source_opens env \<or> (seek \<and> \<not> source_seeks env) then (False, content)
        else (copy_answers env \<and> \<not> copy_throws env \<and> flushes env, content @ take (copied env) rest))"

definition FillTemporary ::
  "WriterEnv \<Rightarrow> AnsiString \<Rightarrow> AnsiString option \<Rightarrow> AnsiString \<Rightarrow> AnsiString \<Rightarrow> bool \<times> AnsiString" where
  "FillTemporary env newFields stripped header content =
     (case stripped of
        Some strippedHeader \<Rightarrow>
          CopyRest env True (drop (length header) content)
            (WriteText (header_written env) strippedHeader (WriteText (fields_written env) newFields (True, [])))
      | None \<Rightarrow>
          CopyRest env False content (WriteText (fields_written env) newFields (True, [])))"

definition ExpectedSize :: "AnsiString \<Rightarrow> AnsiString option \<Rightarrow> AnsiString \<Rightarrow> AnsiString \<Rightarrow> 64 word" where
  "ExpectedSize newFields stripped header content =
     (let originalSize = word_of_nat (length content)
      in case stripped of
           Some strippedHeader \<Rightarrow>
             originalSize - word_of_nat (length header) + word_of_nat (length strippedHeader) +
               word_of_nat (length newFields)
         | None \<Rightarrow> originalSize + word_of_nat (length newFields))"

text \<open>What is to be stripped: the stripped header, when at least one field was removed.\<close>

definition Stripped :: "WriterEnv \<Rightarrow> AnsiString option \<Rightarrow> AnsiString option" where
  "Stripped env header =
     (case header of
        None \<Rightarrow> None
      | Some h \<Rightarrow>
          let (strippedHeader, removedCount) =
                StripResultsForAuthservId (code_page env) h (GetAuthservId (configured_identity env) (computer_name env))
          in if removedCount > 0 then Some strippedHeader else None)"

definition Rewrite :: "WriterEnv \<Rightarrow> AnsiString \<Rightarrow> AnsiString option \<Rightarrow> Disk \<Rightarrow> WriteOutcome" where
  "Rewrite env newFields header d =
     (let content = message_file d;
          stripped = Stripped env header;
          expectedSize = ExpectedSize newFields stripped (case_option [] (\<lambda>h. h) header) content
      in if \<not> size_measured env then Returned False d None
         else if \<not> temporary_opens env then Returned False d None
         else
           let (written, temporary) = FillTemporary env newFields stripped (case_option [] (\<lambda>h. h) header) content;
               d1 = d\<lparr> temporary_file := Some temporary \<rparr>;
               newSize = (word_of_nat (length temporary) :: 64 word)
           in if \<not> written \<or> \<not> result_measured env \<or> newSize \<noteq> expectedSize
              then Returned False (DeleteTemporary env d1) None
              else
                let (moved, d2) = Move (renames env) d1
                in if \<not> moved then Returned False (DeleteTemporary env d2) None
                   else Returned True d2 (Some (ucast expectedSize)))"

definition Write :: "WriterEnv \<Rightarrow> AuthenticationResults \<Rightarrow> Disk \<Rightarrow> WriteOutcome" where
  "Write env results d =
     (if IsEmpty results then Returned False d None
      else
        let newFields = NewFields env results
        in if newFields = [] then Returned False d None
           else case ReadRawHeader env (message_file d) of
                  None \<Rightarrow> Threw d
                | Some header \<Rightarrow> Rewrite env newFields header d)"

section \<open>Facts\<close>

text \<open>The message as it should be: the new fields, the header without forged fields, and the rest.\<close>

definition rewritten :: "WriterEnv \<Rightarrow> AuthenticationResults \<Rightarrow> AnsiString \<Rightarrow> AnsiString" where
  "rewritten env results content =
     (case ReadRawHeader env content of
        Some (Some h) \<Rightarrow>
          (case Stripped env (Some h) of
             Some strippedHeader \<Rightarrow> NewFields env results @ strippedHeader @ drop (length h) content
           | None \<Rightarrow> NewFields env results @ content)
      | _ \<Rightarrow> NewFields env results @ content)"

lemma ReadRawHeader_prefix:
  assumes "ReadRawHeader env content = Some (Some h)"
  shows "\<exists>n. h = take n content"
  using assms by (auto simp: ReadRawHeader_def Let_def split: if_splits option.splits)

text \<open>A truncated copy has another size, as long as the sizes stay below the width of the counter.\<close>

lemma size64_inject:
  "(word_of_nat m :: 64 word) = word_of_nat n \<longleftrightarrow> m = n" if "m < 2 ^ 64" "n < 2 ^ 64"
  using that by (simp add: word_of_nat_eq_iff take_bit_nat_eq_self)

lemma take_full:
  assumes "(word_of_nat (m + length (take k s)) :: 64 word) = word_of_nat (m + length s)" "m + length s < 2 ^ 64"
  shows "take k s = s"
proof -
  have "length (take k s) \<le> length s" by simp
  with assms(2) have "m + length (take k s) < 2 ^ 64" by linarith
  with assms have "m + length (take k s) = m + length s" by (simp only: size64_inject)
  then show ?thesis by simp
qed

lemma WriteText_True: "WriteText n s (True, c) = (True, c') \<Longrightarrow> c' = c @ s"
  by (auto simp: WriteText_def)

lemma FillTemporary_complete:
  assumes fill: "FillTemporary env nf stripped h content = (True, t)"
    and size: "word_of_nat (length t) = ExpectedSize nf stripped h content"
    and h: "length h \<le> length content"
    and bound: "length (nf @ (case stripped of Some sh \<Rightarrow> sh @ drop (length h) content | None \<Rightarrow> content)) < 2 ^ 64"
  shows "t = nf @ (case stripped of Some sh \<Rightarrow> sh @ drop (length h) content | None \<Rightarrow> content)"
proof (cases stripped)
  case None
  obtain c where c: "WriteText (fields_written env) nf (True, []) = (True, c)"
    using fill None by (cases "WriteText (fields_written env) nf (True, [])") (auto simp: FillTemporary_def CopyRest_def split: if_splits)
  with fill None have t: "t = nf @ take (copied env) content"
    by (auto simp: FillTemporary_def CopyRest_def dest!: WriteText_True split: if_splits)
  moreover have "take (copied env) content = content"
    using size bound None unfolding t
    by (intro take_full [of "length nf"]) (simp_all add: ExpectedSize_def add.commute)
  ultimately show ?thesis using None by simp
next
  case (Some sh)
  let ?rest = "drop (length h) content"
  obtain c where c: "WriteText (header_written env) sh (WriteText (fields_written env) nf (True, [])) = (True, c)"
    using fill Some by (cases "WriteText (header_written env) sh (WriteText (fields_written env) nf (True, []))")
      (auto simp: FillTemporary_def CopyRest_def split: if_splits)
  then have "c = nf @ sh" by (auto simp: WriteText_def split: if_splits)
  with fill Some c have t: "t = nf @ sh @ take (copied env) ?rest"
    by (auto simp: FillTemporary_def CopyRest_def split: if_splits)
  have "word_of_nat (length nf + length sh + length (take (copied env) ?rest)) =
      (word_of_nat (length nf + length sh + length ?rest) :: 64 word)"
    using size h Some unfolding t by (simp add: ExpectedSize_def of_nat_diff algebra_simps)
  then have "take (copied env) ?rest = ?rest"
    using bound Some by (intro take_full [of "length nf + length sh"]) auto
  with t Some show ?thesis by simp
qed

lemma Move_result: "Move rn d = (True, d') \<Longrightarrow> temporary_file d = Some (message_file d')"
  "Move rn d = (False, d') \<Longrightarrow> d' = d"
  by (auto simp: Move_def split: option.splits if_splits)

lemma DeleteTemporary_message [simp]: "message_file (DeleteTemporary env d) = message_file d"
  by (simp add: DeleteTemporary_def)

lemma Rewrite_whole:
  assumes "Rewrite env nf header d = Returned ok d' sz"
    and "length (case_option [] (\<lambda>h. h) header) \<le> length (message_file d)"
    and "length (nf @ (case Stripped env header of
            Some sh \<Rightarrow> sh @ drop (length (case_option [] (\<lambda>h. h) header)) (message_file d) | None \<Rightarrow> message_file d)) < 2 ^ 64"
  shows "message_file d' = (if ok then nf @ (case Stripped env header of
            Some sh \<Rightarrow> sh @ drop (length (case_option [] (\<lambda>h. h) header)) (message_file d) | None \<Rightarrow> message_file d)
          else message_file d)"
proof -
  let ?h = "case_option [] (\<lambda>h. h) header" and ?st = "Stripped env header"
  obtain w t where f: "FillTemporary env nf ?st ?h (message_file d) = (w, t)" by fastforce
  obtain m d2 where mv: "Move (renames env) (d\<lparr> temporary_file := Some t \<rparr>) = (m, d2)" by fastforce
  show ?thesis
  proof (cases ok)
    case False
    then show ?thesis
      using assms(1) f mv Move_result(2) [of "renames env" "d\<lparr> temporary_file := Some t \<rparr>" d2]
      by (auto simp: Rewrite_def Let_def split: if_splits)
  next
    case True
    with assms(1) f mv have good: "w" "word_of_nat (length t) = ExpectedSize nf ?st ?h (message_file d)" "m" "d' = d2"
      by (auto simp: Rewrite_def Let_def split: if_splits)
    with mv Move_result(1) [of "renames env" "d\<lparr> temporary_file := Some t \<rparr>" d2] have "message_file d' = t" by simp
    moreover have "t = nf @ (case ?st of Some sh \<Rightarrow> sh @ drop (length ?h) (message_file d) | None \<Rightarrow> message_file d)"
      using f good assms(2,3) by (intro FillTemporary_complete) auto
    ultimately show ?thesis using True by simp
  qed
qed

lemma Stripped_fields:
  assumes "\<And>p. set p \<subseteq> set h \<Longrightarrow> code_page env p = p"
  defines "w \<equiv> MakeLower (GetAuthservId (configured_identity env) (computer_name env))"
  shows "(case Stripped env (Some h) of Some sh \<Rightarrow> sh | None \<Rightarrow> h) = concat (kept w (header_fields h))"
proof -
  have "kept w fs = fs" if "carried w fs = []" for fs
    using that by (auto simp: kept_def carried_def filter_empty_conv intro: filter_True)
  then show ?thesis
    using Strip_header_fields [OF assms(1)] concat_header_fields [of h]
    by (simp add: Stripped_def Let_def w_def)
qed

section \<open>Properties\<close>

text \<open>
  C10: The accepted message is replaced whole or not at all. Whatever calls fail, however many bytes of a
  write or of the copy arrive, and whatever the copy answers, the message file holds the complete new
  message when the writer reports success, and is exactly what it was when it reports
  failure or an exception leaves it. The sizes have to fit in the 64 bits that count them.
\<close>

theorem message_replaced_whole:
  assumes "length (rewritten env results (message_file d)) < 2 ^ 64"
  shows "case Write env results d of
      Threw d' \<Rightarrow> d' = d
    | Returned ok d' sz \<Rightarrow> message_file d' = (if ok then rewritten env results (message_file d) else message_file d)"
proof (cases "IsEmpty results \<or> NewFields env results = []")
  case True
  then show ?thesis by (auto simp: Write_def Let_def)
next
  case False
  show ?thesis
  proof (cases "ReadRawHeader env (message_file d)")
    case None
    with False show ?thesis by (simp add: Write_def Let_def)
  next
    case (Some header)
    let ?h = "case_option [] (\<lambda>h. h) header"
    have h: "length ?h \<le> length (message_file d)"
      using Some ReadRawHeader_prefix by (cases header) fastforce+
    have new: "rewritten env results (message_file d) = NewFields env results @ (case Stripped env header of
        Some sh \<Rightarrow> sh @ drop (length ?h) (message_file d) | None \<Rightarrow> message_file d)"
      using Some by (cases header) (auto simp: rewritten_def Stripped_def split: option.splits)
    have weq: "Write env results d = Rewrite env (NewFields env results) header d"
      using False Some by (simp add: Write_def Let_def)
    show ?thesis
    proof (cases "Rewrite env (NewFields env results) header d")
      case (Returned ok d' sz)
      from Rewrite_whole [OF this h] assms show ?thesis by (simp add: weq Returned new)
    next
      case (Threw d')
      then show ?thesis by (auto simp: Rewrite_def Let_def split: if_splits prod.splits)
    qed
  qed
qed

theorem message_replaced_whole_witness:
  "\<exists>ok d' sz. Write
     \<lparr> results_enabled = True, received_spf_enabled = False, configured_identity = ''mx'', computer_name = [],
       code_page = (\<lambda>p. p), header_opens = False, header_read_throws = False, size_measured = True,
       temporary_opens = True, fields_written = 500, header_written = 500, source_opens = True, source_seeks = True,
       copied = 3, copy_throws = False, copy_answers = True, flushes = True, result_measured = True,
       renames = (\<lambda>i. True), deletes = True \<rparr>
     (AddDkim MethodPass ''a.example'' AuthenticationResults_init)
     \<lparr> message_file = ''A: 1 body'', temporary_file = None \<rparr> = Returned ok d' sz \<and> message_file d' = ''A: 1 body''"
  (is "\<exists>ok d' sz. Write ?e ?r ?d = _ \<and> _")
proof -
  have len: "length (rewritten ?e ?r (message_file ?d)) < 100" by code_simp
  have "case Write ?e ?r ?d of Threw d' \<Rightarrow> d' = ?d
    | Returned ok d' sz \<Rightarrow> message_file d' = (if ok then rewritten ?e ?r (message_file ?d) else message_file ?d)"
    by (rule message_replaced_whole) (rule less_trans [OF len], simp)
  moreover have "\<exists>d' sz. Write ?e ?r ?d = Returned False d' sz"
  proof -
    have "case Write ?e ?r ?d of Threw _ \<Rightarrow> False | Returned ok _ _ \<Rightarrow> \<not> ok" by code_simp
    then show ?thesis by (auto split: WriteOutcome.splits)
  qed
  ultimately show ?thesis by fastforce
qed

text \<open>
  The new message is the new fields, then the fields of the old header that do not claim this
  server's identity, byte for byte and in their order, then the blank line and the body. This is so whether
  or not anything was removed; the conversion of the lines has to be the identity on the bytes of the
  header.
\<close>

theorem new_message_is_fields_and_body:
  assumes "ReadRawHeader env content = Some (Some h)" "\<And>p. set p \<subseteq> set h \<Longrightarrow> code_page env p = p"
  shows "rewritten env results content =
    NewFields env results @
    concat (filter (\<lambda>f. \<not> FieldCarriesAuthservId f
        (MakeLower (GetAuthservId (configured_identity env) (computer_name env)))) (header_fields h)) @
    drop (length h) content"
proof -
  obtain n where n: "h = take n content" using ReadRawHeader_prefix [OF assms(1)] by blast
  have "content = h @ drop (length h) content"
    using n by (cases "n \<le> length content") (auto simp: min_def)
  with assms(1) Stripped_fields [of h env, OF assms(2)] show ?thesis
    by (cases "Stripped env (Some h)") (simp_all add: rewritten_def kept_def)
qed

theorem new_message_is_fields_and_body_witness:
  "rewritten
     \<lparr> results_enabled = True, received_spf_enabled = False, configured_identity = ''mx'', computer_name = [],
       code_page = (\<lambda>p. p), header_opens = True, header_read_throws = False, size_measured = True,
       temporary_opens = True, fields_written = 500, header_written = 500, source_opens = True, source_seeks = True,
       copied = 3, copy_throws = False, copy_answers = True, flushes = True, result_measured = True,
       renames = (\<lambda>i. True), deletes = True \<rparr>
     (AddDkim MethodPass ''a.example'' AuthenticationResults_init)
     (''Authentication-Results: MX; spf=pass'' @ [CHR 0x0D, CHR 0x0A] @ ''A: 1'' @ [CHR 0x0D, CHR 0x0A, CHR 0x0D, CHR 0x0A] @ ''body'')
   = ''Authentication-Results: mx; dkim=pass header.d=a.example'' @ [CHR 0x0D, CHR 0x0A] @ ''A: 1'' @
     [CHR 0x0D, CHR 0x0A, CHR 0x0D, CHR 0x0A] @ ''body''"
  (is "rewritten ?e ?r ?c = ?n")
proof -
  let ?h = "''Authentication-Results: MX; spf=pass'' @ [CHR 0x0D, CHR 0x0A] @ ''A: 1'' @ [CHR 0x0D, CHR 0x0A]"
  have "Find_str ?c [CHR 0x0D, CHR 0x0A, CHR 0x0D, CHR 0x0A] = Some 42" "take (42 + 2) ?c = ?h" by code_simp+
  then have "ReadRawHeader ?e ?c = Some (Some ?h)"
    unfolding ReadRawHeader_def Let_def by (simp add: MaxRawHeaderBytes_def del: Find_str.simps)
  then have "rewritten ?e ?r ?c = NewFields ?e ?r @
      concat (filter (\<lambda>f. \<not> FieldCarriesAuthservId f (MakeLower (GetAuthservId (configured_identity ?e) (computer_name ?e))))
        (header_fields ?h)) @ drop (length ?h) ?c"
    by (rule new_message_is_fields_and_body) simp
  also have "\<dots> = ?n" by code_simp
  finally show ?thesis .
qed

end
