(* ===== verification/MimeCode.thy ===== *)
theory MimeCode
  imports AnsiStrings
begin

unbundle bit_operations_syntax

text \<open>
  The transfer encodings of Common/Mime/MimeCode.cpp, base64 and quoted-printable, with the wrapper
  of Common/Util/Encoding/Base64.cpp and the character classes of Common/Mime/MimeChar.cpp they use.
  The coders read a buffer of bytes through \<^verbatim>\<open>unsigned char\<close>, so a character of the text is a \<^typ>\<open>byte\<close>
  while they work on it, and every shift is one of an 8-bit word.

  The theorems: what base64 encodes it decodes, with and without line breaks and through the wrapper
  that takes the line breaks out; no line of the encoded text is longer than 76 characters;
  and quoted-printable text decodes to what was encoded for every setting of the coder.
\<close>

section \<open>Characters\<close>

definition byte_of :: "char \<Rightarrow> byte" where
  "byte_of c = of_char c"

definition char_of_byte :: "byte \<Rightarrow> char" where
  "char_of_byte b = char_of (unat b)"

text \<open>The table's entries with the \<^verbatim>\<open>SPACE\<close> and the \<^verbatim>\<open>HEXDIGIT\<close> bit: the digits a to f do not have it.\<close>

definition IsSpace :: "char \<Rightarrow> bool" where
  "IsSpace ch \<longleftrightarrow> CHR 0x09 \<le> ch \<and> ch \<le> CHR 0x0D \<or> ch = CHR '' ''"

definition MimeChar_IsHexDigit :: "char \<Rightarrow> bool" where
  "MimeChar_IsHexDigit ch \<longleftrightarrow> CHR ''0'' \<le> ch \<and> ch \<le> CHR ''9'' \<or> CHR ''A'' \<le> ch \<and> ch \<le> CHR ''F''"

definition crlf :: AnsiString where
  "crlf = [CHR 0x0D, CHR 0x0A]"

definition MAX_MIME_LINE_LEN :: nat where
  "MAX_MIME_LINE_LEN = 76"

section \<open>Base64\<close>

definition s_Base64Table :: AnsiString where
  "s_Base64Table = ''ABCDEFGHIJKLMNOPQRSTUVWXYZabcdefghijklmnopqrstuvwxyz0123456789+/''"

definition Base64Char :: "byte \<Rightarrow> char" where
  "Base64Char b = s_Base64Table ! unat b"

text \<open>One turn of the loop: the characters it appends, the bits it keeps, and the new length of the line.\<close>

definition Base64EncodeStep :: "bool \<Rightarrow> byte \<Rightarrow> nat \<Rightarrow> nat \<Rightarrow> byte \<Rightarrow> AnsiString \<times> nat \<times> byte" where
  "Base64EncodeStep add_line_break ch nFrom nLineLen chHigh4bits =
     (let (chars, chHigh4bits, nLineLen) =
            (if nFrom mod 3 = 0 then ([Base64Char (drop_bit 2 ch)], push_bit 4 ch AND 0x30, nLineLen)
             else if nFrom mod 3 = 1 then
               ([Base64Char (chHigh4bits OR drop_bit 4 ch)], push_bit 2 ch AND 0x3c, nLineLen)
             else
               ([Base64Char (chHigh4bits OR drop_bit 6 ch), Base64Char (ch AND 0x3f)], chHigh4bits, nLineLen + 1));
          nLineLen = nLineLen + 1
      in if add_line_break \<and> nLineLen \<ge> MAX_MIME_LINE_LEN then (chars @ crlf, 0, chHigh4bits)
         else (chars, nLineLen, chHigh4bits))"

fun Base64EncodeLoop :: "bool \<Rightarrow> AnsiString \<Rightarrow> nat \<Rightarrow> nat \<Rightarrow> byte \<Rightarrow> AnsiString \<Rightarrow> nat \<times> nat \<times> byte \<times> AnsiString" where
  "Base64EncodeLoop add_line_break [] nFrom nLineLen chHigh4bits result = (nFrom, nLineLen, chHigh4bits, result)"
| "Base64EncodeLoop add_line_break (c # input) nFrom nLineLen chHigh4bits result =
     (case Base64EncodeStep add_line_break (byte_of c) nFrom nLineLen chHigh4bits of
        (chars, nLineLen, chHigh4bits) \<Rightarrow>
          Base64EncodeLoop add_line_break input (nFrom + 1) nLineLen chHigh4bits (result @ chars))"

definition MimeCodeBase64_Encode :: "bool \<Rightarrow> AnsiString \<Rightarrow> AnsiString" where
  "MimeCodeBase64_Encode add_line_break input =
     (let (nFrom, nLineLen, chHigh4bits, result) = Base64EncodeLoop add_line_break input 0 0 0 [];
          result = (if nFrom mod 3 \<noteq> 0
                    then result @ [Base64Char chHigh4bits] @ replicate (4 - nFrom mod 3 - 1) CHR ''=''
                    else result)
      in if add_line_break \<and> nLineLen \<noteq> 0 then result @ crlf else result)"

definition DecodeBase64Char :: "nat \<Rightarrow> nat" where
  "DecodeBase64Char nCode =
     (if nCode \<ge> 65 \<and> nCode \<le> 90 then nCode - 65
      else if nCode \<ge> 97 \<and> nCode \<le> 122 then nCode - 97 + 26
      else if nCode \<ge> 48 \<and> nCode \<le> 57 then nCode - 48 + 52
      else if nCode = 43 then 62
      else if nCode = 47 then 63
      else 64)"

definition Base64DecodeStep :: "byte \<Rightarrow> nat \<times> byte \<times> AnsiString \<Rightarrow> nat \<times> byte \<times> AnsiString" where
  "Base64DecodeStep ch st =
     (case st of (nFrom, chHighBits, result) \<Rightarrow>
        if nFrom mod 4 = 0 then (nFrom + 1, push_bit 2 ch, result)
        else if nFrom mod 4 = 1 then (nFrom + 1, push_bit 4 ch, result @ [char_of_byte (chHighBits OR drop_bit 4 ch)])
        else if nFrom mod 4 = 2 then (nFrom + 1, push_bit 6 ch, result @ [char_of_byte (chHighBits OR drop_bit 2 ch)])
        else (nFrom + 1, chHighBits, result @ [char_of_byte (chHighBits OR ch)]))"

fun Base64DecodeLoop :: "AnsiString \<Rightarrow> nat \<times> byte \<times> AnsiString \<Rightarrow> AnsiString" where
  "Base64DecodeLoop [] st = snd (snd st)"
| "Base64DecodeLoop (c # input) st =
     (if c = CHR ''='' then snd (snd st)
      else
        let nDecodedChar = DecodeBase64Char (ord c)
        in if nDecodedChar \<ge> 64 then Base64DecodeLoop input st
           else Base64DecodeLoop input (Base64DecodeStep (word_of_nat nDecodedChar) st))"

definition MimeCodeBase64_Decode :: "AnsiString \<Rightarrow> AnsiString" where
  "MimeCodeBase64_Decode input = Base64DecodeLoop input (0, 0, [])"

text \<open>The wrapper, whose encoder breaks lines as a new coder does and takes the line breaks out again.\<close>

definition Base64_Encode :: "AnsiString \<Rightarrow> AnsiString" where
  "Base64_Encode input = Replace (MimeCodeBase64_Encode True input) crlf []"

definition Base64_Decode :: "AnsiString \<Rightarrow> AnsiString" where
  "Base64_Decode input = MimeCodeBase64_Decode input"

section \<open>Quoted-printable\<close>

definition s_QPTable :: AnsiString where
  "s_QPTable = ''0123456789ABCDEF''"

definition QPQuoted :: "char \<Rightarrow> AnsiString" where
  "QPQuoted ch =
     [CHR ''='', s_QPTable ! unat (drop_bit 4 (byte_of ch) AND 0x0f), s_QPTable ! unat (byte_of ch AND 0x0f)]"

text \<open>
  Whether a character is quoted. The flags are \<^verbatim>\<open>quote_line_break_\<close> and \<^verbatim>\<open>add_line_break_\<close>, \<open>before\<close> is the
  input already passed, \<open>rest\<close> the input after the character. A hard line break also resets the
  length of the line.
\<close>

definition QPNeedsQuote :: "bool \<Rightarrow> bool \<Rightarrow> AnsiString \<Rightarrow> char \<Rightarrow> AnsiString \<Rightarrow> int \<Rightarrow> bool" where
  "QPNeedsQuote quote_line_break add_line_break before ch rest nLineLen =
     (if ch = CHR 0x09 \<or> ch = CHR '' '' then
        (if rest = [] \<or> \<not> quote_line_break \<and> rest ! 0 = CHR 0x0D then True
         else add_line_break \<and> nLineLen \<ge> int MAX_MIME_LINE_LEN - 4)
      else if \<not> quote_line_break \<and> (ch = CHR 0x0D \<or> ch = CHR 0x0A) then False
      else if \<not> quote_line_break \<and> ch = CHR ''.'' then
        length before \<ge> 2 \<and> length rest > 1 \<and>
        before ! (length before - 2) = CHR 0x0D \<and> before ! (length before - 1) = CHR 0x0A \<and>
        rest ! 0 = CHR 0x0D \<and> rest ! 1 = CHR 0x0A
      else ord ch < 33 \<or> ord ch > 126 \<or> ch = CHR ''='')"

fun QPEncodeLoop :: "bool \<Rightarrow> bool \<Rightarrow> AnsiString \<Rightarrow> AnsiString \<Rightarrow> int \<Rightarrow> AnsiString \<Rightarrow> AnsiString" where
  "QPEncodeLoop quote_line_break add_line_break before [] nLineLen output = output"
| "QPEncodeLoop quote_line_break add_line_break before (ch # rest) nLineLen output =
     (let bQuote = QPNeedsQuote quote_line_break add_line_break before ch rest nLineLen;
          nLineLen = (if \<not> quote_line_break \<and> (ch = CHR 0x0D \<or> ch = CHR 0x0A) then -1 else nLineLen);
          (output, nLineLen) =
            (if add_line_break \<and> nLineLen + (if bQuote then 3 else 1) \<ge> int MAX_MIME_LINE_LEN
             then (output @ [CHR ''=''] @ crlf, 0) else (output, nLineLen));
          (output, nLineLen) =
            (if bQuote then (output @ QPQuoted ch, nLineLen + 3) else (output @ [ch], nLineLen + 1))
      in QPEncodeLoop quote_line_break add_line_break (before @ [ch]) rest nLineLen output)"

definition MimeCodeQP_Encode :: "bool \<Rightarrow> bool \<Rightarrow> AnsiString \<Rightarrow> AnsiString" where
  "MimeCodeQP_Encode quote_line_break add_line_break input =
     QPEncodeLoop quote_line_break add_line_break [] input 0 []"

text \<open>A hexadecimal digit as the decoder reads it, whatever the byte is.\<close>

definition QPHexValue :: "char \<Rightarrow> byte" where
  "QPHexValue ch = byte_of ch - (if ch > CHR ''9'' then 0x37 else 0x30)"

fun QPDecodeLoop :: "AnsiString \<Rightarrow> AnsiString \<Rightarrow> AnsiString" where
  "QPDecodeLoop [] output = output"
| "QPDecodeLoop (ch # rest) output =
     (if ch = CHR ''='' then
        (case rest of
           h # l # rest' \<Rightarrow>
             if MimeChar_IsHexDigit h then
               QPDecodeLoop rest'
                 (output @ [char_of_byte (push_bit 4 (QPHexValue h) OR (QPHexValue l AND 0x0f))])
             else if h = CHR 0x0D \<and> l = CHR 0x0A then QPDecodeLoop rest' output
             else QPDecodeLoop (l # rest') (output @ [h])
         | _ \<Rightarrow> output)
      else QPDecodeLoop rest (output @ [ch]))"

definition MimeCodeQP_Decode :: "AnsiString \<Rightarrow> AnsiString" where
  "MimeCodeQP_Decode input = QPDecodeLoop input []"

section \<open>Facts: characters and bits\<close>

lemma unat_byte_of [simp]: "unat (byte_of c) = ord c"
proof -
  have "byte_of c = word_of_nat (ord c)" by (simp add: byte_of_def of_char_def)
  then show ?thesis using nat_of_char_less_256 [of c] by (simp add: unat_of_nat take_bit_eq_mod)
qed

lemma char_of_byte_of [simp]: "char_of_byte (byte_of c) = c"
  by (simp add: char_of_byte_def)

lemma byte_of_char_of_byte [simp]: "byte_of (char_of_byte b) = b"
  using unsigned_less [where 'a = nat, of b] by (simp add: word_unat_eq_iff char_of_byte_def of_char_of)

text \<open>The masks of the coder as blocks of bits, and the bits a group of base64 characters splits a byte into.\<close>

lemma base64_masks:
  "(0x30 :: byte) = push_bit 4 (mask 2)" "(0x3c :: byte) = push_bit 2 (mask 4)" "(0x3f :: byte) = mask 6"
  "(0x0f :: byte) = mask 4"
  by (simp_all add: mask_eq_exp_minus_1)

lemmas byte_bits = bit_or_iff bit_and_iff bit_push_bit_iff bit_drop_bit_eq bit_mask_iff

lemma bit_under_shift [simp]: "2 \<le> n \<Longrightarrow> Suc (Suc (n - 2)) = n"
  by simp

lemma base64_joins:
  fixes b c :: byte
  shows "push_bit 2 (drop_bit 2 b) OR drop_bit 4 (push_bit 4 b AND 0x30) = b"
    and "push_bit 2 (drop_bit 2 b) OR drop_bit 4 ((push_bit 4 b AND 0x30) OR drop_bit 4 c) = b"
    and "push_bit 4 ((push_bit 4 b AND 0x30) OR drop_bit 4 c) = push_bit 4 (drop_bit 4 c)"
    and "push_bit 4 (drop_bit 4 b) OR drop_bit 2 (push_bit 2 b AND 0x3c) = b"
    and "push_bit 4 (drop_bit 4 b) OR drop_bit 2 ((push_bit 2 b AND 0x3c) OR drop_bit 6 c) = b"
    and "push_bit 6 ((push_bit 2 b AND 0x3c) OR drop_bit 6 c) OR (c AND 0x3f) = c"
  unfolding base64_masks atomize_conj
  by (intro conjI bit_word_eqI; auto simp: byte_bits not_less dest: bit_imp_le_length; rule ccontr; simp add: not_less)

section \<open>Facts: base64\<close>

lemma Base64Table_decodes:
  "list_all (\<lambda>c. DecodeBase64Char (ord c) < 64 \<and> c \<notin> {CHR ''='', CHR 0x0D, CHR 0x0A}) s_Base64Table"
  "map (\<lambda>c. DecodeBase64Char (ord c)) s_Base64Table = [0..<64]"
  by (simp_all add: s_Base64Table_def DecodeBase64Char_def upt_rec)

lemma length_Base64Table [simp]: "length s_Base64Table = 64"
  by (simp add: s_Base64Table_def)

lemma Base64Char_decodes:
  assumes "b < 64"
  shows "DecodeBase64Char (ord (Base64Char b)) = unat b" "Base64Char b \<noteq> CHR ''=''"
    "Base64Char b \<noteq> CHR 0x0D" "Base64Char b \<noteq> CHR 0x0A"
proof -
  have "unat b < 64" using assms by (simp add: word_less_nat_alt)
  then have "Base64Char b \<in> set s_Base64Table" "map (\<lambda>c. DecodeBase64Char (ord c)) s_Base64Table ! unat b = unat b"
    unfolding Base64Table_decodes by (simp_all add: Base64Char_def)
  with \<open>unat b < 64\<close> Base64Table_decodes(1) show "DecodeBase64Char (ord (Base64Char b)) = unat b" "Base64Char b \<noteq> CHR ''=''"
    "Base64Char b \<noteq> CHR 0x0D" "Base64Char b \<noteq> CHR 0x0A"
    by (auto simp: Base64Char_def list_all_iff)
qed

lemma Base64Char_not_pad: "b < 64 \<Longrightarrow> CHR ''='' \<noteq> Base64Char b"
  using Base64Char_decodes(2) by metis

lemma pad_not_in_crlf [simp]: "CHR ''='' \<notin> set crlf"
  by (simp add: crlf_def)

lemma takeWhile_crlf [simp]: "takeWhile (\<lambda>c. c \<noteq> CHR ''='') crlf = crlf"
  by (simp add: crlf_def)

lemma byte_less_64_iff: "(b :: byte) < 64 \<longleftrightarrow> (\<forall>n. bit b n \<longrightarrow> n < 6)"
proof -
  have "b < 64 \<longleftrightarrow> take_bit 6 b = b" 
    by (simp add: take_bit_eq_mod word_less_nat_alt word_unat_eq_iff unat_mod) (metis mod_less mod_less_divisor zero_less_numeral)
  also have "\<dots> \<longleftrightarrow> (\<forall>n. bit b n \<longrightarrow> n < 6)" by (metis bit_eqI bit_imp_le_length bit_take_bit_iff)
  finally show ?thesis .
qed

lemma base64_digits:
  fixes b c :: byte
  shows "drop_bit 2 b < 64" "push_bit 4 b AND 0x30 < 64" "push_bit 2 b AND 0x3c < 64" "c AND 0x3f < 64"
    "(push_bit 4 b AND 0x30) OR drop_bit 4 c < 64" "(push_bit 2 b AND 0x3c) OR drop_bit 6 c < 64"
  unfolding byte_less_64_iff base64_masks by (auto simp: byte_bits dest: bit_imp_le_length)

text \<open>The decoder as a fold over the characters before the padding.\<close>

definition b64_feed :: "nat \<times> byte \<times> AnsiString \<Rightarrow> char \<Rightarrow> nat \<times> byte \<times> AnsiString" where
  "b64_feed st c =
     (if DecodeBase64Char (ord c) \<ge> 64 then st
      else Base64DecodeStep (word_of_nat (DecodeBase64Char (ord c))) st)"

lemma Base64DecodeLoop_eq:
  "Base64DecodeLoop s st = snd (snd (foldl b64_feed st (takeWhile (\<lambda>c. c \<noteq> CHR ''='') s)))"
  by (induction s arbitrary: st) (auto simp: b64_feed_def Let_def)

lemma b64_feed_Base64Char: "b < 64 \<Longrightarrow> b64_feed st (Base64Char b) = Base64DecodeStep b st"
  by (simp add: b64_feed_def Base64Char_decodes word_less_nat_alt)

lemma b64_feed_crlf [simp]: "foldl b64_feed st crlf = st"
  by (simp add: crlf_def b64_feed_def DecodeBase64Char_def)

text \<open>
  Encoder and decoder in step: what the decoder has after reading what the encoder has written, with the bits
  each of them holds of the byte that is not yet complete.
\<close>

definition b64_sync :: "AnsiString \<Rightarrow> byte \<Rightarrow> AnsiString \<Rightarrow> bool" where
  "b64_sync taken hi written \<longleftrightarrow> CHR ''='' \<notin> set written \<and>
     (case foldl b64_feed (0, 0, []) written of (n, held, out) \<Rightarrow>
        if length taken mod 3 = 0 then n mod 4 = 0 \<and> out = taken
        else if length taken mod 3 = 1 then
          n mod 4 = 1 \<and> out = butlast taken \<and> held = push_bit 2 (drop_bit 2 (byte_of (last taken))) \<and>
          hi = push_bit 4 (byte_of (last taken)) AND 0x30
        else
          n mod 4 = 2 \<and> out = butlast taken \<and> held = push_bit 4 (drop_bit 4 (byte_of (last taken))) \<and>
          hi = push_bit 2 (byte_of (last taken)) AND 0x3c)"

lemma b64_sync_crlf: "b64_sync taken hi (written @ crlf) \<longleftrightarrow> b64_sync taken hi written"
  by (simp add: b64_sync_def)

lemma b64_sync_step:
  assumes "b64_sync taken hi written" "Base64EncodeStep brk (byte_of c) (length taken) l hi = (chars, l', hi')"
  shows "b64_sync (taken @ [c]) hi' (written @ chars)"
proof -
  obtain n held out where f: "foldl b64_feed (0, 0, []) written = (n, held, out)" by (metis surj_pair)
  consider "length taken mod 3 = 0" | "length taken mod 3 = 1" | "length taken mod 3 = 2" by linarith
  then show ?thesis
  proof cases
    case 1
    then have "Suc (length taken) mod 3 = 1" by presburger
    moreover from 1 assms f have "n mod 4 = 0" "Suc n mod 4 = 1" by (auto simp: b64_sync_def mod_Suc)
    ultimately show ?thesis using assms f 1
      by (auto simp: Base64EncodeStep_def b64_sync_crlf split: if_splits)
        (auto simp: b64_sync_def b64_feed_Base64Char base64_digits Base64Char_not_pad Base64DecodeStep_def)
  next
    case 2
    then have "Suc (length taken) mod 3 = 2" by presburger
    moreover from 2 assms f have "n mod 4 = 1" "Suc n mod 4 = 2" by (auto simp: b64_sync_def mod_Suc)
    moreover from 2 have "butlast taken @ [last taken] = taken" by (cases taken) auto
    ultimately show ?thesis using assms f 2
      by (auto simp: Base64EncodeStep_def b64_sync_crlf split: if_splits)
        (auto simp: b64_sync_def b64_feed_Base64Char base64_digits Base64Char_not_pad Base64DecodeStep_def base64_joins
          simp del: drop_bit_or drop_bit_and push_bit_or push_bit_and)
  next
    case 3
    then have "Suc (length taken) mod 3 = 0" by presburger
    moreover from 3 assms f have "n mod 4 = 2" "Suc n mod 4 = 3" "Suc (Suc n) mod 4 = 0" by (auto simp: b64_sync_def mod_Suc)
    moreover from 3 have "butlast taken @ [last taken] = taken" by (cases taken) auto
    ultimately show ?thesis using assms f 3
      by (auto simp: Base64EncodeStep_def b64_sync_crlf split: if_splits)
        (auto simp: b64_sync_def b64_feed_Base64Char base64_digits Base64Char_not_pad Base64DecodeStep_def base64_joins
          simp del: drop_bit_or drop_bit_and push_bit_or push_bit_and)
  qed
qed

lemma b64_sync_loop:
  "b64_sync taken hi written \<Longrightarrow>
   Base64EncodeLoop brk input (length taken) l hi written = (n, l', hi', result) \<Longrightarrow>
   n = length (taken @ input) \<and> b64_sync (taken @ input) hi' result"
proof (induction input arbitrary: taken hi written l)
  case Nil
  then show ?case by simp
next
  case (Cons c input)
  obtain chars l1 hi1 where s: "Base64EncodeStep brk (byte_of c) (length taken) l hi = (chars, l1, hi1)" by (metis surj_pair)
  from Cons.IH [OF b64_sync_step [OF Cons.prems(1) s]] Cons.prems(2) s show ?case by simp
qed

text \<open>The end of the encoding: the last bits, the padding and perhaps a line break.\<close>

lemma b64_sync_end:
  assumes "b64_sync taken hi written"
  shows "Base64DecodeLoop (written @ (if length taken mod 3 \<noteq> 0 then Base64Char hi # CHR ''='' # pads else []) @
           (if brk then crlf else [])) (0, 0, []) = taken"
proof -
  have tw: "takeWhile (\<lambda>c. c \<noteq> CHR ''='') (written @ rest) = written @ takeWhile (\<lambda>c. c \<noteq> CHR ''='') rest" for rest
    using assms by (subst takeWhile_append2) (auto simp: b64_sync_def)
  obtain n held out where f: "foldl b64_feed (0, 0, []) written = (n, held, out)" by (metis surj_pair)
  consider "length taken mod 3 = 0" | "length taken mod 3 = 1" | "length taken mod 3 = 2" by linarith
  then show ?thesis
  proof cases
    case 1
    with assms f show ?thesis unfolding Base64DecodeLoop_eq tw by (cases brk) (simp_all add: b64_sync_def)
  next
    case 2
    then have "butlast taken @ [last taken] = taken" by (cases taken) auto
    with 2 assms f show ?thesis unfolding Base64DecodeLoop_eq tw
      by (auto simp: b64_sync_def Base64Char_decodes base64_digits b64_feed_Base64Char Base64DecodeStep_def base64_joins
          simp del: drop_bit_or drop_bit_and push_bit_or push_bit_and)
  next
    case 3
    then have "butlast taken @ [last taken] = taken" by (cases taken) auto
    with 3 assms f show ?thesis unfolding Base64DecodeLoop_eq tw
      by (auto simp: b64_sync_def Base64Char_decodes base64_digits b64_feed_Base64Char Base64DecodeStep_def base64_joins
          simp del: drop_bit_or drop_bit_and push_bit_or push_bit_and)
  qed
qed

lemma MimeCodeBase64_round_trip: "MimeCodeBase64_Decode (MimeCodeBase64_Encode brk input) = input"
proof -
  obtain n l hi r where loop: "Base64EncodeLoop brk input 0 0 0 [] = (n, l, hi, r)" by (metis surj_pair)
  have "b64_sync [] 0 []" by (simp add: b64_sync_def)
  from b64_sync_loop [OF this, simplified, OF loop] have n: "n = length input" and sync: "b64_sync input hi r" by auto
  have pad: "replicate (3 - length input mod 3) CHR ''='' = CHR ''='' # replicate (2 - length input mod 3) CHR ''=''"
    using mod_less_divisor [of 3 "length input"] by (simp add: replicate_Suc [symmetric] Suc_diff_le del: replicate_Suc)
  from b64_sync_end [OF sync, of "replicate (2 - length input mod 3) CHR ''=''" "brk \<and> l \<noteq> 0"] show ?thesis
    by (auto simp: MimeCodeBase64_Decode_def MimeCodeBase64_Encode_def loop Let_def pad n split: if_splits)
qed

text \<open>Line breaks can be taken out of what the decoder reads.\<close>

lemma Base64DecodeLoop_Replace: "Base64DecodeLoop (Replace s crlf []) st = Base64DecodeLoop s st"
proof (induction "length s" arbitrary: s st rule: less_induct)
  case less
  show ?case
  proof (cases s)
    case Nil
    then show ?thesis by simp
  next
    case (Cons c cs)
    show ?thesis
    proof (cases "take 2 s = crlf")
      case True
      then obtain rest where s: "s = crlf @ rest" by (metis append_take_drop_id)
      then have "Replace s crlf [] = Replace rest crlf []" using Replace_hit [of crlf rest "[]"] by (simp add: crlf_def)
      moreover have "Base64DecodeLoop s st = Base64DecodeLoop rest st" by (simp add: s crlf_def DecodeBase64Char_def Let_def)
      moreover have "length rest < length s" by (simp add: s crlf_def)
      ultimately show ?thesis using less by simp
    next
      case False
      with Cons have "Replace s crlf [] = c # Replace cs crlf []" by (subst Cons, subst Replace_Cons) (auto simp: crlf_def)
      with less Cons show ?thesis by (simp add: Let_def)
    qed
  qed
qed

text \<open>
  C29: What the server encodes in base64 it decodes to the same bytes, whatever they are: with line breaks or without,
  and through the wrapper that takes the line breaks out again.
\<close>

theorem base64_round_trip:
  "MimeCodeBase64_Decode (MimeCodeBase64_Encode add_line_break input) = input \<and>
   Base64_Decode (Base64_Encode input) = input"
  using MimeCodeBase64_round_trip
  by (simp add: Base64_Decode_def Base64_Encode_def MimeCodeBase64_Decode_def Base64DecodeLoop_Replace)

text \<open>The lines of the encoded text: complete ones of 76 characters, and the one being written.\<close>

definition b64_lines :: "AnsiString \<Rightarrow> nat \<Rightarrow> AnsiString \<Rightarrow> bool" where
  "b64_lines taken l written \<longleftrightarrow> (\<exists>ls line. written = concat (map (\<lambda>x. x @ crlf) ls) @ line \<and>
     list_all (\<lambda>x. length x = 76) ls \<and> length line = l \<and> l < 76 \<and> l mod 4 = length taken mod 3)"

lemma b64_phase_step:
  "l mod 4 = m mod 3 \<Longrightarrow> (l + (if m mod 3 = 2 then 2 else 1)) mod 4 = Suc m mod (3 :: nat)"
  using mod_less_divisor [of 3 m] by (simp add: mod_Suc)

lemma b64_phase_room:
  assumes "l mod 4 = m mod 3" "l < 76"
  shows "l + (if m mod 3 = 2 then 2 else 1) \<le> 76" "m mod 3 \<noteq> 2 \<Longrightarrow> l + 1 < 76" "m mod 3 \<noteq> 0 \<Longrightarrow> l + (4 - m mod 3) \<le> (76 :: nat)"
proof -
  have "l = 4 * (l div 4) + m mod 3" "l div 4 \<le> 18" "m mod 3 < 3" using assms mult_div_mod_eq [of 4 l] by auto
  then show "l + (if m mod 3 = 2 then 2 else 1) \<le> 76" "m mod 3 \<noteq> 2 \<Longrightarrow> l + 1 < 76" "m mod 3 \<noteq> 0 \<Longrightarrow> l + (4 - m mod 3) \<le> (76 :: nat)"
    by (auto split: if_splits)
qed

lemma b64_lines_step:
  assumes "b64_lines taken l written" "Base64EncodeStep True b (length taken) l hi = (chars, l', hi')"
  shows "b64_lines (taken @ [c]) l' (written @ chars)"
proof -
  obtain ls line where w: "written = concat (map (\<lambda>x. x @ crlf) ls) @ line" "list_all (\<lambda>x. length x = 76) ls"
    "length line = l" "l < 76" "l mod 4 = length taken mod 3" using assms(1) by (auto simp: b64_lines_def)
  obtain cs where cs: "length cs = (if length taken mod 3 = 2 then 2 else 1)"
    "(chars, l') = (if l + length cs \<ge> 76 then (cs @ crlf, 0) else (cs, l + length cs))"
  proof -
    have "\<exists>cs. length cs = (if length taken mod 3 = 2 then 2 else 1) \<and>
       (chars, l') = (if l + length cs \<ge> 76 then (cs @ crlf, 0) else (cs, l + length cs))"
      using assms(2) by (force simp: Base64EncodeStep_def MAX_MIME_LINE_LEN_def split: if_splits)
    then show ?thesis using that by blast
  qed
  have next_phase: "(l + length cs) mod 4 = Suc (length taken) mod 3" using b64_phase_step [OF w(5)] cs(1) by simp
  show ?thesis
  proof (cases "l + length cs \<ge> 76")
    case True
    with b64_phase_room [OF w(5,4)] cs(1) have "l + length cs = 76" by simp
    with next_phase have "Suc (length taken) mod 3 = 0" by simp
    with w cs True \<open>l + length cs = 76\<close> show ?thesis unfolding b64_lines_def
      by (intro exI [of _ "ls @ [line @ cs]"] exI [of _ "[]"]) simp
  next
    case False
    with w cs next_phase show ?thesis unfolding b64_lines_def by (intro exI [of _ ls] exI [of _ "line @ cs"]) simp
  qed
qed

lemma b64_lines_loop:
  "b64_lines taken l written \<Longrightarrow>
   Base64EncodeLoop True input (length taken) l hi written = (n, l', hi', result) \<Longrightarrow>
   n = length (taken @ input) \<and> b64_lines (taken @ input) l' result"
proof (induction input arbitrary: taken l written hi)
  case Nil
  then show ?case by simp
next
  case (Cons c input)
  obtain chars l1 hi1 where s: "Base64EncodeStep True (byte_of c) (length taken) l hi = (chars, l1, hi1)" by (metis surj_pair)
  from Cons.IH [OF b64_lines_step [OF Cons.prems(1) s, of c]] Cons.prems(2) s show ?case by simp
qed

text \<open>
  The lines of base64 text are complete: each of them ends with a line break, all but the last one have 76 characters
  and the last one has no more, its padding included.
\<close>

theorem base64_lines_fit:
  "\<exists>ls. MimeCodeBase64_Encode True input = concat (map (\<lambda>x. x @ crlf) ls) \<and>
     list_all (\<lambda>x. length x = 76) (butlast ls) \<and> list_all (\<lambda>x. 0 < length x \<and> length x \<le> 76) ls"
proof -
  obtain n l hi r where loop: "Base64EncodeLoop True input 0 0 0 [] = (n, l, hi, r)" by (metis surj_pair)
  have "b64_lines [] 0 []" unfolding b64_lines_def by (intro exI [of _ "[]"]) simp
  from b64_lines_loop [OF this, simplified, OF loop] obtain ls line where n: "n = length input"
    and w: "r = concat (map (\<lambda>x. x @ crlf) ls) @ line" "list_all (\<lambda>x. length x = 76) ls" "length line = l" "l < 76"
    "l mod 4 = length input mod 3" by (auto simp: b64_lines_def)
  define pad where "pad = (if n mod 3 \<noteq> 0 then [Base64Char hi] @ replicate (4 - n mod 3 - 1) CHR ''='' else [])"
  have enc: "MimeCodeBase64_Encode True input = r @ pad @ (if l \<noteq> 0 then crlf else [])"
    by (simp add: MimeCodeBase64_Encode_def loop pad_def)
  have small: "l + length pad \<le> 76"
    using b64_phase_room(3) [OF w(5,4)] w(4) mod_less_divisor [of 3 "length input"] by (auto simp: pad_def n)
  have full: "list_all (\<lambda>x. 0 < length x \<and> length x \<le> 76) ls" using w(2) by (auto simp: list_all_iff)
  show ?thesis
  proof (cases "l = 0")
    case True
    with w have "pad = []" by (simp add: pad_def n)
    with True enc w full show ?thesis by (intro exI [of _ ls]) (auto simp: list_all_iff dest: in_set_butlastD)
  next
    case False
    with enc w full small show ?thesis by (intro exI [of _ "ls @ [line @ pad]"]) auto
  qed
qed

section \<open>Facts: quoted-printable\<close>

lemma QPDigits_decode:
  "list_all (\<lambda>n. MimeChar_IsHexDigit (s_QPTable ! n) \<and> QPHexValue (s_QPTable ! n) = word_of_nat n \<and> s_QPTable ! n \<noteq> CHR 0x0D) [0..<16]"
  by (simp add: s_QPTable_def upt_rec MimeChar_IsHexDigit_def QPHexValue_def char_ranges byte_of_def)

lemma QPQuoted_decodes: "QPDecodeLoop (QPQuoted ch @ rest) output = QPDecodeLoop rest (output @ [ch])"
proof -
  let ?h = "drop_bit 4 (byte_of ch) AND 0x0f" and ?l = "byte_of ch AND 0x0f"
  have "unat (b AND 0x0f) < 16" for b :: byte
    unfolding base64_masks by (simp add: take_bit_eq_mod unat_mod flip: take_bit_eq_mask)
  then have "unat ?h < 16" "unat ?l < 16" by simp_all
  with QPDigits_decode have "MimeChar_IsHexDigit (s_QPTable ! unat ?h)" "QPHexValue (s_QPTable ! unat ?h) = ?h" "QPHexValue (s_QPTable ! unat ?l) = ?l"
    by (auto simp: list_all_iff)
  moreover have "push_bit 4 ?h OR (?l AND 0x0f) = byte_of ch"
    unfolding base64_masks by (rule bit_word_eqI) (auto simp: byte_bits dest: bit_imp_le_length)
  ultimately show ?thesis by (simp add: QPQuoted_def)
qed

lemma QP_unquoted: "\<not> QPNeedsQuote q a before ch rest n \<Longrightarrow> ch \<noteq> CHR ''=''"
  by (auto simp: QPNeedsQuote_def)

lemma QP_soft_break: "QPDecodeLoop ([CHR ''=''] @ crlf @ rest) out = QPDecodeLoop rest out"
  by (simp add: crlf_def MimeChar_IsHexDigit_def char_ranges)

text \<open>One turn of the encoder: perhaps a soft line break, then the character, quoted or plain.\<close>

lemma QPEncodeLoop_step:
  "\<exists>n' soft. QPEncodeLoop q a before (ch # rest) n out =
     QPEncodeLoop q a (before @ [ch]) rest n'
       (out @ (if soft then [CHR ''=''] @ crlf else []) @ (if QPNeedsQuote q a before ch rest n then QPQuoted ch else [ch]))"
proof -
  define quote where "quote = QPNeedsQuote q a before ch rest n"
  define n1 where "n1 = (if \<not> q \<and> (ch = CHR 0x0D \<or> ch = CHR 0x0A) then -1 else n)"
  define soft where "soft = (a \<and> n1 + (if quote then 3 else 1) \<ge> int MAX_MIME_LINE_LEN)"
  show ?thesis
    by (intro exI [of _ "(if soft then 0 else n1) + (if quote then 3 else 1)"] exI [of _ soft])
      (simp add: Let_def flip: quote_def n1_def soft_def)
qed

lemma QP_round_trip_loop:
  "\<exists>e. QPEncodeLoop q a before input n out = out @ e \<and> (\<forall>out'. QPDecodeLoop e out' = out' @ input)"
proof (induction input arbitrary: before n out)
  case Nil
  then show ?case by simp
next
  case (Cons ch rest)
  let ?quote = "QPNeedsQuote q a before ch rest n"
  let ?chars = "if ?quote then QPQuoted ch else [ch]"
  obtain n' soft where step: "QPEncodeLoop q a before (ch # rest) n out =
      QPEncodeLoop q a (before @ [ch]) rest n' (out @ (if soft then [CHR ''=''] @ crlf else []) @ ?chars)"
    using QPEncodeLoop_step by blast
  obtain e where e: "QPEncodeLoop q a (before @ [ch]) rest n' (out @ (if soft then [CHR ''=''] @ crlf else []) @ ?chars) =
      (out @ (if soft then [CHR ''=''] @ crlf else []) @ ?chars) @ e" "\<And>out'. QPDecodeLoop e out' = out' @ rest"
    using Cons.IH by blast
  have chars: "QPDecodeLoop (?chars @ e) out' = out' @ ch # rest" for out'
    using QP_unquoted [of q a before ch rest n] by (simp add: QPQuoted_decodes e(2))
  have "QPDecodeLoop (((if soft then [CHR ''=''] @ crlf else []) @ ?chars) @ e) out' = out' @ ch # rest" for out'
    using chars QP_soft_break [of "?chars @ e" out'] by (cases soft) (simp_all del: QPDecodeLoop.simps)
  with step e(1) show ?case by (intro exI [of _ "((if soft then [CHR ''=''] @ crlf else []) @ ?chars) @ e"]) simp
qed

text \<open>
  Quoted-printable text decodes to what was encoded, whether or not line breaks are quoted and whether or not long
  lines are broken.
\<close>

theorem quoted_printable_round_trip:
  "MimeCodeQP_Decode (MimeCodeQP_Encode quote_line_break add_line_break input) = input"
  using QP_round_trip_loop [of quote_line_break add_line_break "[]" input 0 "[]"]
  by (auto simp: MimeCodeQP_Decode_def MimeCodeQP_Encode_def)

end
