(* ===== verification/MimeHeaders.thy ===== *)
theory MimeHeaders
  imports MimeCode
begin

text \<open>
  The header parser of Common/Mime/Mime.cpp, \<^verbatim>\<open>MimeField\<close> and \<^verbatim>\<open>MimeHeader\<close>, as far as the DKIM code uses it: finding
  the fields of a header block, unfolding a field, and looking a field up by name. A pointer and the limit it
  must not pass are the bytes between them, so a position is the text that follows it, and the size
  a parse returns is the number of bytes it has passed; a size of 0, with which the parser reports
  that there is no field, is \<open>None\<close>.

  The theorems: a block that is the text of well-formed fields is read as exactly these fields, a field that
  is put before a block is read as one more field, and unfolding removes every line break.
\<close>

section \<open>Fields\<close>

record MimeField =
  field_name :: AnsiString
  field_value :: AnsiString
  raw_line :: AnsiString
  modified :: bool
  is_new :: bool

text \<open>The name and the value are handed out as C strings.\<close>

definition c_str :: "AnsiString \<Rightarrow> AnsiString" where
  "c_str s = takeWhile (\<lambda>c. c \<noteq> CHR 0x00) s"

definition MimeField_GetName :: "MimeField \<Rightarrow> AnsiString" where
  "MimeField_GetName f = c_str (field_name f)"

definition MimeField_GetValue :: "MimeField \<Rightarrow> AnsiString" where
  "MimeField_GetValue f = c_str (field_value f)"

definition is_WSP :: "char \<Rightarrow> bool" where
  "is_WSP c \<longleftrightarrow> c = CHR '' '' \<or> c = CHR 0x09"

fun LineFind :: "AnsiString \<Rightarrow> char \<Rightarrow> nat option" where
  "LineFind [] ch = None"
| "LineFind (c # cs) ch =
     (if c \<noteq> CHR 0x00 \<and> c \<noteq> ch \<and> c \<noteq> CHR 0x0D \<and> c \<noteq> CHR 0x0A then map_option Suc (LineFind cs ch)
      else if c = ch then Some 0 else None)"

text \<open>One turn of the unfolding loop, and the loop.\<close>

definition UnfoldStep :: "char \<Rightarrow> AnsiString \<times> bool \<Rightarrow> AnsiString \<times> bool" where
  "UnfoldStep sChar st =
     (case st of (sRetVal, bNewLinePassed) \<Rightarrow>
        if sChar = CHR 0x0D \<or> sChar = CHR 0x0A then (if bNewLinePassed then sRetVal else sRetVal @ '' '', True)
        else if IsSpace sChar \<and> bNewLinePassed then (sRetVal, bNewLinePassed)
        else (sRetVal @ [sChar], False))"

definition UnfoldField :: "AnsiString \<Rightarrow> AnsiString" where
  "UnfoldField strField = fst (fold UnfoldStep strField ([], False))"

text \<open>
  The search for the next field: a line that begins with white space is passed, one that begins with a carriage
  return ends the header.
\<close>

function SkipToField :: "AnsiString \<Rightarrow> AnsiString option" where
  "SkipToField s =
     (if s \<noteq> [] \<and> IsSpace (hd s) then
        (if hd s = CHR 0x0D then None
         else case Find_str s crlf of None \<Rightarrow> None | Some i \<Rightarrow> SkipToField (drop (i + 2) s))
      else Some s)"
  by pat_completeness auto
termination
  by (relation "measure length") auto

declare SkipToField.simps [simp del]

text \<open>The size of a field's text: up to the first line break that no white space follows.\<close>

function FieldEnd :: "AnsiString \<Rightarrow> nat option" where
  "FieldEnd s =
     (case Find_str s crlf of
        None \<Rightarrow> None
      | Some i \<Rightarrow>
          let rest = drop (i + 2) s
          in if rest \<noteq> [] \<and> is_WSP (hd rest) then map_option (\<lambda>e. i + 2 + e) (FieldEnd rest) else Some (i + 2))"
  by pat_completeness auto
termination
  by (relation "measure length") auto

declare FieldEnd.simps [simp del]

definition MimeField_Load :: "AnsiString \<Rightarrow> bool \<Rightarrow> (nat \<times> MimeField) option" where
  "MimeField_Load data unfold =
     (case SkipToField data of
        None \<Rightarrow> None
      | Some fieldStart \<Rightarrow>
          if fieldStart = [] then None
          else
            let (nm, start) =
                  (case LineFind fieldStart CHR '':'' of
                     Some i \<Rightarrow> (take i fieldStart, drop (i + 1) fieldStart)
                   | None \<Rightarrow> ([], fieldStart));
                start = dropWhile is_WSP start
            in case FieldEnd start of
                 None \<Rightarrow> None
               | Some e \<Rightarrow>
                   let v = take (e - 2) start
                   in Some (length data - length start + e,
                        \<lparr> field_name = nm, field_value = (if unfold then UnfoldField v else v),
                          raw_line = take (length fieldStart - length start + e) fieldStart,
                          modified = False, is_new = False \<rparr>))"

section \<open>Headers\<close>

text \<open>The fields found and the number of bytes passed; after a field that cannot be read the number is 0.\<close>

function MimeHeader_LoadLoop :: "AnsiString \<Rightarrow> bool \<Rightarrow> nat \<Rightarrow> MimeField list \<times> nat option" where
  "MimeHeader_LoadLoop data unfold nInput =
     (if data \<noteq> [] \<and> hd data \<noteq> CHR 0x00 \<and> hd data \<noteq> CHR 0x0D then
        (case MimeField_Load data unfold of
           None \<Rightarrow> ([], None)
         | Some (nSize, fd) \<Rightarrow>
             if nSize = 0 then ([], None)
             else
               let (fds, total) = MimeHeader_LoadLoop (drop nSize data) unfold (nInput + nSize)
               in (fd # fds, total))
      else ([], Some nInput))"
  by pat_completeness auto
termination
  by (relation "measure (\<lambda>(data, u, n). length data)") auto

declare MimeHeader_LoadLoop.simps [simp del]

definition MimeHeader_Load :: "AnsiString \<Rightarrow> bool \<Rightarrow> MimeField list \<times> nat" where
  "MimeHeader_Load data unfold =
     (case MimeHeader_LoadLoop data unfold 0 of
        (fds, None) \<Rightarrow> (fds, 0)
      | (fds, Some nInput) \<Rightarrow> (fds, if nInput + 2 \<le> length data then nInput + 2 else nInput))"

definition Fields :: "AnsiString \<Rightarrow> bool \<Rightarrow> MimeField list" where
  "Fields header unfold = fst (MimeHeader_Load header unfold)"

text \<open>\<^verbatim>\<open>_stricmp\<close> compares as \<^verbatim>\<open>CompareNoCase\<close> does.\<close>

definition GetField :: "MimeField list \<Rightarrow> AnsiString \<Rightarrow> MimeField option" where
  "GetField fds pszFieldName = find (\<lambda>fd. CompareNoCase (MimeField_GetName fd) pszFieldName = 0) fds"

section \<open>Facts: searching for line breaks\<close>

lemma take_2_crlf: "take 2 (x # xs) = crlf \<longleftrightarrow> x = CHR 0x0D \<and> xs \<noteq> [] \<and> hd xs = CHR 0x0A"
  by (cases xs) (auto simp: crlf_def)

lemma length_crlf [simp]: "length crlf = 2"
  by (simp add: crlf_def)

lemma crlf_not_Nil [simp]: "crlf \<noteq> []" "[] \<noteq> crlf"
  by (simp_all add: crlf_def)

lemma Find_str_crlf_append:
  "Find_str (v @ crlf @ rest) crlf = (case Find_str v crlf of Some i \<Rightarrow> Some i | None \<Rightarrow> Some (length v))"
proof (induction v)
  case Nil
  then show ?case by (simp add: crlf_def)
next
  case (Cons x v)
  have "take 2 (x # v @ crlf @ rest) = crlf \<longleftrightarrow> take 2 (x # v) = crlf"
    unfolding take_2_crlf by (cases v) (auto simp: crlf_def)
  with Cons show ?case by (auto split: option.splits)
qed

lemma Find_str_SomeD: "Find_str s t = Some i \<Longrightarrow> i + length t \<le> length s \<and> s = take i s @ t @ drop (i + length t) s"
proof (induction s arbitrary: i)
  case Nil
  then show ?case by (simp split: if_splits)
next
  case (Cons x s)
  show ?case
  proof (cases "take (length t) (x # s) = t")
    case True
    with Cons.prems have "i = 0" by simp
    moreover have "length t \<le> length (x # s)" using True by (metis length_take min.cobounded1)
    ultimately show ?thesis using True append_take_drop_id [of "length t" "x # s"] by simp
  next
    case False
    with Cons.prems obtain j where "Find_str s t = Some j" "i = Suc j" by auto
    with Cons.IH show ?thesis by auto
  qed
qed

text \<open>A value that is folded: white space follows each of its line breaks.\<close>

function folded_value :: "AnsiString \<Rightarrow> bool" where
  "folded_value v =
     (case Find_str v crlf of
        None \<Rightarrow> True
      | Some i \<Rightarrow> drop (i + 2) v \<noteq> [] \<and> is_WSP (hd (drop (i + 2) v)) \<and> folded_value (drop (i + 2) v))"
  by pat_completeness auto
termination
  by (relation "measure length") (auto dest: Find_str_SomeD)

declare folded_value.simps [simp del]

lemma FieldEnd_folded:
  assumes "folded_value v" "rest = [] \<or> \<not> is_WSP (hd rest)"
  shows "FieldEnd (v @ crlf @ rest) = Some (length v + 2)"
  using assms(1)
proof (induction v rule: folded_value.induct)
  case (1 v)
  show ?case
  proof (cases "Find_str v crlf")
    case None
    with assms(2) show ?thesis by (subst FieldEnd.simps) (auto simp: Find_str_crlf_append)
  next
    case (Some i)
    then have i: "i + 2 \<le> length v" using Find_str_SomeD by fastforce
    from 1(2) Some have f: "drop (i + 2) v \<noteq> []" "is_WSP (hd (drop (i + 2) v))" "folded_value (drop (i + 2) v)"
      by (simp_all add: folded_value.simps [of v])
    have "FieldEnd (v @ crlf @ rest) = map_option (\<lambda>e. i + 2 + e) (FieldEnd (drop (i + 2) v @ crlf @ rest))"
      using Some i f by (subst FieldEnd.simps) (simp add: Find_str_crlf_append Let_def)
    with 1(1) [OF Some] f i show ?thesis by simp
  qed
qed

section \<open>Facts: reading fields\<close>

lemma LineFind_hit:
  "list_all (\<lambda>c. c \<notin> {CHR 0x00, ch, CHR 0x0D, CHR 0x0A}) nm \<Longrightarrow> LineFind (nm @ ch # rest) ch = Some (length nm)"
  by (induction nm) auto

text \<open>A name a field can have: not empty, no space at its beginning and none of the characters that end it.\<close>

definition plain_name :: "AnsiString \<Rightarrow> bool" where
  "plain_name nm \<longleftrightarrow> nm \<noteq> [] \<and> \<not> IsSpace (hd nm) \<and> list_all (\<lambda>c. c \<notin> {CHR 0x00, CHR '':'', CHR 0x0D, CHR 0x0A}) nm"

definition mime_field :: "bool \<Rightarrow> AnsiString \<Rightarrow> AnsiString \<Rightarrow> AnsiString \<Rightarrow> MimeField" where
  "mime_field unfold nm sp v =
     \<lparr> field_name = nm, field_value = (if unfold then UnfoldField v else v), raw_line = nm @ '':'' @ sp @ v @ crlf,
       modified = False, is_new = False \<rparr>"

lemma MimeField_Load_field:
  assumes "plain_name nm" "list_all is_WSP sp" "v = [] \<or> \<not> is_WSP (hd v)" "folded_value v" "rest = [] \<or> \<not> is_WSP (hd rest)"
  shows "MimeField_Load (nm @ '':'' @ sp @ v @ crlf @ rest) unfold =
    Some (length (nm @ '':'' @ sp @ v @ crlf), mime_field unfold nm sp v)"
proof -
  have skip: "SkipToField (nm @ CHR '':'' # sp @ v @ crlf @ rest) = Some (nm @ CHR '':'' # sp @ v @ crlf @ rest)"
    using assms(1) by (subst SkipToField.simps) (simp add: plain_name_def)
  have line: "LineFind (nm @ CHR '':'' # sp @ v @ crlf @ rest) CHR '':'' = Some (length nm)"
    using assms(1) by (intro LineFind_hit) (simp add: plain_name_def)
  have "v @ crlf @ rest = [] \<or> \<not> is_WSP (hd (v @ crlf @ rest))" using assms(3) by (cases v) (auto simp: crlf_def is_WSP_def)
  with assms(2) have start: "dropWhile is_WSP (sp @ v @ crlf @ rest) = v @ crlf @ rest"
    by (cases "v @ crlf @ rest") (auto simp: list_all_iff dropWhile_append2 dropWhile_append3)
  have "take (3 + (length sp + length v)) (CHR '':'' # sp @ v @ crlf @ rest) = CHR '':'' # sp @ v @ crlf"
    by (simp add: eval_nat_numeral)
  then show ?thesis
    using assms(1) by (simp add: MimeField_Load_def skip line start FieldEnd_folded [OF assms(4,5)] mime_field_def Let_def plain_name_def)
qed

lemma MimeHeader_LoadLoop_fields: "fst (MimeHeader_LoadLoop data unfold n) = fst (MimeHeader_LoadLoop data unfold m)"
proof (induction data unfold n arbitrary: m rule: MimeHeader_LoadLoop.induct)
  case (1 data unfold n)
  show ?case
  proof (cases "data \<noteq> [] \<and> hd data \<noteq> CHR 0x00 \<and> hd data \<noteq> CHR 0x0D")
    case True
    show ?thesis
    proof (cases "MimeField_Load data unfold")
      case None
      with True show ?thesis by (subst (1 2) MimeHeader_LoadLoop.simps) simp
    next
      case (Some kf)
      obtain k fd where kf: "kf = (k, fd)" by (metis surj_pair)
      show ?thesis
      proof (cases "k = 0")
        case False
        from 1 [OF True Some kf [symmetric] False, of "m + k"] True Some kf False show ?thesis
          by (subst (1 2) MimeHeader_LoadLoop.simps) (simp add: case_prod_beta)
      qed (use True Some kf in \<open>subst (1 2) MimeHeader_LoadLoop.simps, simp\<close>)
    qed
  qed (subst (1 2) MimeHeader_LoadLoop.simps, auto)
qed

lemma Fields_eq: "Fields data unfold = fst (MimeHeader_LoadLoop data unfold 0)"
  by (auto simp: Fields_def MimeHeader_Load_def split: prod.splits option.splits)

lemma Fields_end: "data = [] \<or> hd data = CHR 0x00 \<or> hd data = CHR 0x0D \<Longrightarrow> Fields data unfold = []"
  by (subst Fields_eq, subst MimeHeader_LoadLoop.simps) auto

text \<open>A field put before a block is one more field.\<close>

lemma Fields_Cons:
  assumes "plain_name nm" "list_all is_WSP sp" "v = [] \<or> \<not> is_WSP (hd v)" "folded_value v" "rest = [] \<or> \<not> is_WSP (hd rest)"
  shows "Fields (nm @ '':'' @ sp @ v @ crlf @ rest) unfold = mime_field unfold nm sp v # Fields rest unfold"
proof -
  let ?t = "nm @ '':'' @ sp @ v @ crlf" and ?d = "nm @ '':'' @ sp @ v @ crlf @ rest"
  have start: "?d \<noteq> [] \<and> hd ?d \<noteq> CHR 0x00 \<and> hd ?d \<noteq> CHR 0x0D"
    using assms(1) by (cases nm) (auto simp: plain_name_def)
  have "drop (length ?t) ?d = rest" by (metis append.assoc append_eq_conv_conj)
  moreover have "length ?t \<noteq> 0" by simp
  ultimately have "fst (MimeHeader_LoadLoop ?d unfold 0) = mime_field unfold nm sp v # fst (MimeHeader_LoadLoop rest unfold (length ?t))"
    using start by (subst MimeHeader_LoadLoop.simps) (simp only: MimeField_Load_field [OF assms] if_True if_False simp_thms option.case prod.case case_prod_beta Let_def fst_conv snd_conv add_0)
  then show ?thesis by (simp only: Fields_eq MimeHeader_LoadLoop_fields [of rest unfold "length ?t" 0])
qed

text \<open>Unfolding takes out every line break, and leaves a value without one as it is.\<close>

lemma UnfoldField_breaks: "CHR 0x0D \<notin> set (UnfoldField s)" "CHR 0x0A \<notin> set (UnfoldField s)"
proof -
  have "set (fst st) \<inter> {CHR 0x0D, CHR 0x0A} = {} \<Longrightarrow> set (fst (fold UnfoldStep s st)) \<inter> {CHR 0x0D, CHR 0x0A} = {}" for st
    by (induction s arbitrary: st) (auto simp: UnfoldStep_def split: prod.splits)
  from this [of "([], False)"] show "CHR 0x0D \<notin> set (UnfoldField s)" "CHR 0x0A \<notin> set (UnfoldField s)"
    by (auto simp: UnfoldField_def)
qed

lemma fold_UnfoldStep_plain:
  "list_all (\<lambda>c. c \<noteq> CHR 0x0D \<and> c \<noteq> CHR 0x0A) s \<Longrightarrow> fold UnfoldStep s (out, False) = (out @ s, False)"
  by (induction s arbitrary: out) (auto simp: UnfoldStep_def)

lemma UnfoldField_plain: "list_all (\<lambda>c. c \<noteq> CHR 0x0D \<and> c \<noteq> CHR 0x0A) s \<Longrightarrow> UnfoldField s = s"
  by (simp add: UnfoldField_def fold_UnfoldStep_plain)

text \<open>A folded text, piece by piece: a line break and the white space after it become one space.\<close>

lemma fold_UnfoldStep_fold:
  assumes "list_all (\<lambda>c. c \<noteq> CHR 0x0D \<and> c \<noteq> CHR 0x0A) s" "list_all is_WSP sp" "s = [] \<or> \<not> IsSpace (hd s)" "s \<noteq> []"
  shows "fold UnfoldStep (crlf @ sp @ s) (out, False) = (out @ '' '' @ s, False)"
proof -
  have "fold UnfoldStep sp (x, True) = (x, True)" for x
    using assms(2) by (induction sp) (auto simp: UnfoldStep_def is_WSP_def IsSpace_def char_ranges)
  moreover obtain c cs where "s = c # cs" using assms(4) by (cases s) auto
  ultimately show ?thesis using assms fold_UnfoldStep_plain [of cs "out @ '' '' @ [c]"]
    by (auto simp: crlf_def UnfoldStep_def)
qed

end
