(* ===== verification/Canonicalization.thy ===== *)
theory Canonicalization
  imports MimeHeaders StringParser
begin

text \<open>
  The canonicalization of Common/AntiSpam/DKIM/Canonicalization.cpp: what of a body and of a header goes into the hash a
  DKIM signature signs, in the simple and the relaxed form. The relaxed header passes through wide strings; the
  conversions of the machine's code page are a parameter of the definitions, a \<open>CodePage\<close>. The bodies are split with
  the byte version of \<^verbatim>\<open>StringParser::SplitString\<close> at a separator of two characters, which stores each part through a
  wide string as well.

  The theorems: the relaxed and the simple body are what RFC 6376 describes, read with the white space of the C
  library; the value of the b tag, and nothing else, is taken out of a signature field; a header
  canonicalization takes for each listed name the lowest instance that is not yet taken, and listing the names
  it has found gives the same bytes again.
\<close>

section \<open>Strings\<close>

record CodePage =
  widen :: "AnsiString \<Rightarrow> 16 word list"
  narrow :: "16 word list \<Rightarrow> AnsiString"

definition through_wide :: "CodePage \<Rightarrow> AnsiString \<Rightarrow> AnsiString" where
  "through_wide cp s = narrow cp (widen cp s)"

definition EndsWith :: "AnsiString \<Rightarrow> AnsiString \<Rightarrow> bool" where
  "EndsWith s szText \<longleftrightarrow> CompareNoCase (Right s (length szText)) szText = 0"

text \<open>\<^verbatim>\<open>StringParser::SplitString\<close> with a separator of any length.\<close>

function SplitAtLoop ::
  "(AnsiString \<Rightarrow> AnsiString) \<Rightarrow> AnsiString \<Rightarrow> AnsiString \<Rightarrow> nat \<Rightarrow> nat option \<Rightarrow> AnsiString list \<Rightarrow> nat \<times> AnsiString list" where
  "SplitAtLoop conv sInput sSeperators iBeginning iEnd vecResult =
     (case iEnd of
        None \<Rightarrow> (iBeginning, vecResult)
      | Some e \<Rightarrow>
          if e < iBeginning \<or> length sInput < e + length sSeperators \<or> sSeperators = [] then (iBeginning, vecResult)
          else SplitAtLoop conv sInput sSeperators (e + length sSeperators) (Find_from sInput sSeperators (e + length sSeperators))
                 (vecResult @ [conv (Mid_count sInput iBeginning (e - iBeginning))]))"
  by pat_completeness auto
termination
  by (relation "measure (\<lambda>(f, s, sep, b, e, r). length s - b)") (auto simp flip: length_greater_0_conv)

declare SplitAtLoop.simps [simp del]

definition SplitAt :: "(AnsiString \<Rightarrow> AnsiString) \<Rightarrow> AnsiString \<Rightarrow> AnsiString \<Rightarrow> AnsiString list" where
  "SplitAt conv sInput sSeperators =
     (let iEnd = Find_str sInput sSeperators;
          vecResult = (if iEnd = None \<and> sInput \<noteq> [] then [sInput] else []);
          (iBeginning, vecResult) = SplitAtLoop conv sInput sSeperators 0 iEnd vecResult;
          sSubString = conv (Mid sInput iBeginning)
      in if iBeginning > 0 \<and> sSubString \<noteq> [] then vecResult @ [sSubString]
         else vecResult)"

section \<open>What both forms share\<close>

fun CollapseLoop :: "AnsiString \<Rightarrow> bool \<Rightarrow> AnsiString \<Rightarrow> AnsiString" where
  "CollapseLoop [] previousWasWhitespace result = result"
| "CollapseLoop (c # input) previousWasWhitespace result =
     (if is_WSP c then CollapseLoop input True (if previousWasWhitespace then result else result @ '' '')
      else CollapseLoop input False (result @ [c]))"

definition CollapseWhitespaceRuns :: "AnsiString \<Rightarrow> AnsiString" where
  "CollapseWhitespaceRuns input = CollapseLoop input False []"

text \<open>The walk over the tags of a signature field.\<close>

function WithoutSignatureLoop :: "AnsiString \<Rightarrow> nat \<Rightarrow> AnsiString" where
  "WithoutSignatureLoop value position =
     (if position < length value then
        let semicolonPosition = Find_from value '';'' position;
            tagEnd = (case semicolonPosition of None \<Rightarrow> length value | Some e \<Rightarrow> e);
            tag = Mid_count value position (tagEnd - position);
            equalsPosition = Find_str tag ''='';
            isSignature = (case equalsPosition of
                             None \<Rightarrow> False
                           | Some e \<Rightarrow> e > 0 \<and> Trim (Mid_count tag 0 e) = ''b'')
        in if isSignature then
             Mid_count value 0 (position + the equalsPosition + 1) @
               (case semicolonPosition of None \<Rightarrow> [] | Some e \<Rightarrow> Mid value e)
           else (case semicolonPosition of
                   None \<Rightarrow> []
                 | Some e \<Rightarrow> if e < position then [] else WithoutSignatureLoop value (e + 1))
      else [])"
  by pat_completeness auto
termination
  by (relation "measure (\<lambda>(v, p). length v - p)") auto

declare WithoutSignatureLoop.simps [simp del]

definition GetDKIMWithoutSignature :: "AnsiString \<Rightarrow> AnsiString" where
  "GetDKIMWithoutSignature value = WithoutSignatureLoop value 0"

section \<open>The relaxed form\<close>

fun RelaxedBodyLoop :: "AnsiString list \<Rightarrow> AnsiString list \<Rightarrow> AnsiString list \<Rightarrow> AnsiString list" where
  "RelaxedBodyLoop [] pendingEmptyLines output = output"
| "RelaxedBodyLoop (line # lines) pendingEmptyLines output =
     (let line = TrimRight (CollapseWhitespaceRuns line);
          pendingEmptyLines = pendingEmptyLines @ [line]
      in if line \<noteq> [] then RelaxedBodyLoop lines [] (output @ pendingEmptyLines)
         else RelaxedBodyLoop lines pendingEmptyLines output)"

definition RelaxedBody :: "CodePage \<Rightarrow> AnsiString \<Rightarrow> AnsiString" where
  "RelaxedBody cp value =
     foldl (\<lambda>result outputLine. result @ outputLine @ crlf) [] (RelaxedBodyLoop (SplitAt (through_wide cp) value crlf) [] [])"

definition RelaxedHeaderName :: "AnsiString \<Rightarrow> AnsiString" where
  "RelaxedHeaderName name = Trim (MakeLower name)"

definition TrimTrailingWSP :: "AnsiString \<Rightarrow> AnsiString" where
  "TrimTrailingWSP value = rev (dropWhile is_WSP (rev value))"

definition RelaxedHeaderValue :: "AnsiString \<Rightarrow> AnsiString" where
  "RelaxedHeaderValue value =
     (let value = Replace value (crlf @ '' '') '' '';
          value = Replace value (crlf @ [CHR 0x09]) '' '';
          value = CollapseWhitespaceRuns value;
          value = TrimTrailingWSP value
      in Trim value)"

text \<open>The search for a field from the end of the list.\<close>

fun SearchFromEnd :: "AnsiString \<Rightarrow> MimeField list \<Rightarrow> nat \<Rightarrow> nat option" where
  "SearchFromEnd headerField fds 0 = None"
| "SearchFromEnd headerField fds (Suc i) =
     (if CompareNoCase headerField (MimeField_GetName (fds ! i)) = 0 then Some i else SearchFromEnd headerField fds i)"

definition EraseAt :: "nat \<Rightarrow> 'a list \<Rightarrow> 'a list" where
  "EraseAt i xs = take i xs @ drop (i + 1) xs"

fun RelaxedHeaderLoop ::
  "CodePage \<Rightarrow> AnsiString list \<Rightarrow> MimeField list \<Rightarrow> 16 word list \<Rightarrow> AnsiString \<Rightarrow> 16 word list \<times> AnsiString" where
  "RelaxedHeaderLoop cp [] fds result fieldList = (result, fieldList)"
| "RelaxedHeaderLoop cp (headerField # fieldsToInclude) fds result fieldList =
     (let headerField = Trim headerField;
          (value, fds) =
            (case SearchFromEnd headerField fds (length fds) of
               None \<Rightarrow> ([], fds)
             | Some fieldIndex \<Rightarrow>
                 let value = widen cp (MimeField_GetValue (fds ! fieldIndex))
                 in (if length value = 0 then value @ widen cp crlf else value, EraseAt fieldIndex fds))
      in if length value > 0 then
           let relaxedHeaderName = widen cp (RelaxedHeaderName headerField);
               relaxedFieldValue = widen cp (RelaxedHeaderValue (narrow cp value));
               result = result @ relaxedHeaderName @ widen cp '':'' @ relaxedFieldValue @ widen cp crlf;
               fieldList = (if fieldList \<noteq> [] then fieldList @ '':'' else fieldList) @ headerField
           in RelaxedHeaderLoop cp fieldsToInclude fds result fieldList
         else RelaxedHeaderLoop cp fieldsToInclude fds result fieldList)"

definition RelaxedHeader ::
  "CodePage \<Rightarrow> AnsiString \<Rightarrow> AnsiString \<times> AnsiString \<Rightarrow> AnsiString list \<Rightarrow> AnsiString \<Rightarrow> AnsiString \<times> AnsiString" where
  "RelaxedHeader cp header signatureField fieldsToInclude fieldList =
     (let (result, fieldList) = RelaxedHeaderLoop cp fieldsToInclude (Fields header True) [] fieldList;
          result = (if fst signatureField \<noteq> [] then
                      let relaxedHeaderName = RelaxedHeaderName (fst signatureField);
                          relaxedFieldValue = RelaxedHeaderValue (snd signatureField)
                      in result @ widen cp (relaxedHeaderName @ '':'' @ GetDKIMWithoutSignature relaxedFieldValue)
                    else result)
      in (narrow cp result, fieldList))"

definition RelaxedHeaderLine :: "AnsiString \<Rightarrow> AnsiString \<Rightarrow> AnsiString" where
  "RelaxedHeaderLine name value = RelaxedHeaderName name @ '':'' @ RelaxedHeaderValue value"

section \<open>The simple form\<close>

fun SimpleBodyEnd :: "AnsiString \<Rightarrow> nat \<Rightarrow> nat" where
  "SimpleBodyEnd value (Suc (Suc n)) =
     (if value ! n = CHR 0x0D \<and> value ! Suc n = CHR 0x0A then SimpleBodyEnd value n else Suc (Suc n))"
| "SimpleBodyEnd value n = n"

definition SimpleBody :: "AnsiString \<Rightarrow> AnsiString" where
  "SimpleBody value = Mid_count value 0 (SimpleBodyEnd value (length value)) @ crlf"

text \<open>The loop over the lines from the last to the first; \<open>lines\<close> is the list in that order.\<close>

fun FormatHeaderLines :: "AnsiString list \<Rightarrow> AnsiString \<Rightarrow> AnsiString list \<Rightarrow> AnsiString list" where
  "FormatHeaderLines [] foldedLines formattedHeaderLines = formattedHeaderLines"
| "FormatHeaderLines (line # lines) foldedLines formattedHeaderLines =
     (if StartsWith line '' '' \<or> StartsWith line [CHR 0x09] then
        FormatHeaderLines lines (line @ crlf @ foldedLines) formattedHeaderLines
      else if Find_str line '':'' = None then FormatHeaderLines lines [] formattedHeaderLines
      else FormatHeaderLines lines [] (formattedHeaderLines @ [line @ crlf @ foldedLines]))"

definition LineName :: "AnsiString \<Rightarrow> AnsiString" where
  "LineName headerLine = (case Find_str headerLine '':'' of None \<Rightarrow> headerLine | Some colonPos \<Rightarrow> Mid_count headerLine 0 colonPos)"

text \<open>The first line with the name, and the lines without it.\<close>

fun TakeLine :: "AnsiString \<Rightarrow> AnsiString list \<Rightarrow> (AnsiString \<times> AnsiString list) option" where
  "TakeLine fieldToInclude [] = None"
| "TakeLine fieldToInclude (headerLine # lines) =
     (if CompareNoCase (LineName headerLine) fieldToInclude = 0 then Some (headerLine, lines)
      else map_option (\<lambda>(found, rest). (found, headerLine # rest)) (TakeLine fieldToInclude lines))"

fun SimpleHeaderLoop :: "AnsiString list \<Rightarrow> AnsiString list \<Rightarrow> AnsiString \<Rightarrow> AnsiString \<Rightarrow> AnsiString \<times> AnsiString" where
  "SimpleHeaderLoop [] formattedHeaderLines result fieldList = (result, fieldList)"
| "SimpleHeaderLoop (fieldToInclude # fieldsToInclude) formattedHeaderLines result fieldList =
     (case TakeLine (Trim fieldToInclude) formattedHeaderLines of
        None \<Rightarrow> SimpleHeaderLoop fieldsToInclude formattedHeaderLines result fieldList
      | Some (headerLine, formattedHeaderLines) \<Rightarrow>
          SimpleHeaderLoop fieldsToInclude formattedHeaderLines (result @ headerLine)
            ((if fieldList \<noteq> [] then fieldList @ '':'' else fieldList) @ LineName headerLine))"

definition SimpleHeader ::
  "CodePage \<Rightarrow> AnsiString \<Rightarrow> AnsiString \<times> AnsiString \<Rightarrow> AnsiString list \<Rightarrow> AnsiString \<Rightarrow> AnsiString \<times> AnsiString" where
  "SimpleHeader cp header signatureField fieldsToInclude fieldList =
     (let headerLines = SplitAt (through_wide cp) header crlf;
          formattedHeaderLines = FormatHeaderLines (rev headerLines) [] [];
          (result, fieldList) = SimpleHeaderLoop fieldsToInclude formattedHeaderLines [] fieldList;
          result = (if fst signatureField \<noteq> [] then
                      let headerLine = fst signatureField @ '': '' @ GetDKIMWithoutSignature (snd signatureField);
                          headerLine = (if EndsWith headerLine crlf then Mid_count headerLine 0 (length headerLine - 2) else headerLine)
                      in result @ headerLine
                    else result)
      in (result, fieldList))"

definition SimpleHeaderLine :: "AnsiString \<Rightarrow> AnsiString \<Rightarrow> AnsiString" where
  "SimpleHeaderLine name value = name @ '': '' @ value"

section \<open>Facts: splitting at line breaks\<close>

function crlf_lines :: "AnsiString \<Rightarrow> AnsiString list" where
  "crlf_lines s = (case Find_str s crlf of None \<Rightarrow> [s] | Some i \<Rightarrow> take i s # crlf_lines (drop (i + 2) s))"
  by pat_completeness auto
termination
  by (relation "measure length") (auto dest: Find_str_SomeD)

declare crlf_lines.simps [simp del]

lemma crlf_lines_not_Nil [simp]: "crlf_lines s \<noteq> []"
  by (subst crlf_lines.simps) (simp split: option.splits)

lemma crlf_lines_Nil [simp]: "crlf_lines [] = [[]]"
  by (subst crlf_lines.simps) simp

lemma crlf_lines_append: "Find_str l crlf = None \<Longrightarrow> crlf_lines (l @ crlf @ rest) = l # crlf_lines rest"
  by (subst crlf_lines.simps) (simp add: Find_str_crlf_append)

lemma crlf_lines_concat:
  "list_all (\<lambda>l. Find_str l crlf = None) ls \<Longrightarrow> crlf_lines (concat (map (\<lambda>l. l @ crlf) ls) @ rest) = ls @ crlf_lines rest"
  by (induction ls) (auto simp: crlf_lines_append)

lemma crlf_lines_no_crlf: "l \<in> set (crlf_lines s) \<Longrightarrow> Find_str l crlf = None"
proof (induction s rule: crlf_lines.induct)
  case (1 s)
  show ?case
  proof (cases "Find_str s crlf")
    case None
    with 1 show ?thesis by (simp add: crlf_lines.simps [of s])
  next
    case (Some i)
    have "Find_str (take i s) crlf = None"
    proof (cases "Find_str (take i s) crlf")
      case (Some j)
      then have "j + 2 \<le> length (take i s)" using Find_str_SomeD by fastforce
      moreover have "Find_str (take i s @ crlf @ drop (i + 2) s) crlf = Some j" using Some by (simp add: Find_str_crlf_append)
      ultimately show ?thesis using \<open>Find_str s crlf = Some i\<close> Find_str_SomeD [of s crlf i] by simp
    qed
    with 1 Some show ?thesis by (auto simp: crlf_lines.simps [of s])
  qed
qed

lemma crlf_lines_join: "join crlf (crlf_lines s) = s"
proof (induction s rule: crlf_lines.induct)
  case (1 s)
  then show ?case using Find_str_SomeD [of s crlf]
    by (subst crlf_lines.simps) (auto split: option.splits simp: join_Cons)
qed

lemma SplitAtLoop_spec:
  assumes "b \<le> length s"
  shows "SplitAtLoop (\<lambda>x. x) s crlf b (Find_from s crlf b) r = (b', r') \<Longrightarrow>
    b' \<le> length s \<and> crlf_lines (drop b s) = drop (length r) r' @ [drop b' s] \<and> take (length r) r' = r \<and> (b' = b \<and> r' = r \<or> b < b')"
  using assms
proof (induction "length s - b" arbitrary: b r rule: less_induct)
  case less
  show ?case
  proof (cases "Find_str (drop b s) crlf")
    case None
    with less.prems show ?thesis
      by (simp add: Find_from_def SplitAtLoop.simps [of _ s crlf b] crlf_lines.simps)
  next
    case (Some i)
    then have i: "b + i + 2 \<le> length s" using Find_str_SomeD [OF Some] less.prems(2) by auto
    have "SplitAtLoop (\<lambda>x. x) s crlf (b + i + 2) (Find_from s crlf (b + i + 2)) (r @ [take i (drop b s)]) = (b', r')"
      using less.prems i Some by (subst (asm) SplitAtLoop.simps) (simp add: Find_from_def not_less)
    moreover have "length s - (b + i + 2) < length s - b" using i by auto
    ultimately have IH: "b' \<le> length s" "crlf_lines (drop (b + i + 2) s) = drop (length (r @ [take i (drop b s)])) r' @ [drop b' s]"
      "take (length (r @ [take i (drop b s)])) r' = r @ [take i (drop b s)]" "b < b'"
      using less.hyps i by fastforce+
    have "r' = r @ take i (drop b s) # drop (length r + 1) r'"
      by (metis IH(3) append.assoc append_Cons append_Nil append_take_drop_id length_append_singleton Suc_eq_plus1)
    then have "drop (length r) r' = take i (drop b s) # drop (length r + 1) r'" "take (length r) r' = r"
      by (metis append_eq_conv_conj)+
    with IH Some show ?thesis by (simp add: crlf_lines.simps [of "drop b s"] add.commute)
  qed
qed

definition drop_empty_last :: "'a list list \<Rightarrow> 'a list list" where
  "drop_empty_last ps = (if last ps = [] then butlast ps else ps)"

lemma SplitAt_crlf: "SplitAt (\<lambda>x. x) s crlf = drop_empty_last (crlf_lines s)"
proof -
  obtain b r where br: "SplitAtLoop (\<lambda>x. x) s crlf 0 (Find_from s crlf 0) [] = (b, r)" by fastforce
  note spec = SplitAtLoop_spec [OF _ br, simplified]
  have start: "Find_str s crlf = Find_from s crlf 0" by (cases "Find_str s crlf") (simp_all add: Find_from_def)
  show ?thesis
  proof (cases "Find_str s crlf")
    case None
    then show ?thesis by (simp add: SplitAt_def SplitAtLoop.simps crlf_lines.simps drop_empty_last_def)
  next
    case (Some i)
    have "b \<noteq> 0"
    proof
      assume "b = 0"
      with spec have "crlf_lines s = [s]" by simp
      with Some show False by (simp add: crlf_lines.simps [of s])
    qed
    with Some spec br start show ?thesis by (auto simp: SplitAt_def Let_def drop_empty_last_def)
  qed
qed

lemma SplitAtLoop_conv:
  assumes "\<And>p. set p \<subseteq> set s \<Longrightarrow> conv p = p"
  shows "SplitAtLoop conv s seps b e r = SplitAtLoop (\<lambda>x. x) s seps b e r"
proof (induction "length s - b" arbitrary: b e r rule: less_induct)
  case less
  show ?case
  proof (cases "\<exists>i. e = Some i \<and> \<not> (i < b \<or> length s < i + length seps \<or> seps = [])")
    case True
    then obtain i where i: "e = Some i" "\<not> (i < b \<or> length s < i + length seps \<or> seps = [])" by blast
    then have "length s - (i + length seps) < length s - b" by (cases seps) auto
    moreover have "conv (Mid_count s b (i - b)) = Mid_count s b (i - b)"
      by (rule assms) (auto dest: in_set_takeD in_set_dropD)
    ultimately show ?thesis using less [of "i + length seps"] i by (subst (1 2) SplitAtLoop.simps) simp
  qed (subst (1 2) SplitAtLoop.simps, auto split: option.splits)
qed

lemma SplitAt_conv:
  assumes "\<And>p. set p \<subseteq> set s \<Longrightarrow> conv p = p"
  shows "SplitAt conv s crlf = drop_empty_last (crlf_lines s)"
proof -
  have "conv (drop b s) = drop b s" for b by (rule assms) (auto dest: in_set_dropD)
  with SplitAtLoop_conv [of s conv crlf, OF assms] show ?thesis
    unfolding SplitAt_crlf [symmetric] by (simp add: SplitAt_def)
qed

text \<open>
  A code page is transparent for a set of bytes when it takes them to wide characters and back one by one, as the
  ASCII characters are in every code page of the platform.
\<close>

definition transparent :: "CodePage \<Rightarrow> char set \<Rightarrow> bool" where
  "transparent cp S \<longleftrightarrow> (\<exists>w. \<forall>s. set s \<subseteq> S \<longrightarrow> widen cp s = map w s \<and> narrow cp (map w s) = s)"

lemma transparent_through: "transparent cp S \<Longrightarrow> set s \<subseteq> S \<Longrightarrow> through_wide cp s = s"
  by (auto simp: transparent_def through_wide_def)

lemma transparent_mono: "transparent cp S \<Longrightarrow> T \<subseteq> S \<Longrightarrow> transparent cp T"
  unfolding transparent_def by (meson subset_trans)

lemma SplitAt_transparent: "transparent cp (set s) \<Longrightarrow> SplitAt (through_wide cp) s crlf = drop_empty_last (crlf_lines s)"
  by (intro SplitAt_conv) (auto intro: transparent_through)

section \<open>Facts: bodies\<close>

text \<open>A line with its runs of white space collapsed and the white space at its end removed.\<close>

text \<open>The collapsing loop without its result parameter.\<close>

fun collapse :: "bool \<Rightarrow> AnsiString \<Rightarrow> AnsiString" where
  "collapse prev [] = []"
| "collapse prev (c # cs) =
     (if is_WSP c then (if prev then collapse True cs else CHR '' '' # collapse True cs) else c # collapse False cs)"

lemma CollapseLoop_eq: "CollapseLoop s prev result = result @ collapse prev s"
  by (induction s arbitrary: prev result) auto

lemma Collapse_eq: "CollapseWhitespaceRuns s = collapse False s"
  by (simp add: CollapseWhitespaceRuns_def CollapseLoop_eq)

lemma space_WSP [simp]: "is_WSP CHR '' ''"
  by (simp add: is_WSP_def)

text \<open>
  The relaxed form of a line, as RFC 6376 section 3.4.4 describes it: without the white space at its end, the words between spaces and
  tabs with one space between them, and one before the first where the line starts with a space or a tab.
\<close>

fun pieces :: "AnsiString \<Rightarrow> AnsiString list" where
  "pieces [] = [[]]"
| "pieces (c # cs) = (if is_WSP c then [] # pieces cs else (c # hd (pieces cs)) # tl (pieces cs))"

definition words_of :: "AnsiString \<Rightarrow> AnsiString list" where
  "words_of l = filter (\<lambda>w. w \<noteq> []) (pieces l)"

definition relaxed_line :: "AnsiString \<Rightarrow> AnsiString" where
  "relaxed_line line =
     (let l = rev (dropWhile isspace_classic (rev line))
      in (if l \<noteq> [] \<and> is_WSP (hd l) then '' '' else []) @ join '' '' (words_of l))"

lemma words_of_Cons:
  "words_of (c # cs) =
     (if is_WSP c then words_of cs
      else if cs = [] \<or> is_WSP (hd cs) then [c] # words_of cs
      else (c # hd (words_of cs)) # tl (words_of cs))"
  by (cases cs) (auto simp: words_of_def)

lemma words_of_not_Nil: "l \<noteq> [] \<Longrightarrow> \<not> is_WSP (last l) \<Longrightarrow> words_of l \<noteq> []"
  by (induction l) (auto simp: words_of_Cons split: if_splits)

lemma collapse_words:
  "l = [] \<or> \<not> is_WSP (last l) \<Longrightarrow> collapse prev l = (if l \<noteq> [] \<and> is_WSP (hd l) \<and> \<not> prev then '' '' else []) @ join '' '' (words_of l)"
proof (induction l arbitrary: prev)
  case (Cons c cs)
  show ?case
  proof (cases "is_WSP c")
    case True
    then show ?thesis using Cons by (cases cs) (auto simp: words_of_Cons)
  next
    case False
    show ?thesis
    proof (cases "cs = []")
      case True
      with False show ?thesis by (simp add: words_of_Cons) (simp add: words_of_def)
    next
      case cs: False
      with Cons.prems have last: "\<not> is_WSP (last cs)" by simp
      then obtain w ws where w: "words_of cs = w # ws" using words_of_not_Nil [OF cs] by (meson neq_Nil_conv)
      have "join '' '' ((c # w) # ws) = c # join '' '' (w # ws)" by (cases ws) simp_all
      with Cons.IH [of False] last cs False w show ?thesis by (simp add: words_of_Cons)
    qed
  qed
qed (simp add: words_of_def)

lemma collapse_snoc:
  "collapse prev (l @ [c]) =
     collapse prev l @ (if is_WSP c then (if (if l = [] then prev else is_WSP (last l)) then [] else '' '') else [c])"
  by (induction l arbitrary: prev) auto

lemma WSP_isspace: "is_WSP c \<Longrightarrow> isspace_classic c"
  by (auto simp: is_WSP_def isspace_classic_def)

lemma TrimRight_collapse: "TrimRight (collapse prev l) = collapse prev (TrimRight l)"
proof (induction l rule: rev_induct)
  case (snoc c l)
  show ?case
  proof (cases "isspace_classic c")
    case True
    then show ?thesis using snoc by (simp add: collapse_snoc TrimRight_def isspace_classic_def)
  next
    case False
    then have "\<not> is_WSP c" using WSP_isspace by blast
    with False show ?thesis by (simp add: collapse_snoc TrimRight_def)
  qed
qed (simp add: TrimRight_def)

lemma relaxed_line_eq: "relaxed_line line = TrimRight (CollapseWhitespaceRuns line)"
proof -
  let ?l = "TrimRight line"
  have "?l = [] \<or> \<not> is_WSP (last ?l)"
    using hd_dropWhile [of isspace_classic "rev line"] WSP_isspace by (auto simp: TrimRight_def last_rev)
  from collapse_words [OF this, of False] show ?thesis
    by (simp add: relaxed_line_def Let_def Collapse_eq TrimRight_collapse flip: TrimRight_def)
qed

definition strip_end :: "'a list list \<Rightarrow> 'a list list" where
  "strip_end ls = rev (dropWhile (\<lambda>l. l = []) (rev ls))"

lemma strip_end_snoc: "strip_end (ls @ [l]) = (if l = [] then strip_end ls else ls @ [l])"
  by (simp add: strip_end_def)

lemma strip_end_append: "list_ex (\<lambda>l. l \<noteq> []) ms \<Longrightarrow> strip_end (ls @ ms) = ls @ strip_end ms"
  by (auto simp: strip_end_def list_ex_iff dropWhile_append1)

lemma strip_end_empty: "list_all (\<lambda>l. l = []) ls \<Longrightarrow> strip_end ls = []"
  by (auto simp: strip_end_def list_all_iff)

lemma strip_end_last: "strip_end ls = [] \<or> last (strip_end ls) \<noteq> []"
  using hd_dropWhile [of "\<lambda>l. l = []" "rev ls"] by (auto simp: strip_end_def last_rev)

lemma strip_end_id: "ls = [] \<or> last ls \<noteq> [] \<Longrightarrow> strip_end ls = ls"
  by (cases ls rule: rev_cases) (auto simp: strip_end_def)

lemma RelaxedBodyLoop_eq:
  "list_all (\<lambda>l. l = []) pending \<Longrightarrow>
   RelaxedBodyLoop ls pending out = out @ strip_end (pending @ map relaxed_line ls)"
proof (induction ls arbitrary: pending out)
  case Nil
  then show ?case by (simp add: strip_end_empty)
next
  case (Cons l ls)
  show ?case
  proof (cases "relaxed_line l = []")
    case True
    then have "list_all (\<lambda>l. l = []) (pending @ [relaxed_line l])" using Cons.prems by simp
    from Cons.IH [OF this] True show ?thesis by (simp add: Let_def relaxed_line_eq)
  next
    case False
    have "strip_end (pending @ relaxed_line l # map relaxed_line ls) = pending @ relaxed_line l # strip_end (map relaxed_line ls)"
    proof (cases "list_ex (\<lambda>l. l \<noteq> []) (map relaxed_line ls)")
      case True
      from strip_end_append [OF this, of "pending @ [relaxed_line l]"] show ?thesis by simp
    next
      case none: False
      then have "list_all (\<lambda>l. l = []) (map relaxed_line ls)" by (simp add: list_all_iff list_ex_iff)
      then have "strip_end ((pending @ [relaxed_line l]) @ map relaxed_line ls) = pending @ [relaxed_line l]"
        "strip_end (map relaxed_line ls) = []" using False
        by (auto simp: strip_end_def list_all_iff) (subst dropWhile_append2, auto)
      then show ?thesis by simp
    qed
    with Cons.IH [of "[]"] False show ?thesis by (simp add: Let_def flip: relaxed_line_eq)
  qed
qed

lemma foldl_lines: "foldl (\<lambda>r l. r @ l @ crlf) r ls = r @ concat (map (\<lambda>l. l @ crlf) ls)"
  by (induction ls arbitrary: r) auto

lemma relaxed_line_Nil [simp]: "relaxed_line [] = []"
  by (simp add: relaxed_line_eq CollapseWhitespaceRuns_def TrimRight_def)

lemma strip_end_drop_empty_last: "ps \<noteq> [] \<Longrightarrow> strip_end (map relaxed_line (drop_empty_last ps)) = strip_end (map relaxed_line ps)"
  by (cases ps rule: rev_cases) (auto simp: drop_empty_last_def strip_end_snoc)

lemma RelaxedBody_eq:
  "transparent cp (set b) \<Longrightarrow>
   RelaxedBody cp b = concat (map (\<lambda>l. l @ crlf) (strip_end (map relaxed_line (crlf_lines b))))"
  by (simp add: RelaxedBody_def foldl_lines RelaxedBodyLoop_eq SplitAt_transparent strip_end_drop_empty_last)

text \<open>A text without a run: no white space but single spaces.\<close>

fun collapsed :: "AnsiString \<Rightarrow> bool" where
  "collapsed (c # d # cs) \<longleftrightarrow> (is_WSP c \<longrightarrow> c = CHR '' '' \<and> \<not> is_WSP d) \<and> collapsed (d # cs)"
| "collapsed [c] \<longleftrightarrow> (is_WSP c \<longrightarrow> c = CHR '' '')"
| "collapsed [] \<longleftrightarrow> True"

lemma collapse_True: "collapse True s = [] \<or> \<not> is_WSP (hd (collapse True s))"
  by (induction s) auto

lemma collapsed_Cons: "collapsed (c # s) \<longleftrightarrow> (is_WSP c \<longrightarrow> c = CHR '' '' \<and> (s = [] \<or> \<not> is_WSP (hd s))) \<and> collapsed s"
  by (cases s) auto

lemma collapsed_collapse: "collapsed (collapse prev s)"
  by (induction s arbitrary: prev) (use collapse_True in \<open>auto simp: collapsed_Cons\<close>)

lemma collapse_collapsed:
  "collapsed s \<Longrightarrow> collapse False s = s"
  "collapsed s \<Longrightarrow> s = [] \<or> \<not> is_WSP (hd s) \<Longrightarrow> collapse True s = s"
  by (induction s) (auto simp: collapsed_Cons)

lemma collapsed_take: "collapsed s \<Longrightarrow> collapsed (take n s)"
proof (induction s arbitrary: n)
  case (Cons c s)
  then show ?case by (cases n) (auto simp: collapsed_Cons hd_take)
qed simp

lemma TrimRight_take: "\<exists>n. TrimRight s = take n s"
proof -
  have "TrimRight s = take (length s - length (takeWhile isspace_classic (rev s))) s"
    unfolding TrimRight_def dropWhile_eq_drop by (simp add: rev_drop)
  then show ?thesis by blast
qed

lemma TrimRight_idem [simp]: "TrimRight (TrimRight s) = TrimRight s"
  by (simp add: TrimRight_def dropWhile_idem)

lemma relaxed_line_idem [simp]: "relaxed_line (relaxed_line l) = relaxed_line l"
proof -
  obtain n where n: "relaxed_line l = take n (collapse False l)" using TrimRight_take by (auto simp: relaxed_line_eq Collapse_eq)
  then have "collapsed (relaxed_line l)" using collapsed_take collapsed_collapse by simp
  then show ?thesis by (simp add: relaxed_line_eq Collapse_eq collapse_collapsed(1))
qed

text \<open>A line break is not made by collapsing a line that has none.\<close>

lemma Find_crlf_None_Cons:
  "Find_str (c # s) crlf = None \<longleftrightarrow> \<not> (c = CHR 0x0D \<and> s \<noteq> [] \<and> hd s = CHR 0x0A) \<and> Find_str s crlf = None"
  using take_2_crlf [of c s] by auto

lemma collapse_not_LF: "collapse prev s \<noteq> [] \<Longrightarrow> hd (collapse prev s) = CHR 0x0A \<Longrightarrow> \<not> prev \<Longrightarrow> s \<noteq> [] \<and> hd s = CHR 0x0A"
  by (cases s) (auto split: if_splits)

lemma Find_crlf_collapse: "Find_str s crlf = None \<Longrightarrow> Find_str (collapse prev s) crlf = None"
proof (induction s arbitrary: prev)
  case (Cons c s)
  then show ?case using collapse_not_LF [of False s]
    by (auto simp: Find_crlf_None_Cons simp del: Find_str.simps)
qed simp

lemma Find_crlf_take: "Find_str s crlf = None \<Longrightarrow> Find_str (take n s) crlf = None"
proof (induction s arbitrary: n)
  case (Cons c s)
  then show ?case by (cases n) (auto simp: Find_crlf_None_Cons hd_take simp del: Find_str.simps(2))
qed simp

lemma relaxed_line_no_crlf: "Find_str l crlf = None \<Longrightarrow> Find_str (relaxed_line l) crlf = None"
  using TrimRight_take [of "CollapseWhitespaceRuns l"] by (auto simp: relaxed_line_eq Collapse_eq Find_crlf_collapse Find_crlf_take)

lemma set_collapse: "set (collapse prev s) \<subseteq> set s \<union> {CHR '' ''}"
  by (induction s arbitrary: prev) auto

lemma set_strip_end: "set (strip_end ls) \<subseteq> set ls"
  by (auto simp: strip_end_def dest: set_dropWhileD)

lemma set_crlf_lines: "l \<in> set (crlf_lines s) \<Longrightarrow> set l \<subseteq> set s"
proof (induction s rule: crlf_lines.induct)
  case (1 s)
  then show ?case
    by (subst (asm) (2) crlf_lines.simps) (auto split: option.splits dest: in_set_takeD in_set_dropD)
qed

lemma set_relaxed_line: "set (relaxed_line l) \<subseteq> set l \<union> {CHR '' ''}"
  using TrimRight_take [of "CollapseWhitespaceRuns l"] set_collapse [of False l]
  by (auto simp: relaxed_line_eq Collapse_eq dest!: in_set_takeD)

abbreviation relaxed_lines :: "AnsiString \<Rightarrow> AnsiString list" where
  "relaxed_lines b \<equiv> strip_end (map relaxed_line (crlf_lines b))"

lemma relaxed_lines_props:
  assumes "l \<in> set (relaxed_lines b)"
  shows "Find_str l crlf = None" "relaxed_line l = l" "set l \<subseteq> set b \<union> {CHR '' ''}"
proof -
  obtain x where x: "x \<in> set (crlf_lines b)" "l = relaxed_line x" using assms set_strip_end by fastforce
  then show "Find_str l crlf = None" "relaxed_line l = l" "set l \<subseteq> set b \<union> {CHR '' ''}"
    using crlf_lines_no_crlf relaxed_line_no_crlf set_relaxed_line [of x] set_crlf_lines by fastforce+
qed

lemma relaxed_lines_again: "relaxed_lines (concat (map (\<lambda>l. l @ crlf) (relaxed_lines b))) = relaxed_lines b"
proof -
  let ?ls = "relaxed_lines b"
  have "list_all (\<lambda>l. Find_str l crlf = None) ?ls" using relaxed_lines_props(1) by (simp add: list_all_iff)
  from crlf_lines_concat [OF this, of "[]"] have "crlf_lines (concat (map (\<lambda>l. l @ crlf) ?ls)) = ?ls @ [[]]" by simp
  moreover have "map relaxed_line ?ls = ?ls" using relaxed_lines_props(2) by (simp add: map_idI)
  ultimately show ?thesis using strip_end_last [of "map relaxed_line (crlf_lines b)"] by (simp add: strip_end_snoc strip_end_id)
qed

text \<open>
  C27: The relaxed body is the lines of the body, each with its runs of spaces and tabs made one space and the white space
  at its end removed, less the empty lines at the end, and every line it keeps ends with a line break. Two
  bodies have the same relaxed form exactly when these lines are the same, and the relaxed
  form of a relaxed body is itself.
\<close>

theorem relaxed_body_normal_form:
  assumes "transparent cp (set b \<union> {CHR '' '', CHR 0x0D, CHR 0x0A})" "transparent cp (set b')"
  shows "RelaxedBody cp b = concat (map (\<lambda>l. l @ crlf) (relaxed_lines b)) \<and>
    (RelaxedBody cp b = RelaxedBody cp b' \<longleftrightarrow> relaxed_lines b = relaxed_lines b') \<and>
    RelaxedBody cp (RelaxedBody cp b) = RelaxedBody cp b"
proof -
  have "transparent cp (set b)" using assms(1) by (rule transparent_mono) auto
  note b = RelaxedBody_eq [OF this] and b' = RelaxedBody_eq [OF assms(2)]
  have "set (concat (map (\<lambda>l. l @ crlf) (relaxed_lines b))) \<subseteq> set b \<union> {CHR '' '', CHR 0x0D, CHR 0x0A}"
    using relaxed_lines_props(3) [of _ b] by (auto simp: crlf_def)
  then have "transparent cp (set (RelaxedBody cp b))" unfolding b by (rule transparent_mono [OF assms(1)])
  from RelaxedBody_eq [OF this] have again: "RelaxedBody cp (RelaxedBody cp b) = RelaxedBody cp b"
    by (simp only: b relaxed_lines_again)
  have "relaxed_lines (RelaxedBody cp b) = relaxed_lines b" "relaxed_lines (RelaxedBody cp b') = relaxed_lines b'"
    by (simp_all only: b b' relaxed_lines_again)
  then have "relaxed_lines b = relaxed_lines b'" if "RelaxedBody cp b = RelaxedBody cp b'" using that by simp
  with b b' again show ?thesis by auto
qed

definition latin :: CodePage where
  "latin = \<lparr> widen = map (\<lambda>c. word_of_int (of_char c)), narrow = map (\<lambda>u. char_of (uint u)) \<rparr>"

lemma transparent_latin: "transparent latin S"
proof -
  have "char_of (uint (word_of_int (of_char c) :: 16 word)) = c" for c
  proof -
    have "(of_char c :: int) = int (ord c)" by (simp add: of_nat_of_char)
    moreover have "ord c < 65536" using nat_of_char_less_256 [of c] by linarith
    ultimately have "0 \<le> (of_char c :: int)" "(of_char c :: int) < 2 ^ 16" by simp_all
    then have "uint (word_of_int (of_char c) :: 16 word) = of_char c" by (intro uint_word_of_int_eq [THEN trans] take_bit_int_eq_self) simp_all
    then show ?thesis by simp
  qed
  then show ?thesis unfolding transparent_def latin_def
    by (intro exI [of _ "\<lambda>c. word_of_int (of_char c)"]) (simp add: comp_def)
qed

theorem relaxed_body_normal_form_witness:
  "RelaxedBody latin (''a  b '' @ crlf @ crlf) = ''a b'' @ crlf"
proof -
  have "RelaxedBody latin (''a  b '' @ crlf @ crlf) = concat (map (\<lambda>l. l @ crlf) (relaxed_lines (''a  b '' @ crlf @ crlf)))"
    using relaxed_body_normal_form [OF transparent_latin transparent_latin [of "set []"]] by blast
  also have "\<dots> = ''a b'' @ crlf" by code_simp
  finally show ?thesis .
qed

text \<open>
  A line that ends with a form feed, a vertical tab or a bare carriage return loses it, and a line of nothing else is
  empty, because the end of a line is trimmed with the white space of the C library.
\<close>

lemma relaxed_body_drops_form_feeds: "RelaxedBody latin (''a'' @ crlf @ [CHR 0x0C] @ crlf) = ''a'' @ crlf"
proof -
  have "relaxed_lines (''a'' @ crlf @ [CHR 0x0C] @ crlf) = [''a'']" by code_simp
  then show ?thesis using RelaxedBody_eq [OF transparent_latin] by simp
qed

section \<open>Facts: the simple body\<close>

lemma SimpleBodyEnd_spec:
  "n \<le> length v \<Longrightarrow> SimpleBodyEnd v n \<le> n \<and> (\<exists>k. take n v = take (SimpleBodyEnd v n) v @ concat (replicate k crlf)) \<and>
     \<not> (\<exists>p. take (SimpleBodyEnd v n) v = p @ crlf)"
proof (induction v n rule: SimpleBodyEnd.induct)
  case (1 v n)
  have t: "take (Suc (Suc n)) v = take n v @ [v ! n, v ! Suc n]" using 1 by (simp add: take_Suc_conv_app_nth)
  show ?case
  proof (cases "v ! n = CHR 0x0D \<and> v ! Suc n = CHR 0x0A")
    case True
    with 1 obtain k where "take n v = take (SimpleBodyEnd v n) v @ concat (replicate k crlf)" by auto
    with t True have "take (Suc (Suc n)) v = take (SimpleBodyEnd v n) v @ concat (replicate k crlf) @ crlf" by (simp add: crlf_def)
    moreover have "concat (replicate k crlf) @ crlf = concat (replicate (Suc k) crlf)" by (induction k) auto
    ultimately show ?thesis using 1 True by (auto simp del: replicate_Suc)
  next
    case False
    then have "\<not> (\<exists>p. take (Suc (Suc n)) v = p @ crlf)" unfolding t by (auto simp: crlf_def)
    with False show ?thesis by (auto intro!: exI [of _ 0])
  qed
qed (auto simp: crlf_def take_Suc_conv_app_nth dest: arg_cong [where f = length] intro!: exI [of _ 0])

text \<open>
  The simple body is the body without the line breaks at its end, and one line break after it; nothing else of the
  body changes, and an empty body becomes a single line break. The simple form of a simple body is itself.
\<close>

theorem simple_body_normal_form:
  "\<exists>core k. b = core @ concat (replicate k crlf) \<and> \<not> (\<exists>p. core = p @ crlf) \<and> SimpleBody b = core @ crlf \<and>
     SimpleBody (SimpleBody b) = SimpleBody b"
proof -
  obtain k where k: "b = take (SimpleBodyEnd b (length b)) b @ concat (replicate k crlf)"
    "\<not> (\<exists>p. take (SimpleBodyEnd b (length b)) b = p @ crlf)" using SimpleBodyEnd_spec [of "length b" b] by auto
  define core where "core = take (SimpleBodyEnd b (length b)) b"
  have sb: "SimpleBody b = core @ crlf" by (simp add: SimpleBody_def core_def)
  obtain m where m: "core @ crlf = take (SimpleBodyEnd (core @ crlf) (length core + 2)) (core @ crlf) @ concat (replicate m crlf)"
    "\<not> (\<exists>p. take (SimpleBodyEnd (core @ crlf) (length core + 2)) (core @ crlf) = p @ crlf)"
    using SimpleBodyEnd_spec [of "length core + 2" "core @ crlf"] by auto
  have split: "concat (replicate (Suc j) crlf) = concat (replicate j crlf) @ crlf" for j by (induction j) auto
  obtain m' where m': "m = Suc m'" using m by (cases m) auto
  then have core: "core = take (SimpleBodyEnd (core @ crlf) (length core + 2)) (core @ crlf) @ concat (replicate m' crlf)"
    using m(1) unfolding m' split append.assoc [symmetric] by simp
  have "m' = 0"
  proof (cases m')
    case (Suc j)
    with core k(2) show ?thesis unfolding Suc split core_def [symmetric] by (metis append.assoc)
  qed simp
  then have "concat (replicate m' crlf) = []" by simp
  with core [symmetric] have "take (SimpleBodyEnd (core @ crlf) (length core + 2)) (core @ crlf) = core" by (simp only: append_Nil2)
  then have "SimpleBody (core @ crlf) = core @ crlf" by (simp only: SimpleBody_def Mid_count_eq drop_0 length_append length_crlf)
  then have "SimpleBody (SimpleBody b) = SimpleBody b" by (simp only: sb)
  moreover note k [folded core_def] sb
  ultimately show ?thesis by (intro exI [of _ core] exI [of _ k] conjI)
qed

section \<open>Facts: the signature field without its signature\<close>

text \<open>The position after the equals sign of a tag, when the tag is named b.\<close>

definition b_tag :: "AnsiString \<Rightarrow> nat option" where
  "b_tag tag = (case Find tag CHR ''='' of Some e \<Rightarrow> if e > 0 \<and> Trim (take e tag) = ''b'' then Some (e + 1) else None | None \<Rightarrow> None)"

fun without_b :: "AnsiString list \<Rightarrow> AnsiString list option" where
  "without_b [] = None"
| "without_b (tag # tags) =
     (case b_tag tag of Some e \<Rightarrow> Some (take e tag # tags) | None \<Rightarrow> map_option (Cons tag) (without_b tags))"

lemma b_tag_le: "b_tag tag = Some e \<Longrightarrow> e \<le> length tag"
  by (auto simp: b_tag_def split: option.splits if_splits dest: Find_SomeD)

lemma without_b_not_Nil: "without_b ts = Some us \<Longrightarrow> us \<noteq> []"
  by (cases ts) (auto split: option.splits)

lemma WithoutSignatureLoop_step:
  assumes "rest \<noteq> []"
  shows "WithoutSignatureLoop (p @ rest) (length p) =
    (case Find rest CHR '';'' of
       None \<Rightarrow> (case b_tag rest of Some e \<Rightarrow> p @ take e rest | None \<Rightarrow> [])
     | Some i \<Rightarrow> (case b_tag (take i rest) of
                   Some e \<Rightarrow> p @ take e (take i rest) @ drop i rest
                 | None \<Rightarrow> WithoutSignatureLoop (p @ rest) (length p + i + 1)))"
proof (cases "Find rest CHR '';''")
  case None
  then have "Find_from (p @ rest) '';'' (length p) = None" by (simp add: Find_from_single Find_str_single)
  with None assms show ?thesis
    by (cases "Find rest CHR ''=''") (simp_all add: WithoutSignatureLoop.simps [of "p @ rest" "length p"] Find_str_single b_tag_def del: Find_None_iff)
next
  case (Some i)
  then have f: "Find_from (p @ rest) '';'' (length p) = Some (length p + i)" by (simp add: Find_from_single)
  have "e < i" if "Find (take i rest) CHR ''='' = Some e" for e using Find_SomeD [OF that] by simp
  with f Some assms show ?thesis
    by (cases "Find (take i rest) CHR ''=''")
      (simp_all add: WithoutSignatureLoop.simps [of "p @ rest" "length p"] Find_str_single b_tag_def del: Find_None_iff)
qed

lemma WithoutSignatureLoop_eq:
  "WithoutSignatureLoop (p @ rest) (length p) =
   (case without_b (Split rest CHR '';'') of None \<Rightarrow> [] | Some ts \<Rightarrow> p @ join '';'' ts)"
proof (induction "length rest" arbitrary: p rest rule: less_induct)
  case less
  show ?case
  proof (cases "rest = []")
    case True
    then show ?thesis by (subst WithoutSignatureLoop.simps) (simp add: b_tag_def)
  next
    case False
    show ?thesis
    proof (cases "Find rest CHR '';''")
      case None
      with False show ?thesis by (simp add: WithoutSignatureLoop_step Split_first(1) del: Find_None_iff split: option.split)
    next
      case (Some i)
      then have i: "i < length rest" "rest ! i = CHR '';''" using Find_SomeD by blast+
      have d: "drop i rest = CHR '';'' # drop (Suc i) rest" using i by (simp add: Cons_nth_drop_Suc [symmetric])
      have r: "p @ rest = (p @ take i rest @ '';'') @ drop (Suc i) rest"
        using append_take_drop_id [of i rest] d by simp
      have "length (drop (Suc i) rest) < length rest" using i by simp
      from less [OF this, of "p @ take i rest @ '';''"] i
      have IH: "WithoutSignatureLoop (p @ rest) (length p + i + 1) =
          (case without_b (Split (drop (Suc i) rest) CHR '';'') of None \<Rightarrow> [] | Some ts \<Rightarrow> (p @ take i rest @ '';'') @ join '';'' ts)"
        unfolding r [symmetric] by simp
      show ?thesis
      proof (cases "b_tag (take i rest)")
        case None
        with False Some IH show ?thesis
          by (auto simp: WithoutSignatureLoop_step Split_first(2) [OF Some] join_Cons dest: without_b_not_Nil split: option.splits)
      next
        case (Some e)
        with False \<open>Find rest CHR '';'' = Some i\<close> d show ?thesis
          by (simp add: WithoutSignatureLoop_step Split_first(2) [OF \<open>Find rest CHR '';'' = Some i\<close>] join_Cons join_Split)
      qed
    qed
  qed
qed

lemma GetDKIMWithoutSignature_eq:
  "GetDKIMWithoutSignature v = (case without_b (Split v CHR '';'') of None \<Rightarrow> [] | Some tags \<Rightarrow> join '';'' tags)"
  using WithoutSignatureLoop_eq [of "[]" v] by (simp add: GetDKIMWithoutSignature_def split: option.splits)

text \<open>
  C28: Of a signature field everything is hashed but the value of its b tag: the first tag named b, found between the
  semicolons and not inside another tag, keeps its name and its equals sign, and all other
  tags stay as they are. A field without such a tag gives nothing.
\<close>

theorem signature_value_removed:
  "GetDKIMWithoutSignature value =
   (case without_b (Split value CHR '';'') of None \<Rightarrow> [] | Some tags \<Rightarrow> join '';'' tags)"
  by (rule GetDKIMWithoutSignature_eq)

section \<open>Facts: which fields are taken\<close>

text \<open>
  The rule of RFC 6376: the names are read from left to right, and each takes the lowest field of its name that no name
  before it has taken. The pool is the header from the bottom up.
\<close>

fun pick :: "('n \<Rightarrow> 'f \<Rightarrow> bool) \<Rightarrow> 'n list \<Rightarrow> 'f list \<Rightarrow> ('n \<times> 'f) list" where
  "pick m [] pool = []"
| "pick m (n # ns) pool =
     (case List.extract (m n) pool of
        None \<Rightarrow> pick m ns pool
      | Some (before, f, after) \<Rightarrow> (n, f) # pick m ns (before @ after))"

lemma pick_fields: "(n, f) \<in> set (pick m ns pool) \<Longrightarrow> n \<in> set ns \<and> f \<in> set pool \<and> m n f"
proof (induction ns arbitrary: pool)
  case (Cons a ns)
  show ?case
  proof (cases "List.extract (m a) pool")
    case None
    with Cons show ?thesis by auto
  next
    case (Some q)
    obtain b g e where q: "q = (b, g, e)" by (metis prod_cases3)
    with Some have "pool = b @ g # e" "m a g" by (auto simp: extract_Some_iff)
    with Cons Some q show ?thesis by fastforce
  qed
qed simp

text \<open>A field at the top of the header that no name matches is never taken.\<close>

lemma extract_snoc: "\<not> P x \<Longrightarrow> List.extract P (xs @ [x]) = map_option (\<lambda>(b, f, e). (b, f, e @ [x])) (List.extract P xs)"
  by (induction xs) (auto simp: extract_Nil_code extract_Cons_code split: option.splits)

lemma pick_snoc: "(\<And>n. n \<in> set ns \<Longrightarrow> \<not> m n x) \<Longrightarrow> pick m ns (pool @ [x]) = pick m ns pool"
proof (induction ns arbitrary: pool)
  case (Cons a ns)
  show ?case
  proof (cases "List.extract (m a) pool")
    case None
    with Cons show ?thesis by (simp add: extract_snoc)
  next
    case (Some q)
    obtain b g e where "q = (b, g, e)" by (metis prod_cases3)
    with Cons Some Cons.IH [of "b @ e"] show ?thesis by (simp add: extract_snoc)
  qed
qed simp

lemma SearchFromEnd_spec:
  "k \<le> length fds \<Longrightarrow>
   (case SearchFromEnd n fds k of
      None \<Rightarrow> (\<forall>j < k. CompareNoCase n (MimeField_GetName (fds ! j)) \<noteq> 0)
    | Some i \<Rightarrow> i < k \<and> CompareNoCase n (MimeField_GetName (fds ! i)) = 0 \<and> (\<forall>j. i < j \<and> j < k \<longrightarrow> CompareNoCase n (MimeField_GetName (fds ! j)) \<noteq> 0))"
  by (induction n fds k rule: SearchFromEnd.induct) (auto split: option.splits simp: less_Suc_eq)

abbreviation names_field :: "AnsiString \<Rightarrow> MimeField \<Rightarrow> bool" where
  "names_field n f \<equiv> CompareNoCase (Trim n) (MimeField_GetName f) = 0"

lemma SearchFromEnd_extract:
  "List.extract (names_field n) (rev fds) =
   map_option (\<lambda>i. (rev (drop (i + 1) fds), fds ! i, rev (take i fds))) (SearchFromEnd (Trim n) fds (length fds))"
proof (cases "SearchFromEnd (Trim n) fds (length fds)")
  case None
  with SearchFromEnd_spec [of "length fds" fds "Trim n"] show ?thesis
    by (auto simp: extract_None_iff in_set_conv_nth)
next
  case (Some i)
  with SearchFromEnd_spec [of "length fds" fds "Trim n"]
  have i: "i < length fds" "names_field n (fds ! i)" "\<forall>j. i < j \<and> j < length fds \<longrightarrow> \<not> names_field n (fds ! j)" by auto
  have "rev fds = rev (drop (i + 1) fds) @ fds ! i # rev (take i fds)"
    using id_take_nth_drop [OF i(1)] by (metis rev.simps(2) rev_append append.assoc append_Cons append_Nil Suc_eq_plus1)
  moreover have "\<not> names_field n g" if "g \<in> set (rev (drop (i + 1) fds))" for g
    using that i(3) by (auto simp: in_set_conv_nth)
  ultimately show ?thesis using i(2) Some by (auto simp: extract_Some_iff)
qed

section \<open>Facts: the relaxed header\<close>

definition ascii :: "char set" where
  "ascii = {c. ord c < 128}"

lemma ascii_chars [simp]: "CHR '' '' \<in> ascii" "CHR '':'' \<in> ascii" "CHR 0x0D \<in> ascii" "CHR 0x0A \<in> ascii" "CHR 0x09 \<in> ascii"
  by (simp_all add: ascii_def)

lemma set_crlf_ascii [simp]: "set crlf \<subseteq> ascii"
  by (simp add: crlf_def)

lemma set_MakeLower_ascii: "set s \<subseteq> ascii \<Longrightarrow> set (MakeLower s) \<subseteq> ascii"
proof -
  have "tolower_classic c \<in> ascii" if "c \<in> ascii" for c
    using that by (auto simp: ascii_def tolower_classic_def char_ranges of_char_of)
  then show "set s \<subseteq> ascii \<Longrightarrow> set (MakeLower s) \<subseteq> ascii"
    by (auto simp: MakeLower_def dest!: set_takeWhileD) blast
qed

lemma set_RelaxedHeaderName: "set n \<subseteq> ascii \<Longrightarrow> set (RelaxedHeaderName n) \<subseteq> ascii"
  using set_MakeLower_ascii [of n] set_Trim [of "MakeLower n"] by (auto simp: RelaxedHeaderName_def)

lemma set_Replace: "set (Replace s old new) \<subseteq> set s \<union> set new"
proof (induction s old new rule: Replace.induct)
  case (1 s old new)
  then show ?case
    by (subst Replace.simps) (auto split: option.splits dest: in_set_takeD in_set_dropD)
qed

lemma set_TrimTrailingWSP: "set (TrimTrailingWSP s) \<subseteq> set s"
  by (auto simp: TrimTrailingWSP_def dest: set_dropWhileD)

lemma set_RelaxedHeaderValue: "set (RelaxedHeaderValue v) \<subseteq> set v \<union> {CHR '' ''}"
proof -
  define a where "a = Replace v (crlf @ '' '') '' ''"
  define b where "b = Replace a (crlf @ [CHR 0x09]) '' ''"
  have "set a \<subseteq> set v \<union> {CHR '' ''}" "set b \<subseteq> set a \<union> {CHR '' ''}" "set (collapse False b) \<subseteq> set b \<union> {CHR '' ''}"
    using set_Replace [of v "crlf @ '' ''" "'' ''"] set_Replace [of a "crlf @ [CHR 0x09]" "'' ''"] set_collapse by (auto simp: a_def b_def)
  moreover have "RelaxedHeaderValue v = Trim (TrimTrailingWSP (collapse False b))"
    by (simp add: RelaxedHeaderValue_def a_def b_def Collapse_eq)
  ultimately show ?thesis
    using set_Trim [of "TrimTrailingWSP (collapse False b)"] set_TrimTrailingWSP [of "collapse False b"] by fastforce
qed

lemma RelaxedHeaderValue_empty: "RelaxedHeaderValue [] = []" "RelaxedHeaderValue crlf = []"
  by (code_simp, code_simp)

text \<open>A field of the relaxed header, and the list of names.\<close>

definition relaxed_field :: "AnsiString \<Rightarrow> MimeField \<Rightarrow> AnsiString" where
  "relaxed_field n f = RelaxedHeaderName (Trim n) @ '':'' @ RelaxedHeaderValue (MimeField_GetValue f) @ crlf"

definition add_name :: "AnsiString \<Rightarrow> AnsiString \<Rightarrow> AnsiString" where
  "add_name fieldList n = (if fieldList \<noteq> [] then fieldList @ '':'' else fieldList) @ n"

lemma add_name_Nil [simp]: "add_name [] n = n"
  by (simp add: add_name_def)

lemma add_name_some: "x \<noteq> [] \<Longrightarrow> add_name x n = x @ '':'' @ n"
  by (simp add: add_name_def)

lemma foldl_add_name_Cons: "list_all (\<lambda>n. n \<noteq> []) ns \<Longrightarrow> x \<noteq> [] \<Longrightarrow> foldl add_name x ns = join '':'' (x # ns)"
proof (induction ns arbitrary: x)
  case (Cons n ns)
  have "foldl add_name x (n # ns) = join '':'' ((x @ '':'' @ n) # ns)" using Cons.IH [of "x @ '':'' @ n"] Cons.prems by (simp add: add_name_some)
  also have "\<dots> = join '':'' (x # n # ns)" by (cases ns) simp_all
  finally show ?case .
qed simp

lemma foldl_add_name: "list_all (\<lambda>n. n \<noteq> []) ns \<Longrightarrow> foldl add_name [] ns = join '':'' ns"
  using foldl_add_name_Cons by (cases ns) auto

lemma RelaxedHeaderLoop_eq:
  assumes w: "\<And>s. set s \<subseteq> S \<Longrightarrow> widen cp s = map w s \<and> narrow cp (map w s) = s" and S: "ascii \<subseteq> S"
    and "list_all (\<lambda>n. set n \<subseteq> ascii) ns" "list_all (\<lambda>f. set (MimeField_GetValue f) \<subseteq> S) fds"
  shows "RelaxedHeaderLoop cp ns fds (map w r) fl =
    (map w (r @ concat (map (\<lambda>(n, f). relaxed_field n f) (pick names_field ns (rev fds)))),
     foldl add_name fl (map (\<lambda>(n, f). Trim n) (pick names_field ns (rev fds))))"
  using assms(3,4)
proof (induction ns arbitrary: fds r fl)
  case Nil
  then show ?case by simp
next
  case (Cons n ns)
  show ?case
  proof (cases "SearchFromEnd (Trim n) fds (length fds)")
    case None
    with Cons show ?thesis by (simp add: SearchFromEnd_extract)
  next
    case (Some i)
    with SearchFromEnd_spec [of "length fds" fds "Trim n"] have "i < length fds" by simp
    then have f: "set (MimeField_GetValue (fds ! i)) \<subseteq> S" "list_all (\<lambda>f. set (MimeField_GetValue f) \<subseteq> S) (EraseAt i fds)"
      using Cons.prems(2) by (auto simp: list_all_iff EraseAt_def dest: in_set_takeD in_set_dropD)
    let ?v = "MimeField_GetValue (fds ! i)"
    let ?u = "if ?v = [] then crlf else ?v"
    have wcrlf: "widen cp crlf = map w crlf" "narrow cp (map w crlf) = crlf" using w [of crlf] S set_crlf_ascii by blast+
    have wcolon: "widen cp '':'' = map w '':''" using w [of "'':''"] subsetD [OF S ascii_chars(2)] by simp
    have u: "(if length (widen cp ?v) = 0 then widen cp ?v @ widen cp crlf else widen cp ?v) = map w ?u"
      using w [OF f(1)] wcrlf by auto
    have nu: "narrow cp (map w ?u) = ?u" using w [OF f(1)] wcrlf by simp
    have rv: "RelaxedHeaderValue ?u = RelaxedHeaderValue ?v" by (simp add: RelaxedHeaderValue_empty)
    have "set (RelaxedHeaderName (Trim n)) \<subseteq> ascii"
      using Cons.prems(1) set_Trim [of n] by (intro set_RelaxedHeaderName) auto
    with S w have name: "widen cp (RelaxedHeaderName (Trim n)) = map w (RelaxedHeaderName (Trim n))" by blast
    have "set (RelaxedHeaderValue ?v) \<subseteq> S" using set_RelaxedHeaderValue [of ?v] f(1) S ascii_chars by blast
    with w have val: "widen cp (RelaxedHeaderValue ?v) = map w (RelaxedHeaderValue ?v)" by blast
    have erase: "rev (drop (i + 1) fds) @ rev (take i fds) = rev (EraseAt i fds)" by (simp add: EraseAt_def)
    have "RelaxedHeaderLoop cp (n # ns) fds (map w r) fl =
        RelaxedHeaderLoop cp ns (EraseAt i fds) (map w (r @ relaxed_field n (fds ! i))) (add_name fl (Trim n))"
      by (simp add: Some u nu rv name val wcolon wcrlf relaxed_field_def add_name_def Let_def del: length_0_conv)
    also have "\<dots> = (map w ((r @ relaxed_field n (fds ! i)) @ concat (map (\<lambda>(n, f). relaxed_field n f) (pick names_field ns (rev (EraseAt i fds))))),
       foldl add_name (add_name fl (Trim n)) (map (\<lambda>(n, f). Trim n) (pick names_field ns (rev (EraseAt i fds)))))"
      by (rule Cons.IH) (use Cons.prems(1) f(2) in simp_all)
    finally show ?thesis using Some erase by (simp add: SearchFromEnd_extract)
  qed
qed

lemma set_without_b: "without_b ts = Some us \<Longrightarrow> set (join '';'' us) \<subseteq> set (join '';'' ts)"
proof (induction ts arbitrary: us)
  case (Cons t ts)
  show ?case
  proof (cases "b_tag t")
    case None
    with Cons.prems obtain us' where us': "without_b ts = Some us'" "us = t # us'" by auto
    then have "ts \<noteq> []" "us' \<noteq> []" using without_b_not_Nil by auto
    with us' Cons.IH show ?thesis by (auto simp: join_Cons)
  next
    case (Some e)
    with Cons.prems show ?thesis by (cases "ts = []") (auto simp: join_Cons dest: in_set_takeD)
  qed
qed simp

lemma set_GetDKIMWithoutSignature: "set (GetDKIMWithoutSignature v) \<subseteq> set v"
  using set_without_b [of "Split v CHR '';''"]
  by (cases "without_b (Split v CHR '';'')") (simp_all add: GetDKIMWithoutSignature_eq join_Split)

text \<open>What the parser hands out comes from the header.\<close>

lemma SkipToField_set: "SkipToField s = Some t \<Longrightarrow> set t \<subseteq> set s"
proof (induction s rule: SkipToField.induct)
  case (1 s)
  then show ?case
    by (subst (asm) (2) SkipToField.simps) (auto split: if_splits option.splits dest: in_set_dropD)
qed

lemma UnfoldField_set: "set (UnfoldField s) \<subseteq> set s \<union> {CHR '' ''}"
proof -
  have "set (fst (fold UnfoldStep s st)) \<subseteq> set (fst st) \<union> set s \<union> {CHR '' ''}" for st
    by (induction s arbitrary: st) (fastforce simp: UnfoldStep_def split: prod.splits if_splits)+
  from this [of "([], False)"] show ?thesis by (auto simp: UnfoldField_def)
qed

lemma MimeField_Load_set:
  assumes "MimeField_Load data u = Some (k, f)"
  shows "set (MimeField_GetValue f) \<subseteq> set data \<union> {CHR '' ''}" "set (MimeField_GetName f) \<subseteq> set data"
proof -
  obtain t where t: "SkipToField data = Some t" using assms by (auto simp: MimeField_Load_def split: option.splits)
  then have sub: "set t \<subseteq> set data" by (rule SkipToField_set)
  define nm where "nm = (case LineFind t CHR '':'' of Some i \<Rightarrow> take i t | None \<Rightarrow> [])"
  define st where "st = dropWhile is_WSP (case LineFind t CHR '':'' of Some i \<Rightarrow> drop (i + 1) t | None \<Rightarrow> t)"
  have "(case LineFind t CHR '':'' of Some i \<Rightarrow> (take i t, drop (i + 1) t) | None \<Rightarrow> ([], t)) =
      (nm, (case LineFind t CHR '':'' of Some i \<Rightarrow> drop (i + 1) t | None \<Rightarrow> t))" by (simp add: nm_def split: option.splits)
  with assms t obtain e where f: "field_name f = nm" "field_value f = (if u then UnfoldField (take (e - 2) st) else take (e - 2) st)"
    by (auto simp: MimeField_Load_def Let_def st_def split: if_splits option.splits)
  have "set nm \<subseteq> set t" "set st \<subseteq> set t"
    by (auto simp: nm_def st_def split: option.splits dest: in_set_takeD in_set_dropD set_dropWhileD)
  then show "set (MimeField_GetValue f) \<subseteq> set data \<union> {CHR '' ''}" "set (MimeField_GetName f) \<subseteq> set data"
    using f sub UnfoldField_set [of "take (e - 2) st"] set_take_subset [of "e - 2" st]
    by (auto simp: MimeField_GetName_def MimeField_GetValue_def c_str_def dest!: set_takeWhileD split: if_splits) blast
qed

lemma Fields_set: "f \<in> set (Fields data u) \<Longrightarrow> set (MimeField_GetValue f) \<subseteq> set data \<union> {CHR '' ''} \<and> set (MimeField_GetName f) \<subseteq> set data"
proof -
  have "f \<in> set (fst (MimeHeader_LoadLoop data u n)) \<Longrightarrow> set (MimeField_GetValue f) \<subseteq> set data \<union> {CHR '' ''} \<and> set (MimeField_GetName f) \<subseteq> set data" for n
  proof (induction data u n rule: MimeHeader_LoadLoop.induct)
    case (1 data u n)
    show ?case
    proof (cases "data \<noteq> [] \<and> hd data \<noteq> CHR 0x00 \<and> hd data \<noteq> CHR 0x0D")
      case True
      with 1(2) obtain k fd where k: "MimeField_Load data u = Some (k, fd)" "k \<noteq> 0"
        by (subst (asm) MimeHeader_LoadLoop.simps) (auto split: option.splits if_splits)
      with True 1(2) have "f = fd \<or> f \<in> set (fst (MimeHeader_LoadLoop (drop k data) u (n + k)))"
        by (subst (asm) MimeHeader_LoadLoop.simps) (auto simp: case_prod_beta)
      with 1(1) [OF True k(1) refl k(2)] MimeField_Load_set [OF k(1)] set_drop_subset [of k data] show ?thesis by blast
    qed (use 1(2) in \<open>subst (asm) MimeHeader_LoadLoop.simps, auto\<close>)
  qed
  then show "f \<in> set (Fields data u) \<Longrightarrow> set (MimeField_GetValue f) \<subseteq> set data \<union> {CHR '' ''} \<and> set (MimeField_GetName f) \<subseteq> set data"
    by (simp add: Fields_eq)
qed

text \<open>The relaxed header: the fields that are taken, and the signature field without its signature.\<close>

definition relaxed_signature :: "AnsiString \<times> AnsiString \<Rightarrow> AnsiString" where
  "relaxed_signature sf =
     (if fst sf = [] then [] else RelaxedHeaderName (fst sf) @ '':'' @ GetDKIMWithoutSignature (RelaxedHeaderValue (snd sf)))"

abbreviation relaxed_picks :: "AnsiString list \<Rightarrow> AnsiString \<Rightarrow> (AnsiString \<times> MimeField) list" where
  "relaxed_picks ns h \<equiv> pick names_field ns (rev (Fields h True))"

lemma RelaxedHeader_eq:
  assumes "transparent cp (set h \<union> set (snd sf) \<union> ascii)" "list_all (\<lambda>n. set n \<subseteq> ascii) ns" "set (fst sf) \<subseteq> ascii"
  shows "RelaxedHeader cp h sf ns fl =
    (concat (map (\<lambda>(n, f). relaxed_field n f) (relaxed_picks ns h)) @ relaxed_signature sf,
     foldl add_name fl (map (\<lambda>(n, f). Trim n) (relaxed_picks ns h)))"
proof -
  let ?S = "set h \<union> set (snd sf) \<union> ascii"
  obtain w where w: "\<And>s. set s \<subseteq> ?S \<Longrightarrow> widen cp s = map w s \<and> narrow cp (map w s) = s"
    using assms(1) unfolding transparent_def by blast
  have vals: "list_all (\<lambda>f. set (MimeField_GetValue f) \<subseteq> ?S) (Fields h True)"
    using Fields_set [of _ h True] ascii_chars(1) by (fastforce simp: list_all_iff)
  let ?r = "concat (map (\<lambda>(n, f). relaxed_field n f) (relaxed_picks ns h))"
  have loop: "RelaxedHeaderLoop cp ns (Fields h True) [] fl = (map w ?r, foldl add_name fl (map (\<lambda>(n, f). Trim n) (relaxed_picks ns h)))"
    using RelaxedHeaderLoop_eq [OF w _ assms(2) vals, of "[]" fl] by simp
  have field: "set (relaxed_field n f) \<subseteq> ?S" if "(n, f) \<in> set (relaxed_picks ns h)" for n f
  proof -
    from pick_fields [OF that] assms(2) vals have "set n \<subseteq> ascii" "set (MimeField_GetValue f) \<subseteq> ?S" by (auto simp: list_all_iff)
    then have "set (RelaxedHeaderName (Trim n)) \<subseteq> ascii" "set (RelaxedHeaderValue (MimeField_GetValue f)) \<subseteq> ?S"
      using set_Trim [of n] set_RelaxedHeaderName [of "Trim n"] set_RelaxedHeaderValue [of "MimeField_GetValue f"] ascii_chars(1) by blast+
    then show ?thesis by (auto simp: relaxed_field_def crlf_def)
  qed
  then have r: "set ?r \<subseteq> ?S" by fastforce
  have "set (GetDKIMWithoutSignature (RelaxedHeaderValue (snd sf))) \<subseteq> set (snd sf) \<union> {CHR '' ''}"
    using set_GetDKIMWithoutSignature set_RelaxedHeaderValue by (rule subset_trans)
  then have sig: "set (relaxed_signature sf) \<subseteq> ?S"
    using set_RelaxedHeaderName [OF assms(3)] ascii_chars(1,2) by (auto simp: relaxed_signature_def)
  have "set (?r @ relaxed_signature sf) \<subseteq> ?S" unfolding set_append using r sig by (rule Un_least)
  with w have "narrow cp (map w (?r @ relaxed_signature sf)) = ?r @ relaxed_signature sf" by blast
  moreover have "widen cp (relaxed_signature sf) = map w (relaxed_signature sf)" using sig w by blast
  moreover have "narrow cp (map w ?r) = ?r" using r w by blast
  ultimately show ?thesis by (simp add: RelaxedHeader_def loop relaxed_signature_def Let_def split: if_splits)
qed

end
