(* ===== verification/SignedHeaders.thy ===== *)
theory SignedHeaders
  imports Canonicalization
begin

text \<open>
  Why the bytes a signer hashes are the bytes a verifier hashes. The signer canonicalizes a header with the names it
  would like to sign and publishes the names it has found; the verifier canonicalizes the header with the signature
  field in front of it, with the published names. The interface \<open>header_canonicalization\<close> states what of a
  canonicalization this rests on, and both forms of Canonicalization.cpp are proved to provide it.
\<close>

section \<open>Names\<close>

text \<open>The names that can be signed, as Common/AntiSpam/DKIM/DKIM.cpp decides it.\<close>

definition IsValidHeaderFieldName :: "AnsiString \<Rightarrow> bool" where
  "IsValidHeaderFieldName name \<longleftrightarrow> name \<noteq> [] \<and> list_all (\<lambda>c. \<not> (ord c < 33 \<or> ord c > 126 \<or> c = CHR '':'')) name"

lemma valid_name_char: "IsValidHeaderFieldName n \<Longrightarrow> c \<in> set n \<Longrightarrow> 33 \<le> ord c \<and> ord c \<le> 126 \<and> c \<noteq> CHR '':''"
  by (fastforce simp: IsValidHeaderFieldName_def list_all_iff)

lemma valid_name_chars:
  assumes "IsValidHeaderFieldName n"
  shows "set n \<subseteq> ascii" "CHR 0x00 \<notin> set n" "CHR '':'' \<notin> set n" "n \<noteq> []" "c \<in> set n \<Longrightarrow> \<not> isspace_classic c"
proof -
  show "set n \<subseteq> ascii" using valid_name_char [OF assms] by (force simp: ascii_def)
  show "CHR 0x00 \<notin> set n" "CHR '':'' \<notin> set n" using valid_name_char [OF assms] by force+
  show "n \<noteq> []" using assms by (simp add: IsValidHeaderFieldName_def)
  show "c \<in> set n \<Longrightarrow> \<not> isspace_classic c" using valid_name_char [OF assms, of c] by (auto simp: isspace_classic_def char_ranges)
qed

lemma Trim_valid_name: "IsValidHeaderFieldName n \<Longrightarrow> Trim n = n"
  using valid_name_chars(5) [of n] by (intro Trim_unspaced) (cases n; auto)

text \<open>A name that differs from a valid one in case only is valid.\<close>

lemma tolower_valid: "tolower_classic c = tolower_classic d \<Longrightarrow> (ord c < 33 \<or> ord c > 126 \<or> c = CHR '':'') \<longleftrightarrow> (ord d < 33 \<or> ord d > 126 \<or> d = CHR '':'')"
  by (auto simp: tolower_classic_def char_ranges of_char_of split: if_splits dest: arg_cong [where f = ord])

lemma valid_name_nocase:
  assumes "IsValidHeaderFieldName n" "map tolower_classic m = map tolower_classic n"
  shows "IsValidHeaderFieldName m"
proof -
  have "length m = length n" using assms(2) map_eq_imp_length_eq by blast
  moreover have "tolower_classic (m ! i) = tolower_classic (n ! i)" if "i < length n" for i
    using assms(2) that calculation by (metis nth_map)
  ultimately show ?thesis using assms(1) tolower_valid [of "m ! _" "n ! _"] unfolding IsValidHeaderFieldName_def list_all_length
    by (metis length_0_conv)
qed

lemma SplitString_join_names:
  assumes "list_all IsValidHeaderFieldName ns"
  shows "SplitString (join '':'' ns) CHR '':'' = ns"
proof (cases "ns = []")
  case False
  then have "Split (join '':'' ns) CHR '':'' = ns"
    using assms valid_name_chars(3) by (intro Split_join) (auto simp: list_all_iff)
  moreover have "last ns \<noteq> []" using assms False valid_name_chars(4) by (auto simp: list_all_iff)
  ultimately show ?thesis by (simp add: SplitString_eq)
qed simp

text \<open>Listing the names that were found takes the same fields again.\<close>

lemma pick_again:
  assumes "\<And>n f. (n, f) \<in> set (pick m ns pool) \<Longrightarrow> m (lab n f) = m n"
  shows "pick m (map (\<lambda>(n, f). lab n f) (pick m ns pool)) pool = map (\<lambda>(n, f). (lab n f, f)) (pick m ns pool)"
  using assms
proof (induction ns arbitrary: pool)
  case (Cons a ns)
  show ?case
  proof (cases "List.extract (m a) pool")
    case None
    with Cons show ?thesis by simp
  next
    case (Some q)
    obtain b g e where q: "q = (b, g, e)" by (metis prod_cases3)
    with Some Cons.prems have "m (lab a g) = m a" by simp
    with Some q Cons show ?thesis by simp
  qed
qed simp


section \<open>The simple header\<close>

abbreviation names_line :: "AnsiString \<Rightarrow> AnsiString \<Rightarrow> bool" where
  "names_line n l \<equiv> CompareNoCase (LineName l) (Trim n) = 0"

lemma TakeLine_extract:
  "TakeLine (Trim n) ls = map_option (\<lambda>(b, f, e). (f, b @ e)) (List.extract (names_line n) ls)"
  by (induction ls) (auto simp: extract_Nil_code extract_Cons_code split: option.splits)

lemma SimpleHeaderLoop_eq:
  "SimpleHeaderLoop ns pool r fl =
   (r @ concat (map snd (pick names_line ns pool)), foldl add_name fl (map (\<lambda>(n, f). LineName f) (pick names_line ns pool)))"
proof (induction ns arbitrary: pool r fl)
  case (Cons n ns)
  then show ?case
    by (cases "List.extract (names_line n) pool") (auto simp: TakeLine_extract add_name_def)
qed simp

definition simple_signature :: "AnsiString \<times> AnsiString \<Rightarrow> AnsiString" where
  "simple_signature sf =
     (if fst sf = [] then []
      else let line = fst sf @ '': '' @ GetDKIMWithoutSignature (snd sf)
           in if EndsWith line crlf then take (length line - 2) line else line)"

abbreviation simple_pool :: "AnsiString \<Rightarrow> AnsiString list" where
  "simple_pool h \<equiv> FormatHeaderLines (rev (drop_empty_last (crlf_lines h))) [] []"

abbreviation simple_picks :: "AnsiString list \<Rightarrow> AnsiString \<Rightarrow> (AnsiString \<times> AnsiString) list" where
  "simple_picks ns h \<equiv> pick names_line ns (simple_pool h)"

lemma SimpleHeader_eq:
  assumes "transparent cp (set h)"
  shows "SimpleHeader cp h sf ns fl =
    (concat (map snd (simple_picks ns h)) @ simple_signature sf, foldl add_name fl (map (\<lambda>(n, f). LineName f) (simple_picks ns h)))"
  by (simp add: SimpleHeader_def SplitAt_transparent [OF assms] SimpleHeaderLoop_eq simple_signature_def Let_def)

text \<open>The lines of a header with a field in front of it.\<close>

lemma crlf_lines_join_append: "crlf_lines (s @ crlf @ rest) = crlf_lines s @ crlf_lines rest"
proof (induction s rule: crlf_lines.induct)
  case (1 s)
  show ?case
  proof (cases "Find_str s crlf")
    case None
    then show ?thesis by (simp add: crlf_lines_append crlf_lines.simps [of s])
  next
    case (Some i)
    then have i: "i + 2 \<le> length s" using Find_str_SomeD by fastforce
    have "Find_str (s @ crlf @ rest) crlf = Some i" using Some by (simp add: Find_str_crlf_append)
    then show ?thesis using 1 [OF Some] Some i by (simp add: crlf_lines.simps [of "s @ crlf @ rest"] crlf_lines.simps [of s])
  qed
qed

lemma drop_empty_last_append: "ys \<noteq> [] \<Longrightarrow> drop_empty_last (xs @ ys) = xs @ drop_empty_last ys"
  by (simp add: drop_empty_last_def butlast_append)

lemma StartsWith_WSP: "StartsWith l '' '' \<or> StartsWith l [CHR 0x09] \<longleftrightarrow> l \<noteq> [] \<and> is_WSP (hd l)"
proof (cases l)
  case Nil
  then show ?thesis by (simp add: StartsWith_def CompareNoCase_def ssicmp_Nil_Cons)
next
  case (Cons c cs)
  have low: "tolower_classic CHR '' '' = CHR '' ''" "tolower_classic CHR 0x09 = CHR 0x09" by (simp_all add: tolower_classic_def char_ranges)
  have eq: "tolower_classic c = CHR '' '' \<longleftrightarrow> c = CHR '' ''" "tolower_classic c = CHR 0x09 \<longleftrightarrow> c = CHR 0x09"
    by (auto simp: tolower_classic_def char_ranges of_char_of dest: arg_cong [where f = ord])
  show ?thesis
  proof (cases "c = CHR 0x00")
    case True
    then show ?thesis using Cons by (simp add: StartsWith_def CompareNoCase_def is_WSP_def) (code_simp)
  next
    case False
    with Cons low eq show ?thesis by (simp add: StartsWith_def CompareNoCase_zero_iff is_WSP_def)
  qed
qed

abbreviation continues :: "AnsiString \<Rightarrow> bool" where
  "continues l \<equiv> l \<noteq> [] \<and> is_WSP (hd l)"

lemma FormatHeaderLines_Cons:
  "FormatHeaderLines (l # ls) f acc =
     (if continues l then FormatHeaderLines ls (l @ crlf @ f) acc
      else if CHR '':'' \<notin> set l then FormatHeaderLines ls [] acc
      else FormatHeaderLines ls [] (acc @ [l @ crlf @ f]))"
  using StartsWith_WSP [of l] by (simp add: Find_str_single)

declare FormatHeaderLines.simps(2) [simp del]

text \<open>The continuation lines that wait for their field after some lines have been read.\<close>

fun waiting :: "AnsiString list \<Rightarrow> AnsiString \<Rightarrow> AnsiString" where
  "waiting [] f = f"
| "waiting (l # ls) f = waiting ls (if continues l then l @ crlf @ f else [])"

lemma FormatHeaderLines_append:
  "FormatHeaderLines (xs @ ls) f acc = FormatHeaderLines ls (waiting xs f) (FormatHeaderLines xs f acc)"
  by (induction xs arbitrary: f acc) (auto simp: FormatHeaderLines_Cons)

lemma FormatHeaderLines_acc: "FormatHeaderLines ls f acc = acc @ FormatHeaderLines ls f []"
proof (induction ls arbitrary: f acc)
  case (Cons l ls)
  show ?case unfolding FormatHeaderLines_Cons
    using Cons.IH [of "l @ crlf @ f" acc] Cons.IH [of "[]" acc] Cons.IH [of "[]" "acc @ [l @ crlf @ f]"] Cons.IH [of "[]" "[l @ crlf @ f]"]
    by auto
qed simp

lemma waiting_rev: "ls = [] \<or> \<not> continues (hd ls) \<Longrightarrow> waiting (rev ls) [] = []"
proof -
  have snoc: "waiting (xs @ [l]) f = (if continues l then l @ crlf @ waiting xs f else [])" for xs l f
    by (induction xs arbitrary: f) auto
  show "ls = [] \<or> \<not> continues (hd ls) \<Longrightarrow> waiting (rev ls) [] = []" by (cases ls) (auto simp: snoc)
qed

lemma waiting_conts: "list_all continues conts \<Longrightarrow> waiting (rev conts) f = concat (map (\<lambda>l. l @ crlf) conts) @ f"
  by (induction conts arbitrary: f rule: rev_induct) auto

lemma FormatHeaderLines_conts: "list_all continues conts \<Longrightarrow> FormatHeaderLines conts f acc = acc"
  by (induction conts arbitrary: f) (auto simp: FormatHeaderLines_Cons)

text \<open>The lines of a folded value continue the field.\<close>

lemma folded_conts: "folded_value v \<Longrightarrow> list_all continues (tl (crlf_lines v))"
proof (induction v rule: folded_value.induct)
  case (1 v)
  show ?case
  proof (cases "Find_str v crlf")
    case None
    then show ?thesis by (simp add: crlf_lines.simps [of v])
  next
    case (Some i)
    define w where "w = drop (i + 2) v"
    from 1(2) Some have f: "w \<noteq> []" "is_WSP (hd w)" "folded_value w" unfolding w_def
      by (simp_all add: folded_value.simps [of v])
    note IH = 1(1) [OF Some, folded w_def, OF f(3)]
    obtain l ls where ll: "crlf_lines w = l # ls" by (cases "crlf_lines w") auto
    have "continues l"
    proof (cases "Find_str w crlf")
      case None
      with ll f show ?thesis by (simp add: crlf_lines.simps [of w])
    next
      case (Some j)
      obtain c cs where c: "w = c # cs" "is_WSP c" using f by (cases w) auto
      with Some take_2_crlf [of c cs] have "j \<noteq> 0" by (auto simp: is_WSP_def split: if_splits)
      moreover have "l = take j w" using ll Some by (simp add: crlf_lines.simps [of w])
      ultimately show ?thesis using c by (cases j) auto
    qed
    with IH ll Some show ?thesis by (simp add: crlf_lines.simps [of v] w_def)
  qed
qed

lemma concat_lines: "ls \<noteq> [] \<Longrightarrow> concat (map (\<lambda>l. l @ crlf) ls) = join crlf ls @ crlf"
  by (induction crlf ls rule: join.induct) auto

lemma Find_crlf_prefix: "CHR 0x0D \<notin> set p \<Longrightarrow> Find_str (p @ v) crlf = map_option (\<lambda>i. length p + i) (Find_str v crlf)"
proof (induction p)
  case (Cons x p)
  then have "take 2 (x # p @ v) \<noteq> crlf" unfolding take_2_crlf by auto
  with Cons show ?case by (auto simp: option.map_comp comp_def)
qed (cases "Find_str v crlf"; simp)

lemma crlf_lines_prefix:
  assumes "CHR 0x0D \<notin> set p"
  shows "crlf_lines (p @ v) = (p @ hd (crlf_lines v)) # tl (crlf_lines v)"
  by (cases "Find_str v crlf") (simp_all add: crlf_lines.simps [of "p @ v"] crlf_lines.simps [of v] Find_crlf_prefix [OF assms])

lemma WSP_IsSpace: "is_WSP c \<Longrightarrow> IsSpace c"
  by (auto simp: is_WSP_def IsSpace_def char_ranges)

lemma simple_pool_Cons:
  assumes "plain_name nm" "folded_value v" "h = [] \<or> \<not> is_WSP (hd h)"
  shows "simple_pool (nm @ '': '' @ v @ crlf @ h) = simple_pool h @ [nm @ '': '' @ v @ crlf]"
proof -
  obtain l0 conts where v: "crlf_lines v = l0 # conts" by (cases "crlf_lines v") auto
  with folded_conts [OF assms(2)] have conts: "list_all continues conts" by simp
  let ?first = "nm @ '': '' @ l0"
  have nm: "CHR 0x0D \<notin> set nm" "nm \<noteq> []" "\<not> is_WSP (hd nm)"
    using assms(1) WSP_IsSpace by (auto simp: plain_name_def list_all_iff)
  from crlf_lines_prefix [of "nm @ '': ''" v] nm v have "crlf_lines (nm @ '': '' @ v) = ?first # conts" by simp
  with crlf_lines_join_append [of "nm @ '': '' @ v" h] have lines: "crlf_lines (nm @ '': '' @ v @ crlf @ h) = (?first # conts) @ crlf_lines h"
    by simp
  have whole: "?first @ crlf @ concat (map (\<lambda>l. l @ crlf) conts) = nm @ '': '' @ v @ crlf"
    using concat_lines [of "l0 # conts"] crlf_lines_join [of v] v by simp
  let ?hs = "drop_empty_last (crlf_lines h)"
  have "?hs = [] \<or> \<not> continues (hd ?hs)"
  proof (cases "?hs")
    case (Cons l ls)
    then obtain ls' where "crlf_lines h = l # ls'" by (cases "crlf_lines h") (auto simp: drop_empty_last_def split: if_splits)
    then have "l = [] \<or> hd l = hd h \<and> h \<noteq> []" using crlf_lines_join [of h] by (cases l; cases ls') auto
    with Cons assms(3) show ?thesis by auto
  qed simp
  then have wait: "waiting (rev ?hs) [] = []" by (rule waiting_rev)
  have "\<not> continues ?first" "CHR '':'' \<in> set ?first" using nm by auto
  then have "FormatHeaderLines (rev (?first # conts)) [] (simple_pool h) = simple_pool h @ [nm @ '': '' @ v @ crlf]"
    using whole conts by (simp add: FormatHeaderLines_append FormatHeaderLines_conts waiting_conts FormatHeaderLines_Cons)
  then show ?thesis
    unfolding lines drop_empty_last_append [OF crlf_lines_not_Nil] rev_append FormatHeaderLines_append [of "rev ?hs"] wait .
qed

section \<open>The interface\<close>

abbreviation same_name :: "AnsiString \<Rightarrow> AnsiString \<Rightarrow> bool" where
  "same_name a b \<equiv> map tolower_classic a = map tolower_classic b"

text \<open>
  What a signer and a verifier need of a canonicalization: the signature field adds its part at the end and changes
  nothing else; the list of names it reports stands for the fields it has taken; and a field in front of the
  header that is not listed changes nothing. \<open>ok\<close> is the condition on the bytes of the header.
\<close>

locale header_canonicalization =
  fixes canon :: "AnsiString \<Rightarrow> AnsiString \<times> AnsiString \<Rightarrow> AnsiString list \<Rightarrow> AnsiString \<Rightarrow> AnsiString \<times> AnsiString"
    and sig :: "AnsiString \<times> AnsiString \<Rightarrow> AnsiString"
    and ok :: "char set \<Rightarrow> bool"
  assumes appended: "ok (set h \<union> set v) \<Longrightarrow> list_all IsValidHeaderFieldName ns \<Longrightarrow> IsValidHeaderFieldName nm \<Longrightarrow>
      canon h (nm, v) ns [] = (fst (canon h ([], []) ns []) @ sig (nm, v), snd (canon h ([], []) ns []))"
    and relisted: "ok (set h) \<Longrightarrow> CHR 0x00 \<notin> set h \<Longrightarrow> list_all IsValidHeaderFieldName ns \<Longrightarrow> canon h ([], []) ns [] = (r, l) \<Longrightarrow>
      list_all (\<lambda>n'. IsValidHeaderFieldName n' \<and> list_ex (same_name n') ns) (SplitString l CHR '':'') \<and>
      canon h ([], []) (SplitString l CHR '':'') [] = (r, l)"
    and prepended: "ok (set (nm @ '': '' @ v @ crlf @ h)) \<Longrightarrow> list_all (\<lambda>n. IsValidHeaderFieldName n \<and> \<not> same_name n nm) ns \<Longrightarrow>
      IsValidHeaderFieldName nm \<Longrightarrow> folded_value v \<Longrightarrow> v = [] \<or> \<not> is_WSP (hd v) \<Longrightarrow> h = [] \<or> \<not> is_WSP (hd h) \<Longrightarrow>
      canon (nm @ '': '' @ v @ crlf @ h) ([], []) ns [] = canon h ([], []) ns []"
    and ok_mono: "ok S \<Longrightarrow> T \<subseteq> S \<Longrightarrow> ok T"
begin

text \<open>What a verifier hashes when it is given the names a signer canonicalized with.\<close>

lemma verifier_bytes:
  assumes "ok (set (nm @ '': '' @ v @ crlf @ h))" "list_all (\<lambda>n. IsValidHeaderFieldName n \<and> \<not> same_name n nm) ns"
    "IsValidHeaderFieldName nm" "folded_value v" "v = [] \<or> \<not> is_WSP (hd v)" "h = [] \<or> \<not> is_WSP (hd h)"
  shows "canon (nm @ '': '' @ v @ crlf @ h) (nm, v) ns [] = (fst (canon h ([], []) ns []) @ sig (nm, v), snd (canon h ([], []) ns []))"
proof -
  have "ok (set (nm @ '': '' @ v @ crlf @ h) \<union> set v)" using assms(1) by (rule ok_mono) auto
  moreover have "list_all IsValidHeaderFieldName ns" using assms(2) by (simp add: list_all_iff)
  ultimately show ?thesis using appended assms(3) prepended [OF assms] by simp
qed

text \<open>What a verifier hashes when it is given the names a signer has found.\<close>

lemma verifier_bytes_found:
  assumes "ok (set (nm @ '': '' @ v @ crlf @ h))" "CHR 0x00 \<notin> set h" "list_all (\<lambda>n. IsValidHeaderFieldName n \<and> \<not> same_name n nm) ns"
    "IsValidHeaderFieldName nm" "folded_value v" "v = [] \<or> \<not> is_WSP (hd v)" "h = [] \<or> \<not> is_WSP (hd h)"
    "canon h ([], []) ns [] = (r, l)"
  shows "canon (nm @ '': '' @ v @ crlf @ h) (nm, v) (SplitString l CHR '':'') [] = (r @ sig (nm, v), l)"
proof -
  have "ok (set h)" using assms(1) by (rule ok_mono) auto
  moreover have "list_all IsValidHeaderFieldName ns" using assms(3) by (simp add: list_all_iff)
  ultimately have again: "list_all (\<lambda>n'. IsValidHeaderFieldName n' \<and> list_ex (same_name n') ns) (SplitString l CHR '':'')"
    "canon h ([], []) (SplitString l CHR '':'') [] = (r, l)"
    using relisted assms(2,8) by blast+
  have "list_all (\<lambda>n. IsValidHeaderFieldName n \<and> \<not> same_name n nm) (SplitString l CHR '':'')"
    using again(1) assms(3) by (auto simp: list_all_iff list_ex_iff)
  from verifier_bytes [OF assms(1) this assms(4-7)] again(2) show ?thesis by simp
qed

end

section \<open>Both forms provide it\<close>

lemma valid_plain_name: "IsValidHeaderFieldName nm \<Longrightarrow> plain_name nm"
proof -
  assume v: "IsValidHeaderFieldName nm"
  have "\<not> IsSpace (hd nm)" using valid_name_char [OF v, of "hd nm"] valid_name_chars(4) [OF v] by (auto simp: IsSpace_def char_ranges)
  moreover have "c \<notin> {CHR 0x00, CHR '':'', CHR 0x0D, CHR 0x0A}" if "c \<in> set nm" for c
    using valid_name_char [OF v that] by auto
  ultimately show "plain_name nm" using valid_name_chars(4) [OF v] by (simp add: plain_name_def list_all_iff)
qed

lemma CompareNoCase_valid:
  "IsValidHeaderFieldName n \<Longrightarrow> CHR 0x00 \<notin> set m \<Longrightarrow> CompareNoCase n m = 0 \<longleftrightarrow> same_name n m"
  "IsValidHeaderFieldName n \<Longrightarrow> CHR 0x00 \<notin> set m \<Longrightarrow> CompareNoCase m n = 0 \<longleftrightarrow> same_name n m"
  using valid_name_chars(2) [of n] by (auto simp: CompareNoCase_zero_iff)

lemma names_ascii: "list_all IsValidHeaderFieldName ns \<Longrightarrow> list_all (\<lambda>n. set n \<subseteq> ascii) ns"
  using valid_name_chars(1) by (auto simp: list_all_iff)

lemma relaxed_relisted:
  assumes "transparent cp (set h \<union> ascii)" "list_all IsValidHeaderFieldName ns" "RelaxedHeader cp h ([], []) ns [] = (r, l)"
  shows "list_all (\<lambda>n'. IsValidHeaderFieldName n' \<and> list_ex (same_name n') ns) (SplitString l CHR '':'') \<and>
    RelaxedHeader cp h ([], []) (SplitString l CHR '':'') [] = (r, l)"
proof -
  let ?ps = "relaxed_picks ns h"
  let ?found = "map (\<lambda>(n, f). Trim n) ?ps"
  have trim: "Trim n = n" "n \<in> set ns" "IsValidHeaderFieldName n" if "(n, f) \<in> set ?ps" for n f
    using pick_fields [OF that] assms(2) Trim_valid_name by (auto simp: list_all_iff)
  have valid: "list_all IsValidHeaderFieldName ?found" using trim by (auto simp: list_all_iff)
  have l: "l = join '':'' ?found"
  proof -
    have "list_all (\<lambda>n. n \<noteq> []) ?found" using valid valid_name_chars(4) by (auto simp: list_all_iff)
    then show ?thesis using RelaxedHeader_eq [of cp h "([], [])" ns "[]"] assms names_ascii by (simp add: foldl_add_name)
  qed
  have split: "SplitString l CHR '':'' = ?found" using SplitString_join_names [OF valid] l by simp
  have again: "relaxed_picks ?found h = map (\<lambda>(n, f). (Trim n, f)) ?ps" by (rule pick_again) simp
  have "concat (map (\<lambda>(n, f). relaxed_field n f) (relaxed_picks ?found h)) = concat (map (\<lambda>(n, f). relaxed_field n f) ?ps)"
    "map (\<lambda>(n, f). Trim n) (relaxed_picks ?found h) = ?found"
    unfolding again by (simp_all add: relaxed_field_def comp_def case_prod_unfold)
  then have "RelaxedHeader cp h ([], []) ?found [] = RelaxedHeader cp h ([], []) ns []"
    using assms(1,2) valid names_ascii by (simp add: RelaxedHeader_eq)
  moreover have "list_all (\<lambda>n'. list_ex (same_name n') ns) ?found" using trim by (fastforce simp: list_all_iff list_ex_iff)
  ultimately show ?thesis using split valid assms(3) by (auto simp: list_all_iff)
qed

lemma GetName_mime_field: "IsValidHeaderFieldName nm \<Longrightarrow> MimeField_GetName (mime_field u nm sp v) = nm"
  using valid_name_chars(2) [of nm] by (auto simp: MimeField_GetName_def mime_field_def c_str_def takeWhile_eq_all_conv)

interpretation relaxed: header_canonicalization "RelaxedHeader cp" relaxed_signature "\<lambda>S. transparent cp (S \<union> ascii)" for cp
proof
  fix h v nm :: AnsiString and ns :: "AnsiString list"
  assume ok: "transparent cp (set h \<union> set v \<union> ascii)" and ns: "list_all IsValidHeaderFieldName ns" and nm: "IsValidHeaderFieldName nm"
  have "transparent cp (set h \<union> set [] \<union> ascii)" using ok by (rule transparent_mono) auto
  with ok ns nm names_ascii valid_name_chars(1) show "RelaxedHeader cp h (nm, v) ns [] =
      (fst (RelaxedHeader cp h ([], []) ns []) @ relaxed_signature (nm, v), snd (RelaxedHeader cp h ([], []) ns []))"
    using RelaxedHeader_eq [of cp h "(nm, v)" ns "[]"] RelaxedHeader_eq [of cp h "([], [])" ns "[]"] by (simp add: relaxed_signature_def)
next
  show "list_all (\<lambda>n'. IsValidHeaderFieldName n' \<and> list_ex (same_name n') ns) (SplitString l CHR '':'') \<and>
      RelaxedHeader cp h ([], []) (SplitString l CHR '':'') [] = (r, l)"
    if "transparent cp (set h \<union> ascii)" "list_all IsValidHeaderFieldName ns" "RelaxedHeader cp h ([], []) ns [] = (r, l)" for h ns r l
    using that by (rule relaxed_relisted)
next
  fix nm v h :: AnsiString and ns :: "AnsiString list"
  assume ok: "transparent cp (set (nm @ '': '' @ v @ crlf @ h) \<union> ascii)"
    and ns: "list_all (\<lambda>n. IsValidHeaderFieldName n \<and> \<not> same_name n nm) ns"
    and f: "IsValidHeaderFieldName nm" "folded_value v" "v = [] \<or> \<not> is_WSP (hd v)" "h = [] \<or> \<not> is_WSP (hd h)"
  have fields: "Fields (nm @ '': '' @ v @ crlf @ h) True = mime_field True nm '' '' v # Fields h True"
    using Fields_Cons [OF valid_plain_name [OF f(1)] _ f(3,2,4), of "'' ''"] by simp
  have "\<not> names_field n (mime_field True nm '' '' v)" if "n \<in> set ns" for n
    using that ns f(1) valid_name_chars(2) by (auto simp: list_all_iff GetName_mime_field Trim_valid_name CompareNoCase_valid)
  then have picks: "relaxed_picks ns (nm @ '': '' @ v @ crlf @ h) = relaxed_picks ns h" unfolding fields rev.simps by (rule pick_snoc)
  have "transparent cp (set h \<union> set [] \<union> ascii)" "transparent cp (set (nm @ '': '' @ v @ crlf @ h) \<union> set [] \<union> ascii)"
    using ok by (auto elim: transparent_mono)
  moreover have "list_all IsValidHeaderFieldName ns" using ns by (simp add: list_all_iff)
  ultimately show "RelaxedHeader cp (nm @ '': '' @ v @ crlf @ h) ([], []) ns [] = RelaxedHeader cp h ([], []) ns []"
    using RelaxedHeader_eq [of cp h "([], [])" ns "[]"] RelaxedHeader_eq [of cp "nm @ '': '' @ v @ crlf @ h" "([], [])" ns "[]"] picks names_ascii
    by simp
next
  show "transparent cp (T \<union> ascii)" if "transparent cp (S \<union> ascii)" "T \<subseteq> S" for S T
    using that by (auto elim: transparent_mono)
qed

lemma LineName_field: "IsValidHeaderFieldName nm \<Longrightarrow> LineName (nm @ CHR '':'' # rest) = nm"
  using Find_append_hit [of "CHR '':''" nm rest] valid_name_chars(3) [of nm] by (simp add: LineName_def Find_str_single)

lemma set_FormatHeaderLines: "l \<in> set (FormatHeaderLines ls f acc) \<Longrightarrow>
   l \<in> set acc \<or> set l \<subseteq> \<Union> (set ` set ls) \<union> set f \<union> set crlf"
proof (induction ls arbitrary: f acc)
  case (Cons x ls)
  then show ?case by (auto simp: FormatHeaderLines_Cons split: if_splits) fastforce+
qed simp

lemma simple_pool_set: "l \<in> set (simple_pool h) \<Longrightarrow> set l \<subseteq> set h \<union> set crlf"
proof -
  assume "l \<in> set (simple_pool h)"
  then have "set l \<subseteq> \<Union> (set ` set (drop_empty_last (crlf_lines h))) \<union> set crlf"
    using set_FormatHeaderLines [of l "rev (drop_empty_last (crlf_lines h))" "[]" "[]"] by simp
  moreover have "set x \<subseteq> set h" if "x \<in> set (drop_empty_last (crlf_lines h))" for x
    using that set_crlf_lines [of x h] by (auto simp: drop_empty_last_def dest: in_set_butlastD split: if_splits)
  ultimately show "set l \<subseteq> set h \<union> set crlf" by blast
qed

lemma set_LineName: "set (LineName l) \<subseteq> set l"
  by (auto simp: LineName_def dest: in_set_takeD split: option.splits)

lemma ssicmp_nocase: "same_name a b \<Longrightarrow> ssicmp g a = ssicmp g b"
proof (induction g a arbitrary: b rule: ssicmp.induct)
  case (1 g a)
  have "tolower_classic (cstr_head a) = tolower_classic (cstr_head b)" "same_name (tl a) (tl b)"
    using 1(2) by (cases a; cases b; simp add: cstr_head_def)+
  with 1(1) [OF refl refl] show ?case by (subst (1 2) ssicmp.simps) (simp add: Let_def)
qed

lemma simple_relisted:
  assumes "transparent cp (set h \<union> ascii)" "CHR 0x00 \<notin> set h" "list_all IsValidHeaderFieldName ns" "SimpleHeader cp h ([], []) ns [] = (r, l)"
  shows "list_all (\<lambda>n'. IsValidHeaderFieldName n' \<and> list_ex (same_name n') ns) (SplitString l CHR '':'') \<and>
    SimpleHeader cp h ([], []) (SplitString l CHR '':'') [] = (r, l)"
proof -
  let ?ps = "simple_picks ns h"
  let ?found = "map (\<lambda>(n, f). LineName f) ?ps"
  have found: "n \<in> set ns" "IsValidHeaderFieldName n" "CHR 0x00 \<notin> set (LineName f)" "same_name n (LineName f)"
    if "(n, f) \<in> set ?ps" for n f
  proof -
    from pick_fields [OF that] assms(3) show n: "n \<in> set ns" "IsValidHeaderFieldName n" by (auto simp: list_all_iff)
    have "set (LineName f) \<subseteq> set h \<union> set crlf" using pick_fields [OF that] simple_pool_set [of f h] set_LineName [of f] by blast
    then show nul: "CHR 0x00 \<notin> set (LineName f)" using assms(2) by (auto simp: crlf_def)
    show "same_name n (LineName f)" using pick_fields [OF that] CompareNoCase_valid(2) [OF n(2) nul] Trim_valid_name [OF n(2)] by simp
  qed
  have label: "IsValidHeaderFieldName (LineName f)" if "(n, f) \<in> set ?ps" for n f
    using valid_name_nocase [OF found(2) [OF that]] found(4) [OF that] by simp
  then have valid: "list_all IsValidHeaderFieldName ?found" by (auto simp: list_all_iff)
  have "list_all (\<lambda>n. n \<noteq> []) ?found" using valid valid_name_chars(4) by (auto simp: list_all_iff)
  moreover have "transparent cp (set h)" using assms(1) by (rule transparent_mono) simp
  ultimately have split: "SplitString l CHR '':'' = ?found"
    using SimpleHeader_eq [of cp h "([], [])" ns "[]"] assms(4) SplitString_join_names [OF valid] by (simp add: foldl_add_name)
  have "names_line (LineName f) = names_line n" if "(n, f) \<in> set ?ps" for n f
    using found(2,4) [OF that] label [OF that] ssicmp_nocase [of n "LineName f"] by (simp add: Trim_valid_name CompareNoCase_def fun_eq_iff)
  then have again: "simple_picks ?found h = map (\<lambda>(n, f). (LineName f, f)) ?ps"
    by (rule pick_again [where m = names_line and lab = "\<lambda>n f. LineName f"])
  have "concat (map snd (simple_picks ?found h)) = concat (map snd ?ps)" "map (\<lambda>(n, f). LineName f) (simple_picks ?found h) = ?found"
    unfolding again by (simp_all add: comp_def case_prod_unfold)
  then have "SimpleHeader cp h ([], []) ?found [] = SimpleHeader cp h ([], []) ns []"
    using \<open>transparent cp (set h)\<close> by (simp add: SimpleHeader_eq)
  moreover have "list_ex (same_name (LineName f)) ns" if "(n, f) \<in> set ?ps" for n f
    using found(1,4) [OF that] by (auto simp: list_ex_iff intro!: bexI [of _ n])
  then have "list_all (\<lambda>n'. list_ex (same_name n') ns) ?found" by (auto simp: list_all_iff)
  ultimately show ?thesis using split valid assms(4) by (auto simp: list_all_iff)
qed

interpretation simple: header_canonicalization "SimpleHeader cp" simple_signature "\<lambda>S. transparent cp (S \<union> ascii)" for cp
proof
  fix h v nm :: AnsiString and ns :: "AnsiString list"
  assume "transparent cp (set h \<union> set v \<union> ascii)"
  then have "transparent cp (set h)" by (rule transparent_mono) auto
  then show "SimpleHeader cp h (nm, v) ns [] =
      (fst (SimpleHeader cp h ([], []) ns []) @ simple_signature (nm, v), snd (SimpleHeader cp h ([], []) ns []))"
    by (simp add: SimpleHeader_eq simple_signature_def)
next
  show "list_all (\<lambda>n'. IsValidHeaderFieldName n' \<and> list_ex (same_name n') ns) (SplitString l CHR '':'') \<and>
      SimpleHeader cp h ([], []) (SplitString l CHR '':'') [] = (r, l)"
    if "transparent cp (set h \<union> ascii)" "CHR 0x00 \<notin> set h" "list_all IsValidHeaderFieldName ns"
      "SimpleHeader cp h ([], []) ns [] = (r, l)" for h ns r l
    using that by (rule simple_relisted)
next
  fix nm v h :: AnsiString and ns :: "AnsiString list"
  assume ok: "transparent cp (set (nm @ '': '' @ v @ crlf @ h) \<union> ascii)"
    and ns: "list_all (\<lambda>n. IsValidHeaderFieldName n \<and> \<not> same_name n nm) ns"
    and f: "IsValidHeaderFieldName nm" "folded_value v" "h = [] \<or> \<not> is_WSP (hd h)"
  have "\<not> names_line n (nm @ '': '' @ v @ crlf)" if "n \<in> set ns" for n
    using that ns f(1) valid_name_chars(2) by (auto simp: list_all_iff LineName_field Trim_valid_name CompareNoCase_valid)
  then have picks: "simple_picks ns (nm @ '': '' @ v @ crlf @ h) = simple_picks ns h"
    unfolding simple_pool_Cons [OF valid_plain_name [OF f(1)] f(2,3)] by (rule pick_snoc)
  have "transparent cp (set h)" "transparent cp (set (nm @ '': '' @ v @ crlf @ h))" using ok by (auto elim: transparent_mono)
  with picks show "SimpleHeader cp (nm @ '': '' @ v @ crlf @ h) ([], []) ns [] = SimpleHeader cp h ([], []) ns []"
    by (simp only: SimpleHeader_eq)
next
  show "transparent cp (T \<union> ascii)" if "transparent cp (S \<union> ascii)" "T \<subseteq> S" for S T
    using that by (auto elim: transparent_mono)
qed

section \<open>Oversigning\<close>

text \<open>
  When a name is listed more often than the header has fields of it, a field of that name put in front of the header is
  taken as well.
\<close>

lemma extract_snoc_hit: "List.extract P xs = None \<Longrightarrow> P x \<Longrightarrow> List.extract P (xs @ [x]) = Some (xs, x, [])"
  by (auto simp: extract_None_iff extract_Some_iff)

lemma extract_snoc_before: "List.extract P xs = Some (b, f, e) \<Longrightarrow> List.extract P (xs @ [x]) = Some (b, f, e @ [x])"
  by (auto simp: extract_Some_iff)

lemma pick_extra:
  assumes "\<And>n f. n \<in> set ns \<Longrightarrow> f \<in> set pool \<union> {x} \<Longrightarrow> m n f \<longleftrightarrow> key n = name f"
    and "count_list (map name pool) (name x) < count_list (map key ns) (name x)"
  shows "\<exists>n ps qs. pick m ns (pool @ [x]) = ps @ (n, x) # qs \<and> pick m ns pool = ps @ qs"
  using assms
proof (induction ns arbitrary: pool)
  case Nil
  then show ?case by simp
next
  case (Cons a ns)
  show ?case
  proof (cases "List.extract (m a) pool")
    case None
    show ?thesis
    proof (cases "m a x")
      case True
      with None show ?thesis by (intro exI [of _ a] exI [of _ "[]"] exI [of _ "pick m ns pool"]) (simp add: extract_snoc_hit)
    next
      case False
      then have "key a \<noteq> name x" using Cons.prems(1) [of a x] by simp
      with Cons.prems have "\<exists>n ps qs. pick m ns (pool @ [x]) = ps @ (n, x) # qs \<and> pick m ns pool = ps @ qs"
        by (intro Cons.IH) auto
      with None False show ?thesis by (simp add: extract_snoc)
    qed
  next
    case (Some q)
    obtain b f e where q: "q = (b, f, e)" by (metis prod_cases3)
    with Some have pool: "pool = b @ f # e" "m a f" by (auto simp: extract_Some_iff)
    then have "key a = name f" using Cons.prems(1) [of a f] by simp
    with Cons.prems pool have "\<exists>n ps qs. pick m ns ((b @ e) @ [x]) = ps @ (n, x) # qs \<and> pick m ns (b @ e) = ps @ qs"
      by (intro Cons.IH) (auto split: if_splits)
    then obtain n ps qs where "pick m ns (b @ e @ [x]) = ps @ (n, x) # qs" "pick m ns (b @ e) = ps @ qs" by auto
    with Some q extract_snoc_before [of "m a" pool b f e x] show ?thesis
      by (intro exI [of _ n] exI [of _ "(a, f) # ps"] exI [of _ qs]) simp
  qed
qed

lemma count_list_map: "count_list (map g xs) k = length (filter (\<lambda>x. k = g x) xs)"
  by (induction xs) auto

lemma concat_extra: "t \<noteq> [] \<Longrightarrow> concat (ps @ t # qs) @ tail \<noteq> concat (ps @ qs) @ tail"
  by (auto dest: arg_cong [where f = length])

lemma GetName_no_NUL: "CHR 0x00 \<notin> set (MimeField_GetName f)"
  by (auto simp: MimeField_GetName_def c_str_def dest: set_takeWhileD)

text \<open>
  C24: Oversigning binds the number of fields: when a name is listed more often than the header has fields of that
  name, what is hashed changes as soon as another field of the name is put in front of the header, in the
  relaxed and in the simple form, whatever the value of the new field is.
\<close>

theorem oversigned_field_is_bound:
  assumes "transparent cp (set (nm @ '': '' @ v @ crlf @ h) \<union> set (snd sf) \<union> ascii)" "CHR 0x00 \<notin> set h" "set (fst sf) \<subseteq> ascii"
    and "list_all IsValidHeaderFieldName ns" "IsValidHeaderFieldName nm" "folded_value v" "v = [] \<or> \<not> is_WSP (hd v)" "h = [] \<or> \<not> is_WSP (hd h)"
  shows "(length (filter (\<lambda>f. same_name nm (MimeField_GetName f)) (Fields h True)) < length (filter (same_name nm) ns) \<longrightarrow>
      fst (RelaxedHeader cp (nm @ '': '' @ v @ crlf @ h) sf ns []) \<noteq> fst (RelaxedHeader cp h sf ns [])) \<and>
    (length (filter (\<lambda>l. same_name nm (LineName l)) (simple_pool h)) < length (filter (same_name nm) ns) \<longrightarrow>
      fst (SimpleHeader cp (nm @ '': '' @ v @ crlf @ h) sf ns []) \<noteq> fst (SimpleHeader cp h sf ns []))"
proof (intro conjI impI)
  assume fewer: "length (filter (\<lambda>f. same_name nm (MimeField_GetName f)) (Fields h True)) < length (filter (same_name nm) ns)"
  let ?x = "mime_field True nm '' '' v"
  have name: "MimeField_GetName ?x = nm" using assms(5) by (rule GetName_mime_field)
  have fields: "Fields (nm @ '': '' @ v @ crlf @ h) True = ?x # Fields h True"
    using Fields_Cons [OF valid_plain_name [OF assms(5)] _ assms(7,6,8), of "'' ''"] by simp
  have "names_field n f \<longleftrightarrow> map tolower_classic n = map tolower_classic (MimeField_GetName f)" if "n \<in> set ns" for n f
    using that assms(4) GetName_no_NUL by (auto simp: list_all_iff Trim_valid_name CompareNoCase_valid)
  then obtain n ps qs where "pick names_field ns (rev (Fields h True) @ [?x]) = ps @ (n, ?x) # qs" "relaxed_picks ns h = ps @ qs"
    using pick_extra [of ns "rev (Fields h True)" ?x names_field "map tolower_classic" "\<lambda>f. map tolower_classic (MimeField_GetName f)"] fewer
    by (auto simp: count_list_map name rev_filter [symmetric])
  moreover have "transparent cp (set h \<union> set (snd sf) \<union> ascii)" using assms(1) by (rule transparent_mono) auto
  ultimately show "fst (RelaxedHeader cp (nm @ '': '' @ v @ crlf @ h) sf ns []) \<noteq> fst (RelaxedHeader cp h sf ns [])"
    using assms(1,3) names_ascii [OF assms(4)]
      concat_extra [of "relaxed_field n ?x" "map (\<lambda>(n, f). relaxed_field n f) ps" "map (\<lambda>(n, f). relaxed_field n f) qs" "relaxed_signature sf"]
    by (simp add: RelaxedHeader_eq [of cp h] RelaxedHeader_eq [of cp "nm @ '': '' @ v @ crlf @ h", simplified] fields [simplified] relaxed_field_def)
next
  assume fewer: "length (filter (\<lambda>l. same_name nm (LineName l)) (simple_pool h)) < length (filter (same_name nm) ns)"
  let ?x = "nm @ '': '' @ v @ crlf"
  have name: "LineName ?x = nm" using LineName_field [OF assms(5)] by simp
  have "CHR 0x00 \<notin> set (LineName l)" if "l \<in> set (simple_pool h) \<union> {?x}" for l
    using that simple_pool_set [of l h] set_LineName [of l] assms(2) name valid_name_chars(2) [OF assms(5)] by (auto simp: crlf_def)
  then have "names_line n l \<longleftrightarrow> map tolower_classic n = map tolower_classic (LineName l)" if "n \<in> set ns" "l \<in> set (simple_pool h) \<union> {?x}" for n l
    using that assms(4) by (auto simp: list_all_iff Trim_valid_name CompareNoCase_valid)
  then obtain n ps qs where "pick names_line ns (simple_pool h @ [?x]) = ps @ (n, ?x) # qs" "simple_picks ns h = ps @ qs"
    using pick_extra [of ns "simple_pool h" ?x names_line "map tolower_classic" "\<lambda>l. map tolower_classic (LineName l)"] fewer
    by (auto simp: count_list_map name [simplified])
  moreover have "transparent cp (set h)" "transparent cp (set (nm @ '': '' @ v @ crlf @ h))" using assms(1) by (auto elim!: transparent_mono)
  ultimately show "fst (SimpleHeader cp (nm @ '': '' @ v @ crlf @ h) sf ns []) \<noteq> fst (SimpleHeader cp h sf ns [])"
    using concat_extra [of ?x "map snd ps" "map snd qs" "simple_signature sf"]
    by (simp only: SimpleHeader_eq simple_pool_Cons [OF valid_plain_name [OF assms(5)] assms(6,8)]) (simp add: crlf_def)
qed

theorem oversigned_field_is_bound_witness:
  "fst (RelaxedHeader latin (''From: eve@example'' @ crlf @ ''From: bob@example'' @ crlf) ([], []) [''From'', ''From''] []) \<noteq>
   fst (RelaxedHeader latin (''From: bob@example'' @ crlf) ([], []) [''From'', ''From''] [])"
proof -
  have "transparent latin (set (''From'' @ '': '' @ ''eve@example'' @ crlf @ ''From: bob@example'' @ crlf) \<union> set (snd ([], [])) \<union> ascii)"
    by (rule transparent_latin)
  moreover have "CHR 0x00 \<notin> set (''From: bob@example'' @ crlf)" "set (fst ([], [])) \<subseteq> ascii"
    "list_all IsValidHeaderFieldName [''From'', ''From'']" "IsValidHeaderFieldName ''From''"
    by (simp_all add: crlf_def IsValidHeaderFieldName_def)
  moreover have "folded_value ''eve@example''" "''eve@example'' = [] \<or> \<not> is_WSP (hd ''eve@example'')"
    "''From: bob@example'' @ crlf = [] \<or> \<not> is_WSP (hd (''From: bob@example'' @ crlf))"
    by (code_simp, simp_all add: is_WSP_def)
  moreover have "length (filter (\<lambda>f. same_name ''From'' (MimeField_GetName f)) (Fields (''From: bob@example'' @ crlf) True)) <
      length (filter (same_name ''From'') [''From'', ''From''])" by code_simp
  ultimately show ?thesis
    using oversigned_field_is_bound [of latin "''From''" "''eve@example''" "''From: bob@example'' @ crlf" "([], [])" "[''From'', ''From'']"] by simp
qed

end
