(* ===== verification/MessageFiles.thy ===== *)
theory MessageFiles
  imports Canonicalization
begin

text \<open>
  \<^verbatim>\<open>PersistentMessage::LoadHeader\<close> and \<^verbatim>\<open>PersistentMessage::LoadBody\<close> of Common/Persistence/PersistentMessage.cpp: the header
  and the body of a message, read from its file in pieces of a configured size. What the file system
  does is a parameter: whether the file opens, and which of the reads succeed. A read
  gives as many bytes as are left, up to the size asked for.

  The theorems: the header is the text up to the first empty line, whatever the size of the reads is; the body is the
  text after it when the line breaks around the empty line and the first byte of the body are in one
  read. Otherwise the search goes on in the body and the text up to its first
  empty line is lost, which \<open>body_cut_at_read_boundary\<close> shows.
\<close>

section \<open>Reading\<close>

record FileReads =
  file_opens :: bool
  read_succeeds :: "nat \<Rightarrow> bool"

definition iReadBufferSize :: int where
  "iReadBufferSize = 50000"

definition ReadSize :: "int \<Rightarrow> nat" where
  "ReadSize configured = (if configured \<le> 0 \<or> configured > iReadBufferSize then nat iReadBufferSize else nat configured)"

lemma ReadSize_pos [simp]: "0 < ReadSize c"
  by (simp add: ReadSize_def iReadBufferSize_def)

lemma ReadSize_not_0 [simp]: "ReadSize c \<noteq> 0"
  by (simp add: ReadSize_def iReadBufferSize_def)

definition empty_line :: AnsiString where
  "empty_line = crlf @ crlf"

fun find_wide :: "16 word list \<Rightarrow> 16 word list \<Rightarrow> nat option" where
  "find_wide [] sub = (if sub = [] then Some 0 else None)"
| "find_wide (x # xs) sub =
     (if take (length sub) (x # xs) = sub then Some 0 else map_option Suc (find_wide xs sub))"

text \<open>The loop of \<^verbatim>\<open>LoadHeader\<close>; \<open>None\<close> is a read that fails.\<close>

function LoadHeaderLoop ::
  "CodePage \<Rightarrow> FileReads \<Rightarrow> int \<Rightarrow> nat \<Rightarrow> AnsiString \<Rightarrow> 16 word list \<Rightarrow> (16 word list \<times> nat option) option" where
  "LoadHeaderLoop cp fr configured k rest sHeaderData =
     (if \<not> read_succeeds fr k then None
      else
        let buf = take (ReadSize configured) rest;
            sHeaderData = (if buf \<noteq> [] then sHeaderData @ widen cp buf else sHeaderData);
            iHeaderEnd = find_wide sHeaderData (widen cp empty_line)
        in if buf = [] \<or> iHeaderEnd \<noteq> None then Some (sHeaderData, iHeaderEnd)
           else LoadHeaderLoop cp fr configured (k + 1) (drop (ReadSize configured) rest) sHeaderData)"
  by pat_completeness auto
termination
  by (relation "measure (\<lambda>(cp, fr, c, k, rest, d). length rest)") (auto simp: neq_Nil_conv)

declare LoadHeaderLoop.simps [simp del]

definition LoadHeader :: "CodePage \<Rightarrow> FileReads \<Rightarrow> int \<Rightarrow> AnsiString \<Rightarrow> AnsiString" where
  "LoadHeader cp fr configured content =
     (if \<not> file_opens fr then []
      else case LoadHeaderLoop cp fr configured 0 content [] of
             None \<Rightarrow> []
           | Some (sHeaderData, None) \<Rightarrow> narrow cp sHeaderData
           | Some (sHeaderData, Some iHeaderEnd) \<Rightarrow> narrow cp (take (iHeaderEnd + 2) sHeaderData))"

function LoadBodyLoop :: "FileReads \<Rightarrow> int \<Rightarrow> nat \<Rightarrow> AnsiString \<Rightarrow> bool \<Rightarrow> AnsiString \<Rightarrow> AnsiString" where
  "LoadBodyLoop fr configured k rest foundHeader retVal =
     (if \<not> read_succeeds fr k then []
      else
        let readData = take (ReadSize configured) rest;
            nbytes = length readData
        in if nbytes = 0 then retVal
           else
             let (readData, foundHeader) =
                   (if \<not> foundHeader then
                      (case Find_str readData empty_line of
                         None \<Rightarrow> (readData, foundHeader)
                       | Some iHeaderEnd \<Rightarrow>
                           let startReadPos = iHeaderEnd + 4
                           in if nbytes > startReadPos then (Mid_count readData startReadPos (nbytes - startReadPos), True)
                              else (readData, foundHeader))
                    else (readData, foundHeader));
                 retVal = (if foundHeader then retVal @ readData else retVal)
             in LoadBodyLoop fr configured (k + 1) (drop (ReadSize configured) rest) foundHeader retVal)"
  by pat_completeness auto
termination
  by (relation "measure (\<lambda>(fr, c, k, rest, f, r). length rest)") (auto simp: neq_Nil_conv)

declare LoadBodyLoop.simps [simp del]

definition LoadBody :: "FileReads \<Rightarrow> int \<Rightarrow> AnsiString \<Rightarrow> AnsiString" where
  "LoadBody fr configured content =
     (if \<not> file_opens fr then [] else LoadBodyLoop fr configured 0 content False [])"

section \<open>Facts: searching\<close>

definition occurs_at :: "AnsiString \<Rightarrow> AnsiString \<Rightarrow> nat \<Rightarrow> bool" where
  "occurs_at s t i \<longleftrightarrow> i + length t \<le> length s \<and> take (length t) (drop i s) = t"

lemma occurs_at_Cons: "occurs_at (x # s) t (Suc i) \<longleftrightarrow> occurs_at s t i"
  by (simp add: occurs_at_def)

lemma Find_str_occurs:
  "(case Find_str s t of None \<Rightarrow> (\<forall>j. \<not> occurs_at s t j) | Some i \<Rightarrow> occurs_at s t i \<and> (\<forall>j < i. \<not> occurs_at s t j))"
proof (induction s)
  case Nil
  then show ?case by (auto simp: occurs_at_def)
next
  case (Cons x s)
  have zero: "occurs_at (x # s) t 0 \<longleftrightarrow> take (length t) (x # s) = t"
    by (auto simp: occurs_at_def dest: arg_cong [where f = length])
  show ?case
  proof (cases "take (length t) (x # s) = t")
    case True
    with zero show ?thesis by simp
  next
    case False
    then have "\<forall>j. occurs_at (x # s) t j \<longrightarrow> (\<exists>i. j = Suc i \<and> occurs_at s t i)"
      using zero occurs_at_Cons by (metis not0_implies_Suc)
    with Cons False show ?thesis by (auto simp: occurs_at_Cons less_Suc_eq_0_disj zero split: option.splits)
  qed
qed

lemma Find_str_None: "Find_str s t = None \<longleftrightarrow> (\<forall>j. \<not> occurs_at s t j)"
  using Find_str_occurs [of s t] by (auto split: option.splits)

lemma Find_str_Some: "Find_str s t = Some i \<longleftrightarrow> occurs_at s t i \<and> (\<forall>j < i. \<not> occurs_at s t j)"
  using Find_str_occurs [of s t] by (auto split: option.splits) (metis linorder_neqE_nat)

lemma occurs_at_take: "occurs_at (take n s) t i \<longleftrightarrow> occurs_at s t i \<and> i + length t \<le> n"
proof -
  have "take (length t) (drop i (take n s)) = take (length t) (drop i s)" if "i + length t \<le> n"
    using that by (simp add: drop_take min_def)
  then show ?thesis by (auto simp: occurs_at_def)
qed

lemma occurs_at_drop: "n \<le> length s \<Longrightarrow> occurs_at (drop n s) t i \<longleftrightarrow> occurs_at s t (n + i)"
  by (auto simp: occurs_at_def add.commute)

lemma length_empty_line [simp]: "length empty_line = 4"
  by (simp add: empty_line_def)

lemma empty_line_not_Nil [simp]: "empty_line \<noteq> []"
  by (simp add: empty_line_def)

section \<open>Facts: the body\<close>

lemma LoadBodyLoop_found:
  "(\<And>k. read_succeeds fr k) \<Longrightarrow> LoadBodyLoop fr c k rest True r = r @ rest"
proof (induction "length rest" arbitrary: k rest r rule: less_induct)
  case less
  show ?case
  proof (cases "rest = []")
    case True
    with less.prems show ?thesis by (subst LoadBodyLoop.simps) simp
  next
    case False
    then have "length (drop (ReadSize c) rest) < length rest" by simp
    from less.hyps [OF this less.prems] False less.prems show ?thesis
      by (subst LoadBodyLoop.simps) (simp add: Let_def)
  qed
qed

text \<open>The position of the empty line is in one read with the byte after it, or nothing follows it.\<close>

definition empty_line_in_one_read :: "nat \<Rightarrow> AnsiString \<Rightarrow> bool" where
  "empty_line_in_one_read n content =
     (case Find_str content empty_line of None \<Rightarrow> True | Some i \<Rightarrow> i div n = (i + 4) div n \<or> length content = i + 4)"

definition body_of :: "AnsiString \<Rightarrow> AnsiString" where
  "body_of content = (case Find_str content empty_line of None \<Rightarrow> [] | Some i \<Rightarrow> drop (i + 4) content)"

lemma LoadBodyLoop_not_found:
  assumes "\<And>k. read_succeeds fr k" "\<And>i. occurs_at rest empty_line i \<Longrightarrow> length rest = i + 4"
  shows "LoadBodyLoop fr c k rest False [] = []"
  using assms(2)
proof (induction "length rest" arbitrary: k rest rule: less_induct)
  case less
  show ?case
  proof (cases "rest = []")
    case True
    with assms(1) show ?thesis by (subst LoadBodyLoop.simps) simp
  next
    case False
    let ?n = "ReadSize c" and ?chunk = "take (ReadSize c) rest"
    have "length (drop ?n rest) = i + 4" if "occurs_at (drop ?n rest) empty_line i" for i
    proof (cases "?n \<le> length rest")
      case True
      with that less.prems [of "?n + i"] show ?thesis by (simp add: occurs_at_drop)
    qed (use that in \<open>simp add: occurs_at_def\<close>)
    moreover have "length (drop ?n rest) < length rest" using False by simp
    ultimately have IH: "LoadBodyLoop fr c (k + 1) (drop ?n rest) False [] = []" using less.hyps by blast
    have "case Find_str ?chunk empty_line of None \<Rightarrow> True | Some i \<Rightarrow> \<not> length ?chunk > i + 4"
      using less.prems by (auto simp: Find_str_Some occurs_at_take split: option.splits)
    then show ?thesis using False IH assms(1) by (subst LoadBodyLoop.simps) (auto simp: Let_def split: option.splits)
  qed
qed

lemma LoadBodyLoop_body:
  assumes "\<And>k. read_succeeds fr k" "occurs_at rest empty_line i" "\<And>j. j < i \<Longrightarrow> \<not> occurs_at rest empty_line j"
    and "i div ReadSize c = (i + 4) div ReadSize c" "i + 4 < length rest"
  shows "LoadBodyLoop fr c k rest False [] = drop (i + 4) rest"
  using assms(2-5)
proof (induction "length rest" arbitrary: k rest i rule: less_induct)
  case less
  let ?n = "ReadSize c" and ?chunk = "take (ReadSize c) rest"
  have "rest \<noteq> []" using less.prems(4) by auto
  show ?case
  proof (cases "i < ?n")
    case True
    with less.prems(3) have "i + 4 < ?n" by (metis ReadSize_pos div_less div_less_iff_less_mult mult_1 not_less_zero div_eq_0_iff neq0_conv)
    with less.prems have "Find_str ?chunk empty_line = Some i" by (auto simp: Find_str_Some occurs_at_take)
    moreover have "length ?chunk > i + 4" using \<open>i + 4 < ?n\<close> less.prems(4) by simp
    moreover have "drop (i + 4) ?chunk @ drop ?n rest = drop (i + 4) rest"
      using \<open>i + 4 < ?n\<close> append_take_drop_id [of "?n - (i + 4)" "drop (i + 4) rest"] by (simp add: drop_take)
    ultimately show ?thesis using \<open>rest \<noteq> []\<close> assms(1) LoadBodyLoop_found [OF assms(1)]
      by (subst LoadBodyLoop.simps) (simp add: Let_def)
  next
    case False
    then have n: "?n \<le> i" "?n \<le> length rest" using less.prems(4) by auto
    have "Find_str ?chunk empty_line = None" using less.prems(2) n by (auto simp: Find_str_None occurs_at_take)
    then have step: "LoadBodyLoop fr c k rest False [] = LoadBodyLoop fr c (k + 1) (drop ?n rest) False []"
      using \<open>rest \<noteq> []\<close> assms(1) by (subst LoadBodyLoop.simps) (simp add: Let_def)
    have "(i - ?n) div ?n = (i - ?n + 4) div ?n" using less.prems(3) n by (simp add: le_div_geq) 
    moreover have "length (drop ?n rest) < length rest" using \<open>rest \<noteq> []\<close> by simp
    moreover have "occurs_at (drop ?n rest) empty_line (i - ?n)" "\<And>j. j < i - ?n \<Longrightarrow> \<not> occurs_at (drop ?n rest) empty_line j"
      using less.prems(1,2) n by (auto simp: occurs_at_drop)
    ultimately have "LoadBodyLoop fr c (k + 1) (drop ?n rest) False [] = drop (i - ?n + 4) (drop ?n rest)"
      using less.hyps less.prems(4) n by auto
    with step n show ?thesis by simp
  qed
qed

lemma LoadBody_eq:
  assumes "file_opens fr" "\<And>k. read_succeeds fr k" "empty_line_in_one_read (ReadSize configured) content"
  shows "LoadBody fr configured content = body_of content"
proof (cases "Find_str content empty_line")
  case None
  then have "\<not> occurs_at content empty_line j" for j by (simp add: Find_str_None)
  then have "LoadBodyLoop fr configured 0 content False [] = []" by (intro LoadBodyLoop_not_found [OF assms(2)]) blast
  with None assms(1) show ?thesis by (simp add: LoadBody_def body_of_def)
next
  case (Some i)
  then have i: "occurs_at content empty_line i" "\<And>j. j < i \<Longrightarrow> \<not> occurs_at content empty_line j" by (auto simp: Find_str_Some)
  show ?thesis
  proof (cases "length content = i + 4")
    case True
    have "length content = j + 4" if "occurs_at content empty_line j" for j
      using that i(2) [of j] True by (cases "j < i") (auto simp: occurs_at_def)
    with LoadBodyLoop_not_found [OF assms(2)] Some True assms(1) show ?thesis by (simp add: LoadBody_def body_of_def)
  next
    case False
    with i(1) have "i + 4 < length content" by (simp add: occurs_at_def)
    moreover have "i div ReadSize configured = (i + 4) div ReadSize configured"
      using assms(3) Some False by (simp add: empty_line_in_one_read_def)
    ultimately show ?thesis using LoadBodyLoop_body [OF assms(2) i] Some assms(1) by (simp add: LoadBody_def body_of_def)
  qed
qed

text \<open>
  C25: The body of a message is the text after the first empty line, for every size of the reads and every message whose
  empty line, with the byte after it, comes in one read; a message without an empty line or with nothing after
  it has an empty body.
\<close>

theorem body_is_loaded:
  assumes "file_opens fr" "\<And>k. read_succeeds fr k" "empty_line_in_one_read (ReadSize configured) content"
  shows "LoadBody fr configured content = body_of content"
  using assms by (rule LoadBody_eq)

definition all_reads :: FileReads where
  "all_reads = \<lparr> file_opens = True, read_succeeds = (\<lambda>k. True) \<rparr>"

theorem body_is_loaded_witness: "LoadBody all_reads 9 (''A:b'' @ empty_line @ ''Text'') = ''Text''"
proof -
  have "empty_line_in_one_read (ReadSize 9) (''A:b'' @ empty_line @ ''Text'')" by code_simp
  from body_is_loaded [OF _ _ this] have "LoadBody all_reads 9 (''A:b'' @ empty_line @ ''Text'') = body_of (''A:b'' @ empty_line @ ''Text'')"
    by (simp add: all_reads_def)
  also have "\<dots> = ''Text''" by code_simp
  finally show ?thesis .
qed

text \<open>A read whose empty line, if it has one, ends with the read leaves nothing behind.\<close>

lemma LoadBodyLoop_forgets:
  assumes "\<And>k. read_succeeds fr k" "length p = ReadSize c" "\<And>i. occurs_at p empty_line i \<Longrightarrow> i + 4 = length p"
  shows "LoadBodyLoop fr c k (p @ rest) False [] = LoadBodyLoop fr c (k + 1) rest False []"
proof -
  have "p \<noteq> []" using assms(2) ReadSize_pos [of c] by auto
  moreover have "case Find_str p empty_line of None \<Rightarrow> True | Some i \<Rightarrow> \<not> length p > i + 4"
    using assms(3) by (auto simp: Find_str_Some split: option.splits)
  moreover have "take (ReadSize c) (p @ rest) = p" "drop (ReadSize c) (p @ rest) = rest" by (simp_all flip: assms(2))
  ultimately show ?thesis using assms(1) by (subst LoadBodyLoop.simps) (auto simp: Let_def split: option.splits)
qed

text \<open>
  When a read ends inside the empty line after the header, or right after it, the text up to the next empty
  line is lost from the body. A signature made or verified over such a message covers the second paragraph alone, so text
  can be put before a signed body without the body hash changing.
\<close>

theorem body_cut_at_read_boundary:
  assumes "file_opens fr" "\<And>k. read_succeeds fr k" "empty_line = s1 @ s2" "length (h @ s1) = ReadSize configured"
    and "Find_str (h @ empty_line) empty_line = Some (length h)"
    and "Find_str (s2 @ first @ empty_line) empty_line = Some (length (s2 @ first))" "second \<noteq> []"
    and "empty_line_in_one_read (ReadSize configured) (s2 @ first @ empty_line @ second)"
  shows "LoadBody fr configured (h @ empty_line @ first @ empty_line @ second) = second"
proof -
  let ?rest = "s2 @ first @ empty_line @ second"
  have "i + 4 = length (h @ s1)" if "occurs_at (h @ s1) empty_line i" for i
  proof -
    have "h @ s1 = take (length (h @ s1)) (h @ empty_line)" unfolding assms(3) by simp
    then have "occurs_at (h @ empty_line) empty_line i" "i + 4 \<le> length (h @ s1)"
      using that occurs_at_take [of "length (h @ s1)" "h @ empty_line" empty_line i] by simp_all
    moreover then have "\<not> i < length h" using assms(5) by (auto simp: Find_str_Some)
    moreover have "length s1 \<le> 4" using arg_cong [OF assms(3), of length] by simp
    ultimately show ?thesis by simp
  qed
  moreover have "h @ empty_line @ first @ empty_line @ second = (h @ s1) @ ?rest"
    using arg_cong [OF assms(3), of "\<lambda>x. h @ x @ first @ empty_line @ second"] by simp
  ultimately have "LoadBody fr configured (h @ empty_line @ first @ empty_line @ second) = LoadBodyLoop fr configured 1 ?rest False []"
    using LoadBodyLoop_forgets [OF assms(2) assms(4), of 0 ?rest] assms(1) by (simp only: LoadBody_def) simp
  moreover have "occurs_at ?rest empty_line (length (s2 @ first))" by (simp add: occurs_at_def)
  moreover have "\<not> occurs_at ?rest empty_line j" if "j < length (s2 @ first)" for j
  proof -
    have "s2 @ first @ empty_line = take (length (s2 @ first) + 4) ?rest" by simp
    then show ?thesis using that assms(6) occurs_at_take [of "length (s2 @ first) + 4" ?rest empty_line j] by (auto simp: Find_str_Some)
  qed
  moreover from calculation have "Find_str ?rest empty_line = Some (length (s2 @ first))" by (simp add: Find_str_Some)
  then have "length (s2 @ first) div ReadSize configured = (length (s2 @ first) + 4) div ReadSize configured"
    using assms(7,8) by (simp add: empty_line_in_one_read_def)
  ultimately show ?thesis using LoadBodyLoop_body [OF assms(2), of ?rest "length (s2 @ first)" configured 1] assms(7) by simp
qed

theorem body_cut_at_read_boundary_witness:
  "LoadBody all_reads 5 (''A:b'' @ empty_line @ ''Pay'' @ empty_line @ ''Hi'') = ''Hi'' \<and>
   body_of (''A:b'' @ empty_line @ ''Pay'' @ empty_line @ ''Hi'') = ''Pay'' @ empty_line @ ''Hi''"
proof -
  have "length (''A:b'' @ crlf) = ReadSize 5" "Find_str (''A:b'' @ empty_line) empty_line = Some (length ''A:b'')"
    "Find_str (crlf @ ''Pay'' @ empty_line) empty_line = Some (length (crlf @ ''Pay''))"
    "empty_line_in_one_read (ReadSize 5) (crlf @ ''Pay'' @ empty_line @ ''Hi'')"
    by (code_simp, code_simp, code_simp, code_simp)
  then have "LoadBody all_reads 5 (''A:b'' @ empty_line @ ''Pay'' @ empty_line @ ''Hi'') = ''Hi''"
    using body_cut_at_read_boundary [of all_reads crlf crlf "''A:b''" 5 "''Pay''" "''Hi''"] by (simp add: all_reads_def empty_line_def)
  moreover have "body_of (''A:b'' @ empty_line @ ''Pay'' @ empty_line @ ''Hi'') = ''Pay'' @ empty_line @ ''Hi''" by code_simp
  ultimately show ?thesis by simp
qed

section \<open>The header\<close>

definition header_of :: "AnsiString \<Rightarrow> AnsiString" where
  "header_of content = (case Find_str content empty_line of None \<Rightarrow> content | Some i \<Rightarrow> take (i + 2) content)"

lemma find_wide_map:
  assumes "inj_on w S" "set t \<subseteq> S" "set s \<subseteq> S"
  shows "find_wide (map w s) (map w t) = Find_str s t"
  using assms(3)
proof (induction s)
  case (Cons x s)
  have "set (take (length t) (x # s)) \<subseteq> S" using Cons.prems set_take_subset by (rule subset_trans [rotated])
  then have "map w (take (length t) (x # s)) = map w t \<longleftrightarrow> take (length t) (x # s) = t" using assms(1,2) by (simp add: inj_on_map_eq_map inj_on_subset)
  moreover have "take (length t) (w x # map w s) = map w (take (length t) (x # s))" by (simp only: list.map(2) [symmetric] take_map)
  ultimately show ?case using Cons by simp
qed simp

lemma LoadHeaderLoop_found:
  assumes cp: "inj_on w S" "\<And>s. set s \<subseteq> S \<Longrightarrow> widen cp s = map w s" "set content \<subseteq> S" "set empty_line \<subseteq> S"
    and reads: "\<And>k. read_succeeds fr k" and m: "m \<le> length content" "Find_str (take m content) empty_line = None"
  shows "\<exists>n. LoadHeaderLoop cp fr configured k (drop m content) (map w (take m content)) = Some (map w (take n content), Find_str content empty_line) \<and>
    (case Find_str content empty_line of None \<Rightarrow> n = length content | Some i \<Rightarrow> i + 4 \<le> n)"
  using m
proof (induction "length content - m" arbitrary: m k rule: less_induct)
  case less
  let ?n = "min (length content) (m + ReadSize configured)"
  have buf: "take m content @ take (ReadSize configured) (drop m content) = take ?n content"
    using less.prems(1) by (simp add: take_add [symmetric] min_def)
  have wide: "widen cp (take (ReadSize configured) (drop m content)) = map w (take (ReadSize configured) (drop m content))"
    using cp(2,3) by (meson set_take_subset set_drop_subset subset_trans)
  have data: "map w (take m content) @ map w (take (ReadSize configured) (drop m content)) = map w (take ?n content)"
    unfolding map_append [symmetric] buf ..
  have "set (take ?n content) \<subseteq> S" using cp(3) set_take_subset by (rule subset_trans [rotated])
  note find = find_wide_map [OF cp(1,4) this, folded cp(2) [OF cp(4)]]
  show ?case
  proof (cases "m = length content")
    case True
    then have "find_wide (map w content) (widen cp empty_line) = None" using less.prems(2) find by simp
    with True reads less.prems(2) show ?thesis
      by (subst LoadHeaderLoop.simps) (auto intro!: exI [of _ "length content"])
  next
    case False
    then have nonempty: "take (ReadSize configured) (drop m content) \<noteq> []" and later: "m < ?n" using less.prems(1) by auto
    show ?thesis
    proof (cases "Find_str (take ?n content) empty_line")
      case None
      have "drop (ReadSize configured) (drop m content) = drop ?n content" by (simp add: min_def add.commute)
      with None nonempty reads data wide find
      have "LoadHeaderLoop cp fr configured k (drop m content) (map w (take m content)) =
        LoadHeaderLoop cp fr configured (k + 1) (drop ?n content) (map w (take ?n content))"
        by (subst LoadHeaderLoop.simps) (simp add: Let_def)
      moreover have "length content - ?n < length content - m" using later by linarith
      ultimately show ?thesis using less.hyps [of ?n "k + 1"] None by simp
    next
      case (Some i)
      then have "Find_str content empty_line = Some i" "i + 4 \<le> ?n"
        unfolding Find_str_Some occurs_at_take length_empty_line by (meson add_le_mono1 le_trans less_imp_le)+
      with Some nonempty reads data wide find show ?thesis
        by (subst LoadHeaderLoop.simps) (auto simp: Let_def intro!: exI [of _ ?n])
    qed
  qed
qed

lemma LoadHeader_eq:
  assumes "transparent cp (set content \<union> set crlf)" "file_opens fr" "\<And>k. read_succeeds fr k"
  shows "LoadHeader cp fr configured content = header_of content"
proof -
  from assms(1) obtain w where w: "\<And>s. set s \<subseteq> set content \<union> set crlf \<Longrightarrow> widen cp s = map w s \<and> narrow cp (map w s) = s"
    unfolding transparent_def by blast
  have "inj_on w (set content \<union> set crlf)"
  proof (rule inj_onI)
    fix x y assume xy: "x \<in> set content \<union> set crlf" "y \<in> set content \<union> set crlf" "w x = w y"
    have "set [x] \<subseteq> set content \<union> set crlf" "set [y] \<subseteq> set content \<union> set crlf" using xy(1,2) by simp_all
    from this [THEN w, THEN conjunct2] have "narrow cp [w x] = [x]" "narrow cp [w y] = [y]" unfolding list.map .
    then show "x = y" unfolding xy(3) by (metis list.inject)
  qed
  then have "\<exists>n. LoadHeaderLoop cp fr configured 0 (drop 0 content) (map w (take 0 content)) = Some (map w (take n content), Find_str content empty_line) \<and>
    (case Find_str content empty_line of None \<Rightarrow> n = length content | Some i \<Rightarrow> i + 4 \<le> n)"
    by (rule LoadHeaderLoop_found) (use w assms(3) in \<open>simp_all add: empty_line_def\<close>)
  then obtain n where n: "LoadHeaderLoop cp fr configured 0 content [] = Some (map w (take n content), Find_str content empty_line)"
    "case Find_str content empty_line of None \<Rightarrow> n = length content | Some i \<Rightarrow> i + 4 \<le> n"
    by auto
  have take: "narrow cp (map w (take j content)) = take j content" for j
    using w [of "take j content"] set_take_subset [of j content] by (meson le_supI1)
  from take [of "length content"] n assms(2) take show ?thesis
    by (cases "Find_str content empty_line") (simp_all add: LoadHeader_def header_of_def take_map min_def)
qed

text \<open>
  The header of a message is the text up to the first empty line, its last line break included, for every size of the
  reads; a message without an empty line is all header.
\<close>

theorem header_is_loaded:
  assumes "transparent cp (set content \<union> set crlf)" "file_opens fr" "\<And>k. read_succeeds fr k"
  shows "LoadHeader cp fr configured content = header_of content"
  using assms by (rule LoadHeader_eq)

theorem header_is_loaded_witness: "LoadHeader latin all_reads 3 (''A:b'' @ empty_line @ ''Text'') = ''A:b'' @ crlf"
proof -
  have "LoadHeader latin all_reads 3 (''A:b'' @ empty_line @ ''Text'') = header_of (''A:b'' @ empty_line @ ''Text'')"
    by (rule header_is_loaded [OF transparent_latin]) (simp_all add: all_reads_def)
  then show ?thesis by (simp add: header_of_def empty_line_def crlf_def)
qed

end
