(* ===== verification/DKIM.thy ===== *)
theory DKIM
  imports SignedHeaders MessageFiles "HOL-Library.AList"
begin

text \<open>
  Verification of DKIM signatures: Common/AntiSpam/DKIM/DKIMParameters.cpp and the verifying half of
  Common/AntiSpam/DKIM/DKIM.cpp. The cryptographic functions are those of OpenSSL and are the record \<open>OpenSSL\<close>; the DNS, the clock,
  the reads of the message file, the regular expression behind \<^verbatim>\<open>StringParser::WildcardMatch\<close> and the settings are the record
  \<open>DkimEnv\<close>. The DNS, the clock and the reads may answer each signature of a message differently, so they take the number of the signature.

  The theorems: a signature passes only when every check has succeeded; the verdict on a message is that of its best
  signature; a key in test mode turns failures into no assertion; an expiry date is honoured.
\<close>

section \<open>What is outside\<close>

datatype HashType = SHA1 | SHA256 | MD5

record 'key OpenSSL =
  EVP_Digest :: "HashType \<Rightarrow> AnsiString \<Rightarrow> AnsiString option"
  d2i_PUBKEY :: "AnsiString \<Rightarrow> 'key option"
  is_RSA :: "'key \<Rightarrow> bool"
  EVP_PKEY_bits :: "'key \<Rightarrow> int"
  new_raw_public_key :: "AnsiString \<Rightarrow> 'key option"
  EVP_Verify :: "HashType \<Rightarrow> AnsiString \<Rightarrow> AnsiString \<Rightarrow> 'key \<Rightarrow> bool"
  EVP_DigestVerify :: "AnsiString \<Rightarrow> AnsiString \<Rightarrow> 'key \<Rightarrow> bool"

record DkimEnv =
  cpage :: CodePage
  size_known :: bool
  header_reads :: FileReads
  body_reads :: "nat \<Rightarrow> FileReads"
  LoadHeaderReadSize :: int
  LoadBodyReadSize :: int
  GetTXTRecords :: "nat \<Rightarrow> AnsiString \<Rightarrow> AnsiString list option"
  verification_time :: "nat \<Rightarrow> 64 word"
  WildcardMatch :: "AnsiString \<Rightarrow> AnsiString \<Rightarrow> bool"
  DkimAcceptSha1 :: bool
  DKIMEnforceSignatureExpiry :: bool
  DKIMExpiryClockSkewSeconds :: int

section \<open>Tags\<close>

type_synonym DKIMParameters = "(AnsiString \<times> AnsiString) list"

definition DKIMQPDecode :: "AnsiString \<Rightarrow> AnsiString" where
  "DKIMQPDecode input = MimeCodeQP_Decode (Replace (Replace (Replace input '' '' []) crlf []) [CHR 0x09] [])"

definition LoadParameter :: "AnsiString \<Rightarrow> DKIMParameters \<Rightarrow> DKIMParameters" where
  "LoadParameter parameter parameters =
     (case Find_str parameter ''='' of
        None \<Rightarrow> parameters
      | Some equalsPos \<Rightarrow>
          let paramName = Trim (Mid_count parameter 0 equalsPos);
              paramValue = Trim (Mid parameter (equalsPos + 1));
              paramValue = (if paramName = ''h'' then Replace paramValue '' '' []
                            else if paramName = ''i'' then DKIMQPDecode paramValue
                            else if paramName = ''b'' then Replace paramValue '' '' []
                            else paramValue)
          in AList.update paramName paramValue parameters)"

definition DKIMParameters_Load :: "CodePage \<Rightarrow> AnsiString \<Rightarrow> DKIMParameters" where
  "DKIMParameters_Load cp parameters = fold LoadParameter (SplitStringAnsi (through_wide cp) parameters CHR '';'') []"

definition GetIsSet :: "DKIMParameters \<Rightarrow> AnsiString \<Rightarrow> bool" where
  "GetIsSet parameters paramName \<longleftrightarrow> map_of parameters paramName \<noteq> None"

definition GetParam :: "DKIMParameters \<Rightarrow> AnsiString \<Rightarrow> AnsiString" where
  "GetParam parameters paramName = (case map_of parameters paramName of None \<Rightarrow> [] | Some v \<Rightarrow> v)"

definition GetParamCount :: "DKIMParameters \<Rightarrow> nat" where
  "GetParamCount parameters = length parameters"

section \<open>The fields of a message\<close>

datatype DkimResult = DkimNeutral | DkimPass | DkimTempFail | DkimPermFail

fun RankSignatureResult :: "DkimResult \<Rightarrow> nat" where
  "RankSignatureResult DkimPass = 4"
| "RankSignatureResult DkimPermFail = 3"
| "RankSignatureResult DkimTempFail = 2"
| "RankSignatureResult DkimNeutral = 1"

definition MaxSignaturesToVerify :: nat where
  "MaxSignaturesToVerify = 10"

text \<open>The signature fields that are verified, and whether the message has more.\<close>

fun SignatureFieldLoop :: "MimeField list \<Rightarrow> (AnsiString \<times> AnsiString) list \<Rightarrow> nat \<Rightarrow> (AnsiString \<times> AnsiString) list \<times> nat" where
  "SignatureFieldLoop [] result signatureFieldCount = (result, signatureFieldCount)"
| "SignatureFieldLoop (f # fds) result signatureFieldCount =
     (let name = MimeField_GetName f
      in if CompareNoCase name ''DKIM-Signature'' = 0 then
           SignatureFieldLoop fds (if length result < MaxSignaturesToVerify then result @ [(name, MimeField_GetValue f)] else result)
             (signatureFieldCount + 1)
         else SignatureFieldLoop fds result signatureFieldCount)"

definition GetSignatureFields :: "MimeField list \<Rightarrow> (AnsiString \<times> AnsiString) list \<times> bool" where
  "GetSignatureFields fds =
     (let (result, signatureFieldCount) = SignatureFieldLoop fds [] 0
      in (result, signatureFieldCount > MaxSignaturesToVerify))"

section \<open>The checks on one signature\<close>

definition ValidateHeaderContents :: "DkimEnv \<Rightarrow> DKIMParameters \<Rightarrow> bool" where
  "ValidateHeaderContents env ps =
     (let tagH = GetParam ps ''h'';
          tagQ = GetParam ps ''q'';
          tagA = GetParam ps ''a'';
          tagD = GetParam ps ''d'';
          tagI = GetParam ps ''i'';
          tagIDomain = ExtractDomain tagI
      in if GetParam ps ''v'' \<noteq> ''1'' then False
         else if tagQ \<noteq> [] \<and> tagQ \<noteq> ''dns/txt'' then False
         else if tagA = [] then False
         else if GetParam ps ''b'' = [] then False
         else if GetParam ps ''bh'' = [] then False
         else if tagD = [] then False
         else if tagH = [] then False
         else if tagA \<noteq> ''rsa-sha1'' \<and> tagA \<noteq> ''rsa-sha256'' \<and> tagA \<noteq> ''ed25519-sha256'' then False
         else if tagA = ''rsa-sha1'' \<and> \<not> DkimAcceptSha1 env then False
         else if tagI \<noteq> [] \<and> CompareNoCase tagIDomain tagD \<noteq> 0 \<and> \<not> EndsWith tagIDomain (''.'' @ tagD) then False
         else list_ex (\<lambda>headerField. MakeLower (Trim headerField) = ''from'') (SplitStringAnsi (through_wide (cpage env)) tagH CHR '':''))"

text \<open>\<^verbatim>\<open>_atoi64\<close> saturates, and the sum of two 64 bit numbers wraps.\<close>

definition atoi64 :: "AnsiString \<Rightarrow> 64 word" where
  "atoi64 s = word_of_int (min (2 ^ 63 - 1) (digits_value s))"

definition IsSignatureExpired :: "AnsiString \<Rightarrow> 64 word \<Rightarrow> int \<Rightarrow> bool" where
  "IsSignatureExpired tagX verificationTime toleranceSeconds =
     (if tagX = [] then False
      else if length tagX > 19 then False
      else if \<not> list_all isdigit_classic tagX then False
      else sint verificationTime > sint (atoi64 tagX + word_of_int toleranceSeconds))"

text \<open>The methods of the c tag: for the header, and for the body.\<close>

definition CanonicalizationMethods :: "AnsiString \<Rightarrow> AnsiString \<times> AnsiString" where
  "CanonicalizationMethods method =
     (if method = [] then (''simple'', ''simple'')
      else case Find_str method ''/'' of
             Some separator \<Rightarrow>
               let headerMethod = Mid_count method 0 separator;
                   bodyMethod = Mid method (separator + 1)
               in (if headerMethod = [] then ''simple'' else headerMethod, if bodyMethod = [] then ''simple'' else bodyMethod)
           | None \<Rightarrow> (method, ''simple''))"

datatype CanonicalizeMethod = Simple | Relaxed

definition MethodNamed :: "AnsiString \<Rightarrow> CanonicalizeMethod" where
  "MethodNamed name = (if name = ''simple'' then Simple else Relaxed)"

fun CanonicalizeBody :: "CodePage \<Rightarrow> CanonicalizeMethod \<Rightarrow> AnsiString \<Rightarrow> AnsiString" where
  "CanonicalizeBody cp Simple body = SimpleBody body"
| "CanonicalizeBody cp Relaxed body = RelaxedBody cp body"

fun CanonicalizeHeader ::
  "CodePage \<Rightarrow> CanonicalizeMethod \<Rightarrow> AnsiString \<Rightarrow> AnsiString \<times> AnsiString \<Rightarrow> AnsiString list \<Rightarrow> AnsiString \<Rightarrow> AnsiString \<times> AnsiString" where
  "CanonicalizeHeader cp Simple = SimpleHeader cp"
| "CanonicalizeHeader cp Relaxed = RelaxedHeader cp"

definition ValidateDNSEntry :: "DkimEnv \<Rightarrow> DKIMParameters \<Rightarrow> DKIMParameters \<Rightarrow> bool" where
  "ValidateDNSEntry env entryParams headerParams =
     (let tagV = GetParam entryParams ''v'';
          tagILocal = ExtractAddress (GetParam headerParams ''i'');
          tagG = GetParam entryParams ''g'';
          tagH = GetParam entryParams ''h'';
          tagA = GetParam headerParams ''a'';
          usedHash = (case Find_str tagA ''-'' of Some dashPos \<Rightarrow> Mid tagA (dashPos + 1) | None \<Rightarrow> tagA)
      in if GetParamCount entryParams = 0 then False
         else if tagV \<noteq> [] \<and> tagV \<noteq> ''DKIM1'' then False
         else if GetParam entryParams ''p'' = [] then False
         else if GetIsSet entryParams ''g'' \<and> (if tagILocal = [] then tagG \<noteq> ''*'' else \<not> WildcardMatch env tagG tagILocal) then False
         else if tagH \<noteq> [] \<and> Find_str tagH usedHash = None then False
         else True)"

text \<open>The key and the flags of the first usable record, or the result of a signature without one.\<close>

definition RetrievePublicKey :: "DkimEnv \<Rightarrow> nat \<Rightarrow> DKIMParameters \<Rightarrow> DkimResult + AnsiString \<times> AnsiString" where
  "RetrievePublicKey env k ps =
     (case GetTXTRecords env k (GetParam ps ''s'' @ ''._domainkey.'' @ GetParam ps ''d'') of
        None \<Rightarrow> Inl DkimTempFail
      | Some results \<Rightarrow>
          if results = [] then Inl DkimPermFail
          else case List.find (\<lambda>candidate. ValidateDNSEntry env candidate ps) (map (DKIMParameters_Load (cpage env)) results) of
                 None \<Rightarrow> Inl DkimPermFail
               | Some dnsKeyParams \<Rightarrow>
                   let publicKey = GetParam dnsKeyParams ''p'';
                       flags = GetParam dnsKeyParams ''t'';
                       tagI = GetParam ps ''i''
                   in if publicKey = [] then Inl DkimPermFail
                      else if Find_str flags ''s'' \<noteq> None \<and> tagI \<noteq> [] \<and> CompareNoCase (ExtractDomain tagI) (GetParam ps ''d'') \<noteq> 0
                        then Inl DkimPermFail
                      else Inr (publicKey, flags))"

text \<open>\<^verbatim>\<open>HashCreator::GenerateHashNoSalt\<close> with base64: the final line break of the encoder is cut off.\<close>

definition GenerateHashNoSalt :: "'key OpenSSL \<Rightarrow> HashType \<Rightarrow> AnsiString \<Rightarrow> AnsiString" where
  "GenerateHashNoSalt ssl hash_type inputString =
     (case EVP_Digest ssl hash_type inputString of
        None \<Rightarrow> []
      | Some results \<Rightarrow> let retVal = MimeCodeBase64_Encode True results in Mid_count retVal 0 (length retVal - 2))"

definition ValidateBodyHash :: "'key OpenSSL \<Rightarrow> DkimEnv \<Rightarrow> nat \<Rightarrow> AnsiString \<Rightarrow> DKIMParameters \<Rightarrow> CanonicalizeMethod \<Rightarrow> bool" where
  "ValidateBodyHash ssl env k content ps method =
     (let tagA = GetParam ps ''a'';
          tagBH = Replace (GetParam ps ''bh'') '' '' [];
          messageBody = CanonicalizeBody (cpage env) method (LoadBody (body_reads env k) (LoadBodyReadSize env) content);
          tagBodyLengthCount = GetParam ps ''l'';
          trimmedBodyLength = ttoi tagBodyLengthCount
      in if tagBodyLengthCount \<noteq> [] \<and> \<not> IsNumeric tagBodyLengthCount then False
         else if tagBodyLengthCount \<noteq> [] \<and> trimmedBodyLength > int (length messageBody) then False
         else
           let messageBody = (if tagBodyLengthCount \<noteq> [] then Mid_count messageBody 0 (nat trimmedBodyLength) else messageBody);
               bodyHash = GenerateHashNoSalt ssl (if tagA = ''rsa-sha1'' then SHA1 else SHA256) messageBody
           in tagBH \<noteq> [] \<and> tagBH = c_str bodyHash)"

definition GetPublicKey :: "'key OpenSSL \<Rightarrow> AnsiString \<Rightarrow> 'key option" where
  "GetPublicKey ssl keyData =
     (case d2i_PUBKEY ssl (Base64_Decode keyData) of
        None \<Rightarrow> None
      | Some publicKey \<Rightarrow> if is_RSA ssl publicKey \<and> EVP_PKEY_bits ssl publicKey < 1024 then None else Some publicKey)"

definition VerifyHeaderHash :: "'key OpenSSL \<Rightarrow> AnsiString \<Rightarrow> AnsiString \<Rightarrow> AnsiString \<Rightarrow> AnsiString \<Rightarrow> DkimResult" where
  "VerifyHeaderHash ssl canonicalizedHeader tagA tagB publicKeyString =
     (if tagA = ''ed25519-sha256'' then
        let rawPublicKey = Base64_Decode publicKeyString
        in if length rawPublicKey \<noteq> 32 then DkimPermFail
           else case new_raw_public_key ssl rawPublicKey of
                  None \<Rightarrow> DkimPermFail
                | Some publicKey \<Rightarrow>
                    if EVP_DigestVerify ssl canonicalizedHeader (MimeCodeBase64_Decode tagB) publicKey then DkimPass else DkimPermFail
      else case GetPublicKey ssl publicKeyString of
             None \<Rightarrow> DkimPermFail
           | Some publicKey \<Rightarrow>
               if EVP_Verify ssl (if tagA = ''rsa-sha256'' then SHA256 else SHA1) canonicalizedHeader (MimeCodeBase64_Decode tagB) publicKey
               then DkimPass else DkimPermFail)"

section \<open>One signature, and the message\<close>

definition SignatureParams :: "DkimEnv \<Rightarrow> AnsiString \<times> AnsiString \<Rightarrow> DKIMParameters" where
  "SignatureParams env signatureField = DKIMParameters_Load (cpage env) (UnfoldField (snd signatureField))"

definition VerifySignature :: "'key OpenSSL \<Rightarrow> DkimEnv \<Rightarrow> nat \<Rightarrow> AnsiString \<Rightarrow> AnsiString \<Rightarrow> AnsiString \<times> AnsiString \<Rightarrow> DkimResult" where
  "VerifySignature ssl env k content messageHeader signatureField =
     (let signatureParams = SignatureParams env signatureField;
          (headerMethod, bodyMethod) = CanonicalizationMethods (GetParam signatureParams ''c'')
      in if \<not> ValidateHeaderContents env signatureParams then DkimNeutral
         else if DKIMEnforceSignatureExpiry env \<and>
                 IsSignatureExpired (GetParam signatureParams ''x'') (verification_time env k) (DKIMExpiryClockSkewSeconds env)
           then DkimPermFail
         else case RetrievePublicKey env k signatureParams of
                Inl res \<Rightarrow> res
              | Inr (publicKeyString, flags) \<Rightarrow>
                  let testMode = (Find_str flags ''y'' \<noteq> None)
                  in if \<not> ValidateBodyHash ssl env k content signatureParams (MethodNamed bodyMethod)
                       then (if testMode then DkimNeutral else DkimPermFail)
                     else
                       let headerFields = SplitStringAnsi (through_wide (cpage env)) (GetParam signatureParams ''h'') CHR '':'';
                           canonicalizedHeader = fst (CanonicalizeHeader (cpage env) (MethodNamed headerMethod) messageHeader signatureField headerFields []);
                           result = VerifyHeaderHash ssl canonicalizedHeader (GetParam signatureParams ''a'') (GetParam signatureParams ''b'') publicKeyString
                       in if testMode \<and> result \<noteq> DkimPass then DkimNeutral else result)"

definition SigningDomain :: "DkimEnv \<Rightarrow> AnsiString \<times> AnsiString \<Rightarrow> AnsiString" where
  "SigningDomain env signatureField = MakeLower (GetParam (SignatureParams env signatureField) ''d'')"

definition SigningSelector :: "DkimEnv \<Rightarrow> AnsiString \<times> AnsiString \<Rightarrow> AnsiString" where
  "SigningSelector env signatureField = GetParam (SignatureParams env signatureField) ''s''"

fun VerifyLoop ::
  "'key OpenSSL \<Rightarrow> DkimEnv \<Rightarrow> AnsiString \<Rightarrow> AnsiString \<Rightarrow> nat \<Rightarrow> (AnsiString \<times> AnsiString) list \<Rightarrow>
   DkimResult \<times> AnsiString list \<times> AnsiString list \<Rightarrow> DkimResult \<times> AnsiString list \<times> AnsiString list" where
  "VerifyLoop ssl env content messageHeader k [] st = st"
| "VerifyLoop ssl env content messageHeader k (signatureField # signatureFields) (result, passingDomains, passingSelectors) =
     (let signingDomain = SigningDomain env signatureField;
          signingSelector = SigningSelector env signatureField;
          signatureResult = VerifySignature ssl env k content messageHeader signatureField;
          (passingDomains, passingSelectors) =
            (if signatureResult = DkimPass \<and> signingDomain \<noteq> [] then (passingDomains @ [signingDomain], passingSelectors @ [signingSelector])
             else (passingDomains, passingSelectors));
          result = (if RankSignatureResult signatureResult > RankSignatureResult result then signatureResult else result)
      in VerifyLoop ssl env content messageHeader (k + 1) signatureFields (result, passingDomains, passingSelectors))"

definition MaxFileSize :: nat where
  "MaxFileSize = 1024 * 1024 * 50"

definition FileSize :: "bool \<Rightarrow> AnsiString \<Rightarrow> nat" where
  "FileSize known content = (if known then min (length content) (2 ^ 31 - 1) else 0)"

definition DKIM_Verify :: "'key OpenSSL \<Rightarrow> DkimEnv \<Rightarrow> AnsiString \<Rightarrow> DkimResult \<times> AnsiString list \<times> AnsiString list" where
  "DKIM_Verify ssl env content =
     (if FileSize (size_known env) content > MaxFileSize then (DkimNeutral, [], [])
      else
        let messageHeader = LoadHeader (cpage env) (header_reads env) (LoadHeaderReadSize env) content;
            (signatureFields, moreSignaturesThanWeVerify) = GetSignatureFields (Fields messageHeader False)
        in if signatureFields = [] then (DkimNeutral, [], [])
           else
             let (result, passingDomains, passingSelectors) = VerifyLoop ssl env content messageHeader 0 signatureFields (DkimNeutral, [], [])
             in (if moreSignaturesThanWeVerify \<and> result = DkimPermFail then DkimNeutral else result, passingDomains, passingSelectors))"

section \<open>Facts: the signature fields\<close>

text \<open>All signature fields of a header, in their order.\<close>

definition signatures :: "MimeField list \<Rightarrow> (AnsiString \<times> AnsiString) list" where
  "signatures fds =
     map (\<lambda>f. (MimeField_GetName f, MimeField_GetValue f)) (filter (\<lambda>f. CompareNoCase (MimeField_GetName f) ''DKIM-Signature'' = 0) fds)"

lemma SignatureFieldLoop_eq:
  "length result \<le> MaxSignaturesToVerify \<Longrightarrow>
   SignatureFieldLoop fds result n =
     (result @ take (MaxSignaturesToVerify - length result) (signatures fds), n + length (signatures fds))"
proof (induction fds arbitrary: result n)
  case (Cons f fds)
  show ?case
  proof (cases "CompareNoCase (MimeField_GetName f) ''DKIM-Signature'' = 0 \<and> length result < MaxSignaturesToVerify")
    case True
    then have "MaxSignaturesToVerify - length result = Suc (MaxSignaturesToVerify - Suc (length result))" by (simp add: Suc_diff_Suc)
    with True Cons.IH [of "result @ [(MimeField_GetName f, MimeField_GetValue f)]"] show ?thesis
      by (simp add: Let_def signatures_def)
  qed (use Cons.IH [of result] Cons.prems in \<open>auto simp: Let_def signatures_def not_less\<close>)
qed (simp add: signatures_def)

lemma GetSignatureFields_eq:
  "GetSignatureFields fds = (take MaxSignaturesToVerify (signatures fds), length (signatures fds) > MaxSignaturesToVerify)"
  by (simp add: GetSignatureFields_def SignatureFieldLoop_eq)

section \<open>Facts: the verdict on a message\<close>

text \<open>The results of the signatures, each with its field and in their order.\<close>

definition signature_results ::
  "'key OpenSSL \<Rightarrow> DkimEnv \<Rightarrow> AnsiString \<Rightarrow> AnsiString \<Rightarrow> nat \<Rightarrow> (AnsiString \<times> AnsiString) list \<Rightarrow> ((AnsiString \<times> AnsiString) \<times> DkimResult) list" where
  "signature_results ssl env content h k sfs = map (\<lambda>(i, sf). (sf, VerifySignature ssl env i content h sf)) (enumerate k sfs)"

abbreviation best_of :: "DkimResult \<Rightarrow> DkimResult \<Rightarrow> DkimResult" where
  "best_of r s \<equiv> (if RankSignatureResult s > RankSignatureResult r then s else r)"

definition passed :: "DkimEnv \<Rightarrow> ((AnsiString \<times> AnsiString) \<times> DkimResult) list \<Rightarrow> (AnsiString \<times> AnsiString) list" where
  "passed env rs = map fst (filter (\<lambda>(sf, r). r = DkimPass \<and> SigningDomain env sf \<noteq> []) rs)"

lemma VerifyLoop_eq:
  "VerifyLoop ssl env content h k sfs (r, ds, ss) =
     (foldl best_of r (map snd (signature_results ssl env content h k sfs)),
      ds @ map (SigningDomain env) (passed env (signature_results ssl env content h k sfs)),
      ss @ map (SigningSelector env) (passed env (signature_results ssl env content h k sfs)))"
  by (induction sfs arbitrary: k r ds ss) (simp_all add: signature_results_def passed_def Let_def)

lemma passedD:
  assumes "sf \<in> set (passed env (signature_results ssl env content h n sfs))"
  obtains k where "sf \<in> set sfs" "VerifySignature ssl env k content h sf = DkimPass" "SigningDomain env sf \<noteq> []"
proof -
  from assms obtain k where "(k, sf) \<in> set (enumerate n sfs)" "VerifySignature ssl env k content h sf = DkimPass" "SigningDomain env sf \<noteq> []"
    by (auto simp: passed_def signature_results_def)
  moreover from this(1) have "sf \<in> set sfs" by (metis in_set_enumerate_eq fst_conv snd_conv le_add_diff_inverse add.commute less_diff_conv2 nth_mem)
  ultimately show thesis using that by blast
qed

lemma best_of_foldl:
  "foldl best_of r rs = x \<longleftrightarrow> x \<in> set (r # rs) \<and> (\<forall>y \<in> set (r # rs). RankSignatureResult y \<le> RankSignatureResult x)"
proof (induction rs arbitrary: r)
  case Nil
  then show ?case by auto
next
  case (Cons s rs)
  have inj: "RankSignatureResult a = RankSignatureResult b \<Longrightarrow> a = b" for a b by (cases a; cases b) auto
  show ?case unfolding foldl_Cons Cons.IH by (auto dest: inj split: if_splits)
qed

lemma RankSignatureResult_less:
  "RankSignatureResult y \<le> RankSignatureResult DkimPass"
  "RankSignatureResult DkimNeutral \<le> RankSignatureResult y"
  "RankSignatureResult y \<le> RankSignatureResult DkimPermFail \<longleftrightarrow> y \<noteq> DkimPass"
  "RankSignatureResult y \<le> RankSignatureResult DkimTempFail \<longleftrightarrow> y \<noteq> DkimPass \<and> y \<noteq> DkimPermFail"
  by (cases y; simp)+

abbreviation loaded_header :: "DkimEnv \<Rightarrow> AnsiString \<Rightarrow> AnsiString" where
  "loaded_header env content \<equiv> LoadHeader (cpage env) (header_reads env) (LoadHeaderReadSize env) content"

abbreviation checked :: "'key OpenSSL \<Rightarrow> DkimEnv \<Rightarrow> AnsiString \<Rightarrow> ((AnsiString \<times> AnsiString) \<times> DkimResult) list" where
  "checked ssl env content \<equiv>
     signature_results ssl env content (loaded_header env content) 0
       (take MaxSignaturesToVerify (signatures (Fields (loaded_header env content) False)))"

lemma DKIM_Verify_eq:
  "DKIM_Verify ssl env content =
     (if FileSize (size_known env) content > MaxFileSize then (DkimNeutral, [], [])
      else
        let best = foldl best_of DkimNeutral (map snd (checked ssl env content))
        in (if length (signatures (Fields (loaded_header env content) False)) > MaxSignaturesToVerify \<and> best = DkimPermFail then DkimNeutral else best,
            map (SigningDomain env) (passed env (checked ssl env content)), map (SigningSelector env) (passed env (checked ssl env content))))"
  by (auto simp: DKIM_Verify_def GetSignatureFields_eq VerifyLoop_eq Let_def signature_results_def passed_def MaxSignaturesToVerify_def)

text \<open>
  C17: The verdict on a message is that of its best signature among the first ten: a pass when one of them passes, else
  a failure when one of them fails, else a temporary failure when a key could not be fetched. With more than ten
  signatures a failure becomes no assertion, since the good one may be among those not looked at. The
  domains and selectors that are reported are those of the signatures that passed, in the same order.
\<close>

theorem verdict_of_best_signature:
  assumes "FileSize (size_known env) content \<le> MaxFileSize" "DKIM_Verify ssl env content = (result, domains, selectors)"
  shows "let sigs = signatures (Fields (loaded_header env content) False);
             results = signature_results ssl env content (loaded_header env content) 0 (take 10 sigs);
             passes = filter (\<lambda>(sf, r). r = DkimPass \<and> SigningDomain env sf \<noteq> []) results
         in (result = DkimPass \<longleftrightarrow> DkimPass \<in> snd ` set results) \<and>
            (result = DkimPermFail \<longleftrightarrow> DkimPass \<notin> snd ` set results \<and> DkimPermFail \<in> snd ` set results \<and> length sigs \<le> 10) \<and>
            (result = DkimTempFail \<longleftrightarrow> DkimPass \<notin> snd ` set results \<and> DkimPermFail \<notin> snd ` set results \<and> DkimTempFail \<in> snd ` set results) \<and>
            domains = map (SigningDomain env \<circ> fst) passes \<and> selectors = map (SigningSelector env \<circ> fst) passes"
proof -
  define best where "best = foldl best_of DkimNeutral (map snd (checked ssl env content))"
  define R where "R = snd ` set (checked ssl env content)"
  have best: "best = x \<longleftrightarrow> x \<in> insert DkimNeutral R \<and> (\<forall>y \<in> insert DkimNeutral R. RankSignatureResult y \<le> RankSignatureResult x)" for x
    unfolding best_def best_of_foldl R_def by simp
  have "best = DkimPass \<longleftrightarrow> DkimPass \<in> R"
    "best = DkimPermFail \<longleftrightarrow> DkimPass \<notin> R \<and> DkimPermFail \<in> R"
    "best = DkimTempFail \<longleftrightarrow> DkimPass \<notin> R \<and> DkimPermFail \<notin> R \<and> DkimTempFail \<in> R"
    unfolding best RankSignatureResult_less by (auto simp: RankSignatureResult_less(1) [simplified])
  moreover have "result = (if length (signatures (Fields (loaded_header env content) False)) > 10 \<and> best = DkimPermFail then DkimNeutral else best)"
    "domains = map (SigningDomain env) (passed env (checked ssl env content))" "selectors = map (SigningSelector env) (passed env (checked ssl env content))"
    using assms(2) assms(1) [folded not_less] unfolding DKIM_Verify_eq Let_def best_def [symmetric] MaxSignaturesToVerify_def [symmetric]
    by (simp_all only: if_False prod.inject)
  ultimately show ?thesis unfolding Let_def R_def by (auto simp: MaxSignaturesToVerify_def passed_def split: if_splits)
qed

section \<open>What a pass means\<close>

text \<open>
  The conditions of RFC 6376 and RFC 8301 on a signature, over the key record that was used. \<open>covers\<close> is what is signed
  of the body: all of it, or as much as the l tag says.
\<close>

definition key_accepts :: "'key OpenSSL \<Rightarrow> AnsiString \<Rightarrow> AnsiString \<Rightarrow> AnsiString \<Rightarrow> AnsiString \<Rightarrow> bool" where
  "key_accepts ssl alg p data signature \<longleftrightarrow>
     (if alg = ''ed25519-sha256''
      then \<exists>key. length (Base64_Decode p) = 32 \<and> new_raw_public_key ssl (Base64_Decode p) = Some key \<and> EVP_DigestVerify ssl data signature key
      else \<exists>key. d2i_PUBKEY ssl (Base64_Decode p) = Some key \<and> (is_RSA ssl key \<longrightarrow> EVP_PKEY_bits ssl key \<ge> 1024) \<and>
             EVP_Verify ssl (if alg = ''rsa-sha256'' then SHA256 else SHA1) data signature key)"

definition covers :: "DKIMParameters \<Rightarrow> AnsiString \<Rightarrow> AnsiString \<Rightarrow> bool" where
  "covers ps body part \<longleftrightarrow>
     (if GetParam ps ''l'' = [] then part = body
      else IsNumeric (GetParam ps ''l'') \<and> ttoi (GetParam ps ''l'') \<le> int (length body) \<and> part = take (nat (ttoi (GetParam ps ''l''))) body)"

definition body_is_signed :: "'key OpenSSL \<Rightarrow> DkimEnv \<Rightarrow> nat \<Rightarrow> AnsiString \<Rightarrow> DKIMParameters \<Rightarrow> bool" where
  "body_is_signed ssl env k content ps \<longleftrightarrow>
     (\<exists>part. covers ps (CanonicalizeBody (cpage env) (MethodNamed (snd (CanonicalizationMethods (GetParam ps ''c''))))
           (LoadBody (body_reads env k) (LoadBodyReadSize env) content)) part \<and>
        Replace (GetParam ps ''bh'') '' '' [] = c_str (GenerateHashNoSalt ssl (if GetParam ps ''a'' = ''rsa-sha1'' then SHA1 else SHA256) part) \<and>
        Replace (GetParam ps ''bh'') '' '' [] \<noteq> [])"

definition header_is_signed :: "'key OpenSSL \<Rightarrow> DkimEnv \<Rightarrow> AnsiString \<Rightarrow> AnsiString \<times> AnsiString \<Rightarrow> AnsiString \<Rightarrow> bool" where
  "header_is_signed ssl env h sf p \<longleftrightarrow>
     (let ps = SignatureParams env sf;
          data = fst (CanonicalizeHeader (cpage env) (MethodNamed (fst (CanonicalizationMethods (GetParam ps ''c'')))) h sf
                   (SplitStringAnsi (through_wide (cpage env)) (GetParam ps ''h'') CHR '':'') [])
      in key_accepts ssl (GetParam ps ''a'') p data (MimeCodeBase64_Decode (GetParam ps ''b'')))"

definition identity_within :: "AnsiString \<Rightarrow> AnsiString \<Rightarrow> bool" where
  "identity_within i d \<longleftrightarrow> i = [] \<or> CompareNoCase (ExtractDomain i) d = 0 \<or> EndsWith (ExtractDomain i) (''.'' @ d)"

lemma ValidateBodyHash_iff:
  "ValidateBodyHash ssl env k content ps (MethodNamed (snd (CanonicalizationMethods (GetParam ps ''c'')))) \<longleftrightarrow> body_is_signed ssl env k content ps"
  by (auto simp: ValidateBodyHash_def body_is_signed_def covers_def Let_def)

lemma VerifyHeaderHash_eq:
  "VerifyHeaderHash ssl data a b p = (if key_accepts ssl a p data (MimeCodeBase64_Decode b) then DkimPass else DkimPermFail)"
  by (auto simp: VerifyHeaderHash_def key_accepts_def GetPublicKey_def Let_def not_less split: option.splits if_splits)

lemma VerifySignature_key:
  assumes "ValidateHeaderContents env (SignatureParams env sf)"
    "\<not> (DKIMEnforceSignatureExpiry env \<and> IsSignatureExpired (GetParam (SignatureParams env sf) ''x'') (verification_time env k) (DKIMExpiryClockSkewSeconds env))"
    "RetrievePublicKey env k (SignatureParams env sf) = Inr (p, flags)"
  shows "VerifySignature ssl env k content h sf =
    (if body_is_signed ssl env k content (SignatureParams env sf) \<and> header_is_signed ssl env h sf p then DkimPass
     else if Find_str flags ''y'' = None then DkimPermFail else DkimNeutral)"
proof -
  obtain hm bm where m: "CanonicalizationMethods (GetParam (SignatureParams env sf) ''c'') = (hm, bm)" by fastforce
  show ?thesis
    using ValidateBodyHash_iff [of ssl env k content "SignatureParams env sf"] assms
    by (auto simp: VerifySignature_def m Let_def header_is_signed_def VerifyHeaderHash_eq)
qed

lemma RetrievePublicKey_range: "RetrievePublicKey env k ps \<noteq> Inl DkimPass"
  by (auto simp: RetrievePublicKey_def Let_def split: option.splits)

lemma VerifySignature_passD:
  assumes "VerifySignature ssl env k content h sf = DkimPass"
  obtains p flags where "ValidateHeaderContents env (SignatureParams env sf)"
    "\<not> (DKIMEnforceSignatureExpiry env \<and> IsSignatureExpired (GetParam (SignatureParams env sf) ''x'') (verification_time env k) (DKIMExpiryClockSkewSeconds env))"
    "RetrievePublicKey env k (SignatureParams env sf) = Inr (p, flags)"
    "body_is_signed ssl env k content (SignatureParams env sf)" "header_is_signed ssl env h sf p"
proof -
  have ok: "ValidateHeaderContents env (SignatureParams env sf)"
    "\<not> (DKIMEnforceSignatureExpiry env \<and> IsSignatureExpired (GetParam (SignatureParams env sf) ''x'') (verification_time env k) (DKIMExpiryClockSkewSeconds env))"
    using assms by (auto simp: VerifySignature_def Let_def split: if_splits prod.splits)
  with assms RetrievePublicKey_range [of env k "SignatureParams env sf"]
  obtain p flags where key: "RetrievePublicKey env k (SignatureParams env sf) = Inr (p, flags)"
    by (cases "RetrievePublicKey env k (SignatureParams env sf)") (auto simp: VerifySignature_def Let_def split: prod.splits)
  with VerifySignature_key [OF ok key, of ssl content h] assms ok that show thesis by (auto split: if_splits)
qed

lemma RetrievePublicKey_InrD:
  assumes "RetrievePublicKey env k ps = Inr (p, flags)"
  obtains results r where "GetTXTRecords env k (GetParam ps ''s'' @ ''._domainkey.'' @ GetParam ps ''d'') = Some results" "r \<in> set results"
    "ValidateDNSEntry env (DKIMParameters_Load (cpage env) r) ps" "p = GetParam (DKIMParameters_Load (cpage env) r) ''p''"
    "flags = GetParam (DKIMParameters_Load (cpage env) r) ''t''" "p \<noteq> []"
    "Find_str flags ''s'' \<noteq> None \<longrightarrow> GetParam ps ''i'' = [] \<or> CompareNoCase (ExtractDomain (GetParam ps ''i'')) (GetParam ps ''d'') = 0"
proof -
  let ?valid = "\<lambda>candidate. ValidateDNSEntry env candidate ps"
  from assms obtain results c where f: "GetTXTRecords env k (GetParam ps ''s'' @ ''._domainkey.'' @ GetParam ps ''d'') = Some results"
    "List.find ?valid (map (DKIMParameters_Load (cpage env)) results) = Some c"
    and c: "p = GetParam c ''p''" "flags = GetParam c ''t''" "p \<noteq> []"
      "Find_str flags ''s'' \<noteq> None \<longrightarrow> GetParam ps ''i'' = [] \<or> CompareNoCase (ExtractDomain (GetParam ps ''i'')) (GetParam ps ''d'') = 0"
    by (auto simp: RetrievePublicKey_def Let_def split: option.splits if_splits)
  from f(2) have "c \<in> set (map (DKIMParameters_Load (cpage env)) results)" "?valid c"
    by (auto simp: find_Some_iff intro: imageI [OF nth_mem])
  then obtain r where "r \<in> set results" "c = DKIMParameters_Load (cpage env) r" by auto
  with that f c \<open>?valid c\<close> show thesis by blast
qed

text \<open>
  C4: Every domain the verifier reports has signed the message: the message has, among its first ten signature fields,
  one of that domain whose version is known, whose algorithm is allowed and whose identity lies within the domain; it
  lists the From field; it has not expired, where that is enforced; the domain publishes a
  key record for its selector which is not revoked; the hash of the body is the one in the field; and the key, which has
  1024 bits or more when it is an RSA key, accepts the signature of the listed fields.
\<close>

theorem reported_domain_has_signed:
  assumes "DKIM_Verify ssl env content = (result, domains, selectors)" "d \<in> set domains"
  shows "\<exists>k sf results r.
    let h = loaded_header env content;
        ps = SignatureParams env sf;
        p = GetParam (DKIMParameters_Load (cpage env) r) ''p''
    in sf \<in> set (take 10 (signatures (Fields h False))) \<and> d = MakeLower (GetParam ps ''d'') \<and> d \<noteq> [] \<and>
       GetParam ps ''v'' = ''1'' \<and> GetParam ps ''a'' \<in> {''rsa-sha1'', ''rsa-sha256'', ''ed25519-sha256''} \<and>
       (GetParam ps ''a'' = ''rsa-sha1'' \<longrightarrow> DkimAcceptSha1 env) \<and> identity_within (GetParam ps ''i'') (GetParam ps ''d'') \<and>
       (\<exists>f \<in> set (SplitStringAnsi (through_wide (cpage env)) (GetParam ps ''h'') CHR '':''). MakeLower (Trim f) = ''from'') \<and>
       (DKIMEnforceSignatureExpiry env \<longrightarrow> \<not> IsSignatureExpired (GetParam ps ''x'') (verification_time env k) (DKIMExpiryClockSkewSeconds env)) \<and>
       GetTXTRecords env k (GetParam ps ''s'' @ ''._domainkey.'' @ GetParam ps ''d'') = Some results \<and> r \<in> set results \<and> p \<noteq> [] \<and>
       body_is_signed ssl env k content ps \<and> header_is_signed ssl env h sf p"
proof -
  from assms obtain sf where sf: "sf \<in> set (passed env (checked ssl env content))" "d = SigningDomain env sf"
    by (auto simp: DKIM_Verify_eq Let_def split: if_splits)
  from sf(1) obtain k where k: "sf \<in> set (take 10 (signatures (Fields (loaded_header env content) False)))"
    "VerifySignature ssl env k content (loaded_header env content) sf = DkimPass" "SigningDomain env sf \<noteq> []"
    unfolding MaxSignaturesToVerify_def by (rule passedD)
  from k(2) obtain p flags where v: "ValidateHeaderContents env (SignatureParams env sf)"
    "\<not> (DKIMEnforceSignatureExpiry env \<and> IsSignatureExpired (GetParam (SignatureParams env sf) ''x'') (verification_time env k) (DKIMExpiryClockSkewSeconds env))"
    "RetrievePublicKey env k (SignatureParams env sf) = Inr (p, flags)"
    "body_is_signed ssl env k content (SignatureParams env sf)" "header_is_signed ssl env (loaded_header env content) sf p"
    by (rule VerifySignature_passD)
  from v(3) obtain results r where r: "GetTXTRecords env k (GetParam (SignatureParams env sf) ''s'' @ ''._domainkey.'' @ GetParam (SignatureParams env sf) ''d'') = Some results"
    "r \<in> set results" "p = GetParam (DKIMParameters_Load (cpage env) r) ''p''" "p \<noteq> []"
    by (rule RetrievePublicKey_InrD)
  have c: "GetParam (SignatureParams env sf) ''v'' = ''1''" "GetParam (SignatureParams env sf) ''a'' \<in> {''rsa-sha1'', ''rsa-sha256'', ''ed25519-sha256''}"
    "GetParam (SignatureParams env sf) ''a'' = ''rsa-sha1'' \<longrightarrow> DkimAcceptSha1 env"
    "identity_within (GetParam (SignatureParams env sf) ''i'') (GetParam (SignatureParams env sf) ''d'')"
    "\<exists>f \<in> set (SplitStringAnsi (through_wide (cpage env)) (GetParam (SignatureParams env sf) ''h'') CHR '':''). MakeLower (Trim f) = ''from''"
    using v(1) by (auto simp: ValidateHeaderContents_def Let_def identity_within_def list_ex_iff split: if_splits)
  show ?thesis unfolding Let_def
    using k(1) sf(2) k(3) c v(2,4,5) r by (intro exI [of _ k] exI [of _ sf] exI [of _ results] exI [of _ r]) (simp add: SigningDomain_def)
qed

text \<open>
  A key in test mode never makes a message fail: with the flag y in the key record a signature passes exactly when
  its body hash and its signature are right, and says nothing otherwise; without the flag it fails otherwise.
\<close>

theorem test_mode_softens_failures:
  assumes "ValidateHeaderContents env (SignatureParams env sf)" "\<not> DKIMEnforceSignatureExpiry env"
    and "RetrievePublicKey env k (SignatureParams env sf) = Inr (p, flags)"
  shows "(VerifySignature ssl env k content h sf = DkimPass \<longleftrightarrow>
      body_is_signed ssl env k content (SignatureParams env sf) \<and> header_is_signed ssl env h sf p) \<and>
    (VerifySignature ssl env k content h sf = DkimPermFail \<longleftrightarrow>
      Find_str flags ''y'' = None \<and> \<not> (body_is_signed ssl env k content (SignatureParams env sf) \<and> header_is_signed ssl env h sf p)) \<and>
    VerifySignature ssl env k content h sf \<noteq> DkimTempFail"
  using VerifySignature_key [OF assms(1) _ assms(3), of ssl content h] assms(2) by auto

section \<open>Expiry\<close>

lemma digits_value_bounds: "list_all isdigit_classic ds \<Longrightarrow> 0 \<le> digits_value ds \<and> digits_value ds < 10 ^ length ds"
proof (induction ds rule: rev_induct)
  case (snoc c ds)
  then have "48 \<le> ord c" "ord c \<le> 57" by (auto simp: isdigit_classic_def less_eq_char_def)
  with snoc show ?case by (auto simp: digits_value_snoc)
qed (simp add: digits_value_def)

lemma sint_in_range: "- (2 ^ 63) \<le> v \<Longrightarrow> v < 2 ^ 63 \<Longrightarrow> sint (word_of_int v :: 64 word) = v"
  unfolding sint_sbintrunc' by (rule signed_take_bit_int_eq_self) simp_all

lemma IsSignatureExpired_iff:
  assumes "list_all isdigit_classic x" "x \<noteq> []" "length x \<le> 19" "0 \<le> tolerance" "digits_value x + tolerance < 2 ^ 63"
  shows "IsSignatureExpired x now tolerance \<longleftrightarrow> sint now > digits_value x + tolerance"
proof -
  have b: "0 \<le> digits_value x" using assms(1) digits_value_bounds by blast
  with assms have "atoi64 x + word_of_int tolerance = word_of_int (digits_value x + tolerance)"
    by (simp add: atoi64_def)
  moreover have "sint (word_of_int (digits_value x + tolerance) :: 64 word) = digits_value x + tolerance"
    by (rule sint_in_range) (use assms b in linarith)+
  ultimately show ?thesis using assms by (auto simp: IsSignatureExpired_def)
qed

text \<open>
  C26: An expiry date is honoured: a decimal number of at most nineteen digits has expired exactly when the time is later
  than the number and the tolerance together, as long as their sum fits in 64 bits; a text that is not such a number
  never expires.
\<close>

theorem expiry_is_honoured:
  "(list_all isdigit_classic x \<and> x \<noteq> [] \<and> length x \<le> 19 \<and> 0 \<le> tolerance \<and> digits_value x + tolerance < 2 ^ 63 \<longrightarrow>
     (IsSignatureExpired x now tolerance \<longleftrightarrow> sint now > digits_value x + tolerance)) \<and>
   (\<not> list_all isdigit_classic x \<or> x = [] \<or> length x > 19 \<longrightarrow> \<not> IsSignatureExpired x now tolerance)"
  using IsSignatureExpired_iff [of x tolerance now] by (auto simp: IsSignatureExpired_def)

theorem expiry_is_honoured_witness: "IsSignatureExpired ''1786500000'' 1786500301 300 \<and> \<not> IsSignatureExpired ''1786500000'' 1786500300 300"
proof -
  have d: "list_all isdigit_classic ''1786500000''" "digits_value ''1786500000'' = 1786500000"
    by (simp_all add: isdigit_classic_def less_eq_char_def digits_value_def)
  have "sint (1786500301 :: 64 word) = 1786500301" "sint (1786500300 :: 64 word) = 1786500300"
    using sint_in_range [of 1786500301] sint_in_range [of 1786500300] by simp_all
  with expiry_is_honoured [of "''1786500000''" 300 1786500301] expiry_is_honoured [of "''1786500000''" 300 1786500300] d show ?thesis by simp
qed

text \<open>
  The last second of the range is taken to be long past: \<^verbatim>\<open>_atoi64\<close> gives the largest number for it and for everything above, and
  the sum with the tolerance wraps around.
\<close>

lemma last_expiry_is_expired:
  assumes "0 \<le> sint now" "0 < tolerance" "tolerance < 2 ^ 31"
  shows "IsSignatureExpired ''9999999999999999999'' now tolerance"
proof -
  have "list_all isdigit_classic ''9999999999999999999''" "digits_value ''9999999999999999999'' = 9999999999999999999"
    by (simp_all add: isdigit_classic_def less_eq_char_def digits_value_def)
  moreover from this(2) have eq: "atoi64 ''9999999999999999999'' + word_of_int tolerance = word_of_int (- (2 ^ 63) + (tolerance - 1))"
    by (simp add: atoi64_def flip: word_of_int_minus)
  have "sint (atoi64 ''9999999999999999999'' + word_of_int tolerance) = - (2 ^ 63) + (tolerance - 1)"
    unfolding eq by (rule sint_in_range) (use assms in simp_all)
  ultimately show ?thesis using assms unfolding IsSignatureExpired_def by simp
qed

section \<open>An example\<close>

text \<open>A message with one signature, under a library that accepts every signature.\<close>

definition toy_ssl :: "unit OpenSSL" where
  "toy_ssl = \<lparr>EVP_Digest = \<lambda>_ _. Some ''A'', d2i_PUBKEY = \<lambda>_. Some (), is_RSA = \<lambda>_. False, EVP_PKEY_bits = \<lambda>_. 0,
     new_raw_public_key = \<lambda>_. None, EVP_Verify = \<lambda>_ _ _ _. True, EVP_DigestVerify = \<lambda>_ _ _. False\<rparr>"

definition example_env :: DkimEnv where
  "example_env = \<lparr>cpage = latin, size_known = True, header_reads = all_reads, body_reads = \<lambda>_. all_reads, LoadHeaderReadSize = 200,
     LoadBodyReadSize = 200, GetTXTRecords = \<lambda>_ _. Some [''p=QQ==''], verification_time = \<lambda>_. 0, WildcardMatch = \<lambda>_ _. False,
     DkimAcceptSha1 = False, DKIMEnforceSignatureExpiry = False, DKIMExpiryClockSkewSeconds = 0\<rparr>"

definition example_header :: AnsiString where
  "example_header = ''From: a@b'' @ crlf @ ''DKIM-Signature: v=1; a=rsa-sha256; d=B; s=s; h=from; bh=QQ==; b=QQ=='' @ crlf"

definition example_message :: AnsiString where
  "example_message = example_header @ crlf @ ''Hi'' @ crlf"

abbreviation example_field :: "AnsiString \<times> AnsiString" where
  "example_field \<equiv> (''DKIM-Signature'', ''v=1; a=rsa-sha256; d=B; s=s; h=from; bh=QQ==; b=QQ=='')"

lemma example_size: "FileSize (size_known example_env) example_message \<le> MaxFileSize"
  by (simp add: FileSize_def MaxFileSize_def example_message_def example_header_def example_env_def crlf_def)

lemma example_loaded: "loaded_header example_env example_message = example_header"
  by code_simp

lemma example_signatures: "signatures (Fields example_header False) = [example_field]"
  by code_simp

lemma example_passes: "VerifySignature toy_ssl example_env 0 example_message example_header example_field = DkimPass"
  by code_simp

lemma example_verified: "DKIM_Verify toy_ssl example_env example_message = (DkimPass, [''b''], [''s''])"
proof -
  have "SigningDomain example_env example_field = ''b''" "SigningSelector example_env example_field = ''s''" by code_simp+
  then show ?thesis
    using example_size unfolding DKIM_Verify_eq example_loaded example_signatures
    by (simp add: passed_def MaxSignaturesToVerify_def signature_results_def example_passes)
qed

theorem verdict_of_best_signature_witness:
  "DkimPass \<in> snd ` set (signature_results toy_ssl example_env example_message (loaded_header example_env example_message) 0
     (take 10 (signatures (Fields (loaded_header example_env example_message) False))))"
  using verdict_of_best_signature [OF example_size example_verified] unfolding Let_def by simp

theorem reported_domain_has_signed_witness:
  "\<exists>k sf. ''b'' = MakeLower (GetParam (SignatureParams example_env sf) ''d'') \<and> body_is_signed toy_ssl example_env k example_message (SignatureParams example_env sf)"
  using reported_domain_has_signed [OF example_verified, of "''b''"] unfolding Let_def by auto

theorem test_mode_softens_failures_witness:
  "\<exists>p. header_is_signed toy_ssl example_env example_header example_field p"
proof -
  from example_passes obtain p flags where v: "ValidateHeaderContents example_env (SignatureParams example_env example_field)"
    "RetrievePublicKey example_env 0 (SignatureParams example_env example_field) = Inr (p, flags)"
    by (rule VerifySignature_passD)
  have "\<not> DKIMEnforceSignatureExpiry example_env" by (simp add: example_env_def)
  from test_mode_softens_failures [OF v(1) this v(2), of toy_ssl example_message example_header] example_passes show ?thesis by blast
qed

end
