(* ===== verification/DKIM_Signing.thy ===== *)
theory DKIM_Signing
  imports DKIM AuthenticationResultsWriter
begin

text \<open>
  Signing: \<^verbatim>\<open>DKIM::Initialize\<close>, \<^verbatim>\<open>DKIM::Sign\<close> and what they call in Common/AntiSpam/DKIM/DKIM.cpp, and
  \<^verbatim>\<open>TraceHeaderWriter::Write\<close> of Common/Util/TraceHeaderWriter.cpp, which puts the signature on the message. The signing functions of OpenSSL are the
  record \<open>SigningKeys\<close>; the settings, the clock, the key file and the outcome of each file call are the record \<open>SignEnv\<close>. Wide strings that
  hold tags are modelled by their bytes; where the body goes through one, the code page is an argument.

  The theorems: a message the server has signed verifies, with every pair of canonicalizations, with and without
  oversigning; the lists of field names that \<^verbatim>\<open>Initialize\<close> builds; what the writer leaves on the disk.
\<close>

section \<open>The fields to sign\<close>

definition MaxOversignHeadersLength :: nat where
  "MaxOversignHeadersLength = 256"

definition ContainsFieldNoCase :: "AnsiString list \<Rightarrow> AnsiString \<Rightarrow> bool" where
  "ContainsFieldNoCase fds name \<longleftrightarrow> list_ex (\<lambda>field. CompareNoCase field name = 0) fds"

definition JoinFieldList :: "AnsiString list \<Rightarrow> AnsiString" where
  "JoinFieldList fds =
     foldl (\<lambda>result field. if field = [] then result else if result \<noteq> [] then result @ '':'' @ field else result @ field) [] fds"

definition defaultHeaderFields :: "AnsiString list" where
  "defaultHeaderFields =
     [''From'', ''Sender'', ''Reply-To'', ''Subject'', ''Date'', ''Message-ID'', ''To'', ''CC'', ''MIME-Version'',
      ''Content-Type'', ''Content-Transfer-Encoding'', ''Content-ID'', ''Content-Description'',
      ''Resent-Date'', ''Resent-From'', ''Resent-Sender'', ''Resent-To'', ''Resent-Cc'', ''Resent-Message-ID'',
      ''In-Reply-To'', ''References'',
      ''List-Id'', ''List-Help'', ''List-Unsubscribe'', ''List-Unsubscribe-Post'', ''List-Subscribe'', ''List-Post'', ''List-Owner'', ''List-Archive'',
      ''X-CSA-Complaints'']"

text \<open>The loop over the configured names; the two lists are the recommended and the oversigned ones.\<close>

fun OversigningLoop :: "AnsiString list \<Rightarrow> AnsiString list \<times> AnsiString list \<Rightarrow> AnsiString list \<times> AnsiString list" where
  "OversigningLoop [] st = st"
| "OversigningLoop (name # names) (recommended, oversign) =
     (let name = Trim name
      in if name = [] then OversigningLoop names (recommended, oversign)
         else if \<not> IsValidHeaderFieldName name then OversigningLoop names (recommended, oversign)
         else if ContainsFieldNoCase oversign name then OversigningLoop names (recommended, oversign)
         else OversigningLoop names
                (if ContainsFieldNoCase recommended name then recommended else recommended @ [name], oversign @ [name]))"

definition InitializeOversigning :: "CodePage \<Rightarrow> AnsiString \<Rightarrow> AnsiString list \<times> AnsiString list \<Rightarrow> AnsiString list \<times> AnsiString list" where
  "InitializeOversigning cp configured st =
     (if configured = [] then st
      else if length configured > MaxOversignHeadersLength then st
      else
        let flattened = Replace (Replace configured '','' '':'') '';'' '':'';
            (recommended, oversign) = OversigningLoop (SplitStringAnsi (through_wide cp) flattened CHR '':'') st
        in if oversign \<noteq> [] \<and> \<not> ContainsFieldNoCase oversign ''From'' then (recommended, oversign @ [''From''])
           else (recommended, oversign))"

text \<open>\<^verbatim>\<open>Initialize\<close> gives both lists anew; what they were before does not matter.\<close>

definition DKIM_Initialize :: "CodePage \<Rightarrow> AnsiString \<Rightarrow> AnsiString list \<times> AnsiString list \<Rightarrow> AnsiString list \<times> AnsiString list" where
  "DKIM_Initialize cp configured st = InitializeOversigning cp configured (defaultHeaderFields, [])"

section \<open>The signature field\<close>

definition BuildTimestampTags :: "64 word \<Rightarrow> int \<Rightarrow> AnsiString" where
  "BuildTimestampTags signingTime validitySeconds =
     (if validitySeconds > 0 then
        '' t='' @ print_signed (sint signingTime) @ ''; x='' @ print_signed (sint (signingTime + word_of_int validitySeconds)) @ '';''
      else '' t='' @ print_signed (sint signingTime) @ '';'')"

definition lineLength :: nat where
  "lineLength = 250"

function FoldSignature :: "AnsiString \<Rightarrow> nat \<Rightarrow> AnsiString \<Rightarrow> AnsiString" where
  "FoldSignature signatureString i splitSignatureString =
     (if i < length signatureString then
        FoldSignature signatureString (i + lineLength)
          ((if length splitSignatureString > 0 then splitSignatureString @ crlf @ [CHR 0x09] else splitSignatureString) @
           Mid_count signatureString i lineLength)
      else splitSignatureString)"
  by pat_completeness auto
termination
  by (relation "measure (\<lambda>(s, i, r). length s - i)") (auto simp: lineLength_def)

declare FoldSignature.simps [simp del]

definition BuildSignatureHeader ::
  "AnsiString \<Rightarrow> AnsiString \<Rightarrow> AnsiString \<Rightarrow> AnsiString \<Rightarrow> AnsiString \<Rightarrow> AnsiString \<Rightarrow> AnsiString \<Rightarrow> AnsiString \<Rightarrow> AnsiString \<Rightarrow> AnsiString" where
  "BuildSignatureHeader tagA tagD tagS tagC tagQ timestampTags fieldList bodyHash signatureString =
     (let headerValue =
            ''v=1; a='' @ tagA @ ''; d='' @ tagD @ ''; s='' @ tagS @ '';'' @ crlf @ [CHR 0x09] @
            ''c='' @ tagC @ ''; q='' @ tagQ @ '';'' @ timestampTags @ '' h='' @ fieldList @ '';'' @ crlf @ [CHR 0x09] @
            ''bh='' @ bodyHash @ '';'' @ crlf @ [CHR 0x09] @
            ''b=''
      in if signatureString = [] then headerValue else headerValue @ FoldSignature signatureString 0 [])"

section \<open>Keys\<close>

record 'priv SigningKeys =
  read_PrivateKey :: "AnsiString \<Rightarrow> 'priv option"
  is_ED25519 :: "'priv \<Rightarrow> bool"
  EVP_DigestSign :: "'priv \<Rightarrow> AnsiString \<Rightarrow> AnsiString option"
  EVP_Sign :: "HashType \<Rightarrow> 'priv \<Rightarrow> AnsiString \<Rightarrow> AnsiString option"

definition IsEd25519PrivateKey :: "'priv SigningKeys \<Rightarrow> AnsiString \<Rightarrow> bool" where
  "IsEd25519PrivateKey keys privateKey =
     (case read_PrivateKey keys (c_str privateKey) of None \<Rightarrow> False | Some key \<Rightarrow> is_ED25519 keys key)"

definition SignHash :: "'priv SigningKeys \<Rightarrow> AnsiString \<Rightarrow> AnsiString \<Rightarrow> HashType \<Rightarrow> AnsiString" where
  "SignHash keys privateKey canonicalizedHeader hashType =
     (case read_PrivateKey keys (c_str privateKey) of
        None \<Rightarrow> []
      | Some key \<Rightarrow>
          if is_ED25519 keys key then
            case EVP_DigestSign keys key canonicalizedHeader of None \<Rightarrow> [] | Some signature \<Rightarrow> Base64_Encode signature
          else
            case EVP_Sign keys (if hashType = SHA256 then SHA256 else SHA1) key canonicalizedHeader of
              None \<Rightarrow> [] | Some sig \<Rightarrow> Base64_Encode sig)"

section \<open>Writing the field\<close>

text \<open>
  The faults of \<^verbatim>\<open>TraceHeaderWriter::Write\<close>: how much of the new fields and of the message the buffered writes accept, whether the
  copy answers true or throws, and how many bytes reach the disk when the file is closed.
\<close>

record TraceEnv =
  trace_opens :: bool
  trace_accepted :: nat
  trace_source_opens :: bool
  trace_copied :: nat
  trace_copy_answers :: bool
  trace_copy_throws :: bool
  trace_flushed :: nat
  trace_renames :: "nat \<Rightarrow> bool"
  trace_deletes :: bool

datatype TraceOutcome = TraceReturned bool Disk | TraceThrew Disk

definition TraceHeaderWriter_Write :: "TraceEnv \<Rightarrow> (AnsiString \<times> AnsiString) list \<Rightarrow> Disk \<Rightarrow> TraceOutcome" where
  "TraceHeaderWriter_Write te headerFields d =
     (if headerFields = [] then TraceReturned True d
      else if \<not> trace_opens te then TraceReturned False d
      else
        let prependString = concat (map (\<lambda>field. fst field @ '': '' @ snd field @ crlf) headerFields);
            written = (length prependString \<le> trace_accepted te);
            temporary = take (trace_accepted te) prependString;
            copying = (written \<and> trace_source_opens te);
            temporary = (if copying then temporary @ take (trace_copied te) (message_file d) else temporary);
            d1 = d\<lparr>temporary_file := Some (take (trace_flushed te) temporary)\<rparr>
        in if copying \<and> trace_copy_throws te then TraceThrew d1
           else
             let written = (copying \<and> trace_copy_answers te);
                 (moved, d2) = (if written then Move (trace_renames te) d1 else (False, d1))
             in if \<not> written \<or> \<not> moved then TraceReturned False (if trace_deletes te then d2\<lparr>temporary_file := None\<rparr> else d2)
                else TraceReturned True d2)"

section \<open>Sign\<close>

record SignEnv =
  sign_page :: CodePage
  sign_size_known :: bool
  sign_reads :: FileReads
  sign_read_size :: int
  recommendedHeaderFields :: "AnsiString list"
  oversignHeaderFields :: "AnsiString list"
  key_file :: AnsiString
  signing_time :: "64 word"
  DKIMSignatureValiditySeconds :: int

definition HasSignatureForDomain :: "CodePage \<Rightarrow> MimeField list \<Rightarrow> AnsiString \<Rightarrow> bool" where
  "HasSignatureForDomain cp fds domain =
     list_ex (\<lambda>sig. CompareNoCase (GetParam (DKIMParameters_Load cp (UnfoldField (snd sig))) ''d'') domain = 0) (fst (GetSignatureFields fds))"

fun CanonicalizeHeaderLine :: "CanonicalizeMethod \<Rightarrow> AnsiString \<Rightarrow> AnsiString \<Rightarrow> AnsiString" where
  "CanonicalizeHeaderLine Simple name v = SimpleHeaderLine name v"
| "CanonicalizeHeaderLine Relaxed name v = RelaxedHeaderLine name v"

text \<open>The canonical header and the h tag: with names to oversign, the header is canonicalized again with the final list.\<close>

definition SignedFields :: "SignEnv \<Rightarrow> CanonicalizeMethod \<Rightarrow> AnsiString \<Rightarrow> AnsiString \<times> AnsiString" where
  "SignedFields env headerMethod header =
     (let (canonicalizedHeader, fieldList) = CanonicalizeHeader (sign_page env) headerMethod header ([], []) (recommendedHeaderFields env) []
      in if oversignHeaderFields env \<noteq> [] then
           let finalFields = filter (\<lambda>found. found \<noteq> []) (SplitStringAnsi (through_wide (sign_page env)) fieldList CHR '':'') @ oversignHeaderFields env;
               (canonicalizedHeader, reCanonicalizedFieldList) = CanonicalizeHeader (sign_page env) headerMethod header ([], []) finalFields []
           in (canonicalizedHeader, JoinFieldList finalFields)
         else (canonicalizedHeader, fieldList))"

definition tagC :: "CanonicalizeMethod \<Rightarrow> CanonicalizeMethod \<Rightarrow> AnsiString" where
  "tagC headerMethod bodyMethod =
     (if headerMethod = Simple then ''simple/'' else ''relaxed/'') @ (if bodyMethod = Simple then ''simple'' else ''relaxed'')"

text \<open>The value of the new field, or \<open>None\<close> when no signature could be made.\<close>

definition SignatureValue ::
  "'key OpenSSL \<Rightarrow> 'priv SigningKeys \<Rightarrow> SignEnv \<Rightarrow> AnsiString \<Rightarrow> AnsiString \<Rightarrow> AnsiString \<Rightarrow> AnsiString \<Rightarrow> HashType \<Rightarrow>
   CanonicalizeMethod \<Rightarrow> CanonicalizeMethod \<Rightarrow> AnsiString option" where
  "SignatureValue ssl keys env content header domain selector algorithm headerMethod bodyMethod =
     (let messageBody = through_wide (sign_page env)
            (CanonicalizeBody (sign_page env) bodyMethod (LoadBody (sign_reads env) (sign_read_size env) content));
          bodyHash = GenerateHashNoSalt ssl algorithm messageBody;
          (canonicalizedHeader, fieldList) = SignedFields env headerMethod header;
          isEd25519Key = IsEd25519PrivateKey keys (key_file env);
          tagA = (if isEd25519Key then ''ed25519-sha256'' else if algorithm = SHA1 then ''rsa-sha1'' else ''rsa-sha256'');
          timestampTags = BuildTimestampTags (signing_time env) (DKIMSignatureValiditySeconds env);
          build = BuildSignatureHeader tagA domain selector (tagC headerMethod bodyMethod) ''dns/txt'' timestampTags fieldList bodyHash;
          signatureString = SignHash keys (key_file env) (canonicalizedHeader @ CanonicalizeHeaderLine headerMethod ''DKIM-Signature'' (build [])) algorithm
      in if signatureString = [] then None else Some (build signatureString))"

definition DKIM_Sign ::
  "'key OpenSSL \<Rightarrow> 'priv SigningKeys \<Rightarrow> SignEnv \<Rightarrow> TraceEnv \<Rightarrow> AnsiString \<Rightarrow> AnsiString \<Rightarrow> AnsiString \<Rightarrow> HashType \<Rightarrow>
   CanonicalizeMethod option \<Rightarrow> CanonicalizeMethod option \<Rightarrow> Disk \<Rightarrow> TraceOutcome" where
  "DKIM_Sign ssl keys env te header domain selector algorithm headerMethod bodyMethod d =
     (case (headerMethod, bodyMethod) of
        (Some hm, Some bm) \<Rightarrow>
          if FileSize (sign_size_known env) (message_file d) > MaxFileSize then TraceReturned True d
          else if HasSignatureForDomain (sign_page env) (Fields header False) domain then TraceReturned True d
          else (case SignatureValue ssl keys env (message_file d) header domain selector algorithm hm bm of
                  None \<Rightarrow> TraceReturned False d
                | Some headerValue \<Rightarrow> TraceHeaderWriter_Write te [(''DKIM-Signature'', headerValue)] d)
      | _ \<Rightarrow> TraceReturned False d)"

section \<open>Facts: folded lines\<close>

text \<open>The lines of a built field: without line breaks, with single spaces inside and none at the ends.\<close>

abbreviation fold_break :: AnsiString where
  "fold_break \<equiv> crlf @ [CHR 0x09]"

definition tag_line :: "AnsiString \<Rightarrow> bool" where
  "tag_line l \<longleftrightarrow> l \<noteq> [] \<and> CHR 0x0D \<notin> set l \<and> CHR 0x0A \<notin> set l \<and> \<not> IsSpace (hd l) \<and> \<not> IsSpace (last l) \<and> collapsed l"

lemma isspace_IsSpace: "isspace_classic = IsSpace"
  by (auto simp: isspace_classic_def IsSpace_def fun_eq_iff)

lemma UnfoldField_lines: "ls \<noteq> [] \<Longrightarrow> list_all tag_line ls \<Longrightarrow> UnfoldField (join fold_break ls) = join '' '' ls"
proof -
  assume a: "ls \<noteq> []" "list_all tag_line ls"
  have plain: "tag_line l \<Longrightarrow> list_all (\<lambda>c. c \<noteq> CHR 0x0D \<and> c \<noteq> CHR 0x0A) l" for l by (auto simp: tag_line_def list_all_iff)
  have "fold UnfoldStep (concat (map (\<lambda>l. fold_break @ l) ms)) (out, False) = (out @ concat (map (\<lambda>l. '' '' @ l) ms), False)"
    if "list_all tag_line ms" for ms out
    using that
  proof (induction ms arbitrary: out)
    case (Cons m ms)
    then have "fold UnfoldStep (crlf @ [CHR 0x09] @ m) (out, False) = (out @ '' '' @ m, False)"
      by (intro fold_UnfoldStep_fold) (auto simp: plain tag_line_def is_WSP_def)
    with Cons show ?case by simp
  qed simp
  moreover have "join sep (l # ms) = l @ concat (map (\<lambda>l. sep @ l) ms)" for sep and l :: AnsiString and ms
    by (induction ms arbitrary: l) (auto simp: join_Cons)
  moreover obtain l ms where "ls = l # ms" using a(1) by (cases ls) auto
  ultimately show ?thesis using a(2) plain by (simp add: UnfoldField_def fold_UnfoldStep_plain)
qed

lemma Replace_fold_break:
  "list_all (\<lambda>l. CHR 0x0D \<notin> set l) ls \<Longrightarrow> Replace (join fold_break ls) fold_break '' '' = join '' '' ls"
  by (induction fold_break ls rule: join.induct) (auto simp: crlf_def Replace_skip Replace_absent Replace_hit [of "[CHR 0x0D, CHR 0x0A, CHR 0x09]", simplified])

lemma Replace_space_break:
  "list_all (\<lambda>l. CHR 0x0D \<notin> set l) ls \<Longrightarrow> Replace (join fold_break ls) (crlf @ '' '') new = join fold_break ls"
  by (induction fold_break ls rule: join.induct) (auto simp: crlf_def Replace_skip Replace_absent Replace_Cons)

lemma collapsed_append: "collapsed a \<Longrightarrow> collapsed b \<Longrightarrow> a = [] \<or> b = [] \<or> \<not> is_WSP (last a) \<or> \<not> is_WSP (hd b) \<Longrightarrow> collapsed (a @ b)"
proof (induction a)
  case (Cons c a)
  then show ?case by (cases a) (auto simp: collapsed_Cons)
qed simp

lemma join_spaces:
  "ls \<noteq> [] \<Longrightarrow> list_all tag_line ls \<Longrightarrow> collapsed (join '' '' ls) \<and> join '' '' ls \<noteq> [] \<and> hd (join '' '' ls) = hd (hd ls) \<and> last (join '' '' ls) = last (last ls)"
proof (induction "'' ''" ls rule: join.induct)
  case (3 x y zs)
  then have IH: "collapsed (join '' '' (y # zs))" "join '' '' (y # zs) \<noteq> []" "hd (join '' '' (y # zs)) = hd y" "last (join '' '' (y # zs)) = last (last (y # zs))"
    and x: "tag_line x" "tag_line y" by simp_all
  have ends: "\<not> is_WSP (hd y)" "\<not> is_WSP (last x)" "collapsed x" "x \<noteq> []" using x WSP_IsSpace by (auto simp: tag_line_def)
  have "collapsed (CHR '' '' # join '' '' (y # zs))" unfolding collapsed_Cons using IH(1,3) ends(1) by simp
  then have "collapsed (x @ CHR '' '' # join '' '' (y # zs))" using collapsed_append [OF ends(3)] ends(2) by blast
  with IH ends(4) show ?case by (simp del: join.simps add: join_Cons)
qed (auto simp: tag_line_def)

lemma Trim_id: "s \<noteq> [] \<Longrightarrow> \<not> IsSpace (hd s) \<Longrightarrow> \<not> IsSpace (last s) \<Longrightarrow> Trim s = s"
proof -
  assume s: "s \<noteq> []" "\<not> IsSpace (hd s)" "\<not> IsSpace (last s)"
  have "dropWhile IsSpace t = t" if "t \<noteq> []" "\<not> IsSpace (hd t)" for t using that by (cases t) auto
  from this [of s] this [of "rev s"] s show "Trim s = s"
    by (simp add: Trim_def TrimLeft_def TrimRight_def isspace_IsSpace hd_rev)
qed

lemma RelaxedHeaderValue_lines: "ls \<noteq> [] \<Longrightarrow> list_all tag_line ls \<Longrightarrow> RelaxedHeaderValue (join fold_break ls) = join '' '' ls"
proof -
  assume a: "ls \<noteq> []" "list_all tag_line ls"
  then have "list_all (\<lambda>l. CHR 0x0D \<notin> set l) ls" by (auto simp: list_all_iff tag_line_def)
  note r = Replace_space_break [OF this] Replace_fold_break [OF this]
  from join_spaces [OF a] a have j: "collapsed (join '' '' ls)" "join '' '' ls \<noteq> []" "\<not> IsSpace (hd (join '' '' ls))" "\<not> IsSpace (last (join '' '' ls))"
    by (auto simp: list_all_iff tag_line_def)
  then have "\<not> is_WSP (hd (rev (join '' '' ls)))" using WSP_IsSpace by (auto simp: hd_rev)
  then have "TrimTrailingWSP (join '' '' ls) = join '' '' ls"
    using j(2) by (cases "rev (join '' '' ls)") (auto simp: TrimTrailingWSP_def rev_swap)
  with j show ?thesis by (simp add: RelaxedHeaderValue_def r Collapse_eq collapse_collapsed(1) Trim_id)
qed

section \<open>Facts: the tags of a built field\<close>

text \<open>Text that a tag can hold: no white space, no semicolon and no zero byte.\<close>

definition plain_text :: "AnsiString \<Rightarrow> bool" where
  "plain_text t \<longleftrightarrow> list_all (\<lambda>c. \<not> IsSpace c \<and> c \<noteq> CHR '';'' \<and> c \<noteq> CHR 0x00) t"

lemma IsSpace_chars [simp]:
  "IsSpace CHR 0x0D" "IsSpace CHR 0x0A" "IsSpace CHR '' ''" "IsSpace CHR 0x09" "\<not> IsSpace CHR '';''" "\<not> IsSpace CHR ''=''" "\<not> IsSpace CHR ''b''"
  by (simp_all add: IsSpace_def char_ranges)

lemma plain_text_append [simp]: "plain_text (a @ b) \<longleftrightarrow> plain_text a \<and> plain_text b"
  by (simp add: plain_text_def)

lemma plain_text_no_breaks: "plain_text t \<Longrightarrow> CHR 0x0D \<notin> set t \<and> CHR 0x0A \<notin> set t \<and> CHR '';'' \<notin> set t \<and> CHR '' '' \<notin> set t \<and> CHR 0x00 \<notin> set t"
  using IsSpace_chars(1-3) unfolding plain_text_def list_all_iff by blast

lemma spaceless_collapsed: "list_all (\<lambda>c. \<not> IsSpace c) t \<Longrightarrow> collapsed t"
  by (induction t) (auto simp: collapsed_Cons dest: WSP_IsSpace)

lemma spaceless_line: "t \<noteq> [] \<Longrightarrow> list_all (\<lambda>c. \<not> IsSpace c) t \<Longrightarrow> tag_line t"
  using spaceless_collapsed [of t] IsSpace_chars(1,2) unfolding tag_line_def list_all_iff by (metis hd_in_set last_in_set)

lemma plain_line: "plain_text t \<Longrightarrow> t \<noteq> [] \<Longrightarrow> tag_line t"
  by (rule spaceless_line) (auto simp: plain_text_def list_all_iff)

lemma plain_ends: "plain_text t \<Longrightarrow> t = [] \<or> \<not> IsSpace (hd t) \<and> \<not> IsSpace (last t)"
  using plain_line [of t] by (auto simp: tag_line_def)

lemma Trim_plain: "plain_text t \<Longrightarrow> Trim t = t"
  using plain_ends [of t] Trim_id [of t] by (cases "t = []") (auto simp: Trim_def TrimLeft_def TrimRight_def)

lemma plain_unspaced: "plain_text t \<Longrightarrow> concat (map (\<lambda>c. if c = CHR '' '' then [] else [c]) t) = t"
  using plain_text_no_breaks [of t] Replace_absent [of "CHR '' ''" t "[]" "[]"] unfolding Replace_single by simp

lemma joined_line: "ws \<noteq> [] \<Longrightarrow> list_all tag_line ws \<Longrightarrow> tag_line (join '' '' ws)"
proof -
  assume a: "ws \<noteq> []" "list_all tag_line ws"
  have "set (join '' '' ws) \<subseteq> {CHR '' ''} \<union> \<Union> (set ` set ws)" using set_join_subset [of "'' ''" ws] by simp
  with a join_spaces [OF a] show ?thesis by (fastforce simp: tag_line_def list_all_iff)
qed

abbreviation word :: "AnsiString \<times> AnsiString \<Rightarrow> AnsiString" where
  "word t \<equiv> fst t @ ''='' @ snd t @ '';''"

definition unfolded :: "(AnsiString \<times> AnsiString) list \<Rightarrow> AnsiString \<Rightarrow> AnsiString" where
  "unfolded tags bs = concat (map (\<lambda>t. word t @ '' '') tags) @ ''b='' @ bs"

abbreviation plain_tag :: "AnsiString \<times> AnsiString \<Rightarrow> bool" where
  "plain_tag t \<equiv> fst t \<noteq> [] \<and> plain_text (fst t) \<and> CHR ''='' \<notin> set (fst t) \<and> plain_text (snd t)"

lemma word_line: "plain_tag t \<Longrightarrow> tag_line (word t)"
  by (rule spaceless_line) (auto simp: plain_text_def list_all_iff)

lemma join_words: "join '' '' (map word tags @ [z]) = concat (map (\<lambda>t. word t @ '' '') tags) @ z"
  by (induction tags) (auto simp: join_Cons)

lemma join_join: "list_all (\<lambda>l. l \<noteq> []) lss \<Longrightarrow> join sep (map (join sep) lss) = join sep (concat lss)"
proof (induction lss)
  case (Cons l lss)
  then have "lss \<noteq> [] \<longrightarrow> concat lss \<noteq> []" by (cases lss) auto
  with Cons show ?case by (cases "lss = []") (auto simp: join_Cons join_append)
qed simp

lemma join_Cons_concat: "join sep (x # xs) = x @ concat (map (\<lambda>y. sep @ y) xs)"
  by (induction xs arbitrary: x) (auto simp: join_Cons)

definition sig_tags ::
  "AnsiString \<Rightarrow> AnsiString \<Rightarrow> AnsiString \<Rightarrow> AnsiString \<Rightarrow> (AnsiString \<times> AnsiString) list \<Rightarrow> AnsiString \<Rightarrow> AnsiString \<Rightarrow> (AnsiString \<times> AnsiString) list" where
  "sig_tags A D S C stamps H BH =
     [(''v'', ''1''), (''a'', A), (''d'', D), (''s'', S), (''c'', C), (''q'', ''dns/txt'')] @ stamps @ [(''h'', H), (''bh'', BH)]"

text \<open>The lines of the field, the last of them the one with the b tag.\<close>

definition sig_lines ::
  "AnsiString \<Rightarrow> AnsiString \<Rightarrow> AnsiString \<Rightarrow> AnsiString \<Rightarrow> (AnsiString \<times> AnsiString) list \<Rightarrow> AnsiString \<Rightarrow> AnsiString \<Rightarrow> AnsiString list" where
  "sig_lines A D S C stamps H BH =
     [join '' '' (map word [(''v'', ''1''), (''a'', A), (''d'', D), (''s'', S)]),
      join '' '' (map word ([(''c'', C), (''q'', ''dns/txt'')] @ stamps @ [(''h'', H)])), word (''bh'', BH)]"

lemma words_lines: "list_all plain_tag ts \<Longrightarrow> list_all tag_line (map word ts)"
  unfolding list_all_iff set_map by (blast intro: word_line)

lemma sig_lines_tag: "list_all plain_tag (sig_tags A D S C stamps H BH) \<Longrightarrow> list_all tag_line (sig_lines A D S C stamps H BH)"
proof -
  assume a: "list_all plain_tag (sig_tags A D S C stamps H BH)"
  then have "list_all plain_tag [(''v'', ''1''), (''a'', A), (''d'', D), (''s'', S)]" "list_all plain_tag ([(''c'', C), (''q'', ''dns/txt'')] @ stamps @ [(''h'', H)])"
    "plain_tag (''bh'', BH)" by (simp_all add: sig_tags_def)
  from this(1,2) [THEN words_lines] this(3) show ?thesis unfolding sig_lines_def list.pred_inject by (intro conjI joined_line word_line) simp_all
qed

lemma sig_lines_unfolded: "join '' '' (sig_lines A D S C stamps H BH @ (''b='' @ p) # ps) = unfolded (sig_tags A D S C stamps H BH) (join '' '' (p # ps))"
  by (simp add: sig_lines_def sig_tags_def unfolded_def join_Cons_concat comp_def) (induction stamps; simp)

lemma BuildSignatureHeader_lines:
  assumes "T = concat (map (\<lambda>t. '' '' @ word t) stamps)"
  shows "BuildSignatureHeader A D S C ''dns/txt'' T H BH [] = join fold_break (sig_lines A D S C stamps H BH @ [''b=''])"
    and "sig \<noteq> [] \<Longrightarrow> BuildSignatureHeader A D S C ''dns/txt'' T H BH sig =
      join fold_break (sig_lines A D S C stamps H BH @ [''b='']) @ FoldSignature sig 0 []"
  by (simp_all add: BuildSignatureHeader_def assms sig_lines_def join_Cons_concat comp_def Let_def)

lemma FoldSignature_pieces:
  "sig \<noteq> [] \<Longrightarrow> \<exists>ps. FoldSignature sig 0 [] = join fold_break ps \<and> concat ps = sig \<and> ps \<noteq> [] \<and> list_all (\<lambda>p. p \<noteq> []) ps"
proof -
  assume sig: "sig \<noteq> []"
  have "\<exists>ps'. FoldSignature sig i (join fold_break ps) = join fold_break ps' \<and> concat ps' = sig \<and> ps' \<noteq> [] \<and> list_all (\<lambda>p. p \<noteq> []) ps'"
    if "concat ps = take i sig" "list_all (\<lambda>p. p \<noteq> []) ps" for i ps
    using that
  proof (induction "length sig - i" arbitrary: i ps rule: less_induct)
    case less
    show ?case
    proof (cases "i < length sig")
      case True
      let ?p = "take lineLength (drop i sig)"
      have p: "?p \<noteq> []" using True by (simp add: lineLength_def)
      have "join fold_break ps = [] \<longleftrightarrow> ps = []" using less.prems(2) by (cases ps) (auto simp: join_Cons_concat)
      then have "FoldSignature sig i (join fold_break ps) = FoldSignature sig (i + lineLength) (join fold_break (ps @ [?p]))"
        using True by (subst FoldSignature.simps) (auto simp: join_snoc)
      moreover have "length sig - (i + lineLength) < length sig - i" using True by (simp add: lineLength_def)
      moreover have "concat (ps @ [?p]) = take (i + lineLength) sig" "list_all (\<lambda>p. p \<noteq> []) (ps @ [?p])"
        using less.prems p by (simp_all add: take_add)
      ultimately show ?thesis using less.hyps by metis
    next
      case False
      then have "concat ps = sig" using less.prems(1) by simp
      with False less.prems(2) sig show ?thesis by (subst FoldSignature.simps) (auto intro!: exI [of _ ps])
    qed
  qed
  from this [of "[]" 0] show ?thesis by simp
qed

text \<open>What a reader of the field sees.\<close>

lemma built_field:
  assumes "T = concat (map (\<lambda>t. '' '' @ word t) stamps)" "list_all plain_tag (sig_tags A D S C stamps H BH)" "plain_text sig" "sig \<noteq> []"
  obtains ps where "concat ps = sig" "ps \<noteq> []" "list_all (\<lambda>p. p \<noteq> []) ps"
    "BuildSignatureHeader A D S C ''dns/txt'' T H BH sig = join fold_break (sig_lines A D S C stamps H BH @ (''b='' @ hd ps) # tl ps)"
    "UnfoldField (BuildSignatureHeader A D S C ''dns/txt'' T H BH sig) = unfolded (sig_tags A D S C stamps H BH) (join '' '' ps)"
    "RelaxedHeaderValue (BuildSignatureHeader A D S C ''dns/txt'' T H BH sig) = unfolded (sig_tags A D S C stamps H BH) (join '' '' ps)"
    "RelaxedHeaderValue (BuildSignatureHeader A D S C ''dns/txt'' T H BH []) = unfolded (sig_tags A D S C stamps H BH) []"
proof -
  let ?L = "sig_lines A D S C stamps H BH"
  obtain ps where ps: "FoldSignature sig 0 [] = join fold_break ps" "concat ps = sig" "ps \<noteq> []" "list_all (\<lambda>p. p \<noteq> []) ps"
    using FoldSignature_pieces [OF assms(4)] by blast
  then have h: "ps = hd ps # tl ps" by simp
  have plain: "list_all plain_text ps" using assms(3) by (auto simp flip: ps(2) simp: plain_text_def list_all_iff)
  have build: "BuildSignatureHeader A D S C ''dns/txt'' T H BH sig = join fold_break (?L @ (''b='' @ hd ps) # tl ps)"
    using join_Cons_concat [of fold_break "hd ps" "tl ps", folded h] unfolding BuildSignatureHeader_lines(2) [OF assms(1,4)] ps(1)
    by (simp add: sig_lines_def join_Cons_concat)
  have piece: "p \<noteq> [] \<and> list_all (\<lambda>c. \<not> IsSpace c) p" if "p \<in> set ps" for p using that plain ps(4) by (simp add: list_all_iff plain_text_def)
  then have "list_all tag_line (tl ps)" using list.set_sel(2) [OF ps(3)] unfolding list_all_iff by (blast intro: spaceless_line [unfolded list_all_iff])
  moreover have "tag_line (''b='' @ hd ps)" "tag_line ''b=''" using piece [OF hd_in_set [OF ps(3)]] by (simp_all add: spaceless_line)
  ultimately have l: "list_all tag_line (?L @ (''b='' @ hd ps) # tl ps)" "list_all tag_line (?L @ [''b=''])"
    using sig_lines_tag [OF assms(2)] by simp_all
  note u = sig_lines_unfolded [of A D S C stamps H BH "hd ps" "tl ps", folded h]
    sig_lines_unfolded [of A D S C stamps H BH "[]" "[]", simplified]
  show thesis
    using that [OF ps(2-4) build] build u UnfoldField_lines [OF _ l(1)] RelaxedHeaderValue_lines [OF _ l(1)] RelaxedHeaderValue_lines [OF _ l(2)]
      BuildSignatureHeader_lines(1) [OF assms(1)] by simp
qed

section \<open>Facts: reading the tags back\<close>

lemma SplitStringAnsi_transparent: "transparent cp (set s) \<Longrightarrow> SplitStringAnsi (through_wide cp) s c = SplitString s c"
  by (rule SplitStringAnsi_conv) (rule transparent_through)

lemma Find_here: "c \<notin> set a \<Longrightarrow> Find (a @ c # b) c = Some (length a)"
  by (induction a) auto

lemma last_Split_other: "t \<noteq> [] \<Longrightarrow> last t \<noteq> c \<Longrightarrow> last (Split t c) \<noteq> []"
proof
  assume t: "t \<noteq> []" "last t \<noteq> c" "last (Split t c) = []"
  then obtain us where us: "Split t c = us @ [[]]" by (metis Split_not_Nil append_butlast_last_id)
  from join_Split [of c t] have "t = join [c] (us @ [[]])" unfolding us by simp
  with t(1,2) show False by (cases "us = []") (auto simp: join_snoc)
qed

lemma LoadParameter_tag:
  assumes "list_all IsSpace sp" "plain_text n" "n \<noteq> []" "CHR ''='' \<notin> set n" "n \<noteq> ''i''" "v = [] \<or> \<not> IsSpace (hd v) \<and> \<not> IsSpace (last v)"
  shows "LoadParameter (sp @ n @ CHR ''='' # v) ps = AList.update n (if n = ''h'' \<or> n = ''b'' then Replace v '' '' [] else v) ps"
proof -
  have eq: "CHR ''='' \<notin> set (sp @ n)" using assms(1,4) IsSpace_chars(6) by (auto simp: list_all_iff)
  have "Find_str ((sp @ n) @ CHR ''='' # v) ''='' = Some (length (sp @ n))"
    unfolding Find_str_single by (rule Find_here [OF eq])
  moreover have "Trim v = v" using assms(6) Trim_id [of v] by (cases "v = []") (auto simp: Trim_def TrimLeft_def TrimRight_def)
  moreover note Trim_plain [OF assms(2)]
  moreover have "Trim (sp @ n) = Trim n" using assms(1) unfolding Trim_def TrimLeft_def isspace_IsSpace by (simp add: dropWhile_append2 list_all_iff)
  ultimately show ?thesis using assms(5) by (simp add: LoadParameter_def Let_def)
qed

lemma fold_LoadParameter:
  assumes "list_all (\<lambda>t. plain_tag t \<and> fst t \<noteq> ''i'') tags" "CHR '';'' \<notin> set z" "list_all IsSpace sp"
  shows "fold LoadParameter (Split (sp @ concat (map (\<lambda>t. word t @ '' '') tags) @ z) CHR '';'') ps =
    LoadParameter ((if tags = [] then sp else '' '') @ z) (fold (\<lambda>t. AList.update (fst t) (snd t)) tags ps)"
  using assms(1,3)
proof (induction tags arbitrary: sp ps)
  case Nil
  have "CHR '';'' \<notin> set sp" using Nil.prems(2) IsSpace_chars(5) by (auto simp: list_all_iff)
  with assms(2) show ?case by simp
next
  case (Cons t tags)
  let ?rest = "'' '' @ concat (map (\<lambda>t. word t @ '' '') tags) @ z"
  from Cons.prems have t: "plain_tag t" "fst t \<noteq> ''i''" by simp_all
  have "CHR '';'' \<notin> set (sp @ fst t @ ''='' @ snd t)" 
    using t(1) plain_text_no_breaks Cons.prems(2) IsSpace_chars(5) by (auto simp: list_all_iff)
  from Split_append_sep [OF this, of ?rest]
  have "Split (sp @ concat (map (\<lambda>t. word t @ '' '') (t # tags)) @ z) CHR '';'' = (sp @ fst t @ CHR ''='' # snd t) # Split ?rest CHR '';''" by simp
  moreover have "snd t = [] \<or> \<not> IsSpace (hd (snd t)) \<and> \<not> IsSpace (last (snd t))" "CHR '' '' \<notin> set (snd t)"
    using t(1) plain_text_no_breaks plain_ends by blast+
  moreover have "list_all IsSpace '' ''" by simp
  ultimately show ?case using t Cons.prems Cons.IH [of "'' ''" "AList.update (fst t) (snd t) ps"] LoadParameter_tag [of sp "fst t" "snd t" ps]
    by (simp add: Replace_absent)
qed

text \<open>The parameters of a built field.\<close>

lemma DKIMParameters_Load_unfolded:
  assumes "list_all (\<lambda>t. plain_tag t \<and> fst t \<noteq> ''i'') tags" "concat bs \<noteq> []" "list_all (\<lambda>p. p \<noteq> [] \<and> plain_text p) bs"
    and "transparent cp (set (unfolded tags (join '' '' bs)))"
  shows "DKIMParameters_Load cp (unfolded tags (join '' '' bs)) = AList.update ''b'' (concat bs) (fold (\<lambda>t. AList.update (fst t) (snd t)) tags [])"
proof -
  let ?z = "''b='' @ join '' '' bs"
  have j: "set (join '' '' bs) \<subseteq> {CHR '' ''} \<union> \<Union> (set ` set bs)" using set_join_subset [of "'' ''" bs] by simp
  have "CHR '';'' \<notin> set b" if "b \<in> set bs" for b using that assms(3) plain_text_no_breaks unfolding list_all_iff by blast
  with j have z: "CHR '';'' \<notin> set ?z" by auto
  have lines: "list_all tag_line bs" using assms(3) plain_line unfolding list_all_iff by blast
  have "bs \<noteq> []" using assms(2) by auto
  note sp = join_spaces [OF this lines]
  have ends: "\<not> IsSpace (hd (join '' '' bs)) \<and> \<not> IsSpace (last (join '' '' bs))" using sp \<open>bs \<noteq> []\<close> lines by (auto simp: list_all_iff tag_line_def)
  have "Replace (join '' '' bs) '' '' [] = concat bs"
    using assms(3) unfolding Replace_single
  proof (induction "'' ''" bs rule: join.induct)
    case (3 x y zs)
    then show ?case using plain_unspaced [of x] by simp
  qed (simp_all add: plain_unspaced)
  then have b: "LoadParameter (w @ ?z) ps = AList.update ''b'' (concat bs) ps" if "w = [] \<or> w = '' ''" for w ps
    using LoadParameter_tag [of w "''b''" "join '' '' bs" ps] ends that by (auto simp: plain_text_def)
  have "last (unfolded tags (join '' '' bs)) \<noteq> CHR '';''" using z sp last_in_set [of "join '' '' bs"] by (auto simp: unfolded_def)
  then have "last (Split (unfolded tags (join '' '' bs)) CHR '';'') \<noteq> []" by (intro last_Split_other) (simp_all add: unfolded_def)
  then have "DKIMParameters_Load cp (unfolded tags (join '' '' bs)) = fold LoadParameter (Split (unfolded tags (join '' '' bs)) CHR '';'') []"
    unfolding DKIMParameters_Load_def SplitStringAnsi_transparent [OF assms(4)] SplitString_eq by (simp add: Let_def)
  with fold_LoadParameter [OF assms(1) z, of "[]" "[]"] b show ?thesis by (simp add: unfolded_def)
qed

section \<open>Facts: what is signed of the field itself\<close>

text \<open>A tag with the white space in front of it.\<close>

abbreviation spaced :: "AnsiString \<times> AnsiString \<times> AnsiString \<Rightarrow> AnsiString" where
  "spaced t \<equiv> fst t @ fst (snd t) @ ''='' @ snd (snd t)"

lemma Trim_spaced: "list_all IsSpace sp \<Longrightarrow> plain_text n \<Longrightarrow> Trim (sp @ n) = n"
  using Trim_plain [of n] unfolding Trim_def TrimLeft_def isspace_IsSpace by (simp add: dropWhile_append2 list_all_iff)

lemma b_tag_spaced:
  assumes "list_all IsSpace sp" "plain_text n" "n \<noteq> []" "CHR ''='' \<notin> set n"
  shows "b_tag (sp @ n @ ''='' @ v) = (if n = ''b'' then Some (length sp + 2) else None)"
proof -
  have "CHR ''='' \<notin> set (sp @ n)" using assms(1,4) IsSpace_chars(6) by (auto simp: list_all_iff)
  from Find_here [OF this, of v] Trim_spaced [OF assms(1,2)] assms(3) show ?thesis by (simp add: b_tag_def)
qed

lemma Split_semicolons:
  "list_all (\<lambda>t. CHR '';'' \<notin> set t) ts \<Longrightarrow> CHR '';'' \<notin> set z \<Longrightarrow> Split (concat (map (\<lambda>t. t @ '';'') ts) @ z) CHR '';'' = ts @ [z]"
  by (induction ts) (auto simp: Split_append_sep)

lemma join_semicolons: "join '';'' (ts @ [z]) = concat (map (\<lambda>t. t @ '';'') ts) @ z"
  by (induction ts) (auto simp: join_Cons)

lemma without_b_append: "without_b [z] = Some [y] \<Longrightarrow> list_all (\<lambda>t. b_tag t = None) ts \<Longrightarrow> without_b (ts @ [z]) = Some (ts @ [y])"
  by (induction ts) simp_all

lemma strip_b_value:
  assumes "list_all (\<lambda>t. list_all IsSpace (fst t) \<and> plain_tag (snd t) \<and> fst (snd t) \<noteq> ''b'') ts" "list_all IsSpace sp" "CHR '';'' \<notin> set bs"
  shows "GetDKIMWithoutSignature (concat (map (\<lambda>t. spaced t @ '';'') ts) @ sp @ ''b='' @ bs) = concat (map (\<lambda>t. spaced t @ '';'') ts) @ sp @ ''b=''"
proof -
  have sep: "list_all IsSpace w \<Longrightarrow> CHR '';'' \<notin> set w" for w using IsSpace_chars(5) by (auto simp: list_all_iff)
  have plain: "plain_text w \<Longrightarrow> CHR '';'' \<notin> set w" for w using plain_text_no_breaks by blast
  have t: "CHR '';'' \<notin> set (spaced t) \<and> b_tag (spaced t) = None" if "t \<in> set ts" for t
    using that assms(1) b_tag_spaced [of "fst t" "fst (snd t)" "snd (snd t)"] sep plain by (auto simp: list_all_iff)
  have split: "Split (concat (map (\<lambda>t. t @ '';'') (map spaced ts)) @ sp @ ''b='' @ bs) CHR '';'' = map spaced ts @ [sp @ ''b='' @ bs]"
    using t sep [OF assms(2)] assms(3) by (intro Split_semicolons) (auto simp: list_all_iff)
  have "b_tag (sp @ ''b='' @ bs) = Some (length sp + 2)"
    using b_tag_spaced [OF assms(2), of "''b''" bs] by (simp add: plain_text_def)
  then have "without_b [sp @ ''b='' @ bs] = Some [sp @ ''b='']" by simp
  moreover have "list_all (\<lambda>t. b_tag t = None) (map spaced ts)" using t by (auto simp: list_all_iff)
  ultimately have "without_b (map spaced ts @ [sp @ ''b='' @ bs]) = Some (map spaced ts @ [sp @ ''b=''])" by (rule without_b_append)
  then show ?thesis using split join_semicolons [of "map spaced ts" "sp @ ''b=''"] by (simp add: GetDKIMWithoutSignature_eq comp_def)
qed

text \<open>What the verifier hashes of the field is what the signer has hashed.\<close>

lemma signature_line:
  assumes T: "T = concat (map (\<lambda>t. '' '' @ word t) stamps)"
    and tags: "list_all (\<lambda>t. plain_tag t \<and> fst t \<noteq> ''b'') (sig_tags A D S C stamps H BH)" and sig: "plain_text sig" "sig \<noteq> []"
  shows "relaxed_signature (''DKIM-Signature'', BuildSignatureHeader A D S C ''dns/txt'' T H BH sig) =
      RelaxedHeaderLine ''DKIM-Signature'' (BuildSignatureHeader A D S C ''dns/txt'' T H BH [])"
    and "simple_signature (''DKIM-Signature'', BuildSignatureHeader A D S C ''dns/txt'' T H BH sig) =
      SimpleHeaderLine ''DKIM-Signature'' (BuildSignatureHeader A D S C ''dns/txt'' T H BH [])"
proof -
  let ?tags = "sig_tags A D S C stamps H BH" and ?v = "BuildSignatureHeader A D S C ''dns/txt'' T H BH"
  have plain: "list_all plain_tag ?tags" using tags by (simp add: list_all_iff)
  from built_field [OF T plain sig] obtain ps where ps: "concat ps = sig" "ps \<noteq> []"
    "RelaxedHeaderValue (?v sig) = unfolded ?tags (join '' '' ps)" "RelaxedHeaderValue (?v []) = unfolded ?tags []" by metis
  have "CHR '';'' \<notin> set p" if "p \<in> set ps" for p using that ps(1) plain_text_no_breaks [OF sig(1)] by auto
  then have semi: "CHR '';'' \<notin> set (join sep ps)" if "CHR '';'' \<notin> set sep" for sep using that set_join_subset [of sep ps] by auto
  have un: "unfolded ?tags bs = concat (map (\<lambda>t. spaced t @ '';'') (([], hd ?tags) # map (Pair '' '') (tl ?tags))) @ '' '' @ ''b='' @ bs" for bs
    by (simp add: sig_tags_def unfolded_def comp_def) (induction stamps; simp)
  have relaxed: "GetDKIMWithoutSignature (unfolded ?tags bs) = unfolded ?tags []" if "CHR '';'' \<notin> set bs" for bs
    unfolding un by (subst strip_b_value) (use that tags in \<open>auto simp: sig_tags_def list_all_iff\<close>)
  show "relaxed_signature (''DKIM-Signature'', ?v sig) = RelaxedHeaderLine ''DKIM-Signature'' (?v [])"
    using relaxed [OF semi [of "'' ''"]] by (simp add: relaxed_signature_def RelaxedHeaderLine_def ps(3,4))
  let ?simple = "[([], ''v'', ''1''), ('' '', ''a'', A), ('' '', ''d'', D), ('' '', ''s'', S), (fold_break, ''c'', C), ('' '', ''q'', ''dns/txt'')] @
    map (Pair '' '') stamps @ [('' '', ''h'', H), (fold_break, ''bh'', BH)]"
  from FoldSignature_pieces [OF sig(2)] obtain qs where qs: "FoldSignature sig 0 [] = join fold_break qs" "concat qs = sig" by blast
  have "CHR '';'' \<notin> set p" if "p \<in> set qs" for p using that qs(2) plain_text_no_breaks [OF sig(1)] by auto
  then have semi': "CHR '';'' \<notin> set (FoldSignature sig 0 [])" unfolding qs(1) using set_join_subset [of fold_break qs] by (auto simp: crlf_def)
  have v: "?v [] = concat (map (\<lambda>t. spaced t @ '';'') ?simple) @ fold_break @ ''b=''" "?v sig = ?v [] @ FoldSignature sig 0 []"
    using sig(2) by (simp_all add: BuildSignatureHeader_def T comp_def)
  have "list_all (\<lambda>t. list_all IsSpace (fst t) \<and> plain_tag (snd t) \<and> fst (snd t) \<noteq> ''b'') ?simple"
    using tags by (simp add: sig_tags_def list_all_iff crlf_def)
  from strip_b_value [OF this _ semi', of fold_break] have strip: "GetDKIMWithoutSignature (?v sig) = ?v []"
    unfolding v(2) unfolding v(1) by (simp add: crlf_def)
  have "\<not> EndsWith (''DKIM-Signature: '' @ ?v []) crlf"
  proof -
    have "CompareNoCase ''b='' crlf \<noteq> 0" by code_simp
    moreover have "Right (x @ ''b='') 2 = ''b=''" for x :: AnsiString by simp
    from this [of "''DKIM-Signature: '' @ concat (map (\<lambda>t. spaced t @ '';'') ?simple) @ fold_break"]
    have "Right (''DKIM-Signature: '' @ ?v []) 2 = ''b=''" unfolding v(1) by (simp only: append_assoc)
    ultimately show ?thesis by (simp add: EndsWith_def)
  qed
  then show "simple_signature (''DKIM-Signature'', ?v sig) = SimpleHeaderLine ''DKIM-Signature'' (?v [])"
    by (simp add: simple_signature_def SimpleHeaderLine_def strip)
qed

section \<open>Facts: base64 in a tag\<close>

text \<open>Base64 text is made of characters of the alphabet, the padding, and line breaks.\<close>

definition base64_char :: "char \<Rightarrow> bool" where
  "base64_char c \<longleftrightarrow> c \<in> set s_Base64Table \<or> c = CHR ''=''"

definition base64_pieces :: "AnsiString \<Rightarrow> bool" where
  "base64_pieces w \<longleftrightarrow> (\<exists>xs. w = concat xs \<and> list_all (\<lambda>x. x = crlf \<or> (\<exists>c. base64_char c \<and> x = [c])) xs)"

lemma base64_table_range: "list_all (\<lambda>c. 43 \<le> ord c \<and> ord c \<noteq> 59) s_Base64Table"
  by (simp add: s_Base64Table_def)

lemma IsSpace_ord: "IsSpace c \<Longrightarrow> ord c \<le> 32"
  by (auto simp: IsSpace_def less_eq_char_def)

lemma base64_charD: "base64_char c \<Longrightarrow> \<not> IsSpace c \<and> c \<noteq> CHR '';'' \<and> c \<noteq> CHR 0x00"
proof -
  assume "base64_char c"
  then have "43 \<le> ord c \<and> ord c \<noteq> 59" using base64_table_range unfolding base64_char_def list_all_iff by auto
  then show ?thesis using IsSpace_ord [of c] by auto
qed

lemma base64_pieces_append:
  assumes "base64_pieces v" "base64_pieces w"
  shows "base64_pieces (v @ w)"
proof -
  let ?ok = "list_all (\<lambda>x. x = crlf \<or> (\<exists>c. base64_char c \<and> x = [c]))"
  from assms obtain xs ys where "v = concat xs" "?ok xs" "w = concat ys" "?ok ys" unfolding base64_pieces_def by blast
  then have "v @ w = concat (xs @ ys) \<and> ?ok (xs @ ys)" by simp
  then show ?thesis unfolding base64_pieces_def by (rule exI)
qed

lemma base64_pieces_chars: "list_all base64_char w \<Longrightarrow> base64_pieces w"
  unfolding base64_pieces_def by (intro exI [of _ "map (\<lambda>c. [c]) w"]) (auto simp: list_all_iff)

lemma base64_pieces_crlf: "base64_pieces crlf"
  unfolding base64_pieces_def by (intro exI [of _ "[crlf]"]) simp

lemma Base64Char_char: "b < 64 \<Longrightarrow> base64_char (Base64Char b)"
  unfolding base64_char_def Base64Char_def by (intro disjI1 nth_mem) (simp add: word_less_nat_alt)

lemma Replace_base64: "base64_pieces w \<Longrightarrow> list_all base64_char (Replace w crlf [])"
proof -
  have "list_all base64_char (Replace (concat xs) crlf [])" if "list_all (\<lambda>x. x = crlf \<or> (\<exists>c. base64_char c \<and> x = [c])) xs" for xs
    using that
  proof (induction xs)
    case (Cons x xs)
    then consider "x = crlf" | c where "base64_char c" "x = [c]" by auto
    then show ?case
    proof cases
      case 1
      with Cons show ?thesis by (simp add: Replace_hit)
    next
      case 2
      then have "c \<noteq> CHR 0x0D" using base64_charD IsSpace_chars(1) by blast
      with 2 Cons show ?thesis by (simp add: Replace_Cons crlf_def)
    qed
  qed simp
  then show "base64_pieces w \<Longrightarrow> list_all base64_char (Replace w crlf [])" by (auto simp: base64_pieces_def)
qed

definition kept_bits :: "nat \<Rightarrow> byte \<Rightarrow> bool" where
  "kept_bits n hi \<longleftrightarrow> (n mod 3 = 1 \<longrightarrow> (\<exists>b. hi = push_bit 4 b AND 0x30)) \<and> (n mod 3 = 2 \<longrightarrow> (\<exists>b. hi = push_bit 2 b AND 0x3c))"

lemma kept_bits_digit: "kept_bits n hi \<Longrightarrow> n mod 3 \<noteq> 0 \<Longrightarrow> hi < 64"
proof -
  assume a: "kept_bits n hi" "n mod 3 \<noteq> 0"
  then have "n mod 3 = 1 \<or> n mod 3 = 2" by linarith
  with a show "hi < 64" using base64_digits(2,3) by (auto simp: kept_bits_def)
qed

lemma Base64EncodeStep_base64:
  assumes "kept_bits n hi" "Base64EncodeStep brk ch n l hi = (cs, l', hi')"
  shows "base64_pieces cs \<and> kept_bits (n + 1) hi' \<and> (l + 2 < 76 \<longrightarrow> list_all base64_char cs \<and> 0 < l' \<and> l' \<le> l + 2)"
proof -
  consider "n mod 3 = 0" | "n mod 3 = 1" | "n mod 3 = 2" by linarith
  then obtain ds m where ds: "list_all base64_char ds" "kept_bits (n + 1) hi'" "0 < m" "m \<le> l + 2"
    "(cs, l') = (if brk \<and> m \<ge> MAX_MIME_LINE_LEN then (ds @ crlf, 0) else (ds, m))"
  proof cases
    case 1
    then have n: "(n + 1) mod 3 = 1" by (simp add: mod_Suc)
    show thesis by (rule that [of "[Base64Char (drop_bit 2 ch)]" "l + 1"])
        (use assms 1 n base64_digits(1) in \<open>auto simp: Base64EncodeStep_def Let_def kept_bits_def Base64Char_char split: if_splits\<close>)
  next
    case 2
    then have n: "(n + 1) mod 3 = 2" by (simp add: mod_Suc)
    from 2 assms(1) obtain b where "hi = push_bit 4 b AND 0x30" by (auto simp: kept_bits_def)
    then show thesis by (intro that [of "[Base64Char (hi OR drop_bit 4 ch)]" "l + 1"])
        (use assms 2 n base64_digits(5) in \<open>auto simp: Base64EncodeStep_def Let_def kept_bits_def Base64Char_char split: if_splits\<close>)
  next
    case 3
    then have n: "(n + 1) mod 3 = 0" by (simp add: mod_Suc)
    from 3 assms(1) obtain b where "hi = push_bit 2 b AND 0x3c" by (auto simp: kept_bits_def)
    then show thesis by (intro that [of "[Base64Char (hi OR drop_bit 6 ch), Base64Char (ch AND 0x3f)]" "l + 2"])
        (use assms 3 n base64_digits(4,6) in \<open>auto simp: Base64EncodeStep_def Let_def kept_bits_def Base64Char_char split: if_splits\<close>)
  qed
  then show ?thesis using base64_pieces_append [OF base64_pieces_chars [OF ds(1)] base64_pieces_crlf] base64_pieces_chars [OF ds(1)]
    by (auto simp: MAX_MIME_LINE_LEN_def split: if_splits)
qed

lemma Base64EncodeLoop_base64:
  "Base64EncodeLoop brk input n l hi r = (n', l', hi', r') \<Longrightarrow> kept_bits n hi \<Longrightarrow>
   (base64_pieces r \<longrightarrow> base64_pieces r') \<and> kept_bits n' hi' \<and>
   (l + 2 * length input < 76 \<longrightarrow> list_all base64_char r \<longrightarrow> list_all base64_char r' \<and> (input \<noteq> [] \<longrightarrow> 0 < l'))"
proof (induction input arbitrary: n l hi r)
  case (Cons c input)
  obtain cs m h where s: "Base64EncodeStep brk (byte_of c) n l hi = (cs, m, h)" by (metis surj_pair)
  note step = Base64EncodeStep_base64 [OF Cons.prems(2) s]
  from Cons.prems(1) s have "Base64EncodeLoop brk input (n + 1) m h (r @ cs) = (n', l', hi', r')" by simp
  from Cons.IH [OF this] this step base64_pieces_append show ?case by (cases input) auto
qed auto

lemma Base64_Encode_plain: "plain_text (Base64_Encode s)"
proof -
  obtain n l hi r where loop: "Base64EncodeLoop True s 0 0 0 [] = (n, l, hi, r)" by (metis surj_pair)
  have r: "base64_pieces r" "kept_bits n hi"
    using Base64EncodeLoop_base64 [OF loop] base64_pieces_chars [of "[]"] by (auto simp: kept_bits_def)
  let ?t = "if n mod 3 \<noteq> 0 then [Base64Char hi] @ replicate (4 - n mod 3 - 1) CHR ''='' else []"
  have "list_all base64_char ?t" using kept_bits_digit [OF r(2)] Base64Char_char by (auto simp: list_all_iff base64_char_def)
  note t = base64_pieces_append [OF r(1) base64_pieces_chars [OF this]]
  have "MimeCodeBase64_Encode True s = (r @ ?t) @ (if l \<noteq> 0 then crlf else [])" by (simp add: MimeCodeBase64_Encode_def loop)
  with base64_pieces_append [OF t base64_pieces_crlf] t have "base64_pieces (MimeCodeBase64_Encode True s)" by (auto split: if_splits)
  from Replace_base64 [OF this] show ?thesis using base64_charD by (auto simp: Base64_Encode_def plain_text_def list_all_iff)
qed

text \<open>A digest fits in one line, and the line break after it is what is cut off.\<close>

lemma GenerateHashNoSalt_plain:
  assumes "EVP_Digest ssl t m = Some g" "g \<noteq> []" "length g \<le> 37"
  shows "plain_text (GenerateHashNoSalt ssl t m) \<and> GenerateHashNoSalt ssl t m \<noteq> [] \<and> c_str (GenerateHashNoSalt ssl t m) = GenerateHashNoSalt ssl t m"
proof -
  obtain n l hi r where loop: "Base64EncodeLoop True g 0 0 0 [] = (n, l, hi, r)" by (metis surj_pair)
  have r: "list_all base64_char r" "0 < l" "kept_bits n hi"
    using Base64EncodeLoop_base64 [OF loop] assms(2,3) by (auto simp: kept_bits_def)
  let ?t = "if n mod 3 \<noteq> 0 then [Base64Char hi] @ replicate (4 - n mod 3 - 1) CHR ''='' else []"
  have t: "list_all base64_char (r @ ?t)" using r(1) kept_bits_digit [OF r(3)] Base64Char_char by (auto simp: list_all_iff base64_char_def)
  have e: "MimeCodeBase64_Encode True g = (r @ ?t) @ crlf" using r(2) by (simp add: MimeCodeBase64_Encode_def loop)
  then have h: "GenerateHashNoSalt ssl t m = r @ ?t" by (simp add: GenerateHashNoSalt_def assms(1) Let_def)
  have "r @ ?t \<noteq> []"
  proof
    assume "r @ ?t = []"
    with e have "MimeCodeBase64_Encode True g = crlf" by simp
    with MimeCodeBase64_round_trip [of True g] assms(2) show False by (simp add: MimeCodeBase64_Decode_def crlf_def DecodeBase64Char_def)
  qed
  moreover have "plain_text (r @ ?t)" using t base64_charD unfolding plain_text_def list_all_iff by blast
  moreover have "c_str (r @ ?t) = r @ ?t" using t base64_charD unfolding c_str_def takeWhile_eq_all_conv list_all_iff by blast
  ultimately show ?thesis unfolding h by blast
qed

end
