(* ===== verification/DKIM_RoundTrip.thy ===== *)
theory DKIM_RoundTrip
  imports DKIM_Signing
begin

text \<open>
  Signer and verifier together: what \<^verbatim>\<open>DKIM::Sign\<close> writes, \<^verbatim>\<open>DKIM::Verify\<close> accepts. The theory has no definitions of code; it relates
  those of \<open>DKIM_Signing\<close> to those of \<open>DKIM\<close> through the interface \<open>header_canonicalization\<close>.
\<close>

section \<open>Facts: the names that are signed\<close>

abbreviation dkim_name :: AnsiString where
  "dkim_name \<equiv> ''DKIM-Signature''"

text \<open>The names a server signs: valid names without a semicolon, and not the signature field itself.\<close>

definition signable :: "AnsiString \<Rightarrow> bool" where
  "signable n \<longleftrightarrow> IsValidHeaderFieldName n \<and> CHR '';'' \<notin> set n \<and> \<not> same_name n dkim_name"

lemma tolower_semicolon: "tolower_classic c = CHR '';'' \<longleftrightarrow> c = CHR '';''"
proof -
  have "ord (tolower_classic c) = 59 \<longleftrightarrow> ord c = 59" by (auto simp: tolower_classic_def less_eq_char_def)
  moreover have "x = CHR '';'' \<longleftrightarrow> ord x = 59" for x using of_char_eq_iff [of x "CHR '';''", where 'a = nat] by simp
  ultimately show ?thesis by simp
qed

lemma signable_same_name: "signable m \<Longrightarrow> same_name n m \<Longrightarrow> IsValidHeaderFieldName n \<Longrightarrow> signable n"
proof -
  assume a: "signable m" "same_name n m" "IsValidHeaderFieldName n"
  have "CHR '';'' \<in> set (map tolower_classic x) \<longleftrightarrow> CHR '';'' \<in> set x" for x
    unfolding set_map image_iff by (metis tolower_semicolon)
  from this [of n] this [of m] a show ?thesis unfolding signable_def by simp
qed

lemma signable_plain: "signable n \<Longrightarrow> plain_text n"
  using valid_name_char IsSpace_ord by (fastforce simp: signable_def plain_text_def list_all_iff)

lemma JoinFieldList_eq: "list_all (\<lambda>n. n \<noteq> []) ns \<Longrightarrow> JoinFieldList ns = join '':'' ns"
proof -
  assume a: "list_all (\<lambda>n. n \<noteq> []) ns"
  have "foldl (\<lambda>result field. if field = [] then result else if result \<noteq> [] then result @ '':'' @ field else result @ field) r ns = foldl add_name r ns" for r
    using a by (induction ns arbitrary: r) (auto simp: add_name_def)
  then show ?thesis using foldl_add_name [OF a] by (simp add: JoinFieldList_def)
qed

lemma set_SplitString: "set s \<subseteq> {c} \<union> \<Union> (set ` set (SplitString s c))"
proof -
  have "set s \<subseteq> {c} \<union> \<Union> (set ` set (Split s c))" using set_join_subset [of "[c]" "Split s c"] by (simp add: join_Split)
  moreover have "\<Union> (set ` set (Split s c)) \<subseteq> \<Union> (set ` set (SplitString s c))"
  proof (cases "last (Split s c) = []")
    case True
    then have "Split s c = SplitString s c @ [[]]" by (simp add: SplitString_eq Let_def) (metis Split_not_Nil append_butlast_last_id)
    then show ?thesis by simp
  next
    case False
    then show ?thesis by (simp add: SplitString_eq)
  qed
  ultimately show ?thesis by blast
qed

section \<open>The lists of names\<close>

abbreviation clean_name :: "AnsiString \<Rightarrow> bool" where
  "clean_name n \<equiv> IsValidHeaderFieldName n \<and> CHR '';'' \<notin> set n"

definition lists_ok :: "AnsiString list \<times> AnsiString list \<Rightarrow> bool" where
  "lists_ok st \<longleftrightarrow>
     (case st of (recommended, oversign) \<Rightarrow>
        take (length defaultHeaderFields) recommended = defaultHeaderFields \<and> list_all clean_name recommended \<and> list_all clean_name oversign \<and>
        distinct (map (map tolower_classic) oversign) \<and> list_all (\<lambda>n. list_ex (same_name n) recommended) oversign)"

text \<open>The names of a setting: colons, commas and semicolons separate them.\<close>

definition setting_names :: "AnsiString \<Rightarrow> AnsiString list" where
  "setting_names configured = map Trim (SplitString (map (\<lambda>c. if c = CHR '','' \<or> c = CHR '';'' then CHR '':'' else c) configured) CHR '':'')"

lemma ContainsFieldNoCase_same:
  assumes "list_all clean_name fds" "IsValidHeaderFieldName n"
  shows "ContainsFieldNoCase fds n \<longleftrightarrow> list_ex (same_name n) fds"
proof -
  have "CompareNoCase f n = 0 \<longleftrightarrow> same_name n f" if "f \<in> set fds" for f
    using assms that valid_name_chars(2) unfolding list_all_iff by (intro CompareNoCase_valid(2)) blast+
  then show ?thesis unfolding ContainsFieldNoCase_def list_ex_iff by blast
qed

lemma lists_ok_add:
  assumes "lists_ok (r, s)" "clean_name n" "\<not> ContainsFieldNoCase s n"
  shows "lists_ok (if ContainsFieldNoCase r n then r else r @ [n], s @ [n])"
proof -
  have r: "take (length defaultHeaderFields) r = defaultHeaderFields" "list_all clean_name r" "list_all clean_name s" "distinct (map (map tolower_classic) s)"
    "list_all (\<lambda>n. list_ex (same_name n) r) s" using assms(1) unfolding lists_ok_def by auto
  then have "length defaultHeaderFields \<le> length r" by (metis length_take min.cobounded1)
  moreover have "\<not> list_ex (same_name n) s" "list_ex (same_name n) r \<longleftrightarrow> ContainsFieldNoCase r n" using assms(2,3) r by (simp_all add: ContainsFieldNoCase_same)
  ultimately show ?thesis using r assms(2) unfolding lists_ok_def by (auto simp: list_ex_iff list_all_iff)
qed

lemma OversigningLoop_ok:
  assumes "lists_ok (r, s)" "list_all (\<lambda>n. CHR '';'' \<notin> set n) names"
  shows "lists_ok (OversigningLoop names (r, s)) \<and> set s \<subseteq> set (snd (OversigningLoop names (r, s))) \<and>
    list_all (\<lambda>n. IsValidHeaderFieldName n \<longrightarrow> list_ex (same_name n) (snd (OversigningLoop names (r, s)))) (map Trim names)"
  using assms
proof (induction names arbitrary: r s)
  case (Cons name names)
  let ?n = "Trim name"
  have semi: "CHR '';'' \<notin> set ?n" using Cons.prems(2) set_Trim [of name] by auto
  show ?case
  proof (cases "IsValidHeaderFieldName ?n \<and> \<not> ContainsFieldNoCase s ?n")
    case True
    let ?r = "if ContainsFieldNoCase r ?n then r else r @ [?n]"
    have step: "OversigningLoop (name # names) (r, s) = OversigningLoop names (?r, s @ [?n])"
      using True valid_name_chars(4) by (auto simp: Let_def)
    have ok: "lists_ok (?r, s @ [?n])" using lists_ok_add Cons.prems(1) True semi by blast
    have "list_all (\<lambda>n. CHR '';'' \<notin> set n) names" using Cons.prems(2) by simp
    from Cons.IH [OF ok this] show ?thesis unfolding step by (auto simp: list_ex_iff)
  next
    case False
    have step: "OversigningLoop (name # names) (r, s) = OversigningLoop names (r, s)" using False by (auto simp: Let_def)
    have "list_all clean_name s" using Cons.prems(1) by (simp add: lists_ok_def)
    with False have "IsValidHeaderFieldName ?n \<longrightarrow> list_ex (same_name ?n) s" by (auto simp: ContainsFieldNoCase_same)
    moreover have "list_all (\<lambda>n. CHR '';'' \<notin> set n) names" using Cons.prems(2) by simp
    ultimately show ?thesis using Cons.IH [OF Cons.prems(1)] unfolding step by (auto simp: list_ex_iff)
  qed
qed simp

lemma lists_ok_default: "lists_ok (defaultHeaderFields, [])"
proof -
  have "list_all clean_name defaultHeaderFields" by code_simp
  then show ?thesis by (simp add: lists_ok_def)
qed

lemma lists_ok_From: "lists_ok (r, s) \<Longrightarrow> list_ex (same_name ''From'') r"
proof -
  assume "lists_ok (r, s)"
  then have "set defaultHeaderFields \<subseteq> set r" unfolding lists_ok_def case_prod_conv by (metis set_take_subset)
  then have "''From'' \<in> set r" by (simp add: defaultHeaderFields_def)
  then show ?thesis unfolding list_ex_iff by blast
qed

lemma flattened_names:
  assumes "transparent cp UNIV"
  shows "map Trim (SplitStringAnsi (through_wide cp) (Replace (Replace configured '','' '':'') '';'' '':'') CHR '':'') = setting_names configured"
    "list_all (\<lambda>n. CHR '';'' \<notin> set n) (SplitStringAnsi (through_wide cp) (Replace (Replace configured '','' '':'') '';'' '':'') CHR '':'')"
proof -
  let ?t = "Replace (Replace configured '','' '':'') '';'' '':''"
  have t: "?t = map (\<lambda>c. if c = CHR '','' \<or> c = CHR '';'' then CHR '':'' else c) configured"
    by (induction configured) (auto simp: Replace_single)
  have split: "SplitStringAnsi (through_wide cp) ?t CHR '':'' = SplitString ?t CHR '':''"
    by (rule SplitStringAnsi_transparent [OF transparent_mono [OF assms]]) simp
  show "map Trim (SplitStringAnsi (through_wide cp) ?t CHR '':'') = setting_names configured" unfolding split by (simp add: t setting_names_def)
  have "set n \<subseteq> set ?t" if "n \<in> set (SplitString ?t CHR '':'')" for n
  proof -
    have "n \<in> set (Split ?t CHR '':'')" using that in_set_butlastD [of n] unfolding SplitString_eq Let_def by (simp split: if_splits)
    from set_part_join [OF this, of "'':''"] show ?thesis unfolding join_Split .
  qed
  moreover have "CHR '';'' \<notin> set ?t" unfolding t by auto
  ultimately show "list_all (\<lambda>n. CHR '';'' \<notin> set n) (SplitStringAnsi (through_wide cp) ?t CHR '':'')" unfolding split list_all_iff by blast
qed

text \<open>
  C18: The lists of names that \<^verbatim>\<open>Initialize\<close> builds, whatever the setting holds and whatever the lists were before: the default fields are signed first; all
  names can stand in the h tag; the names to oversign differ from one another, are all signed as well, and hold From unless there are none; with a
  setting of at most 256 characters they hold every valid name of the setting.
\<close>

theorem initialized_lists:
  assumes "transparent cp UNIV" "DKIM_Initialize cp configured before = (recommended, oversign)"
  shows "take (length defaultHeaderFields) recommended = defaultHeaderFields \<and> list_all clean_name recommended \<and> list_all clean_name oversign \<and>
    distinct (map (map tolower_classic) oversign) \<and> list_all (\<lambda>n. list_ex (same_name n) recommended) oversign \<and>
    (oversign = [] \<or> list_ex (same_name ''From'') oversign) \<and>
    (length configured \<le> 256 \<longrightarrow> list_all (\<lambda>n. IsValidHeaderFieldName n \<longrightarrow> list_ex (same_name n) oversign) (setting_names configured))"
proof (cases "configured = [] \<or> length configured > 256")
  case True
  then have "recommended = defaultHeaderFields" "oversign = []"
    using assms(2) unfolding DKIM_Initialize_def InitializeOversigning_def MaxOversignHeadersLength_def by (simp_all split: if_splits)
  moreover have "setting_names [] = []" by code_simp
  ultimately show ?thesis using lists_ok_default True by (auto simp: lists_ok_def)
next
  case False
  let ?names = "SplitStringAnsi (through_wide cp) (Replace (Replace configured '','' '':'') '';'' '':'') CHR '':''"
  obtain r s where loop: "OversigningLoop ?names (defaultHeaderFields, []) = (r, s)" by fastforce
  from OversigningLoop_ok [OF lists_ok_default flattened_names(2) [OF assms(1)], of configured, unfolded loop flattened_names(1) [OF assms(1)]]
  have ok: "lists_ok (r, s)" "list_all (\<lambda>n. IsValidHeaderFieldName n \<longrightarrow> list_ex (same_name n) s) (setting_names configured)" by simp_all
  have clean: "list_all clean_name s" using ok(1) by (simp add: lists_ok_def)
  have valid: "clean_name ''From''" by code_simp
  note From = ContainsFieldNoCase_same [OF clean, of "''From''"] ContainsFieldNoCase_same [of r "''From''"]
  have res: "(recommended, oversign) = (if s \<noteq> [] \<and> \<not> ContainsFieldNoCase s ''From'' then (r, s @ [''From'']) else (r, s))"
    using assms(2) False by (simp add: DKIM_Initialize_def InitializeOversigning_def MaxOversignHeadersLength_def loop Let_def)
  have "lists_ok (recommended, oversign)"
    using lists_ok_add [OF ok(1) valid] ok(1) From(2) lists_ok_From [OF ok(1)] valid unfolding res by (auto simp: lists_ok_def)
  moreover have "oversign = [] \<or> list_ex (same_name ''From'') oversign" using res From(1) valid by (auto split: if_splits)
  moreover have "list_all (\<lambda>n. IsValidHeaderFieldName n \<longrightarrow> list_ex (same_name n) oversign) (setting_names configured)"
    using ok(2) res by (auto simp: list_all_iff list_ex_iff split: if_splits)
  ultimately show ?thesis unfolding lists_ok_def by simp
qed

theorem initialized_lists_witness:
  "DKIM_Initialize latin ''to, x-a;'' ([], []) = (defaultHeaderFields @ [''x-a''], [''to'', ''x-a'', ''From'']) \<and>
   list_ex (same_name ''x-a'') (defaultHeaderFields @ [''x-a''])"
proof -
  have "DKIM_Initialize latin ''to, x-a;'' ([], []) = (defaultHeaderFields @ [''x-a''], [''to'', ''x-a'', ''From''])" by code_simp
  with initialized_lists [OF transparent_latin this] show ?thesis by simp
qed

section \<open>What the verifier hashes is what the signer has signed\<close>

text \<open>The h tag and the bytes before the signature field: with names to oversign, those of the final list.\<close>

definition listed ::
  "(AnsiString \<Rightarrow> AnsiString \<times> AnsiString \<Rightarrow> AnsiString list \<Rightarrow> AnsiString \<Rightarrow> AnsiString \<times> AnsiString) \<Rightarrow> AnsiString \<Rightarrow> AnsiString list \<Rightarrow> AnsiString list \<Rightarrow> AnsiString \<times> AnsiString" where
  "listed canon h names over =
     (let (r, l) = canon h ([], []) names [];
          fs = filter (\<lambda>n. n \<noteq> []) (SplitString l CHR '':'') @ over
      in if over \<noteq> [] then (fst (canon h ([], []) fs []), JoinFieldList fs) else (r, l))"

context header_canonicalization
begin

lemma verifier_bytes_signed:
  assumes "ok (set (dkim_name @ '': '' @ v @ crlf @ h))" "CHR 0x00 \<notin> set h" "list_all signable names" "list_all signable over"
    "folded_value v" "v = [] \<or> \<not> is_WSP (hd v)" "h = [] \<or> \<not> is_WSP (hd h)"
  shows "fst (canon (dkim_name @ '': '' @ v @ crlf @ h) (dkim_name, v) (SplitString (snd (listed canon h names over)) CHR '':'') []) =
      fst (listed canon h names over) @ sig (dkim_name, v) \<and>
    list_all signable (SplitString (snd (listed canon h names over)) CHR '':'') \<and>
    (over \<noteq> [] \<longrightarrow> set over \<subseteq> set (SplitString (snd (listed canon h names over)) CHR '':''))"
proof -
  have valid: "IsValidHeaderFieldName dkim_name" by code_simp
  have signable: "list_all signable ns \<Longrightarrow> list_all (\<lambda>n. IsValidHeaderFieldName n \<and> \<not> same_name n dkim_name) ns" for ns
    by (simp add: list_all_iff signable_def)
  obtain r l where c: "canon h ([], []) names [] = (r, l)" by fastforce
  have "ok (set h)" using assms(1) by (rule ok_mono) auto
  moreover have "list_all IsValidHeaderFieldName names" using signable [OF assms(3)] by (simp add: list_all_iff)
  ultimately have found: "list_all (\<lambda>n'. IsValidHeaderFieldName n' \<and> list_ex (same_name n') names) (SplitString l CHR '':'')"
    using relisted assms(2) c by blast
  then have l: "list_all signable (SplitString l CHR '':'')"
    using assms(3) signable_same_name unfolding list_all_iff list_ex_iff by blast
  show ?thesis
  proof (cases "over = []")
    case True
    with c l verifier_bytes_found [OF assms(1,2) signable [OF assms(3)] valid assms(5-7) c] show ?thesis by (simp add: listed_def)
  next
    case False
    let ?fs = "filter (\<lambda>n. n \<noteq> []) (SplitString l CHR '':'') @ over"
    have fs: "list_all signable ?fs" using l assms(4) by (auto simp: list_all_iff)
    then have v: "list_all IsValidHeaderFieldName ?fs" unfolding signable_def list_all_iff by blast
    then have "list_all (\<lambda>n. n \<noteq> []) ?fs" using valid_name_chars(4) unfolding list_all_iff by blast
    with v have split: "SplitString (JoinFieldList ?fs) CHR '':'' = ?fs" by (simp only: JoinFieldList_eq SplitString_join_names)
    have e: "listed canon h names over = (fst (canon h ([], []) ?fs []), JoinFieldList ?fs)" using False by (simp add: listed_def c Let_def)
    show ?thesis unfolding e fst_conv snd_conv split
      using verifier_bytes [OF assms(1) signable [OF fs] valid assms(5-7)] fs by simp
  qed
qed

end

lemma SignedFields_listed:
  "transparent (sign_page env) UNIV \<Longrightarrow>
   SignedFields env m h = listed (CanonicalizeHeader (sign_page env) m) h (recommendedHeaderFields env) (oversignHeaderFields env)"
  by (auto simp: SignedFields_def listed_def Let_def SplitStringAnsi_transparent [OF transparent_mono] split: prod.splits)

abbreviation signature_part :: "CanonicalizeMethod \<Rightarrow> AnsiString \<times> AnsiString \<Rightarrow> AnsiString" where
  "signature_part m \<equiv> (case m of Simple \<Rightarrow> simple_signature | Relaxed \<Rightarrow> relaxed_signature)"

lemma verified_bytes:
  assumes "transparent cp UNIV" "CHR 0x00 \<notin> set h" "list_all signable names" "list_all signable over"
    "folded_value v" "v = [] \<or> \<not> is_WSP (hd v)" "h = [] \<or> \<not> is_WSP (hd h)"
  shows "fst (CanonicalizeHeader cp m (dkim_name @ '': '' @ v @ crlf @ h) (dkim_name, v) (SplitString (snd (listed (CanonicalizeHeader cp m) h names over)) CHR '':'') []) =
      fst (listed (CanonicalizeHeader cp m) h names over) @ signature_part m (dkim_name, v) \<and>
    list_all signable (SplitString (snd (listed (CanonicalizeHeader cp m) h names over)) CHR '':'') \<and>
    (over \<noteq> [] \<longrightarrow> set over \<subseteq> set (SplitString (snd (listed (CanonicalizeHeader cp m) h names over)) CHR '':''))"
proof -
  have "transparent cp (S \<union> ascii)" for S using assms(1) by (rule transparent_mono) simp
  note ok = this
  show ?thesis
  proof (cases m)
    case Simple
    then show ?thesis using simple.verifier_bytes_signed [OF ok assms(2-7)] by simp
  next
    case Relaxed
    then show ?thesis using relaxed.verifier_bytes_signed [OF ok assms(2-7)] by simp
  qed
qed

section \<open>Facts: the new field in front of the message\<close>

lemma Find_crlf_after: "CHR 0x0D \<notin> set p \<Longrightarrow> Find_str (p @ crlf @ rest) crlf = Some (length p)"
  using Find_crlf_prefix [of p "crlf @ rest"] by (simp add: crlf_def)

lemma folded_lines: "CHR 0x0D \<notin> set p \<Longrightarrow> list_all tag_line ls \<Longrightarrow> folded_value (p @ join fold_break ls)"
proof (induction "fold_break" ls arbitrary: p rule: join.induct)
  case (1 p)
  then have "Find_str p crlf = None" using Find_crlf_prefix [of p "[]"] by (simp add: crlf_def)
  then show ?case by (subst folded_value.simps) simp
next
  case (2 x)
  then have "Find_str (p @ x) crlf = None" using Find_crlf_prefix [of "p @ x" "[]"] by (simp add: crlf_def tag_line_def)
  then show ?case by (subst folded_value.simps) simp
next
  case (3 x y zs)
  have "CHR 0x0D \<notin> set (p @ x)" using 3(2,3) by (simp add: tag_line_def)
  note f = Find_crlf_after [OF this, of "[CHR 0x09] @ join fold_break (y # zs)"]
  have "folded_value ([CHR 0x09] @ join fold_break (y # zs))" using 3 by (intro 3(1)) simp_all
  with f show ?case by (subst folded_value.simps) (simp add: is_WSP_def)
qed

lemma field_of_lines:
  assumes "ls \<noteq> []" "list_all tag_line ls"
  shows "folded_value (join fold_break ls)" "join fold_break ls \<noteq> []" "\<not> is_WSP (hd (join fold_break ls))"
proof -
  show "folded_value (join fold_break ls)" using folded_lines [of "[]"] assms(2) by simp
  obtain l ms where "ls = l # ms" using assms(1) by (cases ls) auto
  with assms(2) show "join fold_break ls \<noteq> []" "\<not> is_WSP (hd (join fold_break ls))"
    using WSP_IsSpace by (auto simp: join_Cons_concat tag_line_def)
qed

text \<open>Where the first empty line of the message is when a folded field is put in front of it.\<close>

definition shifted :: "nat \<Rightarrow> nat option \<Rightarrow> nat option" where
  "shifted n = map_option (\<lambda>i. n + i)"

lemma shifted_simps [simp]: "shifted n None = None" "shifted n (Some i) = Some (n + i)" "shifted m (shifted n x) = shifted (m + n) x" "shifted 0 x = x"
  by (cases x; simp add: shifted_def)+

lemma Find_empty_line_prefix:
  assumes "CHR 0x0D \<notin> set p" "s = [] \<or> hd s \<noteq> CHR 0x0D"
  shows "Find_str (p @ crlf @ s) empty_line = shifted (length p + 2) (Find_str s empty_line)"
proof -
  have suc: "map_option Suc x = shifted 1 x" for x by (cases x) simp_all
  have "Find_str (crlf @ s) empty_line = shifted 2 (Find_str s empty_line)"
    using assms(2) by (cases s) (auto simp: crlf_def empty_line_def suc numeral_3_eq_3)
  moreover have "Find_str (p @ t) empty_line = shifted (length p) (Find_str t empty_line)" for t
    using assms(1) by (induction p) (auto simp: empty_line_def crlf_def suc)
  ultimately show ?thesis by simp
qed

lemma Find_empty_line_lines:
  "ls \<noteq> [] \<Longrightarrow> list_all tag_line ls \<Longrightarrow> CHR 0x0D \<notin> set q \<Longrightarrow> s = [] \<or> hd s \<noteq> CHR 0x0D \<Longrightarrow>
   Find_str (q @ join fold_break ls @ crlf @ s) empty_line = shifted (length (q @ join fold_break ls @ crlf)) (Find_str s empty_line)"
proof (induction "fold_break" ls arbitrary: q rule: join.induct)
  case (2 x)
  then show ?case using Find_empty_line_prefix [of "q @ x" s] by (simp add: tag_line_def)
next
  case (3 x y zs)
  have "CHR 0x0D \<notin> set (q @ x)" using 3 by (simp add: tag_line_def)
  from Find_empty_line_prefix [OF this, of "[CHR 0x09] @ join fold_break (y # zs) @ crlf @ s"] 3(1) [of "[CHR 0x09]"] 3(3-5)
  show ?case by (simp add: ac_simps)
qed simp

section \<open>Facts: the checks on a built field\<close>

abbreviation stamps_of :: "64 word \<Rightarrow> int \<Rightarrow> (AnsiString \<times> AnsiString) list" where
  "stamps_of t validity \<equiv>
     (''t'', print_signed (sint t)) # (if validity > 0 then [(''x'', print_signed (sint (t + word_of_int validity)))] else [])"

lemma BuildTimestampTags_stamps: "BuildTimestampTags t validity = concat (map (\<lambda>s. '' '' @ word s) (stamps_of t validity))"
  by (simp add: BuildTimestampTags_def)

lemma print_signed_plain: "plain_text (print_signed v)"
proof -
  have "\<not> IsSpace c \<and> c \<noteq> CHR '';'' \<and> c \<noteq> CHR 0x00" if "c \<in> set (print_unsigned n)" for c n
  proof -
    have "48 \<le> ord c \<and> ord c \<le> 57" using print_unsigned_digits [OF that] by (auto simp: isdigit_classic_def less_eq_char_def)
    then show ?thesis using IsSpace_ord [of c] by auto
  qed
  moreover have "\<not> IsSpace CHR ''-''" using IsSpace_ord [of "CHR ''-''"] by auto
  ultimately show ?thesis by (auto simp: print_signed_def plain_text_def list_all_iff)
qed

text \<open>What the verifier reads of a built field.\<close>

definition sig_params :: "AnsiString \<Rightarrow> AnsiString \<Rightarrow> AnsiString \<Rightarrow> AnsiString \<Rightarrow> (AnsiString \<times> AnsiString) list \<Rightarrow> AnsiString \<Rightarrow> AnsiString \<Rightarrow> AnsiString \<Rightarrow> DKIMParameters" where
  "sig_params A D S C stamps H BH b = AList.update ''b'' b (fold (\<lambda>t. AList.update (fst t) (snd t)) (sig_tags A D S C stamps H BH) [])"

lemma sig_params_values:
  assumes "stamps = stamps_of t validity"
  shows "GetParam (sig_params A D S C stamps H BH b) ''v'' = ''1''" "GetParam (sig_params A D S C stamps H BH b) ''a'' = A"
    "GetParam (sig_params A D S C stamps H BH b) ''d'' = D" "GetParam (sig_params A D S C stamps H BH b) ''s'' = S"
    "GetParam (sig_params A D S C stamps H BH b) ''c'' = C" "GetParam (sig_params A D S C stamps H BH b) ''q'' = ''dns/txt''"
    "GetParam (sig_params A D S C stamps H BH b) ''h'' = H" "GetParam (sig_params A D S C stamps H BH b) ''bh'' = BH"
    "GetParam (sig_params A D S C stamps H BH b) ''b'' = b" "GetParam (sig_params A D S C stamps H BH b) ''i'' = []"
    "GetParam (sig_params A D S C stamps H BH b) ''l'' = []"
    "GetParam (sig_params A D S C stamps H BH b) ''x'' = (if validity > 0 then print_signed (sint (t + word_of_int validity)) else [])"
  by (simp_all add: assms sig_params_def sig_tags_def GetParam_def update_conv')

lemma plain_names: "plain_text ''v''" "plain_text ''1''" "plain_text ''a''" "plain_text ''d''" "plain_text ''s''" "plain_text ''c''" "plain_text ''q''"
  "plain_text ''dns/txt''" "plain_text ''h''" "plain_text ''bh''" "plain_text ''t''" "plain_text ''x''"
  by (simp_all add: plain_text_def IsSpace_def less_eq_char_def)

lemma sig_tags_plain:
  assumes "stamps = stamps_of t validity" "plain_text A" "plain_text D" "plain_text S" "plain_text C" "plain_text H" "plain_text BH"
  shows "list_all (\<lambda>t. plain_tag t \<and> fst t \<noteq> ''b'' \<and> fst t \<noteq> ''i'') (sig_tags A D S C stamps H BH)"
  using assms by (simp add: sig_tags_def plain_names print_signed_plain)

lemma built_params:
  assumes stamps: "stamps = stamps_of t validity" and plain: "plain_text A" "plain_text D" "plain_text S" "plain_text C" "plain_text H" "plain_text BH"
    and sig: "plain_text sig" "sig \<noteq> []" and cp: "transparent cp UNIV"
  shows "DKIMParameters_Load cp (UnfoldField (BuildSignatureHeader A D S C ''dns/txt'' (BuildTimestampTags t validity) H BH sig)) = sig_params A D S C stamps H BH sig"
proof -
  note tags = sig_tags_plain [OF stamps plain]
  then have t1: "list_all plain_tag (sig_tags A D S C stamps H BH)" "list_all (\<lambda>t. plain_tag t \<and> fst t \<noteq> ''i'') (sig_tags A D S C stamps H BH)"
    unfolding list_all_iff by blast+
  from built_field [OF BuildTimestampTags_stamps t1(1) [unfolded stamps] sig] obtain ps where
    ps: "concat ps = sig" "list_all (\<lambda>p. p \<noteq> []) ps"
      "UnfoldField (BuildSignatureHeader A D S C ''dns/txt'' (BuildTimestampTags t validity) H BH sig) = unfolded (sig_tags A D S C (stamps_of t validity) H BH) (join '' '' ps)"
    by metis
  have "list_all (\<lambda>p. p \<noteq> [] \<and> plain_text p) ps" using ps(2) sig(1) unfolding ps(1) [symmetric] plain_text_def list_all_iff by auto
  moreover have "transparent cp (set x)" for x using cp by (rule transparent_mono) simp
  ultimately show ?thesis unfolding ps(3) stamps [symmetric] sig_params_def
    using DKIMParameters_Load_unfolded [OF t1(2), of ps cp] ps(1) sig(2) by simp
qed

section \<open>Facts: a built field verifies\<close>

text \<open>
  What a signer relies on in OpenSSL and in the DNS: whatever the private key signs, the published key \<open>p\<close> accepts, under the
  algorithm that the field names.
\<close>

definition signing_algorithm :: "'priv SigningKeys \<Rightarrow> AnsiString \<Rightarrow> HashType \<Rightarrow> AnsiString" where
  "signing_algorithm keys pem t =
     (if IsEd25519PrivateKey keys pem then ''ed25519-sha256'' else if t = SHA1 then ''rsa-sha1'' else ''rsa-sha256'')"

definition key_pair :: "'key OpenSSL \<Rightarrow> 'priv SigningKeys \<Rightarrow> AnsiString \<Rightarrow> AnsiString \<Rightarrow> HashType \<Rightarrow> bool" where
  "key_pair ssl keys pem p t \<longleftrightarrow>
     (\<forall>key data sig. read_PrivateKey keys (c_str pem) = Some key \<longrightarrow>
        (if is_ED25519 keys key then EVP_DigestSign keys key data else EVP_Sign keys t key data) = Some sig \<longrightarrow>
        key_accepts ssl (signing_algorithm keys pem t) p data sig)"

definition agreed_hash :: "'priv SigningKeys \<Rightarrow> AnsiString \<Rightarrow> HashType \<Rightarrow> bool" where
  "agreed_hash keys pem t \<longleftrightarrow> t = SHA256 \<or> t = SHA1 \<and> \<not> IsEd25519PrivateKey keys pem"

definition short_digests :: "'key OpenSSL \<Rightarrow> bool" where
  "short_digests ssl \<longleftrightarrow> (\<forall>t m. \<exists>g. EVP_Digest ssl t m = Some g \<and> g \<noteq> [] \<and> length g \<le> 37)"

lemma SignHash_accepted:
  assumes "key_pair ssl keys pem p t" "agreed_hash keys pem t" "SignHash keys pem data t \<noteq> []"
  shows "plain_text (SignHash keys pem data t) \<and>
    key_accepts ssl (signing_algorithm keys pem t) p data (MimeCodeBase64_Decode (SignHash keys pem data t))"
proof -
  obtain key where key: "read_PrivateKey keys (c_str pem) = Some key" using assms(3) by (auto simp: SignHash_def split: option.splits)
  have t: "(if t = SHA256 then SHA256 else SHA1) = t" using assms(2) by (auto simp: agreed_hash_def)
  from assms(3) obtain sig where sig: "(if is_ED25519 keys key then EVP_DigestSign keys key data else EVP_Sign keys t key data) = Some sig"
    "SignHash keys pem data t = Base64_Encode sig"
    by (auto simp: SignHash_def key t split: option.splits if_splits)
  have "MimeCodeBase64_Decode (Base64_Encode sig) = sig"
    using MimeCodeBase64_round_trip by (simp add: Base64_Encode_def MimeCodeBase64_Decode_def Base64DecodeLoop_Replace)
  with assms(1) key sig Base64_Encode_plain [of sig] show ?thesis unfolding key_pair_def by simp
qed

lemma algorithm_plain: "plain_text (signing_algorithm keys pem t)"
proof -
  have "plain_text ''ed25519-sha256''" "plain_text ''rsa-sha1''" "plain_text ''rsa-sha256''" by code_simp+
  then show ?thesis by (simp add: signing_algorithm_def)
qed

lemma tagC_plain: "plain_text (tagC hm bm)"
  by (cases hm; cases bm; hypsubst; code_simp)

lemma tagC_methods:
  "MethodNamed (fst (CanonicalizationMethods (tagC hm bm))) = hm" "MethodNamed (snd (CanonicalizationMethods (tagC hm bm))) = bm"
  by ((cases hm; cases bm; hypsubst; code_simp))+

lemma plain_names_list: "list_all signable (SplitString l CHR '':'') \<Longrightarrow> plain_text l"
proof -
  assume "list_all signable (SplitString l CHR '':'')"
  then have "list_all plain_text (SplitString l CHR '':'')" using signable_plain unfolding list_all_iff by blast
  moreover have "plain_text '':''" by code_simp
  ultimately show ?thesis using set_SplitString [of l "CHR '':''"] unfolding plain_text_def list_all_iff by fastforce
qed

lemma built_no_zero:
  assumes "plain_text A" "plain_text D" "plain_text S" "plain_text C" "plain_text H" "plain_text BH" "plain_text sig" "sig \<noteq> []"
  shows "CHR 0x00 \<notin> set (BuildSignatureHeader A D S C ''dns/txt'' (BuildTimestampTags t validity) H BH sig)"
proof -
  obtain ps where ps: "FoldSignature sig 0 [] = join fold_break ps" "concat ps = sig" using FoldSignature_pieces [OF assms(8)] by blast
  have "set (join fold_break ps) \<subseteq> set fold_break \<union> set sig" using set_join_subset [of fold_break ps] ps(2) by auto
  then have "CHR 0x00 \<notin> set (FoldSignature sig 0 [])" using assms(7) [THEN plain_text_no_breaks] unfolding ps(1) by (auto simp: crlf_def)
  moreover have "CHR 0x00 \<notin> set (BuildTimestampTags t validity)"
    using print_signed_plain [THEN plain_text_no_breaks] by (simp add: BuildTimestampTags_def)
  ultimately show ?thesis using assms(1-6) [THEN plain_text_no_breaks] unfolding BuildSignatureHeader_def Let_def by (simp add: crlf_def)
qed

lemma built_lines:
  assumes "stamps = stamps_of t validity" "plain_text A" "plain_text D" "plain_text S" "plain_text C" "plain_text H" "plain_text BH" "plain_text sig" "sig \<noteq> []"
  obtains ls where "BuildSignatureHeader A D S C ''dns/txt'' (BuildTimestampTags t validity) H BH sig = join fold_break ls" "ls \<noteq> []" "list_all tag_line ls"
proof -
  have tags: "list_all plain_tag (sig_tags A D S C stamps H BH)" using sig_tags_plain [OF assms(1-7)] unfolding list_all_iff by blast
  from built_field [OF BuildTimestampTags_stamps tags [unfolded assms(1)] assms(8,9)] obtain ps where
    ps: "concat ps = sig" "ps \<noteq> []" "list_all (\<lambda>p. p \<noteq> []) ps"
      "BuildSignatureHeader A D S C ''dns/txt'' (BuildTimestampTags t validity) H BH sig = join fold_break (sig_lines A D S C (stamps_of t validity) H BH @ (''b='' @ hd ps) # tl ps)"
    by metis
  have plain: "list_all (\<lambda>p. p \<noteq> [] \<and> plain_text p) ps" using ps(3) assms(8) unfolding ps(1) [symmetric] plain_text_def list_all_iff by auto
  then have "list_all tag_line ps" using plain_line unfolding list_all_iff by blast
  then have tl: "list_all tag_line (tl ps)" using ps(2) by (cases ps) simp_all
  have b: "plain_text ''b=''" by code_simp
  have "plain_text (hd ps)" using plain ps(2) by (cases ps) simp_all
  with b have "plain_text (''b='' @ hd ps)" unfolding plain_text_append by blast
  then have hd: "tag_line (''b='' @ hd ps)" by (rule plain_line) simp
  have "list_all tag_line (sig_lines A D S C (stamps_of t validity) H BH @ (''b='' @ hd ps) # tl ps)"
    using sig_lines_tag [OF tags] hd tl unfolding assms(1) list_all_append list.pred_inject by blast
  with ps(4) that show thesis by blast
qed

lemma built_field_signed:
  assumes pages: "transparent (sign_page se) UNIV" "cpage ve = sign_page se"
    and h: "CHR 0x00 \<notin> set h" "h = [] \<or> \<not> is_WSP (hd h)"
    and names: "list_all signable (recommendedHeaderFields se)" "list_all signable (oversignHeaderFields se)"
    and plain: "plain_text domain" "plain_text selector"
    and keys: "key_pair ssl keys (key_file se) p t" "agreed_hash keys (key_file se) t" "short_digests ssl"
    and signed: "SignatureValue ssl keys se content h domain selector t hm bm = Some v"
  obtains H BH sig ls where
    "SignatureParams ve (dkim_name, v) =
       sig_params (signing_algorithm keys (key_file se) t) domain selector (tagC hm bm) (stamps_of (signing_time se) (DKIMSignatureValiditySeconds se)) H BH sig"
    "H = snd (SignedFields se hm h)" "BH \<noteq> []" "sig \<noteq> []" "list_all signable (SplitString H CHR '':'')"
    "\<And>k new. LoadBody (body_reads ve k) (LoadBodyReadSize ve) new = LoadBody (sign_reads se) (sign_read_size se) content \<Longrightarrow>
       body_is_signed ssl ve k new (SignatureParams ve (dkim_name, v))"
    "header_is_signed ssl ve (dkim_name @ '': '' @ v @ crlf @ h) (dkim_name, v) p"
    "v = join fold_break ls" "ls \<noteq> []" "list_all tag_line ls" "CHR 0x00 \<notin> set v"
proof -
  let ?A = "signing_algorithm keys (key_file se) t" and ?stamps = "stamps_of (signing_time se) (DKIMSignatureValiditySeconds se)"
  define T where "T = BuildTimestampTags (signing_time se) (DKIMSignatureValiditySeconds se)"
  define H where "H = snd (SignedFields se hm h)"
  define cb where "cb = CanonicalizeBody (sign_page se) bm (LoadBody (sign_reads se) (sign_read_size se) content)"
  define BH where "BH = GenerateHashNoSalt ssl t cb"
  define build where "build = BuildSignatureHeader ?A domain selector (tagC hm bm) ''dns/txt'' T H BH"
  define data where "data = fst (SignedFields se hm h) @ CanonicalizeHeaderLine hm dkim_name (build [])"
  define sig where "sig = SignHash keys (key_file se) data t"
  have wide: "through_wide (sign_page se) x = x" for x using pages(1) by (rule transparent_through) simp
  have "SignatureValue ssl keys se content h domain selector t hm bm = (if sig = [] then None else Some (build sig))"
    by (simp add: SignatureValue_def wide Let_def case_prod_unfold sig_def data_def build_def BH_def cb_def H_def T_def signing_algorithm_def)
  with signed have v: "v = build sig" and sig: "sig \<noteq> []" by (simp_all split: if_splits)
  have plain_sig: "plain_text sig" "key_accepts ssl ?A p data (MimeCodeBase64_Decode sig)"
    using SignHash_accepted [OF keys(1,2)] sig unfolding sig_def by blast+
  obtain g where "EVP_Digest ssl t cb = Some g" "g \<noteq> []" "length g \<le> 37" using keys(3) unfolding short_digests_def by blast
  from GenerateHashNoSalt_plain [OF this] have BH: "plain_text BH" "BH \<noteq> []" "c_str BH = BH" unfolding BH_def by blast+
  have H_listed: "H = snd (listed (CanonicalizeHeader (sign_page se) hm) h (recommendedHeaderFields se) (oversignHeaderFields se))"
    unfolding H_def using SignedFields_listed [OF pages(1)] by simp
  note bytes = verified_bytes [OF pages(1) h(1) names, where m = hm, folded H_listed, folded SignedFields_listed [OF pages(1), of hm h]]
  have "folded_value []" using folded_lines [of "[]" "[]"] by simp
  from bytes [OF this _ h(2)] have H: "list_all signable (SplitString H CHR '':'')" by blast
  then have plain_H: "plain_text H" by (rule plain_names_list)
  note plains = algorithm_plain [of keys "key_file se" t] plain tagC_plain [of hm bm] plain_H BH(1)
  obtain ls where ls: "v = join fold_break ls" "ls \<noteq> []" "list_all tag_line ls"
    using built_lines [OF refl plains plain_sig(1) sig] unfolding v build_def T_def by metis
  have ps: "SignatureParams ve (dkim_name, v) = sig_params ?A domain selector (tagC hm bm) ?stamps H BH sig"
    unfolding SignatureParams_def v build_def T_def pages(2) snd_conv by (rule built_params [OF refl plains plain_sig(1) sig pages(1)])
  note vals = sig_params_values [OF refl, where t = "signing_time se" and validity = "DKIMSignatureValiditySeconds se"]
  have bh: "Replace BH '' '' [] = BH" using plain_text_no_breaks [OF BH(1)] Replace_absent [of "CHR '' ''" BH] by simp
  have hash: "(if ?A = ''rsa-sha1'' then SHA1 else SHA256) = t" using keys(2) by (auto simp: agreed_hash_def signing_algorithm_def)
  have b: "body_is_signed ssl ve k new (SignatureParams ve (dkim_name, v))"
    if body: "LoadBody (body_reads ve k) (LoadBodyReadSize ve) new = LoadBody (sign_reads se) (sign_read_size se) content" for k new
    unfolding body_is_signed_def ps vals covers_def tagC_methods bh hash body pages(2)
    using BH by (intro exI [of _ cb]) (simp add: cb_def BH_def)
  have part: "signature_part hm (dkim_name, v) = CanonicalizeHeaderLine hm dkim_name (build [])"
  proof -
    have "list_all (\<lambda>t. plain_tag t \<and> fst t \<noteq> ''b'') (sig_tags ?A domain selector (tagC hm bm) ?stamps H BH)"
      using sig_tags_plain [OF refl plains] unfolding list_all_iff by blast
    from signature_line [OF BuildTimestampTags_stamps this plain_sig(1) sig] show ?thesis
      unfolding v build_def T_def by (cases hm) simp_all
  qed
  have "folded_value v" "v = [] \<or> \<not> is_WSP (hd v)" using field_of_lines [OF ls(2,3)] unfolding ls(1) by blast+
  from bytes [OF this h(2)] part have d:
    "fst (CanonicalizeHeader (cpage ve) hm (dkim_name @ '': '' @ v @ crlf @ h) (dkim_name, v) (SplitString H CHR '':'') []) = data"
    unfolding data_def pages(2) by simp
  have split: "SplitStringAnsi (through_wide (cpage ve)) H CHR '':'' = SplitString H CHR '':''"
    unfolding pages(2) by (rule SplitStringAnsi_transparent [OF transparent_mono [OF pages(1)]]) simp
  have "header_is_signed ssl ve (dkim_name @ '': '' @ v @ crlf @ h) (dkim_name, v) p"
    unfolding header_is_signed_def Let_def ps vals tagC_methods split d by (rule plain_sig(2))
  moreover have "CHR 0x00 \<notin> set v" unfolding v build_def T_def by (rule built_no_zero [OF plains plain_sig(1) sig])
  ultimately show thesis using that [OF ps H_def BH(2) sig H b _ ls] by blast
qed

section \<open>A signed message verifies\<close>

text \<open>The record that is published for the key \<open>p\<close>: of the known version, without restrictions.\<close>

definition publishes_key :: "DkimEnv \<Rightarrow> AnsiString \<Rightarrow> AnsiString \<Rightarrow> AnsiString \<Rightarrow> bool" where
  "publishes_key ve selector domain p \<longleftrightarrow>
     (case GetTXTRecords ve 0 (selector @ ''._domainkey.'' @ domain) of
        Some (r # rest) \<Rightarrow>
          let ps = DKIMParameters_Load (cpage ve) r
          in GetParam ps ''p'' = p \<and> p \<noteq> [] \<and> (GetParam ps ''v'' = [] \<or> GetParam ps ''v'' = ''DKIM1'') \<and> \<not> GetIsSet ps ''g'' \<and> GetParam ps ''h'' = []
      | _ \<Rightarrow> False)"

text \<open>A writer without faults, and files that can be read.\<close>

definition faultless :: "TraceEnv \<Rightarrow> nat \<Rightarrow> bool" where
  "faultless te n \<longleftrightarrow> trace_opens te \<and> trace_source_opens te \<and> trace_copy_answers te \<and> \<not> trace_copy_throws te \<and> trace_renames te 1 \<and>
     n \<le> trace_accepted te \<and> n \<le> trace_copied te \<and> n \<le> trace_flushed te"

definition readable :: "FileReads \<Rightarrow> bool" where
  "readable fr \<longleftrightarrow> file_opens fr \<and> (\<forall>k. read_succeeds fr k)"

text \<open>The expiry date that the signer sets has not passed, within the tolerance of the verifier.\<close>

definition in_time :: "SignEnv \<Rightarrow> DkimEnv \<Rightarrow> bool" where
  "in_time se ve \<longleftrightarrow>
     (let x = sint (signing_time se + word_of_int (DKIMSignatureValiditySeconds se)); tolerance = DKIMExpiryClockSkewSeconds ve
      in DKIMSignatureValiditySeconds se > 0 \<longrightarrow> 0 \<le> x \<and> 0 \<le> tolerance \<and> x + tolerance < 2 ^ 63 \<and> sint (verification_time ve 0) \<le> x + tolerance)"

text \<open>
  C19: What the writer of trace fields leaves behind, under every fault: unless it answers true the message file is the old one;
  when it answers true the message is the new fields and the message as far as the copy got and as far as
  the closing flush got, so it is complete when both did their work.
\<close>

theorem trace_write_outcome:
  "case TraceHeaderWriter_Write te fds d of
     TraceThrew d' \<Rightarrow> message_file d' = message_file d
   | TraceReturned answer d' \<Rightarrow>
       (\<not> answer \<or> fds = [] \<longrightarrow> message_file d' = message_file d) \<and>
       (answer \<and> fds \<noteq> [] \<longrightarrow> message_file d' = take (trace_flushed te)
          (concat (map (\<lambda>(n, v). n @ '': '' @ v @ crlf) fds) @ take (trace_copied te) (message_file d)))"
  by (auto simp: TraceHeaderWriter_Write_def Let_def case_prod_unfold Move_def split: option.splits if_splits)

text \<open>A flush that fails when the file is closed goes unnoticed: the message is cut, and the writer answers true.\<close>

lemma unnoticed_short_flush:
  "TraceHeaderWriter_Write \<lparr>trace_opens = True, trace_accepted = 100, trace_source_opens = True, trace_copied = 100, trace_copy_answers = True,
     trace_copy_throws = False, trace_flushed = 10, trace_renames = \<lambda>_. True, trace_deletes = True\<rparr> [(''A'', ''b'')]
     \<lparr>message_file = ''From: a@b'', temporary_file = None\<rparr> = TraceReturned True \<lparr>message_file = ''A: b'' @ crlf @ ''From'', temporary_file = None\<rparr>"
  by code_simp

lemma faultless_writes:
  assumes "faultless te (length (concat (map (\<lambda>(n, v). n @ '': '' @ v @ crlf) fds) @ message_file d))" "fds \<noteq> []"
  shows "TraceHeaderWriter_Write te fds d =
    TraceReturned True \<lparr>message_file = concat (map (\<lambda>(n, v). n @ '': '' @ v @ crlf) fds) @ message_file d, temporary_file = None\<rparr>"
proof -
  have "MoveTries 1 5 (trace_renames te)" using assms(1) by (simp add: faultless_def numeral_eq_Suc)
  moreover have "take (trace_accepted te) pre = pre" "take (trace_copied te) (message_file d) = message_file d"
    "take (trace_flushed te) (pre @ message_file d) = pre @ message_file d" "length pre \<le> trace_accepted te"
    if "pre = concat (map (\<lambda>(n, v). n @ '': '' @ v @ crlf) fds)" for pre using assms(1) that by (simp_all add: faultless_def del: take_append)
  ultimately show ?thesis using assms
    unfolding TraceHeaderWriter_Write_def faultless_def Move_def Let_def case_prod_unfold by simp
qed

lemma faultless_write:
  assumes "faultless te (length (n @ '': '' @ v @ crlf @ message_file d))"
  shows "TraceHeaderWriter_Write te [(n, v)] d = TraceReturned True \<lparr>message_file = n @ '': '' @ v @ crlf @ message_file d, temporary_file = None\<rparr>"
  using faultless_writes [of te "[(n, v)]" d] assms by simp

lemma in_time_not_expired:
  assumes "in_time se ve" "DKIMSignatureValiditySeconds se > 0"
  shows "\<not> IsSignatureExpired (print_signed (sint (signing_time se + word_of_int (DKIMSignatureValiditySeconds se)))) (verification_time ve 0) (DKIMExpiryClockSkewSeconds ve)"
proof -
  let ?x = "sint (signing_time se + word_of_int (DKIMSignatureValiditySeconds se))" and ?tol = "DKIMExpiryClockSkewSeconds ve"
  have r: "0 \<le> ?x" "0 \<le> ?tol" "?x + ?tol < 2 ^ 63" "sint (verification_time ve 0) \<le> ?x + ?tol"
    using assms unfolding in_time_def Let_def by blast+
  let ?t = "print_unsigned (nat ?x)"
  have t: "print_signed ?x = ?t" "list_all isdigit_classic ?t" "digits_value ?t = ?x"
    using r(1) print_unsigned_digits by (simp_all add: print_signed_def list_all_iff digits_value_print_unsigned)
  show ?thesis
  proof (cases "?t \<noteq> [] \<and> length ?t \<le> 19")
    case True
    then show ?thesis using IsSignatureExpired_iff [OF t(2) _ _ r(2), of "verification_time ve 0"] r t by simp
  next
    case False
    then show ?thesis unfolding t(1) by (auto simp: IsSignatureExpired_def)
  qed
qed

lemma published_key_found:
  assumes "publishes_key ve selector domain p"
  obtains flags where "\<And>ps. GetParam ps ''s'' = selector \<Longrightarrow> GetParam ps ''d'' = domain \<Longrightarrow> GetParam ps ''i'' = [] \<Longrightarrow> RetrievePublicKey ve 0 ps = Inr (p, flags)"
proof -
  from assms obtain r rest where r: "GetTXTRecords ve 0 (selector @ ''._domainkey.'' @ domain) = Some (r # rest)"
    "GetParam (DKIMParameters_Load (cpage ve) r) ''p'' = p" "p \<noteq> []" "GetParam (DKIMParameters_Load (cpage ve) r) ''v'' = [] \<or> GetParam (DKIMParameters_Load (cpage ve) r) ''v'' = ''DKIM1''"
    "\<not> GetIsSet (DKIMParameters_Load (cpage ve) r) ''g''" "GetParam (DKIMParameters_Load (cpage ve) r) ''h'' = []"
    by (auto simp: publishes_key_def Let_def split: option.splits list.splits)
  have "GetParamCount (DKIMParameters_Load (cpage ve) r) \<noteq> 0" using r(2,3) by (auto simp: GetParamCount_def GetParam_def)
  then have "ValidateDNSEntry ve (DKIMParameters_Load (cpage ve) r) ps" for ps
    using r by (auto simp: ValidateDNSEntry_def Let_def)
  with r that show thesis by (simp add: RetrievePublicKey_def)
qed

lemma signed_checks_hold:
  assumes ps: "ps = sig_params (signing_algorithm keys pem t) domain selector C (stamps_of time validity) H BH sig"
    and "transparent (cpage ve) UNIV" "domain \<noteq> []" "BH \<noteq> []" "sig \<noteq> []" "list_all signable (SplitString H CHR '':'')"
    "list_ex (\<lambda>f. MakeLower f = ''from'') (SplitString H CHR '':'')" "t = SHA1 \<longrightarrow> DkimAcceptSha1 ve"
  shows "ValidateHeaderContents ve ps"
proof -
  note vals = sig_params_values [OF refl, where t = time and validity = validity]
  have "SplitStringAnsi (through_wide (cpage ve)) H CHR '':'' = SplitString H CHR '':''"
    by (rule SplitStringAnsi_transparent [OF transparent_mono [OF assms(2)]]) simp
  moreover have "list_ex (\<lambda>f. MakeLower (Trim f) = ''from'') (SplitString H CHR '':'')"
    using assms(6,7) signable_plain [THEN Trim_plain] unfolding list_all_iff list_ex_iff by metis
  moreover have "H \<noteq> []" using assms(7) by (auto simp: SplitString_eq)
  ultimately show ?thesis using assms(3-5,8)
    by (simp add: ValidateHeaderContents_def Let_def ps vals signing_algorithm_def)
qed

lemma shifted_parts:
  assumes "Find_str (p @ content) empty_line = shifted (length p) (Find_str content empty_line)"
  shows "header_of (p @ content) = p @ header_of content" "body_of (p @ content) = body_of content"
  using assms by (simp_all add: header_of_def body_of_def add.assoc split: option.splits)

lemma new_field_first:
  assumes "ls \<noteq> []" "list_all tag_line ls" "header_of content = h" "h \<noteq> []" "\<not> is_WSP (hd h)" "hd h \<noteq> CHR 0x0D" "v = join fold_break ls" "CHR 0x00 \<notin> set v"
  shows "header_of (dkim_name @ '': '' @ v @ crlf @ content) = dkim_name @ '': '' @ v @ crlf @ h"
    "body_of (dkim_name @ '': '' @ v @ crlf @ content) = body_of content"
    "signatures (Fields (dkim_name @ '': '' @ v @ crlf @ h) False) = (dkim_name, v) # signatures (Fields h False)"
proof -
  have hd: "content = [] \<or> hd content \<noteq> CHR 0x0D"
    using assms(3,4,6) by (cases content) (auto simp: header_of_def split: option.splits)
  let ?p = "dkim_name @ '': '' @ v @ crlf"
  have "CHR 0x0D \<notin> set (dkim_name @ '': '')" by simp
  from Find_empty_line_lines [OF assms(1,2) this hd]
  have find: "Find_str (?p @ content) empty_line = shifted (length ?p) (Find_str content empty_line)" unfolding assms(7) by simp
  show "header_of (dkim_name @ '': '' @ v @ crlf @ content) = dkim_name @ '': '' @ v @ crlf @ h"
    "body_of (dkim_name @ '': '' @ v @ crlf @ content) = body_of content"
    using shifted_parts [OF find] unfolding assms(3) append_assoc by blast+
  have "plain_name dkim_name" by code_simp
  from Fields_Cons [OF this _ _ field_of_lines(1) [OF assms(1,2)], of "'' ''" h False] field_of_lines(3) [OF assms(1,2)] assms(5)
  have "Fields (dkim_name @ '': '' @ v @ crlf @ h) False = mime_field False dkim_name '' '' v # Fields h False"
    unfolding assms(7) by (simp add: is_WSP_def)
  moreover have "MimeField_GetName (mime_field False dkim_name '' '' v) = dkim_name" "MimeField_GetValue (mime_field False dkim_name '' '' v) = v"
    using assms(8) by (auto simp: mime_field_def MimeField_GetName_def MimeField_GetValue_def c_str_def takeWhile_eq_all_conv)
  moreover have "CompareNoCase dkim_name dkim_name = 0" by code_simp
  ultimately show "signatures (Fields (dkim_name @ '': '' @ v @ crlf @ h) False) = (dkim_name, v) # signatures (Fields h False)"
    unfolding signatures_def by simp
qed

lemma first_signature_passes:
  assumes "signatures (Fields (loaded_header env content) False) = sf # sfs" "VerifySignature ssl env 0 content (loaded_header env content) sf = DkimPass"
    "SigningDomain env sf \<noteq> []" "FileSize (size_known env) content \<le> MaxFileSize"
  shows "\<exists>domains selectors. DKIM_Verify ssl env content = (DkimPass, domains, selectors) \<and> SigningDomain env sf \<in> set domains"
proof -
  have checks: "checked ssl env content = (sf, DkimPass) # signature_results ssl env content (loaded_header env content) 1 (take (MaxSignaturesToVerify - 1) sfs)"
    unfolding assms(1) by (simp add: signature_results_def assms(2) MaxSignaturesToVerify_def numeral_eq_Suc)
  have best: "foldl best_of DkimNeutral (map snd (checked ssl env content)) = DkimPass"
    unfolding best_of_foldl checks using RankSignatureResult_less(1) by simp
  have "SigningDomain env sf \<in> set (map (SigningDomain env) (passed env (checked ssl env content)))"
    using assms(3) unfolding checks by (simp add: passed_def)
  then show ?thesis using assms(4) [folded not_less] unfolding DKIM_Verify_eq best Let_def by auto
qed

text \<open>
  C3: What the server signs, a receiver with the same configuration verifies: when a signature could be made and the writer
  has no fault, \<^verbatim>\<open>DKIM::Sign\<close> answers true, and \<^verbatim>\<open>DKIM::Verify\<close> on the message it leaves behind answers pass and reports the signing domain,
  for both canonicalizations of header and body, RSA and Ed25519 keys, any list of fields that holds From and any fields to
  oversign, and whatever signatures the message had before. The conditions are those the code relies on: a code page that keeps bytes apart, a published key that
  belongs to the private one, an expiry date that has not passed, and reads that do not end in the empty line.
\<close>

theorem signed_message_verifies:
  assumes pages: "transparent (sign_page se) UNIV" "cpage ve = sign_page se"
    and names: "list_all signable (recommendedHeaderFields se)" "list_all signable (oversignHeaderFields se)"
      "list_ex (\<lambda>f. MakeLower f = ''from'') (SplitString (snd (SignedFields se hm h)) CHR '':'')"
    and plain: "plain_text domain" "plain_text selector" "domain \<noteq> []"
    and keys: "key_pair ssl keys (key_file se) p t" "agreed_hash keys (key_file se) t" "short_digests ssl"
      "t = SHA1 \<longrightarrow> DkimAcceptSha1 ve" "publishes_key ve selector domain p"
    and expiry: "DKIMEnforceSignatureExpiry ve \<longrightarrow> in_time se ve"
    and h: "header_of (message_file d) = h" "CHR 0x00 \<notin> set h" "h \<noteq> []" "\<not> is_WSP (hd h)" "hd h \<noteq> CHR 0x0D"
    and new: "\<not> HasSignatureForDomain (sign_page se) (Fields h False) domain"
      "SignatureValue ssl keys se (message_file d) h domain selector t hm bm = Some v"
    and reads: "readable (sign_reads se)" "readable (header_reads ve)" "readable (body_reads ve 0)"
      "empty_line_in_one_read (ReadSize (sign_read_size se)) (message_file d)"
      "empty_line_in_one_read (ReadSize (LoadBodyReadSize ve)) (''DKIM-Signature: '' @ v @ crlf @ message_file d)"
    and sizes: "FileSize (sign_size_known se) (message_file d) \<le> MaxFileSize"
      "FileSize (size_known ve) (''DKIM-Signature: '' @ v @ crlf @ message_file d) \<le> MaxFileSize"
    and writer: "faultless te (length (''DKIM-Signature: '' @ v @ crlf @ message_file d))"
  shows "\<exists>d' domains selectors.
    DKIM_Sign ssl keys se te h domain selector t (Some hm) (Some bm) d = TraceReturned True d' \<and>
    DKIM_Verify ssl ve (message_file d') = (DkimPass, domains, selectors) \<and> MakeLower domain \<in> set domains"
proof -
  let ?new = "dkim_name @ '': '' @ v @ crlf @ message_file d" and ?h = "dkim_name @ '': '' @ v @ crlf @ h"
  have eq: "''DKIM-Signature: '' @ x = dkim_name @ '': '' @ x" for x by simp
  have written: "DKIM_Sign ssl keys se te h domain selector t (Some hm) (Some bm) d = TraceReturned True \<lparr>message_file = ?new, temporary_file = None\<rparr>"
    using sizes(1) new faultless_write [OF writer [unfolded eq]] by (simp add: DKIM_Sign_def not_less [symmetric])
  from h(3,4) have h': "h = [] \<or> \<not> is_WSP (hd h)" by blast
  obtain H BH sig ls where f: "SignatureParams ve (dkim_name, v) =
       sig_params (signing_algorithm keys (key_file se) t) domain selector (tagC hm bm) (stamps_of (signing_time se) (DKIMSignatureValiditySeconds se)) H BH sig"
    "H = snd (SignedFields se hm h)" "BH \<noteq> []" "sig \<noteq> []" "list_all signable (SplitString H CHR '':'')"
    and b: "\<And>k new. LoadBody (body_reads ve k) (LoadBodyReadSize ve) new = LoadBody (sign_reads se) (sign_read_size se) (message_file d) \<Longrightarrow>
       body_is_signed ssl ve k new (SignatureParams ve (dkim_name, v))"
    and hs: "header_is_signed ssl ve ?h (dkim_name, v) p"
    and ls: "v = join fold_break ls" "ls \<noteq> []" "list_all tag_line ls" "CHR 0x00 \<notin> set v"
    using built_field_signed [OF pages h(2) h' names(1,2) plain(1,2) keys(1-3) new(2)] by metis
  note vals = sig_params_values [OF refl, where t = "signing_time se" and validity = "DKIMSignatureValiditySeconds se"]
  note first = new_field_first [OF ls(2,3) h(1,3-5) ls(1,4)]
  have "body_is_signed ssl ve 0 ?new (SignatureParams ve (dkim_name, v))"
    by (rule b) (use reads [unfolded eq] first(2) in \<open>simp add: readable_def LoadBody_eq\<close>)
  moreover have "ValidateHeaderContents ve (SignatureParams ve (dkim_name, v))"
    using signed_checks_hold [OF f(1) _ plain(3) f(3-5)] pages names(3) keys(4) unfolding f(2) by simp
  moreover have "\<not> (DKIMEnforceSignatureExpiry ve \<and> IsSignatureExpired (GetParam (SignatureParams ve (dkim_name, v)) ''x'') (verification_time ve 0) (DKIMExpiryClockSkewSeconds ve))"
    using expiry in_time_not_expired [of se ve] unfolding f(1) vals by (auto simp: IsSignatureExpired_def)
  moreover obtain flags where "RetrievePublicKey ve 0 (SignatureParams ve (dkim_name, v)) = Inr (p, flags)"
    using published_key_found [OF keys(5)] unfolding f(1) by (metis vals(3,4,10))
  ultimately have pass: "VerifySignature ssl ve 0 ?new ?h (dkim_name, v) = DkimPass"
    using VerifySignature_key [of ve "(dkim_name, v)" 0 p flags ssl ?new ?h] hs by simp
  have loaded: "loaded_header ve ?new = ?h"
    unfolding pages(2) first(1) [symmetric] using reads(2) by (intro LoadHeader_eq transparent_mono [OF pages(1)]) (simp_all add: readable_def)
  have dom: "SigningDomain ve (dkim_name, v) = MakeLower domain" unfolding SigningDomain_def f(1) vals ..
  moreover have "MakeLower domain \<noteq> []" using plain(3) plain_text_no_breaks [OF plain(1)] by (simp add: MakeLower_eq)
  ultimately have "SigningDomain ve (dkim_name, v) \<noteq> []" by metis
  from first_signature_passes [OF first(3) [folded loaded] pass [folded loaded] this sizes(2) [unfolded eq]] written show ?thesis
    unfolding dom by fastforce
qed

text \<open>An example: a message of one field, under a library with one key whose signature is always the same.\<close>

definition signing_ssl :: "unit OpenSSL" where
  "signing_ssl = \<lparr>EVP_Digest = \<lambda>_ _. Some ''A'', d2i_PUBKEY = \<lambda>_. Some (), is_RSA = \<lambda>_. False, EVP_PKEY_bits = \<lambda>_. 0,
     new_raw_public_key = \<lambda>_. None, EVP_Verify = \<lambda>t data sig key. sig = ''K'', EVP_DigestVerify = \<lambda>_ _ _. False\<rparr>"

definition signing_keys :: "unit SigningKeys" where
  "signing_keys = \<lparr>read_PrivateKey = \<lambda>_. Some (), is_ED25519 = \<lambda>_. False, EVP_DigestSign = \<lambda>_ _. None, EVP_Sign = \<lambda>_ _ _. Some ''K''\<rparr>"

definition example_signer :: SignEnv where
  "example_signer = \<lparr>sign_page = latin, sign_size_known = True, sign_reads = all_reads, sign_read_size = 1000,
     recommendedHeaderFields = [''From'', ''To''], oversignHeaderFields = [''From''], key_file = ''K'', signing_time = 7, DKIMSignatureValiditySeconds = 0\<rparr>"

definition example_verifier :: DkimEnv where
  "example_verifier = example_env\<lparr>LoadBodyReadSize := 1000, DKIMEnforceSignatureExpiry := True\<rparr>"

definition example_trace :: TraceEnv where
  "example_trace = \<lparr>trace_opens = True, trace_accepted = 1000, trace_source_opens = True, trace_copied = 1000, trace_copy_answers = True,
     trace_copy_throws = False, trace_flushed = 1000, trace_renames = \<lambda>_. True, trace_deletes = True\<rparr>"

definition example_disk :: Disk where
  "example_disk = \<lparr>message_file = ''From: a@b'' @ crlf @ crlf @ ''Hi'', temporary_file = None\<rparr>"

abbreviation example_built :: AnsiString where
  "example_built \<equiv> ''v=1; a=rsa-sha256; d=b; s=s;'' @ fold_break @ ''c=relaxed/simple; q=dns/txt; t=7; h=From:From;'' @ fold_break @ ''bh=QQ==;'' @ fold_break @ ''b=Sw==''"

lemma short_in_one_read: "length content < n \<Longrightarrow> empty_line_in_one_read n content"
proof -
  assume n: "length content < n"
  have "i + 4 \<le> length content" if "Find_str content empty_line = Some i" for i
    using that by (simp add: Find_str_Some occurs_at_def empty_line_def crlf_def)
  with n show ?thesis by (auto simp: empty_line_in_one_read_def split: option.splits)
qed

theorem signed_message_verifies_witness:
  "\<exists>d' domains selectors.
    DKIM_Sign signing_ssl signing_keys example_signer example_trace (''From: a@b'' @ crlf) ''b'' ''s'' SHA256 (Some Relaxed) (Some Simple) example_disk = TraceReturned True d' \<and>
    DKIM_Verify signing_ssl example_verifier (message_file d') = (DkimPass, domains, selectors) \<and> MakeLower ''b'' \<in> set domains"
proof (rule signed_message_verifies [where p = "''QQ==''" and v = example_built])
  show "transparent (sign_page example_signer) UNIV" by (simp add: example_signer_def transparent_latin)
  show "cpage example_verifier = sign_page example_signer" by (simp add: example_signer_def example_verifier_def example_env_def)
  show "list_all signable (recommendedHeaderFields example_signer)" by code_simp
  show "list_all signable (oversignHeaderFields example_signer)" by code_simp
  show "list_ex (\<lambda>f. MakeLower f = ''from'') (SplitString (snd (SignedFields example_signer Relaxed (''From: a@b'' @ crlf))) CHR '':'')" by code_simp
  show "plain_text ''b''" "plain_text ''s''" by code_simp+
  show "key_pair signing_ssl signing_keys (key_file example_signer) ''QQ=='' SHA256"
    by (simp add: key_pair_def key_accepts_def signing_ssl_def signing_keys_def signing_algorithm_def IsEd25519PrivateKey_def)
  show "agreed_hash signing_keys (key_file example_signer) SHA256" by (simp add: agreed_hash_def)
  show "short_digests signing_ssl" by (simp add: short_digests_def signing_ssl_def)
  show "publishes_key example_verifier ''s'' ''b'' ''QQ==''" by code_simp
  show "DKIMEnforceSignatureExpiry example_verifier \<longrightarrow> in_time example_signer example_verifier" by (simp add: in_time_def example_signer_def)
  show "header_of (message_file example_disk) = ''From: a@b'' @ crlf" by code_simp
  show "\<not> HasSignatureForDomain (sign_page example_signer) (Fields (''From: a@b'' @ crlf) False) ''b''" by code_simp
  show "SignatureValue signing_ssl signing_keys example_signer (message_file example_disk) (''From: a@b'' @ crlf) ''b'' ''s'' SHA256 Relaxed Simple = Some example_built"
    by code_simp
  show "readable (sign_reads example_signer)" "readable (header_reads example_verifier)" "readable (body_reads example_verifier 0)"
    by (simp_all add: readable_def example_signer_def example_verifier_def example_env_def all_reads_def)
  show "empty_line_in_one_read (ReadSize (sign_read_size example_signer)) (message_file example_disk)"
    by (rule short_in_one_read) (simp add: example_signer_def example_disk_def ReadSize_def iReadBufferSize_def crlf_def)
  show "empty_line_in_one_read (ReadSize (LoadBodyReadSize example_verifier)) (''DKIM-Signature: '' @ example_built @ crlf @ message_file example_disk)"
    by (rule short_in_one_read) (simp add: example_verifier_def example_disk_def ReadSize_def iReadBufferSize_def crlf_def)
  show "FileSize (sign_size_known example_signer) (message_file example_disk) \<le> MaxFileSize"
    "FileSize (size_known example_verifier) (''DKIM-Signature: '' @ example_built @ crlf @ message_file example_disk) \<le> MaxFileSize"
    by (simp_all add: FileSize_def MaxFileSize_def example_disk_def crlf_def)
  show "faultless example_trace (length (''DKIM-Signature: '' @ example_built @ crlf @ message_file example_disk))"
    by (simp add: faultless_def example_trace_def example_disk_def crlf_def)
qed (simp_all add: is_WSP_def crlf_def)

theorem trace_write_outcome_witness:
  "\<exists>d'. TraceHeaderWriter_Write example_trace [(''A'', ''b'')] example_disk = TraceReturned True d' \<and>
     message_file d' = ''A: b'' @ crlf @ message_file example_disk"
proof -
  have "faultless example_trace (length (''A'' @ '': '' @ ''b'' @ crlf @ message_file example_disk))"
    by (simp add: faultless_def example_trace_def example_disk_def crlf_def)
  from faultless_write [OF this] obtain d' where d': "TraceHeaderWriter_Write example_trace [(''A'', ''b'')] example_disk = TraceReturned True d'" by blast
  with trace_write_outcome [where te = example_trace and fds = "[(''A'', ''b'')]" and d = example_disk] show ?thesis
    by (simp add: example_trace_def example_disk_def crlf_def)
qed

end
