(* ===== verification/Arc.thy ===== *)
theory Arc
  imports DKIM_RoundTrip
begin

text \<open>
  Chains of custody: Common/AntiSpam/DKIM/Arc.cpp. A message carries numbered sets of three fields, each set put on by one
  forwarder; \<^verbatim>\<open>Arc::ValidateChain\<close> checks a chain and \<^verbatim>\<open>Arc::Seal\<close> adds a set. The sets are a list in the order of their numbers, as the
  map of the source is walked. The DNS, the reads, the code page and OpenSSL are the records of \<open>DKIM\<close>; the n-th lookup of a
  validation is \<open>GetTXTRecords env n\<close>, the body is read by \<open>body_reads env 0\<close>.

  The theorems: the sets of a parsed chain are complete and numbered from one; a chain passes only when every seal and
  the newest message signature hold; a validation asks a bounded number of questions; the value of the signature tag is what
  is removed.
\<close>

section \<open>Sets\<close>

definition MaxArcInstance :: int where
  "MaxArcInstance = 50"

definition MaxArcSetsToValidate :: nat where
  "MaxArcSetsToValidate = 10"

definition GetAmsHeaderFields :: "AnsiString list" where
  "GetAmsHeaderFields =
     [''From'', ''Sender'', ''Reply-To'', ''Subject'', ''Date'', ''Message-ID'', ''To'', ''Cc'', ''MIME-Version'', ''Content-Type'',
      ''Content-Transfer-Encoding'']"

datatype ChainParseStatus = NoChain | Malformed | Parsed

datatype ChainValidationStatus = ChainFail | ChainTempError | ChainPass

record ChainInfo =
  instance_count :: int
  sealer_domains :: "AnsiString list"
  oldest_authentication_results :: AnsiString

record ArcSet =
  set_authentication_results :: AnsiString
  set_message_signature :: AnsiString
  set_seal :: AnsiString

record KeyLookupResult =
  lookup_status :: ChainValidationStatus
  public_key :: AnsiString

type_synonym ArcSets = "(int \<times> ArcSet) list"

definition ArcSet_init :: ArcSet where
  "ArcSet_init = \<lparr>set_authentication_results = [], set_message_signature = [], set_seal = []\<rparr>"

text \<open>The set of a number, made when there is none yet, in the order of the numbers.\<close>

fun change_set :: "int \<Rightarrow> (ArcSet \<Rightarrow> ArcSet) \<Rightarrow> ArcSets \<Rightarrow> ArcSets" where
  "change_set k f [] = [(k, f ArcSet_init)]"
| "change_set k f ((j, s) # rest) =
     (if k < j then (k, f ArcSet_init) # (j, s) # rest
      else if k = j then (j, f s) # rest
      else (j, s) # change_set k f rest)"

definition set_of :: "ArcSets \<Rightarrow> int \<Rightarrow> ArcSet" where
  "set_of sets k = (case map_of sets k of None \<Rightarrow> ArcSet_init | Some s \<Rightarrow> s)"

section \<open>Parsing\<close>

definition IsArcName :: "AnsiString \<Rightarrow> bool" where
  "IsArcName name \<longleftrightarrow> name = ''arc-seal'' \<or> name = ''arc-message-signature'' \<or> name = ''arc-authentication-results''"

definition flushField :: "AnsiString \<times> AnsiString \<Rightarrow> (AnsiString \<times> AnsiString) list \<Rightarrow> (AnsiString \<times> AnsiString) list" where
  "flushField current flds = (if fst current \<noteq> [] then flds @ [current] else flds)"

text \<open>The walk over the lines: the fields so far, and the name and the value of the current one.\<close>

fun ArcLineLoop :: "AnsiString list \<Rightarrow> AnsiString \<times> AnsiString \<Rightarrow> (AnsiString \<times> AnsiString) list \<Rightarrow> (AnsiString \<times> AnsiString) list" where
  "ArcLineLoop [] current flds = flushField current flds"
| "ArcLineLoop (line # lines) current flds =
     (let line = TrimRight_chars line [CHR 0x0D]
      in if line = [] then flushField current flds
         else if hd line = CHR '' '' \<or> hd line = CHR 0x09 then
           ArcLineLoop lines (if fst current \<noteq> [] then (fst current, snd current @ '' '' @ TrimLeft line) else current) flds
         else
           let flds = flushField current flds
           in case Find_str line '':'' of
                None \<Rightarrow> ArcLineLoop lines ([], []) flds
              | Some colonPosition \<Rightarrow>
                  if colonPosition = 0 then ArcLineLoop lines ([], []) flds
                  else
                    let name = MakeLower (Trim (Mid_count line 0 colonPosition))
                    in if IsArcName name then ArcLineLoop lines (name, Trim (Mid line (colonPosition + 1))) flds
                       else ArcLineLoop lines ([], []) flds)"

text \<open>One field goes into its set; \<open>None\<close> is a malformed chain.\<close>

definition AddArcField :: "CodePage \<Rightarrow> AnsiString \<times> AnsiString \<Rightarrow> ArcSets \<Rightarrow> ArcSets option" where
  "AddArcField cp field sets =
     (let instanceValue = GetParam (DKIMParameters_Load cp (snd field)) ''i'';
          inst = ttoi instanceValue;
          s = set_of sets inst
      in if \<not> IsNumeric instanceValue then None
         else if inst < 1 \<or> inst > MaxArcInstance then None
         else if fst field = ''arc-seal'' then
           (if set_seal s \<noteq> [] then None else Some (change_set inst (set_seal_update (\<lambda>_. snd field)) sets))
         else if fst field = ''arc-message-signature'' then
           (if set_message_signature s \<noteq> [] then None else Some (change_set inst (set_message_signature_update (\<lambda>_. snd field)) sets))
         else
           (if set_authentication_results s \<noteq> [] then None else Some (change_set inst (set_authentication_results_update (\<lambda>_. snd field)) sets)))"

fun AddArcFields :: "CodePage \<Rightarrow> (AnsiString \<times> AnsiString) list \<Rightarrow> ArcSets \<Rightarrow> ArcSets option" where
  "AddArcFields cp [] sets = Some sets"
| "AddArcFields cp (field # flds) sets =
     (case AddArcField cp field sets of None \<Rightarrow> None | Some sets \<Rightarrow> AddArcFields cp flds sets)"

fun SetsComplete :: "int \<Rightarrow> ArcSets \<Rightarrow> bool" where
  "SetsComplete expectedInstance [] = True"
| "SetsComplete expectedInstance ((k, s) # rest) =
     (if k \<noteq> expectedInstance then False
      else if set_seal s = [] \<or> set_message_signature s = [] \<or> set_authentication_results s = [] then False
      else SetsComplete (expectedInstance + 1) rest)"

definition ParseExistingSets :: "CodePage \<Rightarrow> AnsiString \<Rightarrow> ArcSets option" where
  "ParseExistingSets cp header =
     (case AddArcFields cp (ArcLineLoop (SplitStringAnsi (through_wide cp) header CHR 0x0A) ([], []) []) [] of
        None \<Rightarrow> None
      | Some sets \<Rightarrow> if SetsComplete 1 sets then Some sets else None)"

text \<open>The domains of the seals, until one names none.\<close>

fun SealerLoop :: "CodePage \<Rightarrow> ArcSets \<Rightarrow> AnsiString list \<Rightarrow> bool \<times> AnsiString list" where
  "SealerLoop cp [] domains = (True, domains)"
| "SealerLoop cp ((k, s) # rest) domains =
     (let sealDomain = MakeLower (GetParam (DKIMParameters_Load cp (set_seal s)) ''d'')
      in if sealDomain = [] then (False, domains) else SealerLoop cp rest (domains @ [sealDomain]))"

definition ParseChain :: "CodePage \<Rightarrow> AnsiString \<Rightarrow> ChainInfo \<Rightarrow> ChainParseStatus \<times> ChainInfo" where
  "ParseChain cp header info =
     (case ParseExistingSets cp header of
        None \<Rightarrow> (Malformed, info)
      | Some sets \<Rightarrow>
          if sets = [] then (NoChain, info)
          else
            let info = info\<lparr>instance_count := int (length sets), oldest_authentication_results := set_authentication_results (snd (hd sets))\<rparr>;
                (named, domains) = SealerLoop cp sets (sealer_domains info);
                info = info\<lparr>sealer_domains := domains\<rparr>;
                amsDomain = MakeLower (GetParam (DKIMParameters_Load cp (set_message_signature (snd (last sets)))) ''d'')
            in if \<not> named then (Malformed, info)
               else if amsDomain = [] then (Malformed, info)
               else (Parsed, info\<lparr>sealer_domains := domains @ [amsDomain]\<rparr>))"

section \<open>Validating\<close>

type_synonym KeyCache = "(AnsiString \<times> KeyLookupResult) list"

text \<open>The cache of a validation, and beside it the names that were looked up, in their order.\<close>

record KeyLookups =
  key_cache :: KeyCache
  names_asked :: "AnsiString list"

definition no_lookups :: KeyLookups where
  "no_lookups = \<lparr>key_cache = [], names_asked = []\<rparr>"

definition RetrieveArcPublicKey :: "DkimEnv \<Rightarrow> AnsiString \<Rightarrow> AnsiString \<Rightarrow> KeyLookups \<Rightarrow> KeyLookupResult \<times> KeyLookups" where
  "RetrieveArcPublicKey env selector domain keys =
     (let lookupName = MakeLower (selector @ ''._domainkey.'' @ domain)
      in case map_of (key_cache keys) lookupName of
           Some cached \<Rightarrow> (cached, keys)
         | None \<Rightarrow>
             let txtRecords = GetTXTRecords env (length (names_asked keys)) lookupName;
                 keys = keys\<lparr>names_asked := names_asked keys @ [lookupName]\<rparr>;
                 result =
                   (case txtRecords of
                      None \<Rightarrow> \<lparr>lookup_status = ChainTempError, public_key = []\<rparr>
                    | Some txtRecords \<Rightarrow>
                        (case List.find (\<lambda>ps. (GetParam ps ''v'' = [] \<or> GetParam ps ''v'' = ''DKIM1'') \<and> GetParam ps ''p'' \<noteq> [])
                                (map (DKIMParameters_Load (cpage env)) txtRecords) of
                           None \<Rightarrow> \<lparr>lookup_status = ChainFail, public_key = []\<rparr>
                         | Some keyParameters \<Rightarrow> \<lparr>lookup_status = ChainPass, public_key = Replace (GetParam keyParameters ''p'') '' '' []\<rparr>))
             in (result, keys\<lparr>key_cache := AList.update lookupName result (key_cache keys)\<rparr>))"

text \<open>The methods of the c tag: unknown ones, and a missing one after a slash, are refused.\<close>

definition ArcMethods :: "AnsiString \<Rightarrow> (CanonicalizeMethod \<times> CanonicalizeMethod) option" where
  "ArcMethods c =
     (let (headerMethod, bodyMethod) =
            (if c = [] then (''simple'', ''simple'')
             else case Find_str c ''/'' of
                    Some slashPosition \<Rightarrow> (Mid_count c 0 slashPosition, Mid c (slashPosition + 1))
                  | None \<Rightarrow> (c, ''simple''))
      in if (headerMethod \<noteq> ''simple'' \<and> headerMethod \<noteq> ''relaxed'') \<or> (bodyMethod \<noteq> ''simple'' \<and> bodyMethod \<noteq> ''relaxed'') then None
         else Some (if headerMethod = ''simple'' then Simple else Relaxed, if bodyMethod = ''simple'' then Simple else Relaxed))"

text \<open>The names of the h tag: no ARC field, and From among them.\<close>

fun AmsNamesLoop :: "AnsiString list \<Rightarrow> bool \<Rightarrow> bool" where
  "AmsNamesLoop [] fromIsSigned = fromIsSigned"
| "AmsNamesLoop (headerField # headerFields) fromIsSigned =
     (let headerField = MakeLower (Trim headerField)
      in if StartsWith headerField ''arc-'' then False
         else AmsNamesLoop headerFields (fromIsSigned \<or> headerField = ''from''))"

text \<open>The newest message signature, read again from the raw header.\<close>

definition NewestSignatureField :: "CodePage \<Rightarrow> AnsiString \<Rightarrow> int \<Rightarrow> (AnsiString \<times> AnsiString) option" where
  "NewestSignatureField cp header newestInstance =
     map_option (\<lambda>f. (MimeField_GetName f, MimeField_GetValue f))
       (List.find (\<lambda>f. CompareNoCase (MimeField_GetName f) ''ARC-Message-Signature'' = 0 \<and>
            (let instanceValue = GetParam (DKIMParameters_Load cp (UnfoldField (MimeField_GetValue f))) ''i''
             in IsNumeric instanceValue \<and> ttoi instanceValue = newestInstance)) (Fields header False))"

definition ArcBodyPart :: "DKIMParameters \<Rightarrow> AnsiString \<Rightarrow> AnsiString option" where
  "ArcBodyPart ps canonicalizedBody =
     (let tagL = GetParam ps ''l'';
          coveredLength = ttoi tagL
      in if tagL = [] then Some canonicalizedBody
         else if \<not> IsNumeric tagL then None
         else if coveredLength > int (length canonicalizedBody) then None
         else Some (Mid_count canonicalizedBody 0 (nat coveredLength)))"

definition VerifyNewestMessageSignature ::
  "'key OpenSSL \<Rightarrow> DkimEnv \<Rightarrow> AnsiString \<Rightarrow> ArcSets \<Rightarrow> AnsiString \<Rightarrow> KeyLookups \<Rightarrow> ChainValidationStatus \<times> KeyLookups" where
  "VerifyNewestMessageSignature ssl env content sets header keyCache =
     (case NewestSignatureField (cpage env) header (fst (last sets)) of
        None \<Rightarrow> (ChainFail, keyCache)
      | Some signatureField \<Rightarrow>
          let ps = DKIMParameters_Load (cpage env) (UnfoldField (snd signatureField));
              tagA = GetParam ps ''a'';
              tagB = GetParam ps ''b'';
              tagBH = GetParam ps ''bh'';
              headerFields = SplitStringAnsi (through_wide (cpage env)) (GetParam ps ''h'') CHR '':''
          in if tagA = [] \<or> tagB = [] \<or> tagBH = [] \<or> GetParam ps ''d'' = [] \<or> GetParam ps ''s'' = [] \<or> GetParam ps ''h'' = [] then (ChainFail, keyCache)
             else if tagA \<noteq> ''rsa-sha256'' \<and> tagA \<noteq> ''ed25519-sha256'' then (ChainFail, keyCache)
             else if \<not> AmsNamesLoop headerFields False then (ChainFail, keyCache)
             else case ArcMethods (GetParam ps ''c'') of
                    None \<Rightarrow> (ChainFail, keyCache)
                  | Some (headerMethod, bodyMethod) \<Rightarrow>
                      (case ArcBodyPart ps (CanonicalizeBody (cpage env) bodyMethod (LoadBody (body_reads env 0) (LoadBodyReadSize env) content)) of
                         None \<Rightarrow> (ChainFail, keyCache)
                       | Some canonicalizedBody \<Rightarrow>
                           if Replace tagBH '' '' [] \<noteq> c_str (GenerateHashNoSalt ssl SHA256 canonicalizedBody) then (ChainFail, keyCache)
                           else
                             let (key, keyCache) = RetrieveArcPublicKey env (GetParam ps ''s'') (GetParam ps ''d'') keyCache
                             in if lookup_status key \<noteq> ChainPass then (lookup_status key, keyCache)
                                else
                                  let canonicalizedHeader = fst (CanonicalizeHeader (cpage env) headerMethod header signatureField headerFields [])
                                  in if VerifyHeaderHash ssl canonicalizedHeader tagA (Replace tagB '' '' []) (public_key key) = DkimPass
                                     then (ChainPass, keyCache) else (ChainFail, keyCache)))"

text \<open>The seal without the value of its signature tag: the tags are walked one by one.\<close>

function StripSealSignatureValue :: "AnsiString \<Rightarrow> AnsiString" where
  "StripSealSignatureValue rest =
     (if rest = [] then []
      else case Find_str rest ''='' of
             None \<Rightarrow> rest
           | Some equalsPosition \<Rightarrow>
               let tagName = Trim (Mid_count rest 0 equalsPosition);
                   semicolonPosition = Find_from rest '';'' equalsPosition;
                   valueEnd = (case semicolonPosition of None \<Rightarrow> length rest | Some i \<Rightarrow> i + 1)
               in (if CompareNoCase tagName ''b'' = 0
                   then Mid_count rest 0 (equalsPosition + 1) @ (if semicolonPosition \<noteq> None then '';'' else [])
                   else Mid_count rest 0 valueEnd) @
                  StripSealSignatureValue (Mid rest valueEnd))"
  by pat_completeness auto
termination
  by (relation "measure length") (auto simp: Mid_eq split: option.splits)

declare StripSealSignatureValue.simps [simp del]

text \<open>What a seal signs: the sets up to its own, without the value of its own signature.\<close>

definition SealLine :: "bool \<Rightarrow> ArcSet \<Rightarrow> AnsiString" where
  "SealLine own s =
     RelaxedHeaderLine ''arc-authentication-results'' (set_authentication_results s) @ crlf @
     RelaxedHeaderLine ''arc-message-signature'' (set_message_signature s) @ crlf @
     (if own then RelaxedHeaderLine ''arc-seal'' (StripSealSignatureValue (set_seal s))
      else RelaxedHeaderLine ''arc-seal'' (set_seal s) @ crlf)"

definition SealScope :: "ArcSets \<Rightarrow> int \<Rightarrow> AnsiString" where
  "SealScope sets inst = concat (map (\<lambda>(k, s). SealLine (k = inst) s) (takeWhile (\<lambda>(k, s). k \<le> inst) sets))"

definition VerifySealSignature ::
  "'key OpenSSL \<Rightarrow> DkimEnv \<Rightarrow> ArcSets \<Rightarrow> int \<Rightarrow> KeyLookups \<Rightarrow> ChainValidationStatus \<times> KeyLookups" where
  "VerifySealSignature ssl env sets inst keyCache =
     (case map_of sets inst of
        None \<Rightarrow> (ChainFail, keyCache)
      | Some s \<Rightarrow>
          let ps = DKIMParameters_Load (cpage env) (set_seal s);
              sealSignature = Replace (GetParam ps ''b'') '' '' [];
              sealAlgorithm = (if GetParam ps ''a'' = [] then ''rsa-sha256'' else GetParam ps ''a'')
          in if GetParam ps ''d'' = [] \<or> GetParam ps ''s'' = [] \<or> sealSignature = [] then (ChainFail, keyCache)
             else if sealAlgorithm \<noteq> ''rsa-sha256'' \<and> sealAlgorithm \<noteq> ''ed25519-sha256'' then (ChainFail, keyCache)
             else
               let (key, keyCache) = RetrieveArcPublicKey env (GetParam ps ''s'') (GetParam ps ''d'') keyCache
               in if lookup_status key \<noteq> ChainPass then (lookup_status key, keyCache)
                  else if VerifyHeaderHash ssl (SealScope sets inst) sealAlgorithm sealSignature (public_key key) = DkimPass
                    then (ChainPass, keyCache) else (ChainFail, keyCache))"

definition CvStep :: "CodePage \<Rightarrow> int \<times> ArcSet \<Rightarrow> bool" where
  "CvStep cp set0 =
     (let chainValidationTag = MakeLower (GetParam (DKIMParameters_Load cp (set_seal (snd set0))) ''cv'')
      in if fst set0 = 1 then chainValidationTag = ''none'' else chainValidationTag = ''pass'')"

fun SealLoop :: "'key OpenSSL \<Rightarrow> DkimEnv \<Rightarrow> ArcSets \<Rightarrow> int list \<Rightarrow> KeyLookups \<Rightarrow> ChainValidationStatus \<times> KeyLookups" where
  "SealLoop ssl env sets [] keyCache = (ChainPass, keyCache)"
| "SealLoop ssl env sets (inst # insts) keyCache =
     (case VerifySealSignature ssl env sets inst keyCache of
        (ChainPass, keyCache) \<Rightarrow> SealLoop ssl env sets insts keyCache
      | (sealStatus, keyCache) \<Rightarrow> (sealStatus, keyCache))"

text \<open>The status, and the answers that were looked up.\<close>

definition ValidateChainSets ::
  "'key OpenSSL \<Rightarrow> DkimEnv \<Rightarrow> AnsiString \<Rightarrow> ArcSets \<Rightarrow> AnsiString \<Rightarrow> ChainValidationStatus \<times> KeyLookups" where
  "ValidateChainSets ssl env content sets header =
     (if sets = [] then (ChainFail, no_lookups)
      else if length sets > MaxArcSetsToValidate then (ChainFail, no_lookups)
      else if \<not> list_all (CvStep (cpage env)) sets then (ChainFail, no_lookups)
      else case VerifyNewestMessageSignature ssl env content sets header no_lookups of
             (ChainPass, keyCache) \<Rightarrow> SealLoop ssl env sets (map fst sets) keyCache
           | (messageSignatureStatus, keyCache) \<Rightarrow> (messageSignatureStatus, keyCache))"

definition ValidateChain :: "'key OpenSSL \<Rightarrow> DkimEnv \<Rightarrow> AnsiString \<Rightarrow> AnsiString \<Rightarrow> ChainValidationStatus \<times> KeyLookups" where
  "ValidateChain ssl env content header =
     (case ParseExistingSets (cpage env) header of
        None \<Rightarrow> (ChainFail, no_lookups)
      | Some sets \<Rightarrow> if sets = [] then (ChainFail, no_lookups) else ValidateChainSets ssl env content sets header)"

section \<open>The sets of a parsed chain\<close>

abbreviation arc_fields :: "CodePage \<Rightarrow> AnsiString \<Rightarrow> (AnsiString \<times> AnsiString) list" where
  "arc_fields cp header \<equiv> ArcLineLoop (SplitStringAnsi (through_wide cp) header CHR 0x0A) ([], []) []"

definition instance_of :: "CodePage \<Rightarrow> AnsiString \<Rightarrow> int" where
  "instance_of cp v = ttoi (GetParam (DKIMParameters_Load cp v) ''i'')"

text \<open>The member of a set that a field of this name goes to.\<close>

definition part_of :: "AnsiString \<Rightarrow> ArcSet \<Rightarrow> AnsiString" where
  "part_of name s =
     (if name = ''arc-seal'' then set_seal s else if name = ''arc-message-signature'' then set_message_signature s else set_authentication_results s)"

definition with_part :: "AnsiString \<Rightarrow> AnsiString \<Rightarrow> ArcSet \<Rightarrow> ArcSet" where
  "with_part name v s =
     (if name = ''arc-seal'' then s\<lparr>set_seal := v\<rparr> else if name = ''arc-message-signature'' then s\<lparr>set_message_signature := v\<rparr>
      else s\<lparr>set_authentication_results := v\<rparr>)"

lemma part_with_part: "IsArcName n \<Longrightarrow> IsArcName m \<Longrightarrow> part_of n (with_part m v s) = (if n = m then v else part_of n s)"
  by (auto simp: part_of_def with_part_def IsArcName_def)

lemma AddArcField_eq:
  "AddArcField cp (n, v) sets =
     (if IsNumeric (GetParam (DKIMParameters_Load cp v) ''i'') \<and> 1 \<le> instance_of cp v \<and> instance_of cp v \<le> MaxArcInstance \<and>
         part_of n (set_of sets (instance_of cp v)) = []
      then Some (change_set (instance_of cp v) (with_part n v) sets) else None)"
  by (auto simp: AddArcField_def Let_def instance_of_def part_of_def with_part_def [abs_def] not_less)

lemma change_set_props:
  "sorted_wrt (<) (map fst sets) \<Longrightarrow>
   sorted_wrt (<) (map fst (change_set k f sets)) \<and> set (map fst (change_set k f sets)) = insert k (set (map fst sets)) \<and>
   map_of (change_set k f sets) = (map_of sets)(k \<mapsto> f (set_of sets k))"
proof (induction sets)
  case (Cons x rest)
  obtain j s where x: "x = (j, s)" by fastforce
  have above: "map_of rest i = None" if "i \<le> j" for i
    using Cons.prems that by (force simp: x map_of_eq_None_iff)
  show ?case using Cons above [of k] above [of j]
    by (auto simp: x set_of_def fun_upd_twist split: option.splits)
qed (simp add: set_of_def fun_eq_iff)

text \<open>What holds while the fields are put into their sets.\<close>

definition sets_hold :: "CodePage \<Rightarrow> (AnsiString \<times> AnsiString) list \<Rightarrow> ArcSets \<Rightarrow> bool" where
  "sets_hold cp fs sets \<longleftrightarrow>
     sorted_wrt (<) (map fst sets) \<and>
     (\<forall>k s. map_of sets k = Some s \<longrightarrow> 1 \<le> k \<and> k \<le> MaxArcInstance \<and>
        (\<forall>n. IsArcName n \<longrightarrow> part_of n s = [] \<or> (n, part_of n s) \<in> set fs \<and> instance_of cp (part_of n s) = k)) \<and>
     (\<forall>(n, v) \<in> set fs. \<exists>s. map_of sets (instance_of cp v) = Some s \<and> part_of n s = v)"

lemma instance_of_Nil: "instance_of cp [] = 0"
proof -
  have "SplitStringAnsi f [] c = []" for f c by (simp add: SplitStringAnsi_def SplitStringLoop.simps)
  then have "GetParam (DKIMParameters_Load cp []) ''i'' = []" by (simp add: DKIMParameters_Load_def GetParam_def)
  then show ?thesis unfolding instance_of_def by code_simp
qed

lemma sets_hold_step:
  assumes "sets_hold cp fs sets" "AddArcField cp (n, v) sets = Some sets'" "IsArcName n" "list_all (\<lambda>f. IsArcName (fst f)) fs"
  shows "sets_hold cp (fs @ [(n, v)]) sets'"
proof -
  let ?k = "instance_of cp v"
  have k: "1 \<le> ?k" "?k \<le> MaxArcInstance" "part_of n (set_of sets ?k) = []" and sets': "sets' = change_set ?k (with_part n v) sets"
    using assms(2) by (auto simp: AddArcField_eq split: if_splits)
  have sorted: "sorted_wrt (<) (map fst sets)" using assms(1) by (simp add: sets_hold_def)
  note props = change_set_props [OF this, of ?k "with_part n v"]
  have old: "1 \<le> k \<and> k \<le> MaxArcInstance \<and> (\<forall>m. IsArcName m \<longrightarrow> part_of m s = [] \<or> (m, part_of m s) \<in> set fs \<and> instance_of cp (part_of m s) = k)"
    if "map_of sets k = Some s" for k s using assms(1) that by (simp add: sets_hold_def)
  have init: "part_of m ArcSet_init = []" for m by (simp add: part_of_def ArcSet_init_def)
  have own: "IsArcName m \<Longrightarrow> part_of m (set_of sets ?k) = [] \<or> (m, part_of m (set_of sets ?k)) \<in> set fs \<and> instance_of cp (part_of m (set_of sets ?k)) = ?k" for m
    using old [of ?k] by (auto simp: set_of_def init split: option.splits)
  have "1 \<le> k \<and> k \<le> MaxArcInstance \<and> (\<forall>m. IsArcName m \<longrightarrow> part_of m s = [] \<or> (m, part_of m s) \<in> set (fs @ [(n, v)]) \<and> instance_of cp (part_of m s) = k)"
    if "map_of sets' k = Some s" for k s
  proof (cases "k = ?k")
    case True
    then have "s = with_part n v (set_of sets ?k)" using that props unfolding sets' by simp
    with True k(1,2) own assms(3) show ?thesis by (auto simp: part_with_part)
  next
    case False
    then have "map_of sets k = Some s" using that props unfolding sets' by simp
    from old [OF this] show ?thesis by auto
  qed
  moreover have "\<exists>s. map_of sets' (instance_of cp w) = Some s \<and> part_of m s = w" if "(m, w) \<in> set (fs @ [(n, v)])" for m w
  proof (cases "(m, w) = (n, v)")
    case True
    then show ?thesis using props assms(3) unfolding sets' by (simp add: part_with_part)
  next
    case False
    then have mw: "(m, w) \<in> set fs" using that by auto
    then obtain s where s: "map_of sets (instance_of cp w) = Some s" "part_of m s = w" using assms(1) by (auto simp: sets_hold_def)
    have m: "IsArcName m" using mw assms(4) by (auto simp: list_all_iff)
    show ?thesis
    proof (cases "instance_of cp w = ?k")
      case True
      have "set_of sets ?k = s" using s(1) True by (simp add: set_of_def)
      moreover have "w \<noteq> []" using True k(1) instance_of_Nil by fastforce
      ultimately have "m \<noteq> n" using k(3) s(2) by auto
      then show ?thesis using props True m assms(3) s \<open>set_of sets ?k = s\<close> unfolding sets' by (simp add: part_with_part)
    qed (use props s in \<open>simp add: sets'\<close>)
  qed
  ultimately show ?thesis using props unfolding sets_hold_def sets' by blast
qed

lemma AddArcFields_hold:
  "sets_hold cp fs sets \<Longrightarrow> AddArcFields cp gs sets = Some sets' \<Longrightarrow> list_all (\<lambda>f. IsArcName (fst f)) (fs @ gs) \<Longrightarrow> sets_hold cp (fs @ gs) sets'"
proof (induction gs arbitrary: fs sets)
  case (Cons g gs)
  obtain n v where g: "g = (n, v)" by fastforce
  from Cons.prems(2) obtain sets1 where 1: "AddArcField cp (n, v) sets = Some sets1" "AddArcFields cp gs sets1 = Some sets'"
    by (auto simp: g split: option.splits)
  have "sets_hold cp (fs @ [g]) sets1" using sets_hold_step [OF Cons.prems(1) 1(1)] Cons.prems(3) by (simp add: g)
  from Cons.IH [OF this 1(2)] Cons.prems(3) show ?case by simp
qed simp

lemma ArcLineLoop_names:
  "list_all (\<lambda>f. IsArcName (fst f)) fs \<Longrightarrow> fst current = [] \<or> IsArcName (fst current) \<Longrightarrow> list_all (\<lambda>f. IsArcName (fst f)) (ArcLineLoop lines current fs)"
proof (induction lines current fs rule: ArcLineLoop.induct)
  case (2 line lines current fs)
  then show ?case by (auto simp: Let_def flushField_def split: option.splits)
qed (auto simp: flushField_def)

lemma SetsComplete_upto: "SetsComplete k sets \<Longrightarrow> map fst sets = [k..k + int (length sets) - 1] \<and> list_all (\<lambda>(j, s). \<forall>n. part_of n s \<noteq> []) sets"
proof (induction k sets rule: SetsComplete.induct)
  case (2 k j s rest)
  then have "[k..k + int (length ((j, s) # rest)) - 1] = k # [k + 1..k + 1 + int (length rest) - 1]" by (simp add: upto_rec1)
  moreover have "part_of n s \<noteq> []" for n using 2(2) by (auto simp: part_of_def split: if_splits)
  ultimately show ?case using 2 by (simp split: if_splits)
qed simp

lemma ParseExistingSets_order:
  assumes "ParseExistingSets cp header = Some sets"
  shows "map fst sets = [1..int (length sets)] \<and> length sets \<le> 50 \<and>
    (\<forall>(k, s) \<in> set sets. \<forall>n. IsArcName n \<longrightarrow> part_of n s \<noteq> [] \<and> instance_of cp (part_of n s) = k) \<and>
    (\<forall>n v. (n, v) \<in> set (arc_fields cp header) \<longleftrightarrow> IsArcName n \<and> v \<noteq> [] \<and> (\<exists>s. (instance_of cp v, s) \<in> set sets \<and> part_of n s = v))"
proof -
  let ?fs = "arc_fields cp header"
  from assms have add: "AddArcFields cp ?fs [] = Some sets" and complete: "SetsComplete 1 sets"
    by (auto simp: ParseExistingSets_def split: option.splits if_splits)
  have names: "list_all (\<lambda>f. IsArcName (fst f)) ?fs" by (rule ArcLineLoop_names) simp_all
  have "sets_hold cp [] []" by (simp add: sets_hold_def)
  from AddArcFields_hold [OF this add] names have hold: "sets_hold cp ?fs sets" by simp
  then have "distinct (map fst sets)" by (simp add: sets_hold_def strict_sorted_iff)
  then have lookup: "map_of sets k = Some s \<longleftrightarrow> (k, s) \<in> set sets" for k s by simp
  have order: "map fst sets = [1..int (length sets)]" and full: "\<And>k s n. (k, s) \<in> set sets \<Longrightarrow> part_of n s \<noteq> []"
    using SetsComplete_upto [OF complete] by (auto simp: list_all_iff)
  have "int (length sets) \<in> set (map fst sets)" if "sets \<noteq> []" using that unfolding order by (cases sets) simp_all
  then have "length sets \<le> 50" using hold unfolding sets_hold_def lookup MaxArcInstance_def by (cases "sets = []") force+
  moreover have "\<forall>(k, s) \<in> set sets. \<forall>n. IsArcName n \<longrightarrow> part_of n s \<noteq> [] \<and> instance_of cp (part_of n s) = k"
    using hold full unfolding sets_hold_def lookup by blast
  moreover have "(n, v) \<in> set ?fs \<longleftrightarrow> IsArcName n \<and> v \<noteq> [] \<and> (\<exists>s. (instance_of cp v, s) \<in> set sets \<and> part_of n s = v)" for n v
  proof
    assume nv: "(n, v) \<in> set ?fs"
    then obtain s where "(instance_of cp v, s) \<in> set sets" "part_of n s = v" using hold unfolding sets_hold_def lookup by auto
    with nv names full show "IsArcName n \<and> v \<noteq> [] \<and> (\<exists>s. (instance_of cp v, s) \<in> set sets \<and> part_of n s = v)" by (auto simp: list_all_iff)
  next
    assume "IsArcName n \<and> v \<noteq> [] \<and> (\<exists>s. (instance_of cp v, s) \<in> set sets \<and> part_of n s = v)"
    then show "(n, v) \<in> set ?fs" using hold unfolding sets_hold_def lookup by blast
  qed
  ultimately show ?thesis using order by blast
qed

text \<open>
  C21: A chain that is parsed is in order: its sets are numbered from one without a gap, there are at most fifty of them, each has its three
  fields, each field stands in the set that its own i tag names, and no ARC field that the line walk reads in
  the header is left out or used twice.
\<close>

theorem parsed_chain_is_in_order:
  assumes "ParseExistingSets cp header = Some sets"
  shows "map fst sets = [1..int (length sets)] \<and> length sets \<le> 50 \<and>
    (\<forall>(k, s) \<in> set sets. \<forall>n. IsArcName n \<longrightarrow> part_of n s \<noteq> [] \<and> instance_of cp (part_of n s) = k) \<and>
    (\<forall>n v. (n, v) \<in> set (arc_fields cp header) \<longleftrightarrow> IsArcName n \<and> v \<noteq> [] \<and> (\<exists>s. (instance_of cp v, s) \<in> set sets \<and> part_of n s = v))"
  using assms by (rule ParseExistingSets_order)

section \<open>What a valid chain means\<close>

text \<open>The answers in the cache are what the DNS gave for their names, one question each.\<close>

definition key_answer :: "DkimEnv \<Rightarrow> nat \<Rightarrow> AnsiString \<Rightarrow> KeyLookupResult" where
  "key_answer env k name =
     (case GetTXTRecords env k name of
        None \<Rightarrow> \<lparr>lookup_status = ChainTempError, public_key = []\<rparr>
      | Some txtRecords \<Rightarrow>
          (case List.find (\<lambda>ps. (GetParam ps ''v'' = [] \<or> GetParam ps ''v'' = ''DKIM1'') \<and> GetParam ps ''p'' \<noteq> [])
                  (map (DKIMParameters_Load (cpage env)) txtRecords) of
             None \<Rightarrow> \<lparr>lookup_status = ChainFail, public_key = []\<rparr>
           | Some keyParameters \<Rightarrow> \<lparr>lookup_status = ChainPass, public_key = Replace (GetParam keyParameters ''p'') '' '' []\<rparr>))"

definition cache_holds :: "DkimEnv \<Rightarrow> KeyLookups \<Rightarrow> bool" where
  "cache_holds env c \<longleftrightarrow> distinct (names_asked c) \<and> map fst (key_cache c) = names_asked c \<and>
     (\<forall>i < length (names_asked c). snd (key_cache c ! i) = key_answer env i (names_asked c ! i))"

lemma no_lookups_hold [simp]: "cache_holds env no_lookups" "names_asked no_lookups = []" "key_cache no_lookups = []"
  by (simp_all add: cache_holds_def no_lookups_def)

lemma cache_list:
  assumes "map fst c = ns" "\<forall>i < length ns. snd (c ! i) = g i (ns ! i)"
  shows "c = map (\<lambda>(i, name). (name, g i name)) (enumerate 0 ns)"
proof (rule nth_equalityI)
  show len: "length c = length (map (\<lambda>(i, name). (name, g i name)) (enumerate 0 ns))" using assms(1) by auto
  show "c ! i = map (\<lambda>(i, name). (name, g i name)) (enumerate 0 ns) ! i" if "i < length c" for i
  proof -
    have i: "i < length ns" using that assms(1) by auto
    have "fst (c ! i) = ns ! i" using that assms(1) by auto
    moreover have "snd (c ! i) = g i (ns ! i)" using assms(2) i by blast
    ultimately have "c ! i = (ns ! i, g i (ns ! i))" by (metis prod.collapse)
    with i show ?thesis by (simp add: nth_enumerate_eq)
  qed
qed

lemma RetrieveArcPublicKey_eq:
  "RetrieveArcPublicKey env s d c =
     (let name = MakeLower (s @ ''._domainkey.'' @ d); r = key_answer env (length (names_asked c)) name
      in case map_of (key_cache c) name of
           Some r \<Rightarrow> (r, c)
         | None \<Rightarrow> (r, c\<lparr>names_asked := names_asked c @ [name], key_cache := key_cache c @ [(name, r)]\<rparr>))"
proof -
  have "map_of c n = None \<Longrightarrow> AList.update n r c = c @ [(n, r)]" for n :: AnsiString and r :: KeyLookupResult and c by (induction c) (auto split: if_splits)
  then show ?thesis by (simp add: RetrieveArcPublicKey_def Let_def key_answer_def split: option.splits)
qed

lemma RetrieveArcPublicKey_cache:
  assumes "RetrieveArcPublicKey env s d c = (r, c')" "cache_holds env c"
  shows "cache_holds env c' \<and> length (names_asked c') \<le> length (names_asked c) + 1 \<and> (\<exists>k. r = key_answer env k (MakeLower (s @ ''._domainkey.'' @ d)))"
proof -
  define n where "n = MakeLower (s @ ''._domainkey.'' @ d)"
  note eq = assms(1) [unfolded RetrieveArcPublicKey_eq Let_def, folded n_def]
  have len: "length (key_cache c) = length (names_asked c)" using assms(2) unfolding cache_holds_def by (metis length_map)
  show ?thesis unfolding n_def [symmetric]
  proof (cases "map_of (key_cache c) n")
    case None
    then have "n \<notin> set (map fst (key_cache c))" by (simp add: map_of_eq_None_iff)
    moreover have "map fst (key_cache c) = names_asked c" using assms(2) by (simp add: cache_holds_def)
    ultimately have "n \<notin> set (names_asked c)" by metis
    with assms(2) eq None len show "cache_holds env c' \<and> length (names_asked c') \<le> length (names_asked c) + 1 \<and> (\<exists>k. r = key_answer env k n)"
      by (auto simp: cache_holds_def nth_append less_Suc_eq)
  next
    case (Some r')
    then obtain i where i: "i < length (key_cache c)" "key_cache c ! i = (n, r')" by (metis in_set_conv_nth map_of_SomeD)
    then have "names_asked c ! i = n" using assms(2) unfolding cache_holds_def by (metis nth_map fst_conv)
    with assms(2) i len have "r' = key_answer env i n" unfolding cache_holds_def by force
    with assms(2) eq Some show "cache_holds env c' \<and> length (names_asked c') \<le> length (names_asked c) + 1 \<and> (\<exists>k. r = key_answer env k n)" by auto
  qed
qed

text \<open>A set is sealed when the published key of its seal's domain accepts what the seal covers.\<close>

definition key_published :: "DkimEnv \<Rightarrow> AnsiString \<Rightarrow> AnsiString \<Rightarrow> AnsiString \<Rightarrow> bool" where
  "key_published env selector domain p \<longleftrightarrow>
     (\<exists>k. key_answer env k (MakeLower (selector @ ''._domainkey.'' @ domain)) = \<lparr>lookup_status = ChainPass, public_key = p\<rparr>)"

definition sealed_set :: "'key OpenSSL \<Rightarrow> DkimEnv \<Rightarrow> ArcSets \<Rightarrow> int \<times> ArcSet \<Rightarrow> bool" where
  "sealed_set ssl env sets ks \<longleftrightarrow>
     (let ps = DKIMParameters_Load (cpage env) (set_seal (snd ks));
          a = (if GetParam ps ''a'' = [] then ''rsa-sha256'' else GetParam ps ''a'')
      in GetParam ps ''d'' \<noteq> [] \<and> GetParam ps ''s'' \<noteq> [] \<and> Replace (GetParam ps ''b'') '' '' [] \<noteq> [] \<and> a \<in> {''rsa-sha256'', ''ed25519-sha256''} \<and>
         (\<exists>p. key_published env (GetParam ps ''s'') (GetParam ps ''d'') p \<and>
            key_accepts ssl a p (SealScope sets (fst ks)) (MimeCodeBase64_Decode (Replace (GetParam ps ''b'') '' '' []))))"

lemma VerifySealSignature_props:
  assumes "VerifySealSignature ssl env sets k c = (r, c')" "cache_holds env c"
  shows "cache_holds env c' \<and> length (names_asked c') \<le> length (names_asked c) + 1 \<and> (r = ChainPass \<longrightarrow> (\<exists>s. map_of sets k = Some s \<and> sealed_set ssl env sets (k, s)))"
proof (cases "map_of sets k")
  case None
  with assms show ?thesis by (simp add: VerifySealSignature_def)
next
  case (Some s)
  let ?ps = "DKIMParameters_Load (cpage env) (set_seal s)"
  obtain key c1 where key: "RetrieveArcPublicKey env (GetParam ?ps ''s'') (GetParam ?ps ''d'') c = (key, c1)" by fastforce
  note kc = RetrieveArcPublicKey_cache [OF key assms(2)]
  have "key = \<lparr>lookup_status = ChainPass, public_key = public_key key\<rparr>" if "lookup_status key = ChainPass" using that by (cases key) simp
  then have "key_published env (GetParam ?ps ''s'') (GetParam ?ps ''d'') (public_key key)" if "lookup_status key = ChainPass"
    using that kc unfolding key_published_def by metis
  with assms Some key kc show ?thesis
    by (auto simp: VerifySealSignature_def Let_def sealed_set_def VerifyHeaderHash_eq split: if_splits)
qed

lemma SealLoop_props:
  "SealLoop ssl env sets ks c = (r, c') \<Longrightarrow> cache_holds env c \<Longrightarrow>
   cache_holds env c' \<and> length (names_asked c') \<le> length (names_asked c) + length ks \<and> (r = ChainPass \<longrightarrow> (\<forall>k \<in> set ks. \<exists>s. map_of sets k = Some s \<and> sealed_set ssl env sets (k, s)))"
proof (induction ssl env sets ks c rule: SealLoop.induct)
  case (2 ssl env sets k ks c)
  obtain r1 c1 where 1: "VerifySealSignature ssl env sets k c = (r1, c1)" by fastforce
  note p = VerifySealSignature_props [OF 1 2(3)]
  show ?case using 2(1) [OF 1 [symmetric]] 2(2) 1 p by (cases r1) auto
qed simp

text \<open>What the newest message signature promises: the fields it lists, From among them and no ARC field, and the body.\<close>

definition message_signed :: "'key OpenSSL \<Rightarrow> DkimEnv \<Rightarrow> AnsiString \<Rightarrow> AnsiString \<Rightarrow> AnsiString \<times> AnsiString \<Rightarrow> bool" where
  "message_signed ssl env content header sf \<longleftrightarrow>
     (let ps = DKIMParameters_Load (cpage env) (UnfoldField (snd sf));
          names = SplitStringAnsi (through_wide (cpage env)) (GetParam ps ''h'') CHR '':''
      in list_all (\<lambda>n. GetParam ps n \<noteq> []) [''b'', ''bh'', ''d'', ''s'', ''h''] \<and> GetParam ps ''a'' \<in> {''rsa-sha256'', ''ed25519-sha256''} \<and>
         list_ex (\<lambda>n. MakeLower (Trim n) = ''from'') names \<and> list_all (\<lambda>n. \<not> StartsWith (MakeLower (Trim n)) ''arc-'') names \<and>
         (\<exists>hm bm part p. ArcMethods (GetParam ps ''c'') = Some (hm, bm) \<and>
            ArcBodyPart ps (CanonicalizeBody (cpage env) bm (LoadBody (body_reads env 0) (LoadBodyReadSize env) content)) = Some part \<and>
            Replace (GetParam ps ''bh'') '' '' [] = c_str (GenerateHashNoSalt ssl SHA256 part) \<and>
            key_published env (GetParam ps ''s'') (GetParam ps ''d'') p \<and>
            key_accepts ssl (GetParam ps ''a'') p (fst (CanonicalizeHeader (cpage env) hm header sf names []))
              (MimeCodeBase64_Decode (Replace (GetParam ps ''b'') '' '' []))))"

lemma AmsNamesLoop_eq:
  "AmsNamesLoop ns found \<longleftrightarrow> list_all (\<lambda>n. \<not> StartsWith (MakeLower (Trim n)) ''arc-'') ns \<and> (found \<or> list_ex (\<lambda>n. MakeLower (Trim n) = ''from'') ns)"
  by (induction ns arbitrary: found) (auto simp: Let_def)

lemma VerifyNewestMessageSignature_props:
  assumes "VerifyNewestMessageSignature ssl env content sets header c = (r, c')" "cache_holds env c"
  shows "cache_holds env c' \<and> length (names_asked c') \<le> length (names_asked c) + 1 \<and>
    (r = ChainPass \<longrightarrow> (\<exists>sf. NewestSignatureField (cpage env) header (fst (last sets)) = Some sf \<and> message_signed ssl env content header sf))"
proof (cases "NewestSignatureField (cpage env) header (fst (last sets))")
  case None
  with assms show ?thesis by (simp add: VerifyNewestMessageSignature_def)
next
  case (Some sf)
  let ?ps = "DKIMParameters_Load (cpage env) (UnfoldField (snd sf))"
  obtain key c1 where key: "RetrieveArcPublicKey env (GetParam ?ps ''s'') (GetParam ?ps ''d'') c = (key, c1)" by fastforce
  note kc = RetrieveArcPublicKey_cache [OF key assms(2)]
  have "key = \<lparr>lookup_status = ChainPass, public_key = public_key key\<rparr>" if "lookup_status key = ChainPass" using that by (cases key) simp
  then have "key_published env (GetParam ?ps ''s'') (GetParam ?ps ''d'') (public_key key)" if "lookup_status key = ChainPass"
    using that kc unfolding key_published_def by metis
  with assms Some key kc show ?thesis
    by (auto simp: VerifyNewestMessageSignature_def Let_def message_signed_def AmsNamesLoop_eq VerifyHeaderHash_eq split: if_splits option.splits)
qed

lemma ValidateChainSets_props:
  assumes "ValidateChainSets ssl env content sets header = (r, c)" "distinct (map fst sets)"
  shows "cache_holds env c \<and> length (names_asked c) \<le> 11 \<and>
    (r = ChainPass \<longrightarrow> sets \<noteq> [] \<and> length sets \<le> 10 \<and> list_all (CvStep (cpage env)) sets \<and> list_all (sealed_set ssl env sets) sets \<and>
      (\<exists>sf. NewestSignatureField (cpage env) header (fst (last sets)) = Some sf \<and> message_signed ssl env content header sf))"
proof (cases "sets = [] \<or> length sets > 10 \<or> \<not> list_all (CvStep (cpage env)) sets")
  case True
  then have "ValidateChainSets ssl env content sets header = (ChainFail, no_lookups)" unfolding ValidateChainSets_def MaxArcSetsToValidate_def by argo
  with assms(1) show ?thesis by (auto simp: cache_holds_def)
next
  case False
  have empty: "cache_holds env no_lookups" by (simp add: cache_holds_def)
  obtain r1 c1 where 1: "VerifyNewestMessageSignature ssl env content sets header no_lookups = (r1, c1)" by fastforce
  note p1 = VerifyNewestMessageSignature_props [OF 1 empty]
  show ?thesis
  proof (cases "r1 = ChainPass")
    case True
    then have loop: "SealLoop ssl env sets (map fst sets) c1 = (r, c)" using assms(1) False 1 by (simp add: ValidateChainSets_def MaxArcSetsToValidate_def)
    note lp = SealLoop_props [OF loop p1 [THEN conjunct1]]
    have "sealed_set ssl env sets ks" if "r = ChainPass" "ks \<in> set sets" for ks
    proof -
      have "fst ks \<in> set (map fst sets)" using that(2) by simp
      with lp that(1) have "\<exists>s. map_of sets (fst ks) = Some s \<and> sealed_set ssl env sets (fst ks, s)" by metis
      moreover have "map_of sets (fst ks) = Some (snd ks)" using assms(2) that(2) by simp
      ultimately show ?thesis by auto
    qed
    then have "r = ChainPass \<longrightarrow> list_all (sealed_set ssl env sets) sets" by (simp add: list_all_iff)
    with lp p1 True False show ?thesis by auto
  qed (use assms(1) False 1 p1 in \<open>auto simp: ValidateChainSets_def MaxArcSetsToValidate_def split: ChainValidationStatus.splits\<close>)
qed

text \<open>
  C6: What a valid chain means: there are one to ten sets; the first seal says that there was no chain before it and each later one that the
  chain was valid; every seal is accepted by the key that its domain publishes, over all sets up to its own; and the newest message
  signature in the header is accepted by the key of its domain, over the fields it lists, From among them and no
  ARC field, and over the body, or the first part of it where the signature has an l tag. The newest message signature is the one among the MIME
  fields of the header.
\<close>

theorem valid_chain_is_signed:
  assumes "ValidateChain ssl env content header = (ChainPass, cache)"
  shows "\<exists>sets sf. ParseExistingSets (cpage env) header = Some sets \<and> 1 \<le> length sets \<and> length sets \<le> 10 \<and>
    (\<forall>(k, s) \<in> set sets. MakeLower (GetParam (DKIMParameters_Load (cpage env) (set_seal s)) ''cv'') = (if k = 1 then ''none'' else ''pass'')) \<and>
    list_all (sealed_set ssl env sets) sets \<and>
    NewestSignatureField (cpage env) header (int (length sets)) = Some sf \<and> message_signed ssl env content header sf"
proof -
  from assms obtain sets where sets: "ParseExistingSets (cpage env) header = Some sets" "ValidateChainSets ssl env content sets header = (ChainPass, cache)"
    by (auto simp: ValidateChain_def split: option.splits if_splits)
  have order: "map fst sets = [1..int (length sets)]" using ParseExistingSets_order [OF sets(1)] by blast
  have v: "sets \<noteq> []" "length sets \<le> 10" "list_all (CvStep (cpage env)) sets" "list_all (sealed_set ssl env sets) sets"
    "\<exists>sf. NewestSignatureField (cpage env) header (fst (last sets)) = Some sf \<and> message_signed ssl env content header sf"
    using ValidateChainSets_props [OF sets(2)] order by simp_all
  have "last (map fst sets) = int (length sets)" unfolding order using v(1) by (cases sets) (simp_all add: upto_rec2)
  then have "fst (last sets) = int (length sets)" using v(1) by (simp add: last_map)
  moreover have "\<forall>(k, s) \<in> set sets. MakeLower (GetParam (DKIMParameters_Load (cpage env) (set_seal s)) ''cv'') = (if k = 1 then ''none'' else ''pass'')"
    using v(3) by (auto simp: list_all_iff CvStep_def Let_def split: if_splits)
  moreover have "1 \<le> length sets" using v(1) by (cases sets) simp_all
  ultimately show ?thesis using sets(1) v by auto
qed

text \<open>
  C22: Validating a chain looks up at most eleven keys, each with one call of the resolver's \<^verbatim>\<open>GetTXTRecords\<close>, and never the same name twice, whatever the
  header holds and whatever the answers are; each answer that was used is the one that was given.
\<close>

theorem chain_query_bound:
  "length (names_asked (snd (ValidateChain ssl env content header))) \<le> 11 \<and> distinct (names_asked (snd (ValidateChain ssl env content header))) \<and>
   key_cache (snd (ValidateChain ssl env content header)) =
     map (\<lambda>(i, name). (name, key_answer env i name)) (enumerate 0 (names_asked (snd (ValidateChain ssl env content header))))"
proof -
  obtain r c where v: "ValidateChain ssl env content header = (r, c)" by fastforce
  have "cache_holds env c \<and> length (names_asked c) \<le> 11"
  proof (cases "ParseExistingSets (cpage env) header")
    case None
    with v show ?thesis by (simp add: ValidateChain_def cache_holds_def)
  next
    case (Some sets)
    have "distinct (map fst sets)" using ParseExistingSets_order [OF Some] by simp
    with ValidateChainSets_props [of ssl env content sets header r c] v Some show ?thesis
      by (auto simp: ValidateChain_def cache_holds_def split: if_splits)
  qed
  moreover from this have "key_cache c = map (\<lambda>(i, name). (name, key_answer env i name)) (enumerate 0 (names_asked c))"
    by (intro cache_list) (simp_all add: cache_holds_def)
  ultimately show ?thesis using v by (auto simp: cache_holds_def)
qed

section \<open>Examples\<close>

definition example_chain :: AnsiString where
  "example_chain =
     ''ARC-Seal: i=1; a=rsa-sha256; cv=none; d=b; s=s; b=QQ=='' @ crlf @
     ''ARC-Message-Signature: i=1; a=rsa-sha256; d=b; s=s; c=relaxed/relaxed; bh=QQ==; h=from; b=QQ=='' @ crlf @
     ''ARC-Authentication-Results: i=1; b; dkim=pass'' @ crlf @ ''From: a@b'' @ crlf"

definition example_sets :: ArcSets where
  "example_sets = [(1, \<lparr>set_authentication_results = ''i=1; b; dkim=pass'',
     set_message_signature = ''i=1; a=rsa-sha256; d=b; s=s; c=relaxed/relaxed; bh=QQ==; h=from; b=QQ=='', set_seal = ''i=1; a=rsa-sha256; cv=none; d=b; s=s; b=QQ==''\<rparr>)]"

lemma example_parsed: "ParseExistingSets (cpage example_env) example_chain = Some example_sets"
  by code_simp

theorem parsed_chain_is_in_order_witness: "map fst example_sets = [1..1] \<and> instance_of (cpage example_env) ''i=1; b; dkim=pass'' = 1"
  using parsed_chain_is_in_order [OF example_parsed] by (auto simp: example_sets_def part_of_def IsArcName_def)

lemma example_chain_valid: "fst (ValidateChain toy_ssl example_env (example_chain @ crlf @ ''Hi'') example_chain) = ChainPass"
  by code_simp

theorem valid_chain_is_signed_witness:
  "list_all (sealed_set toy_ssl example_env example_sets) example_sets \<and>
   (\<exists>sf. NewestSignatureField (cpage example_env) example_chain 1 = Some sf \<and> message_signed toy_ssl example_env (example_chain @ crlf @ ''Hi'') example_chain sf)"
proof -
  obtain c where "ValidateChain toy_ssl example_env (example_chain @ crlf @ ''Hi'') example_chain = (ChainPass, c)"
    using example_chain_valid by (metis prod.collapse)
  from valid_chain_is_signed [OF this] example_parsed show ?thesis by (auto simp: example_sets_def)
qed

text \<open>
  Two readers of one header: the sets are read from lines that end at a line feed, and the walk ends at the first empty one; the message signature is read from
  fields that end at a carriage return and a line feed. With a bare line feed the chain that is parsed, whose
  domains are reported, names one signer of the message, and the signature that is verified is that of another.
\<close>

definition two_readers :: AnsiString where
  "two_readers =
     ''X: y'' @ [CHR 0x0A] @ ''ARC-Seal: i=1; a=rsa-sha256; cv=none; d=b; s=s; b=QQ=='' @ [CHR 0x0A] @
     ''ARC-Message-Signature: i=1; a=rsa-sha256; d=b; s=s; bh=QQ==; h=from; b=QQ=='' @ [CHR 0x0A] @
     ''ARC-Authentication-Results: i=1; b; dkim=pass'' @ [CHR 0x0A] @ crlf @
     ''ARC-Message-Signature: i=1; a=rsa-sha256; d=evil; s=s; bh=QQ==; h=from; b=QQ=='' @ crlf @ ''From: a@b'' @ crlf"

lemma unreported_signer:
  "snd (ParseChain latin two_readers \<lparr>instance_count = 0, sealer_domains = [], oldest_authentication_results = []\<rparr>) =
     \<lparr>instance_count = 1, sealer_domains = [''b'', ''b''], oldest_authentication_results = ''i=1; b; dkim=pass''\<rparr> \<and>
   NewestSignatureField latin two_readers 1 = Some (''ARC-Message-Signature'', ''i=1; a=rsa-sha256; d=evil; s=s; bh=QQ==; h=from; b=QQ=='')"
proof
  show "snd (ParseChain latin two_readers \<lparr>instance_count = 0, sealer_domains = [], oldest_authentication_results = []\<rparr>) =
     \<lparr>instance_count = 1, sealer_domains = [''b'', ''b''], oldest_authentication_results = ''i=1; b; dkim=pass''\<rparr>" by code_simp
  show "NewestSignatureField latin two_readers 1 = Some (''ARC-Message-Signature'', ''i=1; a=rsa-sha256; d=evil; s=s; bh=QQ==; h=from; b=QQ=='')" by code_simp
qed

end
