(* ===== verification/Arc_Sealing.thy ===== *)
theory Arc_Sealing
  imports Arc
begin

text \<open>
  Sealing: \<^verbatim>\<open>Arc::Seal\<close> and what it calls in Common/AntiSpam/DKIM/Arc.cpp. The record \<open>ArcEnv\<close> holds the settings of the chain validation, those
  of the DKIM verification whose result goes into the new set, the reads of the body, the content of the key file, the clock and the
  name of the computer.

  The theorems: sealing a message without a chain, or with a valid one, leaves a message with a valid chain; sealing a message
  with a broken chain leaves one that never validates.
\<close>

section \<open>The new set\<close>

record ArcEnv =
  chain_env :: DkimEnv
  aar_env :: DkimEnv
  seal_reads :: FileReads
  seal_read_size :: int
  seal_key :: AnsiString
  seal_time :: "64 word"
  ComputerName :: AnsiString

fun HeaderFieldLoop :: "AnsiString \<Rightarrow> AnsiString list \<Rightarrow> bool \<Rightarrow> AnsiString \<Rightarrow> AnsiString" where
  "HeaderFieldLoop fieldName [] inField v = v"
| "HeaderFieldLoop fieldName (line # lines) inField v =
     (let line = TrimRight_chars line [CHR 0x0D]
      in if line = [] then v
         else if hd line = CHR '' '' \<or> hd line = CHR 0x09 then
           HeaderFieldLoop fieldName lines inField (if inField then v @ '' '' @ TrimLeft line else v)
         else if inField then v
         else case Find_str line '':'' of
                None \<Rightarrow> HeaderFieldLoop fieldName lines inField v
              | Some colonPosition \<Rightarrow>
                  if colonPosition = 0 then HeaderFieldLoop fieldName lines inField v
                  else if MakeLower (Trim (Mid_count line 0 colonPosition)) = fieldName
                    then HeaderFieldLoop fieldName lines True (Trim (Mid line (colonPosition + 1)))
                  else HeaderFieldLoop fieldName lines inField v)"

definition GetHeaderFieldValue :: "CodePage \<Rightarrow> AnsiString \<Rightarrow> AnsiString \<Rightarrow> AnsiString" where
  "GetHeaderFieldValue cp header fieldName = HeaderFieldLoop fieldName (SplitStringAnsi (through_wide cp) header CHR 0x0A) False []"

fun DkimWord :: "DkimResult \<Rightarrow> AnsiString" where
  "DkimWord DkimPass = ''pass''"
| "DkimWord DkimPermFail = ''fail''"
| "DkimWord DkimTempFail = ''temperror''"
| "DkimWord DkimNeutral = ''none''"

definition SpfWord :: "AnsiString \<Rightarrow> AnsiString" where
  "SpfWord receivedSpf =
     (let firstToken = MakeLower (Trim (case Find_str receivedSpf '' '' of Some p \<Rightarrow> if p > 0 then Mid_count receivedSpf 0 p else receivedSpf | None \<Rightarrow> receivedSpf))
      in if receivedSpf = [] then ''none''
         else if firstToken \<in> set [''pass'', ''fail'', ''softfail'', ''neutral'', ''none'', ''temperror'', ''permerror''] then firstToken
         else ''none'')"

definition BuildAuthenticationResults :: "'key OpenSSL \<Rightarrow> ArcEnv \<Rightarrow> int \<Rightarrow> AnsiString \<Rightarrow> AnsiString \<Rightarrow> AnsiString" where
  "BuildAuthenticationResults ssl env inst content header =
     ''i='' @ print_signed inst @ ''; '' @ c_str (MakeLower (ComputerName env)) @ ''; dkim='' @ DkimWord (fst (DKIM_Verify ssl (aar_env env) content)) @
     ''; spf='' @ SpfWord (GetHeaderFieldValue (cpage (chain_env env)) header ''received-spf'')"

definition AmsValue :: "int \<Rightarrow> AnsiString \<Rightarrow> AnsiString \<Rightarrow> AnsiString \<Rightarrow> AnsiString \<Rightarrow> AnsiString \<Rightarrow> AnsiString \<Rightarrow> AnsiString" where
  "AmsValue inst algorithmTag domain selector timestamp bodyHash fieldList =
     ''i='' @ print_signed inst @ ''; a='' @ c_str algorithmTag @ ''; d='' @ c_str domain @ ''; s='' @ c_str selector @ ''; c=relaxed/relaxed; t='' @ c_str timestamp @
     ''; bh='' @ c_str bodyHash @ ''; h='' @ c_str fieldList @ ''; b=''"

definition SealValue :: "int \<Rightarrow> AnsiString \<Rightarrow> AnsiString \<Rightarrow> AnsiString \<Rightarrow> AnsiString \<Rightarrow> AnsiString \<Rightarrow> AnsiString" where
  "SealValue inst algorithmTag timestamp chainValidation domain selector =
     ''i='' @ print_signed inst @ ''; a='' @ c_str algorithmTag @ ''; t='' @ c_str timestamp @ ''; cv='' @ c_str chainValidation @ ''; d='' @ c_str domain @
     ''; s='' @ c_str selector @ ''; b=''"

text \<open>The three values of the new set, \<open>None\<close> when a signature could not be made: the results, the message signature, the seal.\<close>

definition NewSet ::
  "'key OpenSSL \<Rightarrow> 'priv SigningKeys \<Rightarrow> ArcEnv \<Rightarrow> AnsiString \<Rightarrow> AnsiString \<Rightarrow> ArcSets \<Rightarrow> int \<Rightarrow> AnsiString \<Rightarrow> AnsiString \<Rightarrow> AnsiString \<Rightarrow> ArcSet option" where
  "NewSet ssl keys env content header existingSets inst chainValidation domain selector =
     (let cp = cpage (chain_env env);
          algorithmTag = (if IsEd25519PrivateKey keys (seal_key env) then ''ed25519-sha256'' else ''rsa-sha256'');
          timestamp = print_signed (sint (seal_time env));
          aarValue = BuildAuthenticationResults ssl env inst content header;
          canonicalizedBody = CanonicalizeBody cp Relaxed (LoadBody (seal_reads env) (seal_read_size env) content);
          bodyHash = GenerateHashNoSalt ssl SHA256 canonicalizedBody;
          (canonicalizedHeaders, fieldList) = CanonicalizeHeader cp Relaxed header ([], []) GetAmsHeaderFields [];
          amsValue = AmsValue inst algorithmTag domain selector timestamp bodyHash fieldList;
          amsSignature = SignHash keys (seal_key env) (canonicalizedHeaders @ RelaxedHeaderLine ''arc-message-signature'' amsValue) SHA256
      in if amsSignature = [] then None
         else
           let amsValue = amsValue @ amsSignature;
               asValue = SealValue inst algorithmTag timestamp chainValidation domain selector;
               sealScope = concat (map (\<lambda>(k, s). SealLine False s) existingSets) @
                 RelaxedHeaderLine ''arc-authentication-results'' aarValue @ crlf @ RelaxedHeaderLine ''arc-message-signature'' amsValue @ crlf @
                 RelaxedHeaderLine ''arc-seal'' asValue;
               asSignature = SignHash keys (seal_key env) sealScope SHA256
           in if asSignature = [] then None
              else Some \<lparr>set_authentication_results = aarValue, set_message_signature = amsValue, set_seal = asValue @ asSignature\<rparr>)"

definition ChainValidation :: "'key OpenSSL \<Rightarrow> ArcEnv \<Rightarrow> AnsiString \<Rightarrow> AnsiString \<Rightarrow> ArcSets \<Rightarrow> AnsiString" where
  "ChainValidation ssl env content header existingSets =
     (if existingSets = [] then ''none''
      else if fst (ValidateChainSets ssl (chain_env env) content existingSets header) = ChainPass then ''pass'' else ''fail'')"

definition Arc_Seal ::
  "'key OpenSSL \<Rightarrow> 'priv SigningKeys \<Rightarrow> ArcEnv \<Rightarrow> TraceEnv \<Rightarrow> AnsiString \<Rightarrow> AnsiString \<Rightarrow> AnsiString \<Rightarrow> Disk \<Rightarrow> TraceOutcome" where
  "Arc_Seal ssl keys env te domain selector privateKeyFile d =
     (let header = loaded_header (chain_env env) (message_file d)
      in if domain = [] \<or> selector = [] \<or> privateKeyFile = [] then TraceReturned False d
         else if header = [] then TraceReturned False d
         else case ParseExistingSets (cpage (chain_env env)) header of
                None \<Rightarrow> TraceReturned False d
              | Some existingSets \<Rightarrow>
                  let inst = (if existingSets = [] then 1 else fst (last existingSets) + 1)
                  in if inst > MaxArcInstance then TraceReturned False d
                     else if seal_key env = [] then TraceReturned False d
                     else case NewSet ssl keys env (message_file d) header existingSets inst
                                 (ChainValidation ssl env (message_file d) header existingSets) domain selector of
                            None \<Rightarrow> TraceReturned False d
                          | Some s \<Rightarrow>
                              TraceHeaderWriter_Write te
                                [(''ARC-Seal'', set_seal s), (''ARC-Message-Signature'', set_message_signature s),
                                 (''ARC-Authentication-Results'', set_authentication_results s)] d)"

section \<open>Facts: the chain of the new header\<close>

abbreviation new_header :: "ArcSet \<Rightarrow> AnsiString \<Rightarrow> AnsiString" where
  "new_header s h \<equiv>
     ''ARC-Seal'' @ '': '' @ set_seal s @ crlf @ ''ARC-Message-Signature'' @ '': '' @ set_message_signature s @ crlf @
     ''ARC-Authentication-Results'' @ '': '' @ set_authentication_results s @ crlf @ h"

text \<open>A line ends the header, continues the field before it, or starts the next one.\<close>

datatype line_kind = EndLine | ContinuationLine AnsiString | StartLine "AnsiString \<times> AnsiString"

definition kind_of :: "AnsiString \<Rightarrow> line_kind" where
  "kind_of l =
     (let line = TrimRight_chars l [CHR 0x0D]
      in if line = [] then EndLine
         else if is_WSP (hd line) then ContinuationLine ('' '' @ TrimLeft line)
         else StartLine (case Find_str line '':'' of
           None \<Rightarrow> ([], [])
         | Some p \<Rightarrow>
             let name = MakeLower (Trim (take p line))
             in if p \<noteq> 0 \<and> IsArcName name then (name, Trim (drop (p + 1) line)) else ([], [])))"

lemma ArcLineLoop_kind:
  "ArcLineLoop (l # lines) current fs =
     (case kind_of l of
        EndLine \<Rightarrow> flushField current fs
      | ContinuationLine x \<Rightarrow> ArcLineLoop lines (if fst current \<noteq> [] then (fst current, snd current @ x) else current) fs
      | StartLine c \<Rightarrow> ArcLineLoop lines c (flushField current fs))"
proof -
  let ?line = "TrimRight_chars l [CHR 0x0D]"
  consider "?line = []" | "?line \<noteq> []" "is_WSP (hd ?line)" | "?line \<noteq> []" "\<not> is_WSP (hd ?line)" by blast
  then show ?thesis
  proof cases
    case 3
    then have "hd ?line \<noteq> CHR '' ''" "hd ?line \<noteq> CHR 0x09" by (auto simp: is_WSP_def)
    with 3 show ?thesis by (cases "Find_str ?line '':''") (simp_all add: kind_of_def Let_def)
  qed (simp_all add: kind_of_def Let_def is_WSP_def)
qed

lemma ArcLineLoop_acc: "ArcLineLoop lines current fs = fs @ ArcLineLoop lines current []"
proof (induction lines arbitrary: current fs)
  case (Cons line lines)
  have flush: "ArcLineLoop lines c (flushField current fs) = fs @ ArcLineLoop lines c (flushField current [])" for c
    unfolding Cons [of c "flushField current fs"] Cons [of c "flushField current []"] by (simp add: flushField_def)
  show ?case
  proof (cases "kind_of line")
    case (ContinuationLine x)
    show ?thesis unfolding ArcLineLoop_kind ContinuationLine line_kind.case by (rule Cons)
  next
    case (StartLine c)
    show ?thesis unfolding ArcLineLoop_kind StartLine line_kind.case by (rule flush)
  qed (simp only: ArcLineLoop_kind line_kind.case, simp add: flushField_def)
qed (simp add: flushField_def)

lemma ArcLineLoop_flush:
  assumes "\<And>x. lines \<noteq> [] \<Longrightarrow> kind_of (hd lines) \<noteq> ContinuationLine x"
  shows "ArcLineLoop lines current fs = flushField current fs @ ArcLineLoop lines ([], []) []"
proof (cases lines)
  case (Cons line rest)
  with assms have no: "kind_of line \<noteq> ContinuationLine x" for x by simp
  show ?thesis
  proof (cases "kind_of line")
    case (StartLine c)
    show ?thesis unfolding Cons ArcLineLoop_kind StartLine line_kind.case
      using ArcLineLoop_acc [of rest c "flushField current fs"] by (simp add: flushField_def)
  qed (use no Cons in \<open>simp_all only: ArcLineLoop_kind line_kind.case, simp_all add: flushField_def\<close>)
qed (simp add: flushField_def)

lemma TrimRight_chars_hd: "TrimRight_chars l cs = [] \<or> hd (TrimRight_chars l cs) = hd l"
proof -
  obtain z where "l = TrimRight_chars l cs @ z" unfolding TrimRight_chars_def by (metis rev_rev_ident rev_append takeWhile_dropWhile_id)
  then show ?thesis by (metis hd_append2)
qed

lemma kind_of_start: "l = [] \<or> \<not> is_WSP (hd l) \<Longrightarrow> kind_of l \<noteq> ContinuationLine x"
  using TrimRight_chars_hd [of l "[CHR 0x0D]"] by (auto simp: kind_of_def Let_def TrimRight_chars_def)

lemma TrimRight_chars_snoc: "TrimRight_chars (x @ [c]) [c] = TrimRight_chars x [c]" "x \<noteq> [] \<Longrightarrow> last x \<noteq> c \<Longrightarrow> TrimRight_chars x [c] = x"
  by (cases x rule: rev_cases; simp add: TrimRight_chars_def)+

lemma kind_of_field:
  assumes "IsValidHeaderFieldName nm" "MakeLower nm = ln" "IsArcName ln" "tag_line v"
  shows "kind_of (nm @ '': '' @ v @ [CHR 0x0D]) = StartLine (ln, v)"
proof -
  have v: "v \<noteq> []" "\<not> IsSpace (hd v)" "\<not> IsSpace (last v)" using assms(4) by (auto simp: tag_line_def)
  then have "last v \<noteq> CHR 0x0D" by auto
  with v(1) have trim: "TrimRight_chars (nm @ '': '' @ v @ [CHR 0x0D]) [CHR 0x0D] = nm @ '': '' @ v"
    using TrimRight_chars_snoc(1) [of "nm @ '': '' @ v"] TrimRight_chars_snoc(2) [of "nm @ '': '' @ v"] by simp
  note n = valid_name_chars [OF assms(1)]
  have f: "Find_str (nm @ '': '' @ v) '':'' = Some (length nm)" unfolding Find_str_single using Find_here [OF n(3), of "'' '' @ v"] by simp
  have "Trim ('' '' @ v) = v" using v Trim_id [of v] by (simp add: Trim_def TrimLeft_def isspace_IsSpace)
  moreover have "\<not> IsSpace (hd nm)" using n(5) [of "hd nm"] n(4) by (simp add: isspace_IsSpace)
  then have "\<not> is_WSP (hd (nm @ '': '' @ v))" using n(4) WSP_IsSpace by auto
  ultimately show ?thesis using assms(2,3) n(4) Trim_valid_name [OF assms(1)] unfolding kind_of_def trim f Let_def by simp
qed

lemma SplitString_line: "c \<notin> set a \<Longrightarrow> SplitString (a @ c # rest) c = a # SplitString rest c"
  by (induction a) (auto simp: SplitString_Cons)

definition set_lines :: "ArcSet \<Rightarrow> bool" where
  "set_lines s \<longleftrightarrow> tag_line (set_seal s) \<and> tag_line (set_message_signature s) \<and> tag_line (set_authentication_results s)"

lemma new_header_fields:
  assumes "transparent cp UNIV" "set_lines s" "h = [] \<or> \<not> is_WSP (hd h)"
  shows "arc_fields cp (new_header s h) =
    [(''arc-seal'', set_seal s), (''arc-message-signature'', set_message_signature s), (''arc-authentication-results'', set_authentication_results s)] @ arc_fields cp h"
proof -
  have split: "SplitStringAnsi (through_wide cp) x c = SplitString x c" for x c
    by (rule SplitStringAnsi_transparent [OF transparent_mono [OF assms(1)]]) simp
  have line: "SplitString (nm @ '': '' @ v @ crlf @ rest) CHR 0x0A = (nm @ '': '' @ v @ [CHR 0x0D]) # SplitString rest CHR 0x0A"
    if "IsValidHeaderFieldName nm" "tag_line v" for nm v rest
  proof -
    have "CHR 0x0A \<notin> set (nm @ '': '' @ v @ [CHR 0x0D])" using that(2) valid_name_char [OF that(1), of "CHR 0x0A"] by (auto simp: tag_line_def)
    from SplitString_line [OF this, of rest] show ?thesis by (simp add: crlf_def)
  qed
  have names: "IsValidHeaderFieldName ''ARC-Seal''" "IsValidHeaderFieldName ''ARC-Message-Signature''" "IsValidHeaderFieldName ''ARC-Authentication-Results''"
    "MakeLower ''ARC-Seal'' = ''arc-seal''" "MakeLower ''ARC-Message-Signature'' = ''arc-message-signature''"
    "MakeLower ''ARC-Authentication-Results'' = ''arc-authentication-results''" by code_simp+
  have arc: "IsArcName ''arc-seal''" "IsArcName ''arc-message-signature''" "IsArcName ''arc-authentication-results''" by (simp_all add: IsArcName_def)
  have lines: "tag_line (set_seal s)" "tag_line (set_message_signature s)" "tag_line (set_authentication_results s)" using assms(2) by (simp_all add: set_lines_def)
  let ?L = "SplitString h CHR 0x0A"
  have "?L = [] \<or> hd ?L = [] \<or> hd (hd ?L) = hd h"
    by (cases h) (auto simp: SplitString_Cons split: list.splits)
  moreover have "?L \<noteq> [] \<Longrightarrow> h \<noteq> []" by (cases h) auto
  ultimately have start: "kind_of (hd ?L) \<noteq> ContinuationLine x" if "?L \<noteq> []" for x using that assms(3) by (intro kind_of_start) auto
  show ?thesis unfolding split line [OF names(1) lines(1)] line [OF names(2) lines(2)] line [OF names(3) lines(3)] ArcLineLoop_kind
      kind_of_field [OF names(1,4) arc(1) lines(1)] kind_of_field [OF names(2,5) arc(2) lines(2)] kind_of_field [OF names(3,6) arc(3) lines(3)] line_kind.case
    by (subst ArcLineLoop_flush [OF start]) (simp_all add: flushField_def)
qed

lemma change_set_above: "k < m \<Longrightarrow> change_set k f (sets @ [(m, x)]) = change_set k f sets @ [(m, x)]"
  by (induction sets) auto

lemma set_of_above: "k < m \<Longrightarrow> set_of (sets @ [(m, x)]) k = set_of sets k"
  by (auto simp: set_of_def map_add_def split: option.splits)

lemma AddArcFields_above:
  "list_all (\<lambda>f. instance_of cp (snd f) < m) fs \<Longrightarrow> AddArcFields cp fs (sets @ [(m, x)]) = map_option (\<lambda>s. s @ [(m, x)]) (AddArcFields cp fs sets)"
proof (induction fs arbitrary: sets)
  case (Cons f fs)
  obtain n v where f: "f = (n, v)" by fastforce
  with Cons show ?case by (simp add: AddArcField_eq change_set_above set_of_above)
qed simp

lemma SetsComplete_snoc: "SetsComplete k sets \<Longrightarrow> set_seal s \<noteq> [] \<Longrightarrow> set_message_signature s \<noteq> [] \<Longrightarrow> set_authentication_results s \<noteq> [] \<Longrightarrow>
   SetsComplete k (sets @ [(k + int (length sets), s)])"
  by (induction k sets rule: SetsComplete.induct) (auto simp: ac_simps split: if_splits)

text \<open>The fields of a set carry its number.\<close>

definition numbered :: "CodePage \<Rightarrow> int \<Rightarrow> AnsiString \<Rightarrow> bool" where
  "numbered cp k v \<longleftrightarrow> IsNumeric (GetParam (DKIMParameters_Load cp v) ''i'') \<and> instance_of cp v = k"

lemma new_header_sets:
  assumes "transparent cp UNIV" "set_lines s" "h = [] \<or> \<not> is_WSP (hd h)" "ParseExistingSets cp h = Some sets" "length sets < 50"
    "numbered cp (int (length sets) + 1) (set_seal s)" "numbered cp (int (length sets) + 1) (set_message_signature s)"
    "numbered cp (int (length sets) + 1) (set_authentication_results s)"
  shows "ParseExistingSets cp (new_header s h) = Some (sets @ [(int (length sets) + 1, s)])"
proof -
  let ?m = "int (length sets) + 1"
  have order: "map fst sets = [1..int (length sets)]" "\<And>n v. (n, v) \<in> set (arc_fields cp h) \<Longrightarrow> \<exists>s. (instance_of cp v, s) \<in> set sets"
    using ParseExistingSets_order [OF assms(4)] by blast+
  have "instance_of cp v < ?m" if "(n, v) \<in> set (arc_fields cp h)" for n v
  proof -
    from order(2) [OF that] have "instance_of cp v \<in> set (map fst sets)" by force
    then show ?thesis unfolding order(1) by simp
  qed
  then have below: "list_all (\<lambda>f. instance_of cp (snd f) < ?m) (arc_fields cp h)" by (auto simp: list_all_iff)
  have add: "AddArcFields cp (arc_fields cp h) [] = Some sets" "SetsComplete 1 sets"
    using assms(4) by (auto simp: ParseExistingSets_def split: option.splits if_splits)
  have eta: "\<lparr>set_authentication_results = set_authentication_results s, set_message_signature = set_message_signature s, set_seal = set_seal s\<rparr> = s" by simp
  have "AddArcFields cp (arc_fields cp (new_header s h)) [] = AddArcFields cp (arc_fields cp h) ([] @ [(?m, s)])"
    unfolding new_header_fields [OF assms(1-3)] using assms(5-8)
    by (simp add: AddArcField_eq numbered_def set_of_def ArcSet_init_def part_of_def with_part_def MaxArcInstance_def eta)
  also have "\<dots> = Some (sets @ [(?m, s)])" unfolding AddArcFields_above [OF below] add(1) by simp
  finally have "AddArcFields cp (arc_fields cp (new_header s h)) [] = Some (sets @ [(?m, s)])" .
  moreover have "SetsComplete 1 (sets @ [(?m, s)])" using SetsComplete_snoc [OF add(2), of s] assms(2) by (simp add: set_lines_def tag_line_def add.commute)
  ultimately show ?thesis by (simp add: ParseExistingSets_def)
qed

section \<open>Facts: the tags of a set\<close>

lemma plain_c_str: "plain_text t \<Longrightarrow> c_str t = t"
  using plain_text_no_breaks [of t] by (auto simp: c_str_def takeWhile_eq_all_conv)

lemma DKIMParameters_Load_transparent: "transparent cp UNIV \<Longrightarrow> DKIMParameters_Load cp v = fold LoadParameter (SplitString v CHR '';'') []"
  unfolding DKIMParameters_Load_def using SplitStringAnsi_transparent [OF transparent_mono] by simp

lemma unfolded_line: "list_all plain_tag tags \<Longrightarrow> plain_text z \<Longrightarrow> tag_line (unfolded tags z)"
proof -
  assume a: "list_all plain_tag tags" "plain_text z"
  have "plain_text ''b=''" by code_simp
  then have "plain_text (''b='' @ z)" using a(2) unfolding plain_text_append by blast
  then have "tag_line (''b='' @ z)" by (rule plain_line) simp
  then have "list_all tag_line (map word tags @ [''b='' @ z])" using words_lines [OF a(1)] by simp
  from joined_line [OF _ this] show ?thesis unfolding unfolded_def using join_words [of tags "''b='' @ z"] by simp
qed

lemma QP_digits: "CHR ''='' \<notin> set v \<Longrightarrow> QPDecodeLoop v out = out @ v"
  by (induction v arbitrary: out) auto

lemma LoadParameter_instance:
  assumes "list_all isdigit_classic v"
  shows "LoadParameter (''i='' @ v) [] = [(''i'', v)]"
proof -
  have c: "\<not> IsSpace c \<and> c \<noteq> CHR ''='' \<and> c \<noteq> CHR '' '' \<and> c \<noteq> CHR 0x0D \<and> c \<noteq> CHR 0x09" if "c \<in> set v" for c
  proof -
    have "48 \<le> ord c" "ord c \<le> 57" using assms that by (auto simp: list_all_iff isdigit_classic_def less_eq_char_def)
    then show ?thesis using IsSpace_ord [of c] by auto
  qed
  then have "Trim v = v" using Trim_id [of v] by (cases "v = []") (auto simp: Trim_def TrimLeft_def TrimRight_def)
  moreover have "DKIMQPDecode v = v"
  proof -
    have "CHR '' '' \<notin> set v" "CHR 0x0D \<notin> set v" "CHR 0x09 \<notin> set v" "CHR ''='' \<notin> set v" using c by blast+
    then show ?thesis by (simp add: DKIMQPDecode_def crlf_def Replace_absent MimeCodeQP_Decode_def QP_digits)
  qed
  moreover have "Trim ''i'' = ''i''" by code_simp
  ultimately show ?thesis by (simp add: LoadParameter_def Let_def)
qed

lemma number_digits: "0 \<le> n \<Longrightarrow> list_all isdigit_classic (print_signed n)" "0 \<le> n \<Longrightarrow> digits_value (print_signed n) = n"
  using print_unsigned_digits by (auto simp: print_signed_def list_all_iff digits_value_print_unsigned)

lemma numeric_digits: "list_all isdigit_classic v \<Longrightarrow> IsNumeric v"
proof -
  assume v: "list_all isdigit_classic v"
  have "c \<in> set ''1234567890''" if "isdigit_classic c" for c
  proof -
    have "ord c \<in> {48..57}" using that by (auto simp: isdigit_classic_def less_eq_char_def)
    then have "ord c \<in> set (map ord ''1234567890'')" by auto presburger
    then obtain d where "d \<in> set ''1234567890''" "ord c = ord d" unfolding set_map by blast
    then show ?thesis by (metis of_char_eq_iff)
  qed
  with v show ?thesis unfolding IsNumeric_def list_all_iff Find_None_iff by blast
qed

lemma ttoi_digits: "list_all isdigit_classic v \<Longrightarrow> v \<noteq> [] \<Longrightarrow> digits_value v < 2 ^ 31 \<Longrightarrow> ttoi v = digits_value v"
proof -
  assume v: "list_all isdigit_classic v" "v \<noteq> []" "digits_value v < 2 ^ 31"
  obtain c cs where cs: "v = c # cs" using v(2) by (cases v) auto
  have c: "48 \<le> ord c" "ord c \<le> 57" using v(1) cs by (auto simp: isdigit_classic_def less_eq_char_def)
  then have "\<not> isspace_classic c" "c \<noteq> CHR ''-''" "c \<noteq> CHR ''+''" using IsSpace_ord [of c] by (auto simp: isspace_IsSpace)
  moreover have "takeWhile isdigit_classic v = v" using v(1) by (simp add: list_all_iff)
  ultimately show ?thesis using v(3) digits_value_bounds [OF v(1)] by (simp add: ttoi_def cs TrimLeft_def Let_def)
qed

lemma number_facts:
  assumes "0 \<le> n" "n < 2 ^ 31"
  shows "plain_text (print_signed n)" "IsNumeric (print_signed n)" "ttoi (print_signed n) = n"
proof -
  note d = number_digits [OF assms(1)]
  show "plain_text (print_signed n)" by (rule print_signed_plain)
  show "IsNumeric (print_signed n)" using numeric_digits [OF d(1)] .
  show "ttoi (print_signed n) = n"
  proof (cases "print_signed n = []")
    case True
    then have "n = 0" using d(2) by (simp add: digits_value_def)
    moreover have "ttoi [] = 0" by code_simp
    ultimately show ?thesis using True by simp
  qed (use ttoi_digits [OF d(1)] d(2) assms(2) in simp)
qed

text \<open>The tags of a value that starts with the number of its set and ends with a signature.\<close>

lemma numbered_tags:
  assumes "transparent cp UNIV" "0 \<le> n" "list_all (\<lambda>t. plain_tag t \<and> fst t \<noteq> ''i'') tags" "plain_text z" "z \<noteq> []"
  shows "DKIMParameters_Load cp (unfolded ((''i'', print_signed n) # tags) z) =
    AList.update ''b'' z (fold (\<lambda>t. AList.update (fst t) (snd t)) tags [(''i'', print_signed n)])"
proof -
  let ?v = "unfolded ((''i'', print_signed n) # tags) z"
  have semi: "CHR '';'' \<notin> set (''b='' @ z)" using plain_text_no_breaks [OF assms(4)] by simp
  then have "last z \<noteq> CHR '';''" using last_in_set [OF assms(5)] by (metis Un_iff set_append)
  then have "last ?v \<noteq> CHR '';''" using assms(5) by (simp add: unfolded_def)
  then have "last (Split ?v CHR '';'') \<noteq> []" by (intro last_Split_other) (simp_all add: unfolded_def)
  then have "DKIMParameters_Load cp ?v = fold LoadParameter (Split ?v CHR '';'') []"
    unfolding DKIMParameters_Load_transparent [OF assms(1)] SplitString_eq by (simp add: Let_def)
  also have "Split ?v CHR '';'' = (''i='' @ print_signed n) # Split ('' '' @ concat (map (\<lambda>t. word t @ '' '') tags) @ ''b='' @ z) CHR '';''"
    using Split_append_sep [of "CHR '';''" "''i='' @ print_signed n" "'' '' @ concat (map (\<lambda>t. word t @ '' '') tags) @ ''b='' @ z"]
      plain_text_no_breaks [OF print_signed_plain [of n]] by (simp add: unfolded_def)
  also have "fold LoadParameter \<dots> [] = LoadParameter ('' '' @ ''b='' @ z) (fold (\<lambda>t. AList.update (fst t) (snd t)) tags [(''i'', print_signed n)])"
  proof -
    have "list_all IsSpace '' ''" by simp
    from fold_LoadParameter [OF assms(3) semi this, of "[(''i'', print_signed n)]"] show ?thesis
      using LoadParameter_instance [OF number_digits(1) [OF assms(2)]] by simp
  qed
  also have "LoadParameter ('' '' @ ''b='' @ z) ps = AList.update ''b'' z ps" for ps
    using LoadParameter_tag [of "'' ''" "''b''" z ps] plain_ends [OF assms(4)] plain_unspaced [OF assms(4)]
    by (simp add: plain_text_def Replace_single)
  finally show ?thesis .
qed

definition ams_tags :: "AnsiString \<Rightarrow> AnsiString \<Rightarrow> AnsiString \<Rightarrow> AnsiString \<Rightarrow> AnsiString \<Rightarrow> AnsiString \<Rightarrow> (AnsiString \<times> AnsiString) list" where
  "ams_tags A D S T BH H = [(''a'', A), (''d'', D), (''s'', S), (''c'', ''relaxed/relaxed''), (''t'', T), (''bh'', BH), (''h'', H)]"

definition seal_tags :: "AnsiString \<Rightarrow> AnsiString \<Rightarrow> AnsiString \<Rightarrow> AnsiString \<Rightarrow> AnsiString \<Rightarrow> (AnsiString \<times> AnsiString) list" where
  "seal_tags A T CV D S = [(''a'', A), (''t'', T), (''cv'', CV), (''d'', D), (''s'', S)]"

lemma AmsValue_tags:
  assumes "plain_text A" "plain_text D" "plain_text S" "plain_text T" "plain_text BH" "plain_text H"
  shows "AmsValue n A D S T BH H @ z = unfolded ((''i'', print_signed n) # ams_tags A D S T BH H) z"
  using assms by (simp add: AmsValue_def unfolded_def ams_tags_def plain_c_str)

lemma SealValue_tags:
  assumes "plain_text A" "plain_text T" "plain_text CV" "plain_text D" "plain_text S"
  shows "SealValue n A T CV D S @ z = unfolded ((''i'', print_signed n) # seal_tags A T CV D S) z"
  using assms by (simp add: SealValue_def unfolded_def seal_tags_def plain_c_str)

lemma tag_names: "plain_text ''i''" "plain_text ''cv''" "plain_text ''relaxed/relaxed''"
  by code_simp+

lemma ams_tags_plain:
  "plain_text A \<Longrightarrow> plain_text D \<Longrightarrow> plain_text S \<Longrightarrow> plain_text T \<Longrightarrow> plain_text BH \<Longrightarrow> plain_text H \<Longrightarrow>
   list_all (\<lambda>t. plain_tag t \<and> fst t \<noteq> ''i'') (ams_tags A D S T BH H)"
  by (simp add: ams_tags_def plain_names tag_names)

lemma seal_tags_plain:
  "plain_text A \<Longrightarrow> plain_text T \<Longrightarrow> plain_text CV \<Longrightarrow> plain_text D \<Longrightarrow> plain_text S \<Longrightarrow>
   list_all (\<lambda>t. plain_tag t \<and> fst t \<noteq> ''i'' \<and> fst t \<noteq> ''b'') (seal_tags A T CV D S)"
  by (simp add: seal_tags_def plain_names tag_names)

text \<open>Both ways of removing the value of the signature tag.\<close>

lemma unfolded_spaced:
  "unfolded (t # ts) bs = concat (map (\<lambda>t. spaced t @ '';'') (([], t) # map (Pair '' '') ts)) @ '' '' @ ''b='' @ bs"
  by (simp add: unfolded_def comp_def) (induction ts; simp)

lemma without_b_unfolded:
  assumes "list_all (\<lambda>t. plain_tag t \<and> fst t \<noteq> ''b'') (t # ts)" "CHR '';'' \<notin> set z"
  shows "GetDKIMWithoutSignature (unfolded (t # ts) z) = unfolded (t # ts) []"
  unfolding unfolded_spaced by (subst strip_b_value) (use assms in \<open>auto simp: list_all_iff\<close>)

lemma StripSeal_tag:
  assumes "list_all IsSpace sp" "plain_text n" "CHR ''='' \<notin> set n" "CHR '';'' \<notin> set v" "CompareNoCase n ''b'' \<noteq> 0"
  shows "StripSealSignatureValue (sp @ n @ ''='' @ v @ '';'' @ rest) = sp @ n @ ''='' @ v @ '';'' @ StripSealSignatureValue rest"
proof -
  let ?t = "sp @ n @ ''='' @ v @ '';'' @ rest"
  have eq: "CHR ''='' \<notin> set (sp @ n)" using assms(1,3) IsSpace_chars(6) by (auto simp: list_all_iff)
  have f: "Find_str ?t ''='' = Some (length (sp @ n))" unfolding Find_str_single using Find_here [OF eq, of "v @ '';'' @ rest"] by simp
  have "Find_str (''='' @ v @ '';'' @ rest) '';'' = Some (length v + 1)"
    unfolding Find_str_single using Find_here [of "CHR '';''" "''='' @ v" rest] assms(4) by simp
  then have semi: "Find_from ?t '';'' (length (sp @ n)) = Some (length (sp @ n) + length v + 1)" by (simp add: Find_from_def)
  have name: "Trim (sp @ n) = n" using Trim_spaced [OF assms(1,2)] .
  show ?thesis
    by (subst StripSealSignatureValue.simps) (simp add: f [simplified] semi [simplified] Let_def name assms(5) del: Find_str.simps)
qed

lemma StripSeal_end:
  assumes "list_all IsSpace sp" "CHR '';'' \<notin> set z"
  shows "StripSealSignatureValue (sp @ ''b='' @ z) = sp @ ''b=''"
proof -
  let ?t = "sp @ ''b='' @ z"
  have eq: "CHR ''='' \<notin> set (sp @ ''b'')" using assms(1) IsSpace_chars(6) by (auto simp: list_all_iff)
  have f: "Find_str ?t ''='' = Some (length sp + 1)" unfolding Find_str_single using Find_here [OF eq, of z] by simp
  have "Find_str (''='' @ z) '';'' = None" unfolding Find_str_single using assms(2) by simp
  then have semi: "Find_from ?t '';'' (length sp + 1) = None" by (simp add: Find_from_def)
  have name: "Trim (sp @ ''b'') = ''b''" using Trim_spaced [OF assms(1), of "''b''"] by (simp add: plain_text_def)
  have b: "CompareNoCase ''b'' ''b'' = 0" by code_simp
  show ?thesis
    by (subst StripSealSignatureValue.simps) (simp add: f [simplified] semi [simplified] Let_def name b StripSealSignatureValue.simps [of "[]"] del: Find_str.simps)
qed

lemma StripSeal_unfolded:
  assumes "list_all (\<lambda>t. plain_tag t \<and> CompareNoCase (fst t) ''b'' \<noteq> 0) (t # ts)" "CHR '';'' \<notin> set z"
  shows "StripSealSignatureValue (unfolded (t # ts) z) = unfolded (t # ts) []"
proof -
  have step: "StripSealSignatureValue (concat (map (\<lambda>t. spaced t @ '';'') us) @ '' '' @ ''b='' @ z) = concat (map (\<lambda>t. spaced t @ '';'') us) @ '' b=''"
    if "list_all (\<lambda>u. list_all IsSpace (fst u) \<and> plain_tag (snd u) \<and> CompareNoCase (fst (snd u)) ''b'' \<noteq> 0) us" for us
    using that
  proof (induction us)
    case Nil
    show ?case using StripSeal_end [of "'' ''" z] assms(2) by simp
  next
    case (Cons u us)
    have semi: "CHR '';'' \<notin> set (snd (snd u))" using Cons.prems plain_text_no_breaks by auto
    show ?case using Cons StripSeal_tag [OF _ _ _ semi, of "fst u" "fst (snd u)" "concat (map (\<lambda>t. spaced t @ '';'') us) @ '' b='' @ z"] by simp
  qed
  show ?thesis unfolding unfolded_spaced using step [of "([], t) # map (Pair '' '') ts"] assms(1) by (simp add: list_all_iff)
qed

text \<open>The results of the new set.\<close>

lemma SpfWord_plain: "plain_text (SpfWord v)" "SpfWord v \<noteq> []" "CHR ''='' \<notin> set (SpfWord v)"
proof -
  have "list_all (\<lambda>w. plain_text w \<and> w \<noteq> [] \<and> CHR ''='' \<notin> set w) [''pass'', ''fail'', ''softfail'', ''neutral'', ''none'', ''temperror'', ''permerror'']"
    by code_simp
  moreover have "SpfWord v \<in> set [''pass'', ''fail'', ''softfail'', ''neutral'', ''none'', ''temperror'', ''permerror'']"
  proof -
    have one: "(if c then w else if x \<in> set ws then x else w) \<in> set ws" if "w \<in> set ws" for c and w x :: AnsiString and ws using that by simp
    show ?thesis unfolding SpfWord_def Let_def by (rule one) simp
  qed
  ultimately show "plain_text (SpfWord v)" "SpfWord v \<noteq> []" "CHR ''='' \<notin> set (SpfWord v)" unfolding list_all_iff by blast+
qed

lemma DkimWord_plain: "plain_text (DkimWord r)" "CHR ''='' \<notin> set (DkimWord r)"
  by (cases r; hypsubst; code_simp)+

lemma results_facts:
  assumes "transparent cp UNIV" "0 \<le> n" "n < 2 ^ 31" "plain_text host" "CHR ''='' \<notin> set host" "host \<noteq> []"
    and "v = ''i='' @ print_signed n @ ''; '' @ host @ ''; dkim='' @ DkimWord r @ ''; spf='' @ SpfWord w"
  shows "tag_line v \<and> numbered cp n v"
proof -
  note semis = print_signed_plain [of n, THEN plain_text_no_breaks] assms(4) [THEN plain_text_no_breaks]
    DkimWord_plain(1) [of r, THEN plain_text_no_breaks] SpfWord_plain(1) [of w, THEN plain_text_no_breaks]
  let ?ws = "[''i='' @ print_signed n @ '';'', host @ '';'', ''dkim='' @ DkimWord r @ '';'', ''spf='' @ SpfWord w]"
  have "list_all tag_line ?ws"
  proof -
    have sp: "\<not> IsSpace c" if "plain_text t" "c \<in> set t" for c t using that by (simp add: plain_text_def list_all_iff)
    have lit: "plain_text ''i=''" "plain_text ''dkim=''" "plain_text ''spf=''" by code_simp+
    have "list_all (\<lambda>c. \<not> IsSpace c) t" if "t \<in> set ?ws" for t
      using that sp [OF lit(1)] sp [OF lit(2)] sp [OF lit(3)] sp [OF print_signed_plain [of n]] sp [OF assms(4)] sp [OF DkimWord_plain(1) [of r]]
        sp [OF SpfWord_plain(1) [of w]] by (fastforce simp: list_all_iff)
    moreover have "t \<noteq> []" if "t \<in> set ?ws" for t using that by auto
    ultimately show ?thesis unfolding list_all_iff [of tag_line] using spaceless_line by blast
  qed
  from joined_line [OF _ this] have "tag_line v" by (simp add: assms(7))
  moreover have "numbered cp n v"
  proof -
    let ?ts = "[''i='' @ print_signed n, '' '' @ host, '' dkim='' @ DkimWord r, '' spf='' @ SpfWord w]"
    have "list_all (\<lambda>x. CHR '';'' \<notin> set x) ?ts" using semis by simp
    then have "Split (join '';'' ?ts) CHR '';'' = ?ts" by (intro Split_join) (auto simp: list_all_iff)
    then have "SplitString v CHR '';'' = ?ts" unfolding SplitString_eq by (simp add: assms(7))
    then have load: "DKIMParameters_Load cp v = fold LoadParameter ?ts []" unfolding DKIMParameters_Load_transparent [OF assms(1)] by simp
    have "Find_str ('' '' @ host) ''='' = None" using assms(5) unfolding Find_str_single by simp
    then have h: "LoadParameter ('' '' @ host) ps = ps" for ps unfolding LoadParameter_def by simp
    have names: "plain_text ''dkim''" "plain_text ''spf''" by code_simp+
    have d: "LoadParameter ('' dkim='' @ DkimWord r) ps = AList.update ''dkim'' (DkimWord r) ps" for ps
      using LoadParameter_tag [of "'' ''" "''dkim''" "DkimWord r" ps] plain_ends [OF DkimWord_plain(1) [of r]] names by simp
    have f: "LoadParameter ('' spf='' @ SpfWord w) ps = AList.update ''spf'' (SpfWord w) ps" for ps
      using LoadParameter_tag [of "'' ''" "''spf''" "SpfWord w" ps] plain_ends [OF SpfWord_plain(1) [of w]] names by simp
    have "GetParam (DKIMParameters_Load cp v) ''i'' = print_signed n"
      unfolding load fold.simps comp_def id_def h d f LoadParameter_instance [OF number_digits(1) [OF assms(2)]]
      by (simp add: GetParam_def update_conv')
    then show ?thesis using number_facts [OF assms(2,3)] by (simp add: numbered_def instance_of_def)
  qed
  ultimately show ?thesis by blast
qed

section \<open>Facts: a DNS that does not change\<close>

definition stable_keys :: "DkimEnv \<Rightarrow> bool" where
  "stable_keys env \<longleftrightarrow> (\<forall>k name. GetTXTRecords env k name = GetTXTRecords env 0 name)"

lemma stable_answer: "stable_keys env \<Longrightarrow> key_answer env k name = key_answer env 0 name"
proof -
  assume "stable_keys env"
  then have "GetTXTRecords env k name = GetTXTRecords env 0 name" unfolding stable_keys_def by blast
  then show ?thesis unfolding key_answer_def by (rule arg_cong)
qed

lemma RetrieveArcPublicKey_stable:
  assumes "stable_keys env" "cache_holds env c" "key_published env s d p"
  shows "\<exists>c'. RetrieveArcPublicKey env s d c = (\<lparr>lookup_status = ChainPass, public_key = p\<rparr>, c') \<and> cache_holds env c'"
proof -
  obtain r c' where r: "RetrieveArcPublicKey env s d c = (r, c')" by fastforce
  from RetrieveArcPublicKey_cache [OF r assms(2)] assms(3) stable_answer [OF assms(1)] r show ?thesis unfolding key_published_def by metis
qed

lemma SealLoop_stable:
  assumes "stable_keys env" "\<forall>k \<in> set ks. \<exists>s. map_of sets k = Some s \<and> sealed_set ssl env sets (k, s)" "cache_holds env c"
  shows "fst (SealLoop ssl env sets ks c) = ChainPass"
  using assms(2,3)
proof (induction ks arbitrary: c)
  case (Cons k ks)
  from Cons.prems(1) obtain s where s: "map_of sets k = Some s" "sealed_set ssl env sets (k, s)" by auto
  let ?ps = "DKIMParameters_Load (cpage env) (set_seal s)"
  from s(2) obtain p where p: "key_published env (GetParam ?ps ''s'') (GetParam ?ps ''d'') p"
    "key_accepts ssl (if GetParam ?ps ''a'' = [] then ''rsa-sha256'' else GetParam ?ps ''a'') p (SealScope sets k) (MimeCodeBase64_Decode (Replace (GetParam ?ps ''b'') '' '' []))"
    by (auto simp: sealed_set_def Let_def)
  from RetrieveArcPublicKey_stable [OF assms(1) Cons.prems(2) p(1)] obtain c' where
    c': "RetrieveArcPublicKey env (GetParam ?ps ''s'') (GetParam ?ps ''d'') c = (\<lparr>lookup_status = ChainPass, public_key = p\<rparr>, c')" "cache_holds env c'" by blast
  have "VerifySealSignature ssl env sets k c = (ChainPass, c')"
    using s p c' by (auto simp: VerifySealSignature_def sealed_set_def Let_def VerifyHeaderHash_eq)
  with Cons c'(2) show ?case by simp
qed simp

section \<open>Facts: the new set\<close>

lemma SignHash_plain: "plain_text (SignHash keys pem data t)"
  using Base64_Encode_plain by (auto simp: SignHash_def plain_text_def split: option.splits)

definition host_ok :: "ArcEnv \<Rightarrow> bool" where
  "host_ok env \<longleftrightarrow> plain_text (MakeLower (ComputerName env)) \<and> CHR ''='' \<notin> set (MakeLower (ComputerName env)) \<and> MakeLower (ComputerName env) \<noteq> []"

text \<open>The names that the message signature lists.\<close>

definition arc_names :: "AnsiString list" where
  "arc_names = [''ARC-Seal'', ''ARC-Message-Signature'', ''ARC-Authentication-Results'']"

lemma ams_names:
  assumes "transparent cp UNIV" "CHR 0x00 \<notin> set h" "CanonicalizeHeader cp Relaxed h ([], []) GetAmsHeaderFields [] = (r, l)"
  shows "list_all (\<lambda>n. signable n \<and> \<not> StartsWith (MakeLower (Trim n)) ''arc-'' \<and> list_all (\<lambda>m. \<not> same_name n m) arc_names) (SplitString l CHR '':'')"
    "canonical = CanonicalizeHeader cp Relaxed h ([], []) (SplitString l CHR '':'') [] \<Longrightarrow> canonical = (r, l)"
proof -
  have ok: "transparent cp (set h \<union> ascii)" using assms(1) by (rule transparent_mono) simp
  have fs: "list_all (\<lambda>n. signable n \<and> IsValidHeaderFieldName n \<and> \<not> StartsWith (MakeLower n) ''arc-'' \<and> list_all (\<lambda>m. \<not> same_name n m) arc_names) GetAmsHeaderFields"
    by code_simp
  then have "list_all IsValidHeaderFieldName GetAmsHeaderFields" by (simp add: list_all_iff)
  from relaxed.relisted [OF ok assms(2) this] assms(3)
  have rel: "list_all (\<lambda>n'. IsValidHeaderFieldName n' \<and> list_ex (same_name n') GetAmsHeaderFields) (SplitString l CHR '':'')"
    "RelaxedHeader cp h ([], []) (SplitString l CHR '':'') [] = (r, l)" by simp_all
  then show "canonical = CanonicalizeHeader cp Relaxed h ([], []) (SplitString l CHR '':'') [] \<Longrightarrow> canonical = (r, l)" by simp
  have "signable n \<and> \<not> StartsWith (MakeLower (Trim n)) ''arc-'' \<and> list_all (\<lambda>m. \<not> same_name n m) arc_names" if "n \<in> set (SplitString l CHR '':'')" for n
  proof -
    from that rel(1) obtain m where m: "IsValidHeaderFieldName n" "m \<in> set GetAmsHeaderFields" "same_name n m" by (auto simp: list_all_iff list_ex_iff)
    with fs have m': "signable m" "IsValidHeaderFieldName m" "\<not> StartsWith (MakeLower m) ''arc-''" "list_all (\<lambda>x. \<not> same_name m x) arc_names"
      by (auto simp: list_all_iff)
    have "MakeLower n = MakeLower m" using m(3) by (simp add: MakeLower_def)
    with m' m signable_same_name [OF m'(1) m(3,1)] show ?thesis by (simp add: Trim_valid_name)
  qed
  then show "list_all (\<lambda>n. signable n \<and> \<not> StartsWith (MakeLower (Trim n)) ''arc-'' \<and> list_all (\<lambda>m. \<not> same_name n m) arc_names) (SplitString l CHR '':'')"
    by (simp add: list_all_iff)
qed

lemma NewSet_facts:
  assumes "transparent (cpage (chain_env env)) UNIV" "CHR 0x00 \<notin> set h" "plain_text domain" "plain_text selector" "plain_text cv" "host_ok env"
    "short_digests ssl" "0 \<le> n" "n < 2 ^ 31"
    and new: "NewSet ssl keys env content h sets n cv domain selector = Some s"
    and canon: "CanonicalizeHeader (cpage (chain_env env)) Relaxed h ([], []) GetAmsHeaderFields [] = (r, l)"
    and A_def: "A = signing_algorithm keys (seal_key env) SHA256"
  obtains T BH sig1 sig2 where
    "set_message_signature s = unfolded ((''i'', print_signed n) # ams_tags A domain selector T BH l) sig1"
    "set_seal s = unfolded ((''i'', print_signed n) # seal_tags A T cv domain selector) sig2"
    "plain_text T" "plain_text BH" "BH \<noteq> []" "plain_text l" "plain_text sig1" "plain_text sig2" "sig1 \<noteq> []" "sig2 \<noteq> []" "c_str BH = BH"
    "BH = GenerateHashNoSalt ssl SHA256 (CanonicalizeBody (cpage (chain_env env)) Relaxed (LoadBody (seal_reads env) (seal_read_size env) content))"
    "sig1 = SignHash keys (seal_key env) (r @ RelaxedHeaderLine ''arc-message-signature'' (unfolded ((''i'', print_signed n) # ams_tags A domain selector T BH l) [])) SHA256"
    "sig2 = SignHash keys (seal_key env) (concat (map (\<lambda>(k, s). SealLine False s) sets) @
       RelaxedHeaderLine ''arc-authentication-results'' (set_authentication_results s) @ crlf @ RelaxedHeaderLine ''arc-message-signature'' (set_message_signature s) @ crlf @
       RelaxedHeaderLine ''arc-seal'' (unfolded ((''i'', print_signed n) # seal_tags A T cv domain selector) [])) SHA256"
    "set_lines s" "numbered (cpage (chain_env env)) n (set_seal s)" "numbered (cpage (chain_env env)) n (set_message_signature s)"
    "numbered (cpage (chain_env env)) n (set_authentication_results s)"
proof -
  let ?cp = "cpage (chain_env env)"
  define T where "T = print_signed (sint (seal_time env))"
  define body where "body = CanonicalizeBody ?cp Relaxed (LoadBody (seal_reads env) (seal_read_size env) content)"
  define BH where "BH = GenerateHashNoSalt ssl SHA256 body"
  obtain g where "EVP_Digest ssl SHA256 body = Some g" "g \<noteq> []" "length g \<le> 37" using assms(7) unfolding short_digests_def by blast
  from GenerateHashNoSalt_plain [OF this] have BH: "plain_text BH" "BH \<noteq> []" "c_str BH = BH" unfolding BH_def by blast+
  have l: "plain_text l" using ams_names(1) [OF assms(1,2) canon] by (intro plain_names_list) (simp add: list_all_iff)
  have A: "plain_text A" unfolding A_def by (rule algorithm_plain)
  have T: "plain_text T" unfolding T_def by (rule print_signed_plain)
  have alg: "(if IsEd25519PrivateKey keys (seal_key env) then ''ed25519-sha256'' else ''rsa-sha256'') = A" by (simp add: A_def signing_algorithm_def)
  define ams where "ams = unfolded ((''i'', print_signed n) # ams_tags A domain selector T BH l)"
  define seal where "seal = unfolded ((''i'', print_signed n) # seal_tags A T cv domain selector)"
  define sig1 where "sig1 = SignHash keys (seal_key env) (r @ RelaxedHeaderLine ''arc-message-signature'' (ams [])) SHA256"
  define aar where "aar = BuildAuthenticationResults ssl env n content h"
  define sig2 where "sig2 = SignHash keys (seal_key env) (concat (map (\<lambda>(k, s). SealLine False s) sets) @ RelaxedHeaderLine ''arc-authentication-results'' aar @ crlf @
       RelaxedHeaderLine ''arc-message-signature'' (ams sig1) @ crlf @ RelaxedHeaderLine ''arc-seal'' (seal [])) SHA256"
  note av = AmsValue_tags [OF A assms(3,4) T BH(1) l, of n, folded ams_def] and sv = SealValue_tags [OF A T assms(5) assms(3,4), of n, folded seal_def]
  have app: "ams [] @ z = ams z" "seal [] @ z = seal z" for z by (simp_all add: ams_def seal_def unfolded_def)
  have eq: "NewSet ssl keys env content h sets n cv domain selector =
    (if sig1 = [] \<or> sig2 = [] then None else Some \<lparr>set_authentication_results = aar, set_message_signature = ams sig1, set_seal = seal sig2\<rparr>)"
    using av [of "[]"] sv [of "[]"] app
    unfolding NewSet_def Let_def alg canon case_prod_conv T_def [symmetric] body_def [symmetric] BH_def [symmetric] aar_def [symmetric]
    by (simp add: sig1_def sig2_def)
  then have s: "s = \<lparr>set_authentication_results = aar, set_message_signature = ams sig1, set_seal = seal sig2\<rparr>" and sigs: "sig1 \<noteq> []" "sig2 \<noteq> []"
    using new by (auto split: if_splits)
  have plain: "plain_text sig1" "plain_text sig2" unfolding sig1_def sig2_def by (rule SignHash_plain)+
  note at = ams_tags_plain [OF A assms(3,4) T BH(1) l] and st = seal_tags_plain [OF A T assms(5) assms(3,4)]
  have pn: "plain_tag (''i'', print_signed n)" using print_signed_plain tag_names by simp
  have "list_all plain_tag ((''i'', print_signed n) # ams_tags A domain selector T BH l)" using at pn unfolding list_all_iff by auto
  then have l1: "tag_line (ams sig1)" unfolding ams_def by (rule unfolded_line) (rule plain)
  have "list_all plain_tag ((''i'', print_signed n) # seal_tags A T cv domain selector)" using st pn unfolding list_all_iff by auto
  then have l2: "tag_line (seal sig2)" unfolding seal_def by (rule unfolded_line) (rule plain)
  have ta: "list_all (\<lambda>t. plain_tag t \<and> fst t \<noteq> ''i'') (seal_tags A T cv domain selector)" using st by (simp add: list_all_iff)
  have i1: "GetParam (DKIMParameters_Load ?cp (ams sig1)) ''i'' = print_signed n"
    unfolding ams_def numbered_tags [OF assms(1,8) at plain(1) sigs(1)] by (simp add: ams_tags_def GetParam_def update_conv')
  have i2: "GetParam (DKIMParameters_Load ?cp (seal sig2)) ''i'' = print_signed n"
    unfolding seal_def numbered_tags [OF assms(1,8) ta plain(2) sigs(2)] by (simp add: seal_tags_def GetParam_def update_conv')
  have host: "c_str (MakeLower (ComputerName env)) = MakeLower (ComputerName env)" using assms(6) plain_c_str by (auto simp: host_ok_def)
  have aar_ok: "tag_line aar \<and> numbered ?cp n aar"
    by (rule results_facts [OF assms(1,8,9), where host = "MakeLower (ComputerName env)"])
      (use assms(6) in \<open>simp_all add: host_ok_def aar_def BuildAuthenticationResults_def host\<close>)
  show thesis
  proof (rule that [of T BH sig1 sig2])
    show "set_lines s" using l1 l2 aar_ok by (simp add: set_lines_def s)
    show "numbered ?cp n (set_seal s)" "numbered ?cp n (set_message_signature s)" "numbered ?cp n (set_authentication_results s)"
      using i1 i2 aar_ok number_facts [OF assms(8,9)] by (simp_all add: numbered_def instance_of_def s)
    show "BH = GenerateHashNoSalt ssl SHA256 (CanonicalizeBody ?cp Relaxed (LoadBody (seal_reads env) (seal_read_size env) content))"
      unfolding BH_def body_def ..
    show "set_message_signature s = unfolded ((''i'', print_signed n) # ams_tags A domain selector T BH l) sig1"
      "set_seal s = unfolded ((''i'', print_signed n) # seal_tags A T cv domain selector) sig2" by (simp_all add: s ams_def seal_def)
    show "sig1 = SignHash keys (seal_key env) (r @ RelaxedHeaderLine ''arc-message-signature'' (unfolded ((''i'', print_signed n) # ams_tags A domain selector T BH l) [])) SHA256"
      unfolding sig1_def ams_def ..
    show "sig2 = SignHash keys (seal_key env) (concat (map (\<lambda>(k, s). SealLine False s) sets) @
       RelaxedHeaderLine ''arc-authentication-results'' (set_authentication_results s) @ crlf @ RelaxedHeaderLine ''arc-message-signature'' (set_message_signature s) @ crlf @
       RelaxedHeaderLine ''arc-seal'' (unfolded ((''i'', print_signed n) # seal_tags A T cv domain selector) [])) SHA256"
      unfolding sig2_def seal_def s by simp
  qed (fact T BH l plain sigs)+
qed

section \<open>Facts: the new seal\<close>

lemma takeWhile_snoc: "\<not> P y \<Longrightarrow> takeWhile P (xs @ [y]) = takeWhile P xs"
  by (induction xs) auto

lemma SealScope_old: "k < n \<Longrightarrow> SealScope (sets @ [(n, s)]) k = SealScope sets k"
  by (simp add: SealScope_def takeWhile_snoc)

lemma SealScope_new:
  assumes "\<forall>k \<in> set (map fst sets). k < n"
  shows "SealScope (sets @ [(n, s)]) n = concat (map (\<lambda>(k, s). SealLine False s) sets) @ SealLine True s"
proof -
  have "takeWhile (\<lambda>(k, s). k \<le> n) (sets @ [(n, s)]) = sets @ [(n, s)]" using assms by (auto simp: takeWhile_eq_all_conv)
  moreover have "map (\<lambda>(k, s). SealLine (k = n) s) sets = map (\<lambda>(k, s). SealLine False s) sets" using assms by (auto intro!: map_cong)
  ultimately show ?thesis by (simp add: SealScope_def del: map_eq_conv)
qed

text \<open>Another environment with the same code page and the same answers of the DNS.\<close>

definition same_dns :: "DkimEnv \<Rightarrow> DkimEnv \<Rightarrow> bool" where
  "same_dns ce ve \<longleftrightarrow> cpage ve = cpage ce \<and> stable_keys ve \<and> (\<forall>k name. GetTXTRecords ce k name = GetTXTRecords ve 0 name)"

lemma same_dns_published: "same_dns ce ve \<Longrightarrow> key_published ce s d p \<Longrightarrow> key_published ve s d p"
proof -
  assume a: "same_dns ce ve" "key_published ce s d p"
  have t: "GetTXTRecords ce k name = GetTXTRecords ve 0 name" for k name using a(1) unfolding same_dns_def by blast
  have cp: "cpage ve = cpage ce" using a(1) unfolding same_dns_def by blast
  have "key_answer ce k name = key_answer ve 0 name" for k name unfolding key_answer_def t cp ..
  with a(2) show ?thesis unfolding key_published_def by metis
qed

lemma sealed_old:
  assumes "same_dns ce ve" "sealed_set ssl ce sets (k, t)" "k < n"
  shows "sealed_set ssl ve (sets @ [(n, s)]) (k, t)"
proof -
  have cp: "cpage ve = cpage ce" using assms(1) by (simp add: same_dns_def)
  show ?thesis using assms(2) same_dns_published [OF assms(1)]
    unfolding sealed_set_def Let_def fst_conv snd_conv cp SealScope_old [OF assms(3)] by blast
qed

lemma sealed_new:
  assumes "transparent (cpage ve) UNIV" "0 \<le> n" "\<forall>k \<in> set (map fst sets). k < n"
    and plain: "plain_text T" "plain_text cv" "plain_text domain" "plain_text selector" "plain_text sig" "sig \<noteq> []" "domain \<noteq> []" "selector \<noteq> []"
    and A: "A = signing_algorithm keys pem SHA256"
    and seal: "set_seal s = unfolded ((''i'', print_signed n) # seal_tags A T cv domain selector) sig"
    and sig: "sig = SignHash keys pem (concat (map (\<lambda>(k, s). SealLine False s) sets) @
       RelaxedHeaderLine ''arc-authentication-results'' (set_authentication_results s) @ crlf @ RelaxedHeaderLine ''arc-message-signature'' (set_message_signature s) @ crlf @
       RelaxedHeaderLine ''arc-seal'' (unfolded ((''i'', print_signed n) # seal_tags A T cv domain selector) [])) SHA256"
    and key: "key_pair ssl keys pem p SHA256" "key_published ve selector domain p"
  shows "sealed_set ssl ve (sets @ [(n, s)]) (n, s)" "CvStep (cpage ve) (n, s) \<longleftrightarrow> MakeLower cv = (if n = 1 then ''none'' else ''pass'')"
proof -
  have Ap: "plain_text A" unfolding A by (rule algorithm_plain)
  note st = seal_tags_plain [OF Ap plain(1-4)]
  have ti: "list_all (\<lambda>t. plain_tag t \<and> fst t \<noteq> ''i'') (seal_tags A T cv domain selector)" using st by (simp add: list_all_iff)
  note load = numbered_tags [OF assms(1,2) ti plain(5,6), folded seal]
  have vals: "GetParam (DKIMParameters_Load (cpage ve) (set_seal s)) ''a'' = A" "GetParam (DKIMParameters_Load (cpage ve) (set_seal s)) ''d'' = domain"
    "GetParam (DKIMParameters_Load (cpage ve) (set_seal s)) ''s'' = selector" "GetParam (DKIMParameters_Load (cpage ve) (set_seal s)) ''b'' = sig"
    "GetParam (DKIMParameters_Load (cpage ve) (set_seal s)) ''cv'' = cv"
    unfolding load by (simp_all add: seal_tags_def GetParam_def update_conv')
  show "CvStep (cpage ve) (n, s) \<longleftrightarrow> MakeLower cv = (if n = 1 then ''none'' else ''pass'')" by (simp add: CvStep_def vals)
  have nb: "CompareNoCase ''i'' ''b'' \<noteq> 0 \<and> list_all (\<lambda>t. CompareNoCase (fst t) ''b'' \<noteq> 0) (seal_tags A T cv domain selector)"
    unfolding seal_tags_def by (simp add: CompareNoCase_zero_iff tolower_classic_def)
  have "plain_tag (''i'', print_signed n)" using print_signed_plain tag_names by simp
  then have "list_all (\<lambda>t. plain_tag t \<and> CompareNoCase (fst t) ''b'' \<noteq> 0) ((''i'', print_signed n) # seal_tags A T cv domain selector)"
    using nb st by (simp add: list_all_iff)
  from StripSeal_unfolded [OF this] have strip: "StripSealSignatureValue (set_seal s) = unfolded ((''i'', print_signed n) # seal_tags A T cv domain selector) []"
    unfolding seal using plain_text_no_breaks [OF plain(5)] by blast
  have "agreed_hash keys pem SHA256" by (simp add: agreed_hash_def)
  note accepted = SignHash_accepted [OF key(1) this, folded A]
  have "SealLine True s = RelaxedHeaderLine ''arc-authentication-results'' (set_authentication_results s) @ crlf @
      RelaxedHeaderLine ''arc-message-signature'' (set_message_signature s) @ crlf @
      RelaxedHeaderLine ''arc-seal'' (unfolded ((''i'', print_signed n) # seal_tags A T cv domain selector) [])" unfolding SealLine_def strip by simp
  then have "sig = SignHash keys pem (SealScope (sets @ [(n, s)]) n) SHA256" unfolding SealScope_new [OF assms(3)] by (simp only: sig)
  with accepted plain(6) have acc: "key_accepts ssl A p (SealScope (sets @ [(n, s)]) n) (MimeCodeBase64_Decode sig)" by metis
  have rep: "Replace sig '' '' [] = sig" using plain_text_no_breaks [OF plain(5)] Replace_absent [of "CHR '' ''" sig] by simp
  have "A \<noteq> []" "A \<in> {''rsa-sha256'', ''ed25519-sha256''}" unfolding A signing_algorithm_def by auto
  then show "sealed_set ssl ve (sets @ [(n, s)]) (n, s)" unfolding sealed_set_def Let_def snd_conv fst_conv vals rep
    using acc key(2) plain(6-8) by auto
qed

section \<open>Facts: the new message signature\<close>

lemma unfolded_no_zero: "list_all plain_tag tags \<Longrightarrow> plain_text z \<Longrightarrow> CHR 0x00 \<notin> set (unfolded tags z)"
proof (induction tags)
  case (Cons t tags)
  then have "CHR 0x00 \<notin> set (fst t)" "CHR 0x00 \<notin> set (snd t)" using plain_text_no_breaks by simp_all
  with Cons show ?case by (simp add: unfolded_def)
qed (use plain_text_no_breaks in \<open>simp add: unfolded_def\<close>)

lemma line_field:
  assumes "tag_line v"
  shows "folded_value v" "v = [] \<or> \<not> is_WSP (hd v)" "UnfoldField v = v" "RelaxedHeaderValue v = v"
  using field_of_lines [of "[v]"] UnfoldField_lines [of "[v]"] RelaxedHeaderValue_lines [of "[v]"] assms by simp_all

lemma new_header_newest:
  assumes "set_lines s" "h = [] \<or> \<not> is_WSP (hd h)" "CHR 0x00 \<notin> set (set_message_signature s)" "numbered cp n (set_message_signature s)"
  shows "NewestSignatureField cp (new_header s h) n = Some (''ARC-Message-Signature'', set_message_signature s)"
proof -
  have lines: "tag_line (set_seal s)" "tag_line (set_message_signature s)" "tag_line (set_authentication_results s)" using assms(1) by (simp_all add: set_lines_def)
  have names: "plain_name ''ARC-Seal''" "plain_name ''ARC-Message-Signature''" "plain_name ''ARC-Authentication-Results''" by code_simp+
  have sp: "list_all is_WSP '' ''" by (simp add: is_WSP_def)
  have start: "x @ rest = [] \<or> \<not> is_WSP (hd (x @ rest))" if "plain_name x" for x rest using that WSP_IsSpace by (cases x) (auto simp: plain_name_def)
  note f1 = Fields_Cons [OF names(1) sp line_field(2,1) [OF lines(1)] start [OF names(2), of "'':'' @ '' '' @ set_message_signature s @ crlf @ ''ARC-Authentication-Results'' @ '':'' @ '' '' @ set_authentication_results s @ crlf @ h"], of False]
  note f2 = Fields_Cons [OF names(2) sp line_field(2,1) [OF lines(2)] start [OF names(3), of "'':'' @ '' '' @ set_authentication_results s @ crlf @ h"], of False]
  obtain rest where fields: "Fields (new_header s h) False = mime_field False ''ARC-Seal'' '' '' (set_seal s) # mime_field False ''ARC-Message-Signature'' '' '' (set_message_signature s) # rest"
    using f1 f2 by simp
  have n1: "MimeField_GetName (mime_field False ''ARC-Seal'' '' '' (set_seal s)) = ''ARC-Seal''"
    "MimeField_GetName (mime_field False ''ARC-Message-Signature'' '' '' (set_message_signature s)) = ''ARC-Message-Signature''"
    "MimeField_GetValue (mime_field False ''ARC-Message-Signature'' '' '' (set_message_signature s)) = set_message_signature s"
    using assms(3) by (auto simp: mime_field_def MimeField_GetName_def MimeField_GetValue_def c_str_def takeWhile_eq_all_conv)
  have c: "CompareNoCase ''ARC-Seal'' ''ARC-Message-Signature'' \<noteq> 0" "CompareNoCase ''ARC-Message-Signature'' ''ARC-Message-Signature'' = 0" by code_simp+
  show ?thesis unfolding NewestSignatureField_def fields using c assms(4) line_field(3) [OF lines(2)] by (simp add: n1 numbered_def instance_of_def)
qed

lemma new_header_canonical:
  assumes "transparent cp UNIV" "set_lines s" "h = [] \<or> \<not> is_WSP (hd h)" "list_all (\<lambda>n. signable n \<and> list_all (\<lambda>m. \<not> same_name n m) arc_names) ns"
  shows "fst (CanonicalizeHeader cp Relaxed (new_header s h) (''ARC-Message-Signature'', set_message_signature s) ns []) =
    fst (CanonicalizeHeader cp Relaxed h ([], []) ns []) @ relaxed_signature (''ARC-Message-Signature'', set_message_signature s)"
proof -
  have ok: "transparent cp (S \<union> ascii)" for S using assms(1) by (rule transparent_mono) simp
  have lines: "tag_line (set_seal s)" "tag_line (set_message_signature s)" "tag_line (set_authentication_results s)" using assms(2) by (simp_all add: set_lines_def)
  have valid: "list_all IsValidHeaderFieldName ns" "IsValidHeaderFieldName ''ARC-Seal''" "IsValidHeaderFieldName ''ARC-Message-Signature''" "IsValidHeaderFieldName ''ARC-Authentication-Results''"
    using assms(4) by (simp add: list_all_iff signable_def) code_simp+
  have ns: "list_all (\<lambda>n. IsValidHeaderFieldName n \<and> \<not> same_name n nm) ns" if "nm \<in> set arc_names" for nm
    using that assms(4) by (auto simp: list_all_iff signable_def)
  have arc: "''ARC-Seal'' \<in> set arc_names" "''ARC-Message-Signature'' \<in> set arc_names" "''ARC-Authentication-Results'' \<in> set arc_names" by (simp_all add: arc_names_def)
  have start: "x @ rest = [] \<or> \<not> is_WSP (hd (x @ rest))" if "IsValidHeaderFieldName x" for x rest
    using valid_plain_name [OF that] WSP_IsSpace by (cases x) (auto simp: plain_name_def)
  let ?h3 = "''ARC-Authentication-Results'' @ '': '' @ set_authentication_results s @ crlf @ h"
  let ?h2 = "''ARC-Message-Signature'' @ '': '' @ set_message_signature s @ crlf @ ?h3"
  have "RelaxedHeader cp (new_header s h) ([], []) ns [] = RelaxedHeader cp ?h2 ([], []) ns []"
    by (rule relaxed.prepended [OF ok ns [OF arc(1)] valid(2) line_field(1,2) [OF lines(1)] start [OF valid(3)]])
  also have "\<dots> = RelaxedHeader cp ?h3 ([], []) ns []"
    by (rule relaxed.prepended [OF ok ns [OF arc(2)] valid(3) line_field(1,2) [OF lines(2)] start [OF valid(4)]])
  also have "\<dots> = RelaxedHeader cp h ([], []) ns []"
    by (rule relaxed.prepended [OF ok ns [OF arc(3)] valid(4) line_field(1,2) [OF lines(3)] assms(3)])
  finally show ?thesis using relaxed.appended [OF ok valid(1,3)] by simp
qed

lemma arc_signature_line:
  assumes "list_all (\<lambda>t. plain_tag t \<and> fst t \<noteq> ''b'') (t # ts)" "plain_text z"
  shows "relaxed_signature (''ARC-Message-Signature'', unfolded (t # ts) z) = RelaxedHeaderLine ''arc-message-signature'' (unfolded (t # ts) [])"
proof -
  have name: "RelaxedHeaderName ''ARC-Message-Signature'' = RelaxedHeaderName ''arc-message-signature''" by code_simp
  have plain: "list_all plain_tag (t # ts)" using assms(1) by (simp add: list_all_iff)
  have empty: "plain_text []" by (simp add: plain_text_def)
  note line = line_field(4) [OF unfolded_line [OF plain assms(2)]] line_field(4) [OF unfolded_line [OF plain empty]]
  have "CHR '';'' \<notin> set z" using plain_text_no_breaks [OF assms(2)] by blast
  from without_b_unfolded [OF assms(1) this] show ?thesis unfolding relaxed_signature_def RelaxedHeaderLine_def fst_conv snd_conv line name by simp
qed

lemma message_signedI:
  assumes "ps = DKIMParameters_Load (cpage env) (UnfoldField (snd sf))"
    "names = SplitStringAnsi (through_wide (cpage env)) (GetParam ps ''h'') CHR '':''"
    "GetParam ps ''b'' \<noteq> []" "GetParam ps ''bh'' \<noteq> []" "GetParam ps ''d'' \<noteq> []" "GetParam ps ''s'' \<noteq> []" "GetParam ps ''h'' \<noteq> []"
    "GetParam ps ''a'' \<in> {''rsa-sha256'', ''ed25519-sha256''}"
    "list_ex (\<lambda>n. MakeLower (Trim n) = ''from'') names" "list_all (\<lambda>n. \<not> StartsWith (MakeLower (Trim n)) ''arc-'') names"
    "ArcMethods (GetParam ps ''c'') = Some (hm, bm)"
    "ArcBodyPart ps (CanonicalizeBody (cpage env) bm (LoadBody (body_reads env 0) (LoadBodyReadSize env) content)) = Some part"
    "Replace (GetParam ps ''bh'') '' '' [] = c_str (GenerateHashNoSalt ssl SHA256 part)"
    "key_published env (GetParam ps ''s'') (GetParam ps ''d'') p"
    "key_accepts ssl (GetParam ps ''a'') p (fst (CanonicalizeHeader (cpage env) hm header sf names [])) (MimeCodeBase64_Decode (Replace (GetParam ps ''b'') '' '' []))"
  shows "message_signed ssl env content header sf"
  unfolding message_signed_def Let_def assms(1) [symmetric] assms(2) [symmetric] list.pred_inject using assms(3-) list.pred_inject(1) by blast

lemma message_signed_new:
  assumes "transparent (cpage ve) UNIV" "0 \<le> n" "CHR 0x00 \<notin> set h" "h = [] \<or> \<not> is_WSP (hd h)" "set_lines s"
    and canon: "CanonicalizeHeader (cpage ve) Relaxed h ([], []) GetAmsHeaderFields [] = (r, l)" "list_ex (\<lambda>f. MakeLower f = ''from'') (SplitString l CHR '':'')"
    and plain: "plain_text T" "plain_text BH" "plain_text l" "plain_text domain" "plain_text selector" "plain_text sig" "sig \<noteq> []" "domain \<noteq> []" "selector \<noteq> []" "BH \<noteq> []"
    and A: "A = signing_algorithm keys pem SHA256"
    and ams: "set_message_signature s = unfolded ((''i'', print_signed n) # ams_tags A domain selector T BH l) sig"
    and sig: "sig = SignHash keys pem (r @ RelaxedHeaderLine ''arc-message-signature'' (unfolded ((''i'', print_signed n) # ams_tags A domain selector T BH l) [])) SHA256"
    and BH: "c_str BH = BH" "BH = GenerateHashNoSalt ssl SHA256 (CanonicalizeBody (cpage ve) Relaxed (LoadBody (body_reads ve 0) (LoadBodyReadSize ve) content))"
    and key: "key_pair ssl keys pem p SHA256" "key_published ve selector domain p"
  shows "message_signed ssl ve content (new_header s h) (''ARC-Message-Signature'', set_message_signature s)"
proof -
  have Ap: "plain_text A" unfolding A by (rule algorithm_plain)
  note at = ams_tags_plain [OF Ap plain(4,5,1,2,3)]
  note load = numbered_tags [OF assms(1,2) at plain(6,7), folded ams]
  let ?ps = "DKIMParameters_Load (cpage ve) (set_message_signature s)"
  have vals: "GetParam ?ps ''a'' = A" "GetParam ?ps ''d'' = domain" "GetParam ?ps ''s'' = selector" "GetParam ?ps ''b'' = sig" "GetParam ?ps ''c'' = ''relaxed/relaxed''"
    "GetParam ?ps ''bh'' = BH" "GetParam ?ps ''h'' = l" "GetParam ?ps ''l'' = []"
    unfolding load by (simp_all add: ams_tags_def GetParam_def update_conv')
  have split: "SplitStringAnsi (through_wide (cpage ve)) l CHR '':'' = SplitString l CHR '':''"
    by (rule SplitStringAnsi_transparent [OF transparent_mono [OF assms(1)]]) simp
  note names = ams_names [OF assms(1,3) canon(1)]
  have trim: "list_ex (\<lambda>f. MakeLower (Trim f) = ''from'') (SplitString l CHR '':'')"
    using canon(2) names(1) signable_plain [THEN Trim_plain] unfolding list_all_iff list_ex_iff by metis
  have "plain_tag (''i'', print_signed n)" using print_signed_plain tag_names by simp
  moreover have "list_all (\<lambda>t. fst t \<noteq> ''b'') (ams_tags A domain selector T BH l)" by (simp add: ams_tags_def)
  ultimately have "list_all (\<lambda>t. plain_tag t \<and> fst t \<noteq> ''b'') ((''i'', print_signed n) # ams_tags A domain selector T BH l)"
    using at by (simp add: list_all_iff)
  note line = arc_signature_line [OF this plain(6), folded ams]
  have "list_all (\<lambda>n. signable n \<and> list_all (\<lambda>m. \<not> same_name n m) arc_names) (SplitString l CHR '':'')" using names(1) by (simp add: list_all_iff)
  from new_header_canonical [OF assms(1,5,4) this] names(2) [OF refl]
  have bytes: "fst (CanonicalizeHeader (cpage ve) Relaxed (new_header s h) (''ARC-Message-Signature'', set_message_signature s) (SplitString l CHR '':'') []) =
    r @ RelaxedHeaderLine ''arc-message-signature'' (unfolded ((''i'', print_signed n) # ams_tags A domain selector T BH l) [])"
    unfolding line by simp
  have "agreed_hash keys pem SHA256" by (simp add: agreed_hash_def)
  from SignHash_accepted [OF key(1) this, folded A] sig plain(7)
  have acc: "key_accepts ssl A p (r @ RelaxedHeaderLine ''arc-message-signature'' (unfolded ((''i'', print_signed n) # ams_tags A domain selector T BH l) [])) (MimeCodeBase64_Decode sig)"
    by metis
  have rep: "Replace x '' '' [] = x" if "plain_text x" for x using plain_text_no_breaks [OF that] Replace_absent [of "CHR '' ''" x] by simp
  have unfold: "UnfoldField (set_message_signature s) = set_message_signature s" using line_field(3) assms(5) by (simp add: set_lines_def)
  have A2: "A \<in> {''rsa-sha256'', ''ed25519-sha256''}" unfolding A signing_algorithm_def by auto
  have "ArcMethods ''relaxed/relaxed'' = Some (Relaxed, Relaxed)" by code_simp
  moreover have "ArcBodyPart ?ps x = Some x" for x by (simp add: ArcBodyPart_def vals)
  moreover have "l \<noteq> []" using canon(2) by (auto simp: SplitString_eq)
  moreover have "list_all (\<lambda>n. \<not> StartsWith (MakeLower (Trim n)) ''arc-'') (SplitString l CHR '':'')" using names(1) unfolding list_all_iff by blast
  ultimately show ?thesis using acc key(2) plain trim A2 BH
    by (intro message_signedI [where ps = ?ps and names = "SplitString l CHR '':''" and hm = Relaxed and bm = Relaxed and p = p])
      (simp_all only: snd_conv unfold vals split rep bytes not_False_eq_True, simp_all)
qed

section \<open>Facts: the sealed message\<close>

lemma VerifyNewest_stable:
  assumes "stable_keys env" "NewestSignatureField (cpage env) header (fst (last sets)) = Some sf" "message_signed ssl env content header sf"
  shows "\<exists>c'. VerifyNewestMessageSignature ssl env content sets header no_lookups = (ChainPass, c') \<and> cache_holds env c'"
proof -
  let ?ps = "DKIMParameters_Load (cpage env) (UnfoldField (snd sf))"
  let ?names = "SplitStringAnsi (through_wide (cpage env)) (GetParam ?ps ''h'') CHR '':''"
  from assms(3) have tags: "list_all (\<lambda>n. GetParam ?ps n \<noteq> []) [''b'', ''bh'', ''d'', ''s'', ''h'']" "GetParam ?ps ''a'' \<in> {''rsa-sha256'', ''ed25519-sha256''}"
    and names: "AmsNamesLoop ?names False"
    by (simp_all add: message_signed_def Let_def AmsNamesLoop_eq)
  from assms(3) obtain hm bm part p where m: "ArcMethods (GetParam ?ps ''c'') = Some (hm, bm)"
    "ArcBodyPart ?ps (CanonicalizeBody (cpage env) bm (LoadBody (body_reads env 0) (LoadBodyReadSize env) content)) = Some part"
    "Replace (GetParam ?ps ''bh'') '' '' [] = c_str (GenerateHashNoSalt ssl SHA256 part)" "key_published env (GetParam ?ps ''s'') (GetParam ?ps ''d'') p"
    "key_accepts ssl (GetParam ?ps ''a'') p (fst (CanonicalizeHeader (cpage env) hm header sf ?names [])) (MimeCodeBase64_Decode (Replace (GetParam ?ps ''b'') '' '' []))"
    unfolding message_signed_def Let_def by blast
  have "cache_holds env no_lookups" by simp
  from RetrieveArcPublicKey_stable [OF assms(1) this m(4)] obtain c' where
    c': "RetrieveArcPublicKey env (GetParam ?ps ''s'') (GetParam ?ps ''d'') no_lookups = (\<lparr>lookup_status = ChainPass, public_key = p\<rparr>, c')" "cache_holds env c'" by blast
  have "VerifyHeaderHash ssl (fst (CanonicalizeHeader (cpage env) hm header sf ?names [])) (GetParam ?ps ''a'') (Replace (GetParam ?ps ''b'') '' '' []) p = DkimPass"
    using m(5) by (simp only: VerifyHeaderHash_eq if_True)
  then have "VerifyNewestMessageSignature ssl env content sets header no_lookups = (ChainPass, c')"
    using tags names m(1-3) c' by (auto simp: VerifyNewestMessageSignature_def assms(2) Let_def)
  with c' show ?thesis by blast
qed

lemma ValidateChain_stable:
  assumes "stable_keys env" "ParseExistingSets (cpage env) header = Some sets" "sets \<noteq> []" "length sets \<le> 10" "list_all (CvStep (cpage env)) sets"
    "list_all (sealed_set ssl env sets) sets" "NewestSignatureField (cpage env) header (fst (last sets)) = Some sf" "message_signed ssl env content header sf"
  shows "fst (ValidateChain ssl env content header) = ChainPass"
proof -
  from VerifyNewest_stable [OF assms(1,7,8)] obtain c where c: "VerifyNewestMessageSignature ssl env content sets header no_lookups = (ChainPass, c)" "cache_holds env c" by blast
  have "distinct (map fst sets)" using ParseExistingSets_order [OF assms(2)] by simp
  then have "\<forall>k \<in> set (map fst sets). \<exists>s. map_of sets k = Some s \<and> sealed_set ssl env sets (k, s)"
    using assms(6) by (auto simp: list_all_iff)
  from SealLoop_stable [OF assms(1) this c(2)] show ?thesis
    using assms(2-5) c(1) by (simp add: ValidateChain_def ValidateChainSets_def MaxArcSetsToValidate_def)
qed

lemma new_field_parts:
  assumes "tag_line v" "CHR 0x0D \<notin> set nm" "content = [] \<or> hd content \<noteq> CHR 0x0D"
  shows "header_of (nm @ '': '' @ v @ crlf @ content) = nm @ '': '' @ v @ crlf @ header_of content" "body_of (nm @ '': '' @ v @ crlf @ content) = body_of content"
proof -
  have "CHR 0x0D \<notin> set (nm @ '': '')" using assms(2) by simp
  from Find_empty_line_lines [of "[v]", OF _ _ this assms(3)] assms(1)
  have "Find_str ((nm @ '': '' @ v @ crlf) @ content) empty_line = shifted (length (nm @ '': '' @ v @ crlf)) (Find_str content empty_line)" by simp
  from shifted_parts [OF this] show "header_of (nm @ '': '' @ v @ crlf @ content) = nm @ '': '' @ v @ crlf @ header_of content"
    "body_of (nm @ '': '' @ v @ crlf @ content) = body_of content" by simp_all
qed

lemma content_start: "header_of content = h \<Longrightarrow> h \<noteq> [] \<Longrightarrow> hd h \<noteq> CHR 0x0D \<Longrightarrow> content = [] \<or> hd content \<noteq> CHR 0x0D"
  by (cases content) (auto simp: header_of_def split: option.splits)

lemma new_message_parts:
  assumes "set_lines s" "content = [] \<or> hd content \<noteq> CHR 0x0D"
  shows "header_of (new_header s content) = new_header s (header_of content)" "body_of (new_header s content) = body_of content"
proof -
  have lines: "tag_line (set_seal s)" "tag_line (set_message_signature s)" "tag_line (set_authentication_results s)" using assms(1) by (simp_all add: set_lines_def)
  have no: "CHR 0x0D \<notin> set ''ARC-Seal''" "CHR 0x0D \<notin> set ''ARC-Message-Signature''" "CHR 0x0D \<notin> set ''ARC-Authentication-Results''" by simp_all
  have start: "''ARC-Authentication-Results'' @ x = [] \<or> hd (''ARC-Authentication-Results'' @ x) \<noteq> CHR 0x0D"
    "''ARC-Message-Signature'' @ x = [] \<or> hd (''ARC-Message-Signature'' @ x) \<noteq> CHR 0x0D" for x by simp_all
  note parts = new_field_parts [OF lines(1) no(1) start(2)] new_field_parts [OF lines(2) no(2) start(1)] new_field_parts [OF lines(3) no(3) assms(2)]
  show "header_of (new_header s content) = new_header s (header_of content)" "body_of (new_header s content) = body_of content"
    unfolding parts by (rule refl)+
qed

text \<open>What the signer does once the set is made.\<close>

lemma Arc_Seal_writes:
  assumes "loaded_header (chain_env env) (message_file d) = h" "domain \<noteq> []" "selector \<noteq> []" "privateKeyFile \<noteq> []" "h \<noteq> []" "seal_key env \<noteq> []"
    "ParseExistingSets (cpage (chain_env env)) h = Some sets" "length sets < 50"
    "NewSet ssl keys env (message_file d) h sets (int (length sets) + 1) (ChainValidation ssl env (message_file d) h sets) domain selector = Some s"
    "faultless te (length (new_header s (message_file d)))"
  shows "Arc_Seal ssl keys env te domain selector privateKeyFile d = TraceReturned True \<lparr>message_file = new_header s (message_file d), temporary_file = None\<rparr>"
proof -
  have order: "map fst sets = [1..int (length sets)]" using ParseExistingSets_order [OF assms(7)] by blast
  have "last (map fst sets) = int (length sets)" if "sets \<noteq> []" unfolding order using that by (cases sets) (simp_all add: upto_rec2)
  then have inst: "(if sets = [] then 1 else fst (last sets) + 1) = int (length sets) + 1" by (simp add: last_map)
  have "\<not> int (length sets) + 1 > MaxArcInstance" using assms(8) by (simp add: MaxArcInstance_def)
  then show ?thesis
    using assms(2-6) faultless_writes [of te "[(''ARC-Seal'', set_seal s), (''ARC-Message-Signature'', set_message_signature s), (''ARC-Authentication-Results'', set_authentication_results s)]" d] assms(10)
    unfolding Arc_Seal_def Let_def assms(1) option.case assms(7) inst assms(9) by simp
qed

lemma ChainValidation_plain: "plain_text (ChainValidation ssl env content h sets)"
proof -
  have "plain_text ''none''" "plain_text ''pass''" "plain_text ''fail''" by code_simp+
  then show ?thesis unfolding ChainValidation_def by simp
qed

text \<open>The last set is the new one, and the others keep what they had.\<close>

lemma new_chain_sealed:
  assumes dns: "same_dns ce ve" and sets: "map fst sets = [1..int (length sets)]" "sets \<noteq> [] \<Longrightarrow> list_all (CvStep (cpage ce)) sets \<and> list_all (sealed_set ssl ce sets) sets"
    and new: "sealed_set ssl ve (sets @ [(int (length sets) + 1, s)]) (int (length sets) + 1, s)" "CvStep (cpage ve) (int (length sets) + 1, s)"
  shows "list_all (CvStep (cpage ve)) (sets @ [(int (length sets) + 1, s)])"
    "list_all (sealed_set ssl ve (sets @ [(int (length sets) + 1, s)])) (sets @ [(int (length sets) + 1, s)])"
proof -
  have cp: "cpage ve = cpage ce" using dns by (simp add: same_dns_def)
  show "list_all (CvStep (cpage ve)) (sets @ [(int (length sets) + 1, s)])" using sets(2) new(2) by (cases "sets = []") (simp_all add: cp)
  have "sealed_set ssl ve (sets @ [(int (length sets) + 1, s)]) (k, t)" if "(k, t) \<in> set sets" for k t
  proof (rule sealed_old [OF dns])
    have "k \<in> set (map fst sets)" using that by force
    then show "k < int (length sets) + 1" unfolding sets(1) by simp
    show "sealed_set ssl ce sets (k, t)" using sets(2) that by (cases "sets = []") (auto simp: list_all_iff)
  qed
  then show "list_all (sealed_set ssl ve (sets @ [(int (length sets) + 1, s)])) (sets @ [(int (length sets) + 1, s)])"
    using new(1) by (auto simp: list_all_iff)
qed

section \<open>What sealing gives\<close>

text \<open>
  C5: A message that the server seals has a valid chain: when the message has no chain, or one that validates with at most nine sets, and the
  signatures could be made and the writer has no fault, \<^verbatim>\<open>Arc::Seal\<close> answers true, and \<^verbatim>\<open>Arc::ValidateChain\<close> on the message it leaves behind answers
  pass, for RSA and Ed25519 keys. The validator sees the code page and the DNS that the sealer saw; From is among the fields that are signed, and no
  read of the message file ends in the empty line after the header.
\<close>

theorem sealed_chain_validates:
  assumes pages: "transparent (cpage (chain_env env)) UNIV" "same_dns (chain_env env) ve"
    and plain: "plain_text domain" "plain_text selector" "domain \<noteq> []" "selector \<noteq> []" "privateKeyFile \<noteq> []" "seal_key env \<noteq> []" "host_ok env"
    and keys: "key_pair ssl keys (seal_key env) p SHA256" "short_digests ssl" "key_published ve selector domain p"
    and h: "header_of (message_file d) = h" "CHR 0x00 \<notin> set h" "h \<noteq> []" "\<not> is_WSP (hd h)" "hd h \<noteq> CHR 0x0D"
      "list_ex (\<lambda>f. MakeLower f = ''from'') (SplitString (snd (CanonicalizeHeader (cpage (chain_env env)) Relaxed h ([], []) GetAmsHeaderFields [])) CHR '':'')"
    and sets: "ParseExistingSets (cpage (chain_env env)) h = Some sets" "length sets < 10"
      "sets = [] \<or> fst (ValidateChainSets ssl (chain_env env) (message_file d) sets h) = ChainPass"
    and new: "NewSet ssl keys env (message_file d) h sets (int (length sets) + 1) (ChainValidation ssl env (message_file d) h sets) domain selector = Some s"
    and reads: "readable (header_reads (chain_env env))" "readable (seal_reads env)" "readable (header_reads ve)" "readable (body_reads ve 0)"
      "empty_line_in_one_read (ReadSize (seal_read_size env)) (message_file d)"
      "empty_line_in_one_read (ReadSize (LoadBodyReadSize ve)) (new_header s (message_file d))"
    and writer: "faultless te (length (new_header s (message_file d)))"
  shows "\<exists>d'. Arc_Seal ssl keys env te domain selector privateKeyFile d = TraceReturned True d' \<and>
    fst (ValidateChain ssl ve (message_file d') (loaded_header ve (message_file d'))) = ChainPass"
proof -
  let ?cp = "cpage (chain_env env)" and ?n = "int (length sets) + 1" and ?new = "new_header s (message_file d)"
  let ?cv = "ChainValidation ssl env (message_file d) h sets"
  have cp: "cpage ve = ?cp" "stable_keys ve" using pages(2) unfolding same_dns_def by blast+
  have loaded: "loaded_header e x = header_of x" if "cpage e = ?cp" "readable (header_reads e)" for e x
    unfolding that(1) using that(2) by (intro LoadHeader_eq transparent_mono [OF pages(1)]) (simp_all add: readable_def)
  have n: "0 \<le> ?n" "?n < 2 ^ 31" using sets(2) by simp_all
  obtain r l where canon: "CanonicalizeHeader ?cp Relaxed h ([], []) GetAmsHeaderFields [] = (r, l)" by fastforce
  define A where "A = signing_algorithm keys (seal_key env) SHA256"
  obtain T BH sig1 sig2 where f: "set_message_signature s = unfolded ((''i'', print_signed ?n) # ams_tags A domain selector T BH l) sig1"
    "set_seal s = unfolded ((''i'', print_signed ?n) # seal_tags A T ?cv domain selector) sig2"
    "plain_text T" "plain_text BH" "BH \<noteq> []" "plain_text l" "plain_text sig1" "plain_text sig2" "sig1 \<noteq> []" "sig2 \<noteq> []" "c_str BH = BH"
    "BH = GenerateHashNoSalt ssl SHA256 (CanonicalizeBody ?cp Relaxed (LoadBody (seal_reads env) (seal_read_size env) (message_file d)))"
    "sig1 = SignHash keys (seal_key env) (r @ RelaxedHeaderLine ''arc-message-signature'' (unfolded ((''i'', print_signed ?n) # ams_tags A domain selector T BH l) [])) SHA256"
    "sig2 = SignHash keys (seal_key env) (concat (map (\<lambda>(k, s). SealLine False s) sets) @
       RelaxedHeaderLine ''arc-authentication-results'' (set_authentication_results s) @ crlf @ RelaxedHeaderLine ''arc-message-signature'' (set_message_signature s) @ crlf @
       RelaxedHeaderLine ''arc-seal'' (unfolded ((''i'', print_signed ?n) # seal_tags A T ?cv domain selector) [])) SHA256"
    and g: "set_lines s" "numbered ?cp ?n (set_seal s)" "numbered ?cp ?n (set_message_signature s)" "numbered ?cp ?n (set_authentication_results s)"
    by (rule NewSet_facts [OF pages(1) h(2) plain(1,2) ChainValidation_plain plain(7) keys(2) n new canon A_def])
  have h': "h = [] \<or> \<not> is_WSP (hd h)" using h(4) by blast
  have start: "message_file d = [] \<or> hd (message_file d) \<noteq> CHR 0x0D"
    by (rule content_start [OF h(1,3,5)])
  note parts = new_message_parts [OF g(1) start, unfolded h(1)]
  note parsed = new_header_sets [OF pages(1) g(1) h' sets(1) _ g(2-4)]
  have order: "map fst sets = [1..int (length sets)]" using ParseExistingSets_order [OF sets(1)] by blast
  then have below: "\<forall>k \<in> set (map fst sets). k < ?n" by simp
  have good: "list_all (CvStep ?cp) sets \<and> list_all (sealed_set ssl (chain_env env) sets) sets" if "sets \<noteq> []"
    using sets(3) that ValidateChainSets_props [of ssl "chain_env env" "message_file d" sets h ChainPass] order by (metis distinct_upto prod.collapse)
  have tr: "transparent (cpage ve) UNIV" unfolding cp(1) by (rule pages(1))
  note sealed = sealed_new [OF tr n(1) below f(3) ChainValidation_plain plain(1,2) f(8,10) plain(3,4) A_def f(2,14) keys(1,3)]
  have "MakeLower ?cv = (if ?n = 1 then ''none'' else ''pass'')" using sets(3) by (auto simp: ChainValidation_def MakeLower_eq tolower_classic_def)
  with sealed(2) have cv: "CvStep (cpage ve) (?n, s)" by blast
  note chain = new_chain_sealed [OF pages(2) order good sealed(1) cv]
  have body: "LoadBody (body_reads ve 0) (LoadBodyReadSize ve) ?new = LoadBody (seal_reads env) (seal_read_size env) (message_file d)"
    using reads(2,4,5,6) parts(2) by (simp add: readable_def LoadBody_eq)
  have hash: "BH = GenerateHashNoSalt ssl SHA256 (CanonicalizeBody (cpage ve) Relaxed (LoadBody (body_reads ve 0) (LoadBodyReadSize ve) ?new))"
    unfolding body cp(1) by (rule f(12))
  have signed: "message_signed ssl ve ?new (new_header s h) (''ARC-Message-Signature'', set_message_signature s)"
    by (rule message_signed_new [OF tr n(1) h(2) h' g(1) canon [folded cp(1)] _ f(3,4,6) plain(1,2) f(7,9) plain(3,4) f(5) A_def f(1,13,11) hash keys(1,3)])
      (use h(6) canon in simp)
  have zero: "CHR 0x00 \<notin> set (set_message_signature s)" unfolding f(1)
  proof (rule unfolded_no_zero [OF _ f(7)])
    show "list_all plain_tag ((''i'', print_signed ?n) # ams_tags A domain selector T BH l)"
      using ams_tags_plain [OF algorithm_plain [of keys "seal_key env" SHA256, folded A_def] plain(1,2) f(3,4,6)] print_signed_plain [of ?n] tag_names(1) by (simp add: list_all_iff)
  qed
  have newest: "NewestSignatureField (cpage ve) (new_header s h) (fst (last (sets @ [(?n, s)]))) = Some (''ARC-Message-Signature'', set_message_signature s)"
    using new_header_newest [OF g(1) h' zero g(3)] by (simp add: cp(1))
  have "fst (ValidateChain ssl ve ?new (new_header s h)) = ChainPass"
    by (rule ValidateChain_stable [OF cp(2) _ _ _ chain newest signed]) (use parsed sets(2) in \<open>simp_all add: cp(1)\<close>)
  moreover have "loaded_header ve ?new = new_header s h" using loaded [OF cp(1) reads(3)] parts(1) by simp
  moreover have "Arc_Seal ssl keys env te domain selector privateKeyFile d = TraceReturned True \<lparr>message_file = ?new, temporary_file = None\<rparr>"
    by (rule Arc_Seal_writes [OF _ plain(3-5) h(3) plain(6) sets(1) _ new writer]) (use loaded [OF refl reads(1)] h(1) sets(2) in simp_all)
  ultimately show ?thesis by simp
qed

text \<open>
  C20: A broken chain stays broken: a message whose chain is parsed but does not validate is sealed too, its new set is added to the
  chain with the mark fail, and from then on no header whose chain holds that set validates, whoever seals it afterwards, whatever the DNS
  answers and whatever keys and digests the library accepts.
\<close>

theorem broken_chain_stays_broken:
  assumes pages: "transparent (cpage (chain_env env)) UNIV" "readable (header_reads (chain_env env))"
    and plain: "plain_text domain" "plain_text selector" "domain \<noteq> []" "selector \<noteq> []" "privateKeyFile \<noteq> []" "seal_key env \<noteq> []" "host_ok env" "short_digests ssl"
    and h: "header_of (message_file d) = h" "CHR 0x00 \<notin> set h" "h \<noteq> []" "\<not> is_WSP (hd h)" "hd h \<noteq> CHR 0x0D"
    and sets: "ParseExistingSets (cpage (chain_env env)) h = Some sets" "sets \<noteq> []" "length sets < 50"
      "fst (ValidateChainSets ssl (chain_env env) (message_file d) sets h) \<noteq> ChainPass"
    and new: "NewSet ssl keys env (message_file d) h sets (int (length sets) + 1) (ChainValidation ssl env (message_file d) h sets) domain selector = Some s"
    and writer: "faultless te (length (new_header s (message_file d)))"
  shows "\<exists>d'. Arc_Seal ssl keys env te domain selector privateKeyFile d = TraceReturned True d' \<and>
    ParseExistingSets (cpage (chain_env env)) (header_of (message_file d')) = Some (sets @ [(int (length sets) + 1, s)]) \<and>
    (\<forall>ssl' ve content header sets'. cpage ve = cpage (chain_env env) \<and> ParseExistingSets (cpage ve) header = Some sets' \<and> (int (length sets) + 1, s) \<in> set sets' \<longrightarrow>
       fst (ValidateChain ssl' ve content header) = ChainFail)"
proof -
  let ?cp = "cpage (chain_env env)" and ?n = "int (length sets) + 1"
  have cv: "ChainValidation ssl env (message_file d) h sets = ''fail''" using sets(2,4) by (simp add: ChainValidation_def)
  have n: "0 \<le> ?n" "?n < 2 ^ 31" "?n \<noteq> 1" using sets(2,3) by simp_all
  obtain r l where canon: "CanonicalizeHeader ?cp Relaxed h ([], []) GetAmsHeaderFields [] = (r, l)" by fastforce
  define A where "A = signing_algorithm keys (seal_key env) SHA256"
  obtain T sig where f: "set_seal s = unfolded ((''i'', print_signed ?n) # seal_tags A T ''fail'' domain selector) sig" "plain_text T" "plain_text sig" "sig \<noteq> []"
    and g: "set_lines s" "numbered ?cp ?n (set_seal s)" "numbered ?cp ?n (set_message_signature s)" "numbered ?cp ?n (set_authentication_results s)"
    using NewSet_facts [OF pages(1) h(2) plain(1,2) ChainValidation_plain plain(7,8) n(1,2) new canon A_def, unfolded cv] by metis
  have fail: "plain_text ''fail''" by code_simp
  have "list_all (\<lambda>t. plain_tag t \<and> fst t \<noteq> ''i'') (seal_tags A T ''fail'' domain selector)"
    using seal_tags_plain [OF algorithm_plain [of keys "seal_key env" SHA256, folded A_def] f(2) fail plain(1,2)] by (simp add: list_all_iff)
  from numbered_tags [OF pages(1) n(1) this f(3,4), folded f(1)] have "GetParam (DKIMParameters_Load ?cp (set_seal s)) ''cv'' = ''fail''"
    by (simp add: seal_tags_def GetParam_def update_conv')
  then have bad: "\<not> CvStep ?cp (?n, s)" using n(3) by (simp add: CvStep_def MakeLower_eq tolower_classic_def)
  have "fst (ValidateChain ssl' ve content header) = ChainFail"
    if "cpage ve = ?cp" "ParseExistingSets (cpage ve) header = Some sets'" "(?n, s) \<in> set sets'" for ssl' :: "'c OpenSSL" and ve content header sets'
  proof -
    have "\<not> list_all (CvStep (cpage ve)) sets'" using that bad by (auto simp: list_all_iff)
    then show ?thesis using that(2) by (simp add: ValidateChain_def ValidateChainSets_def)
  qed
  moreover have "loaded_header (chain_env env) (message_file d) = h"
    unfolding h(1) [symmetric] using pages(2) by (intro LoadHeader_eq transparent_mono [OF pages(1)]) (simp_all add: readable_def)
  note Arc_Seal_writes [OF this plain(3-5) h(3) plain(6) sets(1,3) new writer]
  moreover have "h = [] \<or> \<not> is_WSP (hd h)" using h(4) by blast
  from new_header_sets [OF pages(1) g(1) this sets(1,3) g(2-4)] new_message_parts(1) [OF g(1) content_start [OF h(1,3,5)], unfolded h(1)]
  have "ParseExistingSets ?cp (header_of (new_header s (message_file d))) = Some (sets @ [(?n, s)])" by simp
  ultimately show ?thesis by auto
qed

section \<open>Examples\<close>

definition example_arc :: ArcEnv where
  "example_arc = \<lparr>chain_env = example_verifier, aar_env = example_verifier, seal_reads = all_reads, seal_read_size = 1000, seal_key = ''K'', seal_time = 7,
     ComputerName = ''Mx''\<rparr>"

definition example_set :: ArcSet where
  "example_set = \<lparr>set_authentication_results = ''i=1; mx; dkim=none; spf=none'',
     set_message_signature = ''i=1; a=rsa-sha256; d=b; s=s; c=relaxed/relaxed; t=7; bh=QQ==; h=From; b=Sw=='',
     set_seal = ''i=1; a=rsa-sha256; t=7; cv=none; d=b; s=s; b=Sw==''\<rparr>"

lemma example_pages: "transparent (cpage (chain_env example_arc)) UNIV" "cpage (chain_env example_arc) = latin"
  by (simp_all add: example_arc_def example_verifier_def example_env_def transparent_latin)

lemma example_dns: "same_dns (chain_env example_arc) example_verifier" "key_published example_verifier ''s'' ''b'' ''QQ==''"
proof -
  show "same_dns (chain_env example_arc) example_verifier" by (simp add: same_dns_def stable_keys_def example_arc_def example_verifier_def example_env_def)
  have "key_answer example_verifier 0 (MakeLower (''s'' @ ''._domainkey.'' @ ''b'')) = \<lparr>lookup_status = ChainPass, public_key = ''QQ==''\<rparr>" by code_simp
  then show "key_published example_verifier ''s'' ''b'' ''QQ==''" unfolding key_published_def by blast
qed

lemma example_readable: "readable (header_reads (chain_env example_arc))" "readable (seal_reads example_arc)" "readable (header_reads example_verifier)" "readable (body_reads example_verifier 0)"
  by (simp_all add: readable_def example_arc_def example_verifier_def example_env_def all_reads_def)

lemma example_keys: "key_pair signing_ssl signing_keys (seal_key example_arc) ''QQ=='' SHA256" "short_digests signing_ssl" "host_ok example_arc"
proof -
  show "host_ok example_arc" by code_simp
qed (simp_all add: key_pair_def key_accepts_def signing_ssl_def signing_keys_def signing_algorithm_def IsEd25519PrivateKey_def short_digests_def)

lemma example_disk_short: "length (message_file example_disk) < 1000"
  by (simp add: example_disk_def crlf_def)

lemma example_results:
  assumes "length content < 1000" "GetSignatureFields (Fields (loaded_header example_verifier content) False) = ([], False)"
  shows "BuildAuthenticationResults signing_ssl example_arc inst content header =
    ''i='' @ print_signed inst @ ''; mx; dkim=none; spf='' @ SpfWord (GetHeaderFieldValue latin header ''received-spf'')"
proof -
  have "DKIM_Verify signing_ssl example_verifier content = (DkimNeutral, [], [])"
    using assms by (simp add: DKIM_Verify_def FileSize_def MaxFileSize_def)
  moreover have "c_str (MakeLower (ComputerName example_arc)) = ''mx''" "aar_env example_arc = example_verifier" by (simp_all add: example_arc_def) code_simp
  ultimately show ?thesis by (simp add: BuildAuthenticationResults_def example_pages)
qed

lemma example_signature: "SignHash signing_keys (seal_key example_arc) data SHA256 = ''Sw==''" "\<not> IsEd25519PrivateKey signing_keys (seal_key example_arc)"
  "GenerateHashNoSalt signing_ssl SHA256 data = ''QQ==''" "print_signed (sint (seal_time example_arc)) = ''7''"
proof -
  have code: "Base64_Encode ''K'' = ''Sw==''" by code_simp
  show "SignHash signing_keys (seal_key example_arc) data SHA256 = ''Sw==''" by (simp add: SignHash_def signing_keys_def code)
  show "\<not> IsEd25519PrivateKey signing_keys (seal_key example_arc)" by (simp add: IsEd25519PrivateKey_def signing_keys_def)
  show "GenerateHashNoSalt signing_ssl SHA256 data = ''QQ==''" by (simp add: GenerateHashNoSalt_def signing_ssl_def) code_simp
  show "print_signed (sint (seal_time example_arc)) = ''7''" by code_simp
qed

lemma example_new_set:
  assumes "BuildAuthenticationResults signing_ssl example_arc n content h = aar" "CanonicalizeHeader latin Relaxed h ([], []) GetAmsHeaderFields [] = (r, ''From'')"
  shows "NewSet signing_ssl signing_keys example_arc content h sets n cv ''b'' ''s'' =
    Some \<lparr>set_authentication_results = aar, set_message_signature = AmsValue n ''rsa-sha256'' ''b'' ''s'' ''7'' ''QQ=='' ''From'' @ ''Sw=='',
      set_seal = SealValue n ''rsa-sha256'' ''7'' cv ''b'' ''s'' @ ''Sw==''\<rparr>"
  unfolding NewSet_def Let_def assms(1) example_pages(2) assms(2) case_prod_conv example_signature(1,3,4) using example_signature(2) by simp

theorem sealed_chain_validates_witness:
  "\<exists>d'. Arc_Seal signing_ssl signing_keys example_arc example_trace ''b'' ''s'' ''k.pem'' example_disk = TraceReturned True d' \<and>
    fst (ValidateChain signing_ssl example_verifier (message_file d') (loaded_header example_verifier (message_file d'))) = ChainPass"
proof (rule sealed_chain_validates [OF example_pages(1) example_dns(1), where p = "''QQ==''" and s = example_set and sets = "[]" and h = "''From: a@b'' @ crlf"])
  show "plain_text ''b''" "plain_text ''s''" by code_simp+
  show "seal_key example_arc \<noteq> []" by (simp add: example_arc_def)
  show "header_of (message_file example_disk) = ''From: a@b'' @ crlf" by code_simp
  show "list_ex (\<lambda>f. MakeLower f = ''from'') (SplitString (snd (CanonicalizeHeader (cpage (chain_env example_arc)) Relaxed (''From: a@b'' @ crlf) ([], []) GetAmsHeaderFields [])) CHR '':'')"
    by code_simp
  show "ParseExistingSets (cpage (chain_env example_arc)) (''From: a@b'' @ crlf) = Some []" by code_simp
  have "ChainValidation signing_ssl example_arc (message_file example_disk) (''From: a@b'' @ crlf) [] = ''none''" by (simp add: ChainValidation_def)
  moreover have "NewSet signing_ssl signing_keys example_arc (message_file example_disk) (''From: a@b'' @ crlf) [] 1 ''none'' ''b'' ''s'' = Some example_set"
  proof -
    have "GetSignatureFields (Fields (loaded_header example_verifier (message_file example_disk)) False) = ([], False)" by code_simp
    note aar = example_results [OF example_disk_short this, of 1 "''From: a@b'' @ crlf"]
    have "CanonicalizeHeader latin Relaxed (''From: a@b'' @ crlf) ([], []) GetAmsHeaderFields [] = (''from:a@b'' @ crlf, ''From'')" by code_simp
    from example_new_set [OF aar this, of "[]" "''none''"] show ?thesis by (rule trans) code_simp
  qed
  ultimately show "NewSet signing_ssl signing_keys example_arc (message_file example_disk) (''From: a@b'' @ crlf) [] (int (length ([] :: ArcSets)) + 1)
      (ChainValidation signing_ssl example_arc (message_file example_disk) (''From: a@b'' @ crlf) []) ''b'' ''s'' = Some example_set" by simp
  show "empty_line_in_one_read (ReadSize (seal_read_size example_arc)) (message_file example_disk)"
    by (rule short_in_one_read) (simp add: example_arc_def example_disk_def ReadSize_def iReadBufferSize_def crlf_def)
  show "empty_line_in_one_read (ReadSize (LoadBodyReadSize example_verifier)) (new_header example_set (message_file example_disk))"
    by (rule short_in_one_read) (simp add: example_verifier_def example_disk_def example_set_def ReadSize_def iReadBufferSize_def crlf_def)
  show "faultless example_trace (length (new_header example_set (message_file example_disk)))"
    by (simp add: faultless_def example_trace_def example_disk_def example_set_def crlf_def)
qed (use example_dns example_readable example_keys in \<open>simp_all add: is_WSP_def crlf_def\<close>)

definition broken_disk :: Disk where
  "broken_disk = \<lparr>message_file = example_chain @ crlf @ ''Hi'', temporary_file = None\<rparr>"

definition broken_set :: ArcSet where
  "broken_set = \<lparr>set_authentication_results = ''i=2; mx; dkim=none; spf=none'',
     set_message_signature = ''i=2; a=rsa-sha256; d=b; s=s; c=relaxed/relaxed; t=7; bh=QQ==; h=From; b=Sw=='',
     set_seal = ''i=2; a=rsa-sha256; t=7; cv=fail; d=b; s=s; b=Sw==''\<rparr>"

theorem broken_chain_stays_broken_witness:
  "\<exists>d'. Arc_Seal signing_ssl signing_keys example_arc example_trace ''b'' ''s'' ''k.pem'' broken_disk = TraceReturned True d' \<and>
    fst (ValidateChain toy_ssl example_verifier (message_file d') (header_of (message_file d'))) = ChainFail"
proof -
  have h: "header_of (message_file broken_disk) = example_chain" by code_simp
  have parsed: "ParseExistingSets (cpage (chain_env example_arc)) example_chain = Some example_sets"
    using example_parsed by (simp add: example_pages(2)) (simp add: example_env_def)
  have len: "length example_sets = 1" by (simp add: example_sets_def)
  have invalid: "fst (ValidateChainSets signing_ssl (chain_env example_arc) (message_file broken_disk) example_sets example_chain) \<noteq> ChainPass" by code_simp
  have short: "length (message_file broken_disk) < 1000" by (simp add: broken_disk_def example_chain_def crlf_def)
  have "GetSignatureFields (Fields (loaded_header example_verifier (message_file broken_disk)) False) = ([], False)" by code_simp
  note aar = example_results [OF short this, of 2 example_chain]
  have "CanonicalizeHeader latin Relaxed example_chain ([], []) GetAmsHeaderFields [] = (''from:a@b'' @ crlf, ''From'')" by code_simp
  from example_new_set [OF aar this, of example_sets "''fail''"]
  have "NewSet signing_ssl signing_keys example_arc (message_file broken_disk) example_chain example_sets 2 ''fail'' ''b'' ''s'' = Some broken_set"
    by (rule trans) code_simp
  then have new: "NewSet signing_ssl signing_keys example_arc (message_file broken_disk) example_chain example_sets (int (length example_sets) + 1)
      (ChainValidation signing_ssl example_arc (message_file broken_disk) example_chain example_sets) ''b'' ''s'' = Some broken_set"
    using invalid len by (simp add: ChainValidation_def) (auto simp: example_sets_def)
  have plain: "plain_text ''b''" "plain_text ''s''" by code_simp+
  have chars: "CHR 0x00 \<notin> set example_chain" "example_chain \<noteq> []" "\<not> is_WSP (hd example_chain)" "hd example_chain \<noteq> CHR 0x0D"
    by (simp_all add: example_chain_def is_WSP_def crlf_def)
  have writer: "faultless example_trace (length (new_header broken_set (message_file broken_disk)))"
    by (simp add: faultless_def example_trace_def broken_disk_def broken_set_def example_chain_def crlf_def)
  have rest: "''b'' \<noteq> []" "''s'' \<noteq> []" "''k.pem'' \<noteq> []" "seal_key example_arc \<noteq> []" "example_sets \<noteq> []" "length example_sets < 50"
    by (simp_all add: example_arc_def example_sets_def)
  from broken_chain_stays_broken [OF example_pages(1) example_readable(1) plain rest(1-4) example_keys(3,2) h chars parsed rest(5,6) invalid new writer]
  obtain d' where d': "Arc_Seal signing_ssl signing_keys example_arc example_trace ''b'' ''s'' ''k.pem'' broken_disk = TraceReturned True d'"
    "ParseExistingSets (cpage (chain_env example_arc)) (header_of (message_file d')) = Some (example_sets @ [(int (length example_sets) + 1, broken_set)])"
    "\<forall>(ssl' :: unit OpenSSL) ve content header sets'. cpage ve = cpage (chain_env example_arc) \<and> ParseExistingSets (cpage ve) header = Some sets' \<and>
       (int (length example_sets) + 1, broken_set) \<in> set sets' \<longrightarrow> fst (ValidateChain ssl' ve content header) = ChainFail"
    by blast
  have cp: "cpage example_verifier = cpage (chain_env example_arc)" by (simp add: example_arc_def)
  have "fst (ValidateChain toy_ssl example_verifier (message_file d') (header_of (message_file d'))) = ChainFail"
    using d'(3) [rule_format, of example_verifier "header_of (message_file d')" "example_sets @ [(int (length example_sets) + 1, broken_set)]" toy_ssl] d'(2) by (simp add: cp)
  with d'(1) show ?thesis by blast
qed

end
