(* ===== verification/DNSResolver.thy ===== *)
theory DNSResolver
  imports SPF_Service
begin

text \<open>
  The server's resolver: \<^verbatim>\<open>DNSResolver\<close> (Common/TCPIP/DNSResolver.cpp) over the Windows DNS client of
  \<^verbatim>\<open>DNSResolverWinApi\<close> (Common/TCPIP/DNSResolverWinApi.cpp, the branch that is not POSIX). What
  \<open>DnsQueryEx\<close> gives, the validating resolver \<^verbatim>\<open>DnssecResolver::QueryTxt\<close>, the setting that switches it on
  and \<^verbatim>\<open>std::sort\<close>, which may put records of equal preference in any order, are arguments
  (\<open>ResolverEnv\<close>). The lookup of addresses, of the servers of a domain and of reverse names is not here.
  Every operation that appends to a vector of its caller takes and returns that vector; what is written
  to the log is left out. The last part bounds what an SPF check asks of the client: the record query of
  \<^verbatim>\<open>SPFDnsResolver\<close> is \<open>GetRecordsOfType\<close>, which may follow aliases and ask again over TCP.
\<close>

section \<open>The DNS client\<close>

definition DNS_TYPE_CNAME :: nat where "DNS_TYPE_CNAME = 0x0005"
definition DNS_ERROR_RCODE_NAME_ERROR :: int where "DNS_ERROR_RCODE_NAME_ERROR = 9003"
definition DNS_INFO_NO_RECORDS :: int where "DNS_INFO_NO_RECORDS = 9501"
definition DNS_ERROR_BAD_PACKET :: int where "DNS_ERROR_BAD_PACKET = 9502"
definition ERROR_INVALID_NAME :: int where "ERROR_INVALID_NAME = 123"
definition WAIT_TIMEOUT :: int where "WAIT_TIMEOUT = 258"

record DNSRecord =
  dns_value :: AnsiString
  dns_record_type :: nat
  dns_preference :: int

text \<open>
  A record of the client: the owner name and the data of its type. An address is its text, or \<open>None\<close>
  where it cannot be written; an exchange carries whether it is of the answer section.
\<close>

datatype ClientData =
    DataA "AnsiString option"
  | DataAAAA "AnsiString option"
  | DataCNAME AnsiString
  | DataMX bool AnsiString int
  | DataTXT "AnsiString list"
  | DataPTR AnsiString
  | DataOther nat

fun wType :: "ClientData \<Rightarrow> nat" where
  "wType (DataA a) = RESOURCE_TYPE_A"
| "wType (DataAAAA a) = RESOURCE_TYPE_AAAA"
| "wType (DataCNAME n) = DNS_TYPE_CNAME"
| "wType (DataMX answer n p) = RESOURCE_TYPE_MX"
| "wType (DataTXT ts) = RESOURCE_TYPE_TEXT"
| "wType (DataPTR n) = RESOURCE_TYPE_PTR"
| "wType (DataOther t) = t"

record ClientRecord =
  pName :: AnsiString
  client_data :: ClientData

text \<open>No event for the completion could be made; the wait ran out; or a status and the records.\<close>

datatype ClientAnswer = NoEvent | TimedOut | Completed int "ClientRecord list"

datatype ChainStatus = Secure | Insecure | Bogus

record 'w ResolverEnv =
  DnsQueryEx :: "bool \<Rightarrow> nat \<Rightarrow> AnsiString \<Rightarrow> 'w \<Rightarrow> ClientAnswer \<times> 'w"
  std_sort :: "DNSRecord list \<Rightarrow> DNSRecord list"
  DnssecValidationEnabled :: bool
  QueryTxt :: "AnsiString \<Rightarrow> 'w \<Rightarrow> ChainStatus \<times> AnsiString list \<times> 'w"

definition IsDNSError :: "int \<Rightarrow> bool" where
  "IsDNSError iErrorMessage \<longleftrightarrow>
     \<not> (iErrorMessage = DNS_ERROR_RCODE_NAME_ERROR \<or> iErrorMessage = ERROR_INVALID_NAME \<or>
        iErrorMessage = DNS_INFO_NO_RECORDS)"

definition OwnerName :: "ClientRecord \<Rightarrow> AnsiString" where
  "OwnerName r =
     (let name = pName r
      in if wType (client_data r) = RESOURCE_TYPE_PTR \<and> name \<noteq> [] \<and> last name = CHR ''.'' then butlast name else name)"

fun FoundRecord :: "ClientData \<Rightarrow> DNSRecord list" where
  "FoundRecord (DataA (Some a)) = [\<lparr> dns_value = a, dns_record_type = RESOURCE_TYPE_A, dns_preference = 0 \<rparr>]"
| "FoundRecord (DataAAAA (Some a)) = [\<lparr> dns_value = a, dns_record_type = RESOURCE_TYPE_AAAA, dns_preference = 0 \<rparr>]"
| "FoundRecord (DataCNAME n) = [\<lparr> dns_value = n, dns_record_type = DNS_TYPE_CNAME, dns_preference = 0 \<rparr>]"
| "FoundRecord (DataMX answer n p) =
     (if answer then [\<lparr> dns_value = n, dns_record_type = RESOURCE_TYPE_MX, dns_preference = p \<rparr>] else [])"
| "FoundRecord (DataTXT ts) = [\<lparr> dns_value = concat ts, dns_record_type = RESOURCE_TYPE_TEXT, dns_preference = 0 \<rparr>]"
| "FoundRecord (DataPTR n) = [\<lparr> dns_value = n, dns_record_type = RESOURCE_TYPE_PTR, dns_preference = 0 \<rparr>]"
| "FoundRecord _ = []"

fun CollectRecords :: "AnsiString \<Rightarrow> nat \<Rightarrow> ClientRecord list \<Rightarrow> DNSRecord list \<Rightarrow> DNSRecord list" where
  "CollectRecords query resourceType [] foundRecords = foundRecords"
| "CollectRecords query resourceType (r # rs) foundRecords =
     CollectRecords query resourceType rs
       (if wType (client_data r) = resourceType \<and> CompareNoCase query (OwnerName r) = 0
        then foundRecords @ FoundRecord (client_data r) else foundRecords)"

text \<open>\<open>RunQuery_\<close>: whether it worked, the vector and the status. The flag is the one for TCP only.\<close>

definition RunQuery ::
  "'w ResolverEnv \<Rightarrow> bool \<Rightarrow> AnsiString \<Rightarrow> nat \<Rightarrow> DNSRecord list \<Rightarrow> 'w \<Rightarrow> bool \<times> DNSRecord list \<times> int \<times> 'w" where
  "RunQuery env tcp query resourceType foundRecords w =
     (case DnsQueryEx env tcp resourceType query w of
        (NoEvent, w) \<Rightarrow> (False, foundRecords, 0, w)
      | (TimedOut, w) \<Rightarrow> (False, foundRecords, WAIT_TIMEOUT, w)
      | (Completed status rs, w) \<Rightarrow>
          if status \<noteq> 0 then (\<not> IsDNSError status, foundRecords, status, w)
          else (True, std_sort env (CollectRecords query resourceType rs foundRecords), 0, w))"

definition Query ::
  "'w ResolverEnv \<Rightarrow> AnsiString \<Rightarrow> nat \<Rightarrow> DNSRecord list \<Rightarrow> 'w \<Rightarrow> bool \<times> DNSRecord list \<times> int \<times> 'w" where
  "Query env query resourceType foundRecords w =
     (let (ok, foundRecords, dnsStatus, w) = RunQuery env False query resourceType foundRecords w
      in if ok then (True, foundRecords, dnsStatus, w)
         else if dnsStatus = DNS_ERROR_BAD_PACKET then RunQuery env True query resourceType foundRecords w
         else (False, foundRecords, dnsStatus, w))"

section \<open>The resolver\<close>

definition GetDnsRecordsValues :: "DNSRecord list \<Rightarrow> AnsiString list" where
  "GetDnsRecordsValues records = map dns_value records"

text \<open>The result, and the \<open>texts\<close>, \<open>answered\<close> and \<open>bogus\<close> of its caller.\<close>

definition TryValidatedTxtRecords ::
  "'w ResolverEnv \<Rightarrow> AnsiString \<Rightarrow> 'w \<Rightarrow> bool \<times> AnsiString list \<times> bool \<times> bool \<times> 'w" where
  "TryValidatedTxtRecords env sDomain w =
     (if \<not> DnssecValidationEnabled env \<or> sDomain = [] then (False, [], False, False, w)
      else case QueryTxt env sDomain w of
             (Bogus, texts, w) \<Rightarrow> (True, texts, False, True, w)
           | (Secure, texts, w) \<Rightarrow> (True, texts, True, False, w)
           | (Insecure, texts, w) \<Rightarrow> (False, texts, False, False, w))"

function GetRecordsOfTypeRecursive ::
  "'w ResolverEnv \<Rightarrow> nat \<Rightarrow> AnsiString \<Rightarrow> DNSRecord list \<Rightarrow> nat \<Rightarrow> 'w \<Rightarrow> bool \<times> DNSRecord list \<times> 'w" where
  "GetRecordsOfTypeRecursive env resourceType query records recursionLevel w =
     (if query = [] then (False, records, w)
      else if recursionLevel > 10 then (False, records, w)
      else
        let (result, records, _, w) = Query env query resourceType records w
        in if records = []
           then
             let (cnameQueryResult, foundCNames, _, w) = Query env query DNS_TYPE_CNAME [] w
             in if cnameQueryResult \<and> length foundCNames = 1
                then GetRecordsOfTypeRecursive env resourceType (dns_value (foundCNames ! 0)) records (recursionLevel + 1) w
                else (result, records, w)
           else (result, records, w))"
  by pat_completeness auto
termination by (relation "measure (\<lambda>(env, ty, q, rs, level, w). 11 - level)") auto

declare GetRecordsOfTypeRecursive.simps [simp del]

definition GetTXTRecordsRecursive :: "'w ResolverEnv \<Rightarrow> AnsiString \<Rightarrow> nat \<Rightarrow> 'w \<Rightarrow> bool \<times> AnsiString list \<times> 'w" where
  "GetTXTRecordsRecursive env sDomain recursionLevel w =
     (let (result, records, w) = GetRecordsOfTypeRecursive env RESOURCE_TYPE_TEXT sDomain [] recursionLevel w
      in (result, GetDnsRecordsValues records, w))"

definition DNSResolver_GetTXTRecords ::
  "'w ResolverEnv \<Rightarrow> AnsiString \<Rightarrow> AnsiString list \<Rightarrow> 'w \<Rightarrow> bool \<times> AnsiString list \<times> 'w" where
  "DNSResolver_GetTXTRecords env sDomain foundResult w =
     (let (tried, texts, answered, bogus, w) = TryValidatedTxtRecords env sDomain w
      in if tried \<and> bogus then (False, foundResult, w)
         else if tried \<and> answered then (True, foundResult @ texts, w)
         else GetTXTRecordsRecursive env sDomain 0 w)"

definition GetRecordsOfType :: "'w ResolverEnv \<Rightarrow> AnsiString \<Rightarrow> nat \<Rightarrow> 'w \<Rightarrow> bool \<times> AnsiString list \<times> 'w" where
  "GetRecordsOfType env query resourceType w =
     (let (tried, texts, answered, bogus, w) =
            if resourceType = RESOURCE_TYPE_TEXT then TryValidatedTxtRecords env query w else (False, [], False, False, w)
      in if tried \<and> bogus then (False, [], w)
         else if tried \<and> answered then (True, texts, w)
         else let (result, records, w) = GetRecordsOfTypeRecursive env resourceType query [] 0 w
              in (result, map dns_value records, w))"

text \<open>Whether the name exists, and the \<open>dnsError\<close> of the caller.\<close>

definition DNSResolver_DomainExists :: "'w ResolverEnv \<Rightarrow> AnsiString \<Rightarrow> 'w \<Rightarrow> bool \<times> bool \<times> 'w" where
  "DNSResolver_DomainExists env sDomain w =
     (if sDomain = [] then (False, False, w)
      else
        let (queried, foundRecords, dnsStatus, w) = Query env sDomain RESOURCE_TYPE_A [] w
        in if queried \<and> foundRecords \<noteq> [] then (True, False, w)
           else if dnsStatus = DNS_ERROR_RCODE_NAME_ERROR then (False, False, w)
           else if dnsStatus = DNS_INFO_NO_RECORDS \<or> queried \<and> dnsStatus = 0 then (True, False, w)
           else (False, True, w))"

function GetMXRecordsRecursive ::
  "'w ResolverEnv \<Rightarrow> AnsiString \<Rightarrow> AnsiString list \<Rightarrow> nat \<Rightarrow> 'w \<Rightarrow> bool \<times> AnsiString list \<times> 'w" where
  "GetMXRecordsRecursive env sDomain vecFoundNames recursionLevel w =
     (if sDomain = [] then (False, vecFoundNames, w)
      else if recursionLevel > 10 then (False, vecFoundNames, w)
      else
        let (result, foundMxRecords, _, w) = Query env sDomain RESOURCE_TYPE_MX [] w;
            (cnameQueryResult, foundCNames, _, w) =
              if foundMxRecords = [] then Query env sDomain DNS_TYPE_CNAME [] w else (False, [], 0, w)
        in if cnameQueryResult \<and> length foundCNames = 1
           then GetMXRecordsRecursive env (dns_value (foundCNames ! 0)) vecFoundNames (recursionLevel + 1) w
           else if \<exists>r \<in> set foundMxRecords. dns_value r = ''.'' \<and> dns_preference r = 0 then (False, vecFoundNames, w)
           else (result, GetDnsRecordsValues foundMxRecords, w))"
  by pat_completeness auto
termination by (relation "measure (\<lambda>(env, d, ns, level, w). 11 - level)") auto

declare GetMXRecordsRecursive.simps [simp del]

definition DNSResolver_GetMXRecords ::
  "'w ResolverEnv \<Rightarrow> AnsiString \<Rightarrow> AnsiString list \<Rightarrow> 'w \<Rightarrow> bool \<times> AnsiString list \<times> 'w" where
  "DNSResolver_GetMXRecords env sDomain vecFoundNames w = GetMXRecordsRecursive env sDomain vecFoundNames 0 w"

text \<open>The record query of \<^verbatim>\<open>SPFDnsResolver\<close>: what is in the vector of a lookup that failed is not read.\<close>

definition ServerRecordQuery :: "'w ResolverEnv \<Rightarrow> 'w record_query" where
  "ServerRecordQuery env resourceType w query =
     (let (result, values, w) = GetRecordsOfType env query resourceType w in (if result then Some values else None, w))"

section \<open>What a lookup asks\<close>

text \<open>
  Two meters: one read off the world that no call of the client raises by more than one, and one that
  no validated lookup raises by more than one. A lookup visits at most eleven names, asks two questions
  at each, and asks each at most twice.
\<close>

locale client_meter =
  fixes env :: "'w ResolverEnv" and asked validated :: "'w \<Rightarrow> nat"
  assumes client_asks: "DnsQueryEx env tcp ty q w = (a, w') \<Longrightarrow> asked w' \<le> asked w + 1 \<and> validated w' = validated w"
    and validator_asks: "QueryTxt env q w = (c, ts, w') \<Longrightarrow> asked w' = asked w \<and> validated w' \<le> validated w + 1"
begin

lemma RunQuery_asks:
  "RunQuery env tcp q ty rs w = (ok, rs', s, w') \<Longrightarrow> asked w' \<le> asked w + 1 \<and> validated w' = validated w"
  using client_asks
  by (fastforce simp: RunQuery_def split: prod.splits ClientAnswer.splits if_splits)

lemma Query_asks:
  assumes "Query env q ty rs w = (ok, rs', s, w')"
  shows "asked w' \<le> asked w + 2 \<and> validated w' = validated w"
proof -
  obtain ok1 rs1 s1 w1 where r: "RunQuery env False q ty rs w = (ok1, rs1, s1, w1)" by (metis prod_cases4)
  show ?thesis using RunQuery_asks [OF r] assms
    by (auto simp: Query_def r split: if_splits dest!: RunQuery_asks)
qed

lemma GetRecordsOfTypeRecursive_asks:
  "GetRecordsOfTypeRecursive env ty q rs level w = (ok, rs', w') \<Longrightarrow>
   asked w' \<le> asked w + 4 * (11 - level) \<and> validated w' = validated w"
proof (induction "11 - level" arbitrary: q rs level w ok rs' w')
  case 0
  then show ?case by (simp add: GetRecordsOfTypeRecursive.simps [of env] split: if_splits)
next
  case (Suc n)
  obtain ok1 rs1 s1 w1 where one: "Query env q ty rs w = (ok1, rs1, s1, w1)" by (metis prod_cases4)
  obtain ok2 rs2 s2 w2 where two: "Query env q DNS_TYPE_CNAME [] w1 = (ok2, rs2, s2, w2)" by (metis prod_cases4)
  note steps = Query_asks [OF one] Query_asks [OF two]
  show ?case
  proof (cases "q \<noteq> [] \<and> rs1 = [] \<and> ok2 \<and> length rs2 = 1")
    case True
    with Suc.prems one two Suc.hyps(2)
    have this_call: "GetRecordsOfTypeRecursive env ty (dns_value (rs2 ! 0)) [] (level + 1) w2 = (ok, rs', w')"
      by (simp add: GetRecordsOfTypeRecursive.simps [of env ty q] split: if_splits)
    have deeper: "11 - level = Suc (11 - (level + 1))" "n = 11 - (level + 1)" using Suc.hyps(2) by simp_all
    from Suc.hyps(1) [OF deeper(2) this_call] steps show ?thesis unfolding deeper(1) by simp
  next
    case False
    with Suc.prems one two Suc.hyps(2) steps show ?thesis
      by (auto simp: GetRecordsOfTypeRecursive.simps [of env ty q] split: if_splits)
  qed
qed

lemma TryValidatedTxtRecords_asks:
  "TryValidatedTxtRecords env q w = (b, ts, an, bo, w') \<Longrightarrow> asked w' = asked w \<and> validated w' \<le> validated w + 1"
  by (auto simp: TryValidatedTxtRecords_def split: if_splits prod.splits ChainStatus.splits dest!: validator_asks)

lemma GetRecordsOfType_asks:
  assumes "GetRecordsOfType env q ty w = (ok, vs, w')"
  shows "asked w' \<le> asked w + 44 \<and> validated w' \<le> validated w + 1"
proof -
  obtain b ts an bo w1 where tried: "(if ty = RESOURCE_TYPE_TEXT then TryValidatedTxtRecords env q w
    else (False, [], False, False, w)) = (b, ts, an, bo, w1)" by (metis prod_cases5)
  then have "asked w1 = asked w \<and> validated w1 \<le> validated w + 1"
    by (auto split: if_splits dest!: TryValidatedTxtRecords_asks)
  with assms show ?thesis
    by (auto simp: GetRecordsOfType_def tried split: if_splits prod.splits dest!: GetRecordsOfTypeRecursive_asks)
qed

lemma DNSResolver_GetTXTRecords_asks:
  assumes "DNSResolver_GetTXTRecords env q found w = (ok, vs, w')"
  shows "asked w' \<le> asked w + 44 \<and> validated w' \<le> validated w + 1"
proof -
  obtain b ts an bo w1 where tried: "TryValidatedTxtRecords env q w = (b, ts, an, bo, w1)" by (metis prod_cases5)
  from TryValidatedTxtRecords_asks [OF tried] assms show ?thesis
    by (auto simp: DNSResolver_GetTXTRecords_def GetTXTRecordsRecursive_def tried split: if_splits prod.splits
        dest!: GetRecordsOfTypeRecursive_asks)
qed

text \<open>So the calls of the client, counted from any start in lots of forty-four, are a meter of the SPF seam.\<close>

lemma ServerRecordQuery_asks:
  "ServerRecordQuery env ty w q = (ans, w') \<Longrightarrow> asked w' \<le> asked w + 44 \<and> validated w' \<le> validated w + 1"
  by (auto simp: ServerRecordQuery_def split: prod.splits dest!: GetRecordsOfType_asks)

lemma SPFDnsResolver_meter:
  assumes "\<And>ty q w ans w'. ServerRecordQuery env ty w q = (ans, w') \<Longrightarrow> cost w' \<le> cost w + 1"
  shows "query_meter (SPFDnsResolver (ServerRecordQuery env)) cost"
  by unfold_locales
    (auto simp: SPFDnsResolver_def ResolverQuery_def ResolverGetMXRecords_def split: if_splits prod.splits option.splits
      dest!: assms)

lemma asked_meter: "query_meter (SPFDnsResolver (ServerRecordQuery env)) (\<lambda>w. (asked w - start + 43) div 44)"
proof (rule SPFDnsResolver_meter)
  fix ty q w ans w'
  assume "ServerRecordQuery env ty w q = (ans, w')"
  then have "asked w' \<le> asked w + 44" by (simp add: ServerRecordQuery_asks)
  then have "(asked w' - start + 43) div 44 \<le> ((asked w - start + 43) + 44) div 44" by (intro div_le_mono) simp
  also have "\<dots> = (asked w - start + 43) div 44 + 1" by (rule div_add_self2) simp
  finally show "(asked w' - start + 43) div 44 \<le> (asked w - start + 43) div 44 + 1" .
qed

sublocale validated: query_meter "SPFDnsResolver (ServerRecordQuery env)" validated
  by (rule SPFDnsResolver_meter) (auto dest!: ServerRecordQuery_asks)

end

text \<open>A world that counts the calls of the client and the validated lookups.\<close>

record 'w DnsMeter =
  metered_world :: 'w
  dns_asked :: nat
  dns_validated :: nat

definition MeteredEnv :: "'w ResolverEnv \<Rightarrow> 'w DnsMeter ResolverEnv" where
  "MeteredEnv env =
     \<lparr> DnsQueryEx = (\<lambda>tcp ty q m.
         let (a, w) = DnsQueryEx env tcp ty q (metered_world m) in (a, m\<lparr> metered_world := w, dns_asked := dns_asked m + 1 \<rparr>)),
       std_sort = std_sort env,
       DnssecValidationEnabled = DnssecValidationEnabled env,
       QueryTxt = (\<lambda>q m.
         let (c, ts, w) = QueryTxt env q (metered_world m) in (c, ts, m\<lparr> metered_world := w, dns_validated := dns_validated m + 1 \<rparr>)) \<rparr>"

interpretation client: client_meter "MeteredEnv env" dns_asked dns_validated for env :: "'w ResolverEnv"
  by unfold_locales (auto simp: MeteredEnv_def Let_def split: prod.splits)

section \<open>Facts\<close>

text \<open>The three cases the status of a lookup keeps apart.\<close>

lemma absent_name_is_absent:
  "n \<noteq> [] \<Longrightarrow> DnsQueryEx env False RESOURCE_TYPE_A n w = (Completed DNS_ERROR_RCODE_NAME_ERROR rs, w') \<Longrightarrow>
   DNSResolver_DomainExists env n w = (False, False, w')"
  by (simp add: DNSResolver_DomainExists_def Query_def RunQuery_def IsDNSError_def DNS_ERROR_RCODE_NAME_ERROR_def)

lemma empty_name_exists:
  "n \<noteq> [] \<Longrightarrow> DnsQueryEx env False RESOURCE_TYPE_A n w = (Completed DNS_INFO_NO_RECORDS rs, w') \<Longrightarrow>
   DNSResolver_DomainExists env n w = (True, False, w')"
  by (simp add: DNSResolver_DomainExists_def Query_def RunQuery_def IsDNSError_def DNS_ERROR_RCODE_NAME_ERROR_def
      DNS_INFO_NO_RECORDS_def)

lemma timeout_is_an_error:
  "n \<noteq> [] \<Longrightarrow> DnsQueryEx env False RESOURCE_TYPE_A n w = (TimedOut, w') \<Longrightarrow>
   DNSResolver_DomainExists env n w = (False, True, w')"
  by (simp add: DNSResolver_DomainExists_def Query_def RunQuery_def DNS_ERROR_RCODE_NAME_ERROR_def
      DNS_INFO_NO_RECORDS_def DNS_ERROR_BAD_PACKET_def WAIT_TIMEOUT_def)

text \<open>With the validation on, a forged text record is a failed lookup: the client is not asked.\<close>

lemma forged_text_is_refused:
  assumes "DnssecValidationEnabled env" "n \<noteq> []" "QueryTxt env n w = (Bogus, ts, w')"
  shows "ServerRecordQuery env RESOURCE_TYPE_TEXT w n = (None, w')"
    and "DNSResolver_GetTXTRecords env n found w = (False, found, w')"
  using assms
  by (simp_all add: ServerRecordQuery_def GetRecordsOfType_def DNSResolver_GetTXTRecords_def TryValidatedTxtRecords_def)

section \<open>Properties\<close>

text \<open>
  C2: whatever the domains publish and whatever the DNS client answers, aliases and malformed packets
  included, one SPF check calls the system's DNS client at most 5412 times, and asks the validating
  resolver, where it is switched on, for at most 123 names. The check makes at most 123 lookups of
  records, and a lookup visits at most eleven names of a chain of aliases, asks at each for the
  records and for the alias, and asks each question at most twice, the second time over TCP. The
  questions the validating resolver itself sends for a name are not counted.
\<close>

theorem spf_question_bound:
  assumes "SPF_Test (ServerRecordQuery (MeteredEnv env)) hostName now limit ip sender0 helo m = (r, e, m')"
  shows "dns_asked m' \<le> dns_asked m + 5412 \<and> dns_validated m' \<le> dns_validated m + 123"
proof
  from query_meter.SPF_Test_cost [OF client.asked_meter [where start = "dns_asked m"] refl assms]
  have "(dns_asked m' - dns_asked m + 43) div 44 \<le> 123" by simp
  then show "dns_asked m' \<le> dns_asked m + 5412" by linarith
  show "dns_validated m' \<le> dns_validated m + 123" by (rule client.validated.SPF_Test_cost [OF refl assms])
qed

text \<open>A client in which one name is an alias of another, and whose answers over UDP are malformed.\<close>

definition alias_client :: "unit ResolverEnv" where
  "alias_client =
     \<lparr> DnsQueryEx = (\<lambda>tcp ty q w.
         (if ty = DNS_TYPE_CNAME \<and> q = ''a.example'' then Completed 0 [\<lparr> pName = q, client_data = DataCNAME ''b.example'' \<rparr>]
          else if tcp then Completed DNS_INFO_NO_RECORDS [] else Completed DNS_ERROR_BAD_PACKET [], w)),
       std_sort = (\<lambda>rs. rs), DnssecValidationEnabled = True, QueryTxt = (\<lambda>q w. (Insecure, [], w)) \<rparr>"

theorem spf_question_bound_witness:
  "\<exists>r e. SPF_Test (ServerRecordQuery (MeteredEnv alias_client)) ''mx'' 0 2 ''192.0.2.1'' ''bob@a.example'' ''h''
       \<lparr> metered_world = (), dns_asked = 0, dns_validated = 0 \<rparr> =
     (r, e, \<lparr> metered_world = (), dns_asked = 7, dns_validated = 1 \<rparr>) \<and> (7 :: nat) \<le> 0 + 5412 \<and> (1 :: nat) \<le> 0 + 123"
proof -
  let ?t = "SPF_Test (ServerRecordQuery (MeteredEnv alias_client)) ''mx'' 0 2 ''192.0.2.1'' ''bob@a.example'' ''h''
       \<lparr> metered_world = (), dns_asked = 0, dns_validated = 0 \<rparr>"
  have "snd (snd ?t) = \<lparr> metered_world = (), dns_asked = 7, dns_validated = 1 \<rparr>" by code_simp
  then obtain r e where t: "?t = (r, e, \<lparr> metered_world = (), dns_asked = 7, dns_validated = 1 \<rparr>)" by (metis prod.collapse)
  from spf_question_bound [OF t] t show ?thesis by auto
qed

end
