(* ===== verification/Spec2Isabelle.thy ===== *)
theory Spec2Isabelle
  imports SpamProtection AuthenticationResultsWriter Arc_Sealing DNSResolver
begin

text \<open>
  A verification library for the sender authentication and the spam protection of hMailServer, the C++
  mail server under \<^verbatim>\<open>src/hmailserver/source/Server\<close> (paths below are relative to it).

  \<^bold>\<open>The program.\<close> When a client connects and names an envelope sender, \<^verbatim>\<open>SpamProtection\<close> runs the tests before
  transmission, SPF among them, and may greylist a recipient; when the message has arrived it runs the tests after
  transmission, DMARC among them. DMARC reads the From field, finds the policy and the organizational domain in the DNS, and compares
  the From domain with the domains that SPF and DKIM authenticated. The verdicts are collected in an
  \<^verbatim>\<open>AuthenticationResults\<close> object, and the writer puts them on the message as header fields after removing forged ones.

  \<^bold>\<open>Theories and sources.\<close>
  \<^item> \<open>Prelude\<close>: named collections and lemmas on lists, options and characters that all theories share.
  \<^item> \<open>AnsiStrings\<close>: the operations of the string class in Common/Util/StdString.h that are used; \<open>StringParser\<close>:
    Common/Util/Parsing/StringParser.cpp (splitting, the parts of an address); \<open>Formatter\<close>: Common/Util/Strings/Formatter.cpp
    and FormatArgument.cpp; \<open>AddresslistParser\<close>: Common/Util/Parsing/AddresslistParser.cpp.
  \<^item> \<open>SPF_Syntax\<close>, \<open>SPF_Address\<close>, \<open>SPF_Record\<close>, \<open>SPF_Lookup\<close>, \<open>SPF_Locator\<close>, \<open>SPF_Macro\<close>, \<open>SPF_Evaluator\<close>, \<open>SPF_Service\<close>: the files
    of SMTP/SPF with the same names, one definition per function; \<open>SPF_Semantics\<close>: the rules of RFC 7208 as an inductive
    relation \<open>check_host\<close>, and the proof that the evaluator refines them; \<open>DNSResolver\<close>: Common/TCPIP/DNSResolver.cpp and the Windows
    client of DNSResolverWinApi.cpp, which the SPF check asks for records.
  \<^item> \<open>DmarcTreeWalk\<close>, \<open>PublicSuffixList\<close>, \<open>DMARC\<close>: the files of Common/AntiSpam/DMARC with the same names; \<open>DMARC\<close> also holds the
    rules of RFC 9989 as the inductive relation \<open>dmarc_rules\<close>.
  \<^item> \<open>Authentication_Results\<close>, \<open>AuthenticationResultsWriter\<close>: the two files of Common/AntiSpam.
  \<^item> \<open>IPAddress\<close>: Common/TCPIP/IPAddress.cpp; \<open>GreyListing\<close>: SMTP/GreyListing.cpp and Common/Persistence/PersistentGreyList.cpp;
    \<open>SenderLists\<close>: the blocked senders, the white list and their caches.
  \<^item> \<open>MimeCode\<close>, \<open>MimeHeaders\<close>: base64 and quoted-printable of Common/Mime/MimeCode.cpp, the header reader of Common/Mime/Mime.cpp;
    \<open>Canonicalization\<close>, \<open>SignedHeaders\<close>: Common/AntiSpam/DKIM/Canonicalization.cpp and what its two forms promise a
    signer and a verifier; \<open>MessageFiles\<close>: LoadHeader and LoadBody of Common/Persistence/PersistentMessage.cpp.
  \<^item> \<open>DKIM\<close>: the verifier of Common/AntiSpam/DKIM/DKIM.cpp and DKIMParameters.cpp; \<open>DKIM_Signing\<close>: the signer of the same file and
    Common/Util/TraceHeaderWriter.cpp; \<open>DKIM_RoundTrip\<close>: what the verifier reads in the field that the signer builds.
  \<^item> \<open>Arc\<close>: parsing and validating a chain in Common/AntiSpam/DKIM/Arc.cpp; \<open>Arc_Sealing\<close>: \<^verbatim>\<open>Arc::Seal\<close> of the same file, and what the
    validator reads in a message that was sealed.
  \<^item> \<open>SpamTests\<close>: the tests of Common/AntiSpam that rest on these parts and SpamTestRunner.cpp; \<open>SpamProtection\<close>:
    SpamProtection.cpp. This theory holds the properties across components.

  \<^bold>\<open>How the code is modelled.\<close> A class with state is a record, an operation a function that returns the
  changed record; an enumeration is a datatype; an exception, an early return or a failed call is a value. Strings are lists of bytes; wide
  strings are modelled by the bytes of their ASCII content, and where a conversion can change a text it is
  an argument. Sizes and addresses that can wrap are words. A loop over positions is a recursive function with a termination proof, so
  every definition is total. Whatever the code calls outside the files above is an argument: the DNS query (a function of a
  world, so that answers may change over time), the clock, the random source, file system calls, SQL statements and the comparison of
  texts in the database, the configuration, OpenSSL (digests, keys and signatures), the DKIM verifier where a spam test calls it, \<^verbatim>\<open>Charset::Encode\<close>, regular expressions.

  \<^bold>\<open>What is shown.\<close> For SPF: the evaluator gives the result of the rules or a permerror with a limit exceeded, makes at most
  123 lookups, which call the system's DNS client at most 5412 times, never reaches its depth guard, and its counters stay within the limits; parsing and writing of records and addresses are
  inverse; macros expand as specified. For DMARC: the verdict is that of the rules whatever the cache holds, where a name carries one policy record at most; a pass needs an
  authenticated identity under a common name; the tree walk makes at most eight lookups, and its cache is sound under any
  interleaving of the sections under its mutex. For the header fields: stripping removes exactly the fields recognised as the server's own and leaves none that claims its identity in the forms recognised, built
  values hold no foreign line break, and a rewrite leaves the old message or the complete new one under every fault of
  the file system. For greylisting: a retry is let through exactly when the delay has passed, under the conditions of \<open>retry_is_accepted\<close>, and the table stays well formed. For
  the runner: stopping at the threshold keeps the classification. For messages: both transfer encodings are inverted by their decoders; the canonical forms are normal forms; a
  name listed once more than the header has fields of it binds their number; the body read from a file is the text after the first
  empty line unless a read ends there. For DKIM: what the signer writes the verifier accepts, and a domain is reported only when its published
  key accepts the header and the hash of the body. For ARC: a parsed chain is in order; a valid one is sealed set by set, and its newest message
  signature covers From and the body; sealing a message without a chain, or with a valid one, gives a valid chain, and a broken chain stays broken; validating looks up at
  most eleven keys. The properties of this theory follow a verdict from
  the DNS records through SPF, DMARC, the runner and greylisting.

  \<^bold>\<open>Interfaces.\<close> The laws that one component relies on in another are locales, interpreted on the model's own definitions: a DNS that does not
  change (\<open>stable_lookup\<close>, \<open>stable_dmarc\<close>), a metered DNS (\<open>query_meter\<close>, \<open>text_query_meter\<close>, \<open>client_meter\<close>), the recursion of the evaluator
  (\<open>metered_checker\<close>, \<open>faithful_checker\<close> and their kin in \<open>SPF_Evaluator\<close> and \<open>SPF_Semantics\<close>), a cached list (\<open>cached_list\<close>), a
  canonical form of headers (\<open>header_canonicalization\<close>, interpreted on the relaxed and the simple one).

  \<^bold>\<open>Bounds.\<close> The recursion of an SPF check is bounded by \<open>MAXIMUM_DEPTH\<close>, as in the source; \<open>depth_guard_is_dead\<close> shows that the
  bound is never met. The address list parser keeps the source's limit of a million steps, and its lemma asks for a shorter text. The walk's
  cache keeps 10000 entries for 300 seconds. No other function has fuel.

  \<^bold>\<open>Not modelled.\<close> The system's DNS client, the validating resolver DnssecResolver.cpp and the sockets, the lookups of addresses in DNSResolver.cpp, the protocol sessions (SMTP, IMAP, POP3) and the body parts of MIME messages, which are driven by
  sockets and the database; the spam tests over DKIM and ARC verdicts, and the service that calls the signer and the sealer; signature arithmetic, which is OpenSSL's; logging, diagnostics counters and performance
  counters; administration interfaces; generated tables such as PublicSuffixListData.h, which are an argument; tester classes.
\<close>

section \<open>Properties across components\<close>

text \<open>
  C7: What a pass of the DMARC test means, down to the records: the message has one From field at most, and
  either the rules of RFC 7208 give pass for the client, the envelope sender and the HELO name over the published
  records, and the domain of the envelope sender is the From domain or shares an ancestor name with it, or a
  domain of which the DKIM verifier accepted a signature is or does.
\<close>

theorem dmarc_pass_is_authenticated:
  assumes "record_query env = TableQuery table"
    and "cache_reachable (dmarc_txt (dmarc_env env)) (tree_walk_cache st)"
    and "r \<in> set (fst (SpamTestDMARC_RunTest env d st))" "test_outcome r = OutcomePass"
  shows "\<exists>m. message_data d = Some m \<and> GetFieldOccurrenceCount ''From'' m \<le> 1 \<and>
    ((\<exists>c. TryParse (address_text env (OriginatingIP d)) = Some c \<and>
        check_host (TableView table) (spf_subject (host_name env) (unix_time env) c (EnvelopeFrom d) (HeloHost d))
          (GetCheckedDomain (EnvelopeFrom d) (HeloHost d)) Pass \<and>
        common_ancestor (ExtractDomain (EnvelopeFrom d)) (FromDomain env m)) \<or>
     (\<exists>w. \<exists>dom \<in> set (fst (fst (dkim_verify env w))). common_ancestor dom (FromDomain env m)))"
proof -
  have spf: "\<exists>c. TryParse (address_text env (OriginatingIP d)) = Some c \<and>
      check_host (TableView table) (spf_subject (host_name env) (unix_time env) c (EnvelopeFrom d) (HeloHost d))
        (GetCheckedDomain (EnvelopeFrom d) (HeloHost d)) Pass" if "fst (DmarcSpfPassed env d w)" for w
  proof -
    obtain v e w' where "RunSPF env d w = (v, e, w')" by (metis surj_pair)
    with that have "RunSPF env d w = (Pass, e, w')" by (auto simp: DmarcSpfPassed_def split: if_splits)
    then show ?thesis unfolding RunSPF_def assms(1) by (rule SPF_Test_pass)
  qed
  from SpamTestDMARC_pass [OF assms(2-4)] obtain m where m: "message_data d = Some m" "GetFieldOccurrenceCount ''From'' m \<le> 1"
    and auth: "fst (DmarcSpfPassed env d (dns_world st)) \<and> common_ancestor (ExtractDomain (EnvelopeFrom d)) (FromDomain env m) \<or>
     (\<exists>w. \<exists>dom \<in> set (fst (fst (dkim_verify env w))). common_ancestor dom (FromDomain env m))" by blast
  from auth spf [of "dns_world st"] m show ?thesis by blast
qed

theorem dmarc_pass_is_authenticated_witness:
  "\<exists>m. message_data (sample_message [(''From'', ''<ceo@news.bank.example>'')]) = Some m \<and> GetFieldOccurrenceCount ''From'' m \<le> 1 \<and>
    ((\<exists>c. TryParse ''192.0.2.1'' = Some c \<and>
        check_host (TableView sample_zone) (spf_subject ''mx.test'' 0 c ''bob@bank.example'' ''mx.bank.example'')
          (GetCheckedDomain ''bob@bank.example'' ''mx.bank.example'') Pass \<and>
        common_ancestor (ExtractDomain ''bob@bank.example'') (FromDomain sample_env m)) \<or>
     (\<exists>w. \<exists>dom \<in> set (fst (fst (dkim_verify sample_env w))). common_ancestor dom (FromDomain sample_env m)))"
proof -
  let ?d = "sample_message [(''From'', ''<ceo@news.bank.example>'')]"
  have "list_ex (\<lambda>r. test_outcome r = OutcomePass) (fst (SpamTestDMARC_RunTest sample_env ?d sample_state))" by code_simp
  then obtain r where r: "r \<in> set (fst (SpamTestDMARC_RunTest sample_env ?d sample_state))" "test_outcome r = OutcomePass"
    by (auto simp: list_ex_iff)
  have "record_query sample_env = TableQuery sample_zone" "cache_reachable (dmarc_txt (dmarc_env sample_env)) (tree_walk_cache sample_state)"
    by (simp_all add: sample_env_def sample_state_def reach_empty)
  from dmarc_pass_is_authenticated [OF this r] show ?thesis
    by (simp add: sample_env_def sample_message_def sample_data_def)
qed

text \<open>
  C35: A sender whose SPF check passes is never greylisted where the bypass is configured and no score threshold
  stops the round of tests early: the recipient is accepted, and neither the table of triplets nor the white list is
  touched, whatever the other tests of the round answer.
\<close>

theorem spf_pass_is_not_delayed:
  assumes "BypassGreyListingOnSPFSuccess env" "maxScore env \<le> 0"
    and "SpamTestSPF True senv \<in> set tests" "\<not> IsAny ip"
    and "\<And>w. fst (SPF_Test (record_query senv) (host_name senv) (unix_time senv) (void_lookup_limit senv)
           (address_text senv ip) sender0 helo w) = Pass"
  shows "PerformGreyListing env sender0 (fst (RunPreTransmissionTests env tests sender0 ip helo st)) to0 ip (grey, w) = (True, grey, w)"
proof -
  let ?d = "\<lparr> EnvelopeFrom = sender0, HeloHost = helo, OriginatingIP = ip, message_data = None \<rparr>"
  have "GetIsEnabled (SpamTestSPF True senv)" "GetTestType (SpamTestSPF True senv) = PreTransmission"
    by (simp_all add: SpamTestSPF_def)
  from RunSpamTestLoop_runs_all [OF assms(2,3) this, of ?d 0 "[]" st] obtain s where
    s: "set (fst (SpamTestSPF_RunTest senv ?d s)) \<subseteq> set (fst (RunPreTransmissionTests env tests sender0 ip helo st))"
    by (auto simp: RunPreTransmissionTests_def RunSpamTest_def SpamTestSPF_def)
  have "SpfTestPassed (fst (SpamTestSPF_RunTest senv ?d s))"
    using assms(4,5) by (intro SpamTestSPF_passes) (simp_all add: RunSPF_def)
  with s have "SpfTestPassed (fst (RunPreTransmissionTests env tests sender0 ip helo st))"
    by (auto simp: SpfTestPassed_def list_ex_iff)
  with assms(1) show ?thesis by (simp add: PerformGreyListing_def)
qed

definition sample_protection :: "unit ProtectionEnv" where
  "sample_protection =
     \<lparr> SpamDeleteThreshold = 0, SpamMarkThreshold = 0, AntiSpamMaxSizeKB = 0, UseGreyListing = True,
       domain_grey_listing = (\<lambda>d. None), BypassGreyListingOnSPFSuccess = True, BypassGreyListingOnMailFromMX = False,
       found_addresses = (\<lambda>w d. ([], w)), mail_servers = (\<lambda>w d. ([], w)), ip_text = (\<lambda>a. ''192.0.2.1''),
       wildcard_match = (\<lambda>p t. p = t), white_list_load = None, grey_config = sample_grey, grey_faults = no_faults,
       current_time = 0 \<rparr>"

definition open_zone :: "nat \<Rightarrow> AnsiString \<Rightarrow> AnsiString list option" where
  "open_zone t n = Some (if t = RESOURCE_TYPE_TEXT then [''v=spf1 +all''] else [])"

theorem spf_pass_is_not_delayed_witness:
  "PerformGreyListing sample_protection ''bob@bank.example''
     (fst (RunPreTransmissionTests sample_protection [SpamTestSPF True (sample_env\<lparr> record_query := TableQuery open_zone \<rparr>)]
       ''bob@bank.example'' (V4 [192, 0, 2, 1]) ''mx.bank.example'' sample_state))
     ''ceo@example.com'' (V4 [192, 0, 2, 1])
     ((\<lparr> cached_items = [], needRefresh = False \<rparr>, \<lparr> triplets = [] \<rparr>), ()) =
   (True, (\<lparr> cached_items = [], needRefresh = False \<rparr>, \<lparr> triplets = [] \<rparr>), ())"
proof (rule spf_pass_is_not_delayed [where senv = "sample_env\<lparr> record_query := TableQuery open_zone \<rparr>"])
  let ?senv = "sample_env\<lparr> record_query := TableQuery open_zone \<rparr>"
  show "maxScore sample_protection \<le> 0" "BypassGreyListingOnSPFSuccess sample_protection"
    by (simp_all add: maxScore_def sample_protection_def)
  show "\<not> IsAny (V4 [192, 0, 2, 1])" by (simp add: numeral_eq_Suc)
  have "fst (SPF_Test (TableQuery open_zone) ''mx.test'' 0 2 ''192.0.2.1'' ''bob@bank.example'' ''mx.bank.example'' ()) = Pass"
    by code_simp
  then show "fst (SPF_Test (record_query ?senv) (host_name ?senv) (unix_time ?senv) (void_lookup_limit ?senv)
      (address_text ?senv (V4 [192, 0, 2, 1])) ''bob@bank.example'' ''mx.bank.example'' w) = Pass" for w
    by (cases w) (simp add: sample_env_def)
qed simp

end
